(* ===== verification/RC_Prelude.thy ===== *)
theory RC_Prelude
  imports Main "HOL-Library.Word"
begin

text \<open>
  Shared material of the development: the machine types, the fragment of the C and GLib string
  library that the sources call (\<^verbatim>\<open>printf("%d")\<close>, \<^verbatim>\<open>atoi\<close>, \<^verbatim>\<open>strrchr\<close>, \<^verbatim>\<open>g_strsplit\<close>,
  \<^verbatim>\<open>snprintf\<close>), and the interface locale of transition systems with an inductive invariant.

  A C string is the \<^typ>\<open>char list\<close> of its bytes before the terminating NUL.  \<^verbatim>\<open>size_t\<close> values
  are \<^typ>\<open>nat\<close>; \<^verbatim>\<open>int\<close> values (descriptors, ports, milliseconds) are \<^typ>\<open>int\<close>; values whose
  width matters on the wire are words.
\<close>

unbundle bit_operations_syntax

type_synonym byte = "8 word"
type_synonym u16 = "16 word"
type_synonym u32 = "32 word"
type_synonym u64 = "64 word"

named_theorems wire_simps \<open>evaluation of fixed-size wire buffers\<close>
named_theorems rc_defs \<open>straight-line operations that proofs unfold\<close>

section \<open>Decimal printing and parsing\<close>

text \<open>\<^verbatim>\<open>printf("%d", i)\<close>.\<close>

definition digit_char :: "nat \<Rightarrow> char" where
  "digit_char d = char_of (48 + d)"

fun show_nat :: "nat \<Rightarrow> string" where
  "show_nat n = (if n < 10 then [digit_char n] else show_nat (n div 10) @ [digit_char (n mod 10)])"

declare show_nat.simps [simp del]

definition show_int :: "int \<Rightarrow> string" where
  "show_int i = (if i < 0 then CHR ''-'' # show_nat (nat (- i)) else show_nat (nat i))"

text \<open>
  \<^verbatim>\<open>atoi\<close>: skip white space, optional sign, then the longest run of digits; 0 when there is none.
  A value outside \<^verbatim>\<open>int\<close> is undefined behaviour in C; the model returns the mathematical value.
\<close>

definition is_digit :: "char \<Rightarrow> bool" where
  "is_digit c \<longleftrightarrow> 48 \<le> (of_char c :: nat) \<and> (of_char c :: nat) \<le> 57"

definition is_space :: "char \<Rightarrow> bool" where
  "is_space c \<longleftrightarrow> (of_char c :: nat) = 32 \<or> (9 \<le> (of_char c :: nat) \<and> (of_char c :: nat) \<le> 13)"

fun digits_val :: "nat \<Rightarrow> string \<Rightarrow> nat" where
  "digits_val acc [] = acc"
| "digits_val acc (c # cs) =
     (if is_digit c then digits_val (10 * acc + (of_char c - 48)) cs else acc)"

definition atoi :: "string \<Rightarrow> int" where
  "atoi s = (case dropWhile is_space s of
       [] \<Rightarrow> 0
     | c # cs \<Rightarrow> if c = CHR ''-'' then - int (digits_val 0 cs)
                 else if c = CHR ''+'' then int (digits_val 0 cs)
                 else int (digits_val 0 (c # cs)))"

section \<open>String searching and splitting\<close>

text \<open>\<^verbatim>\<open>strrchr(s, c) - s\<close>: the index of the last \<open>c\<close>.\<close>

definition strrchr :: "string \<Rightarrow> char \<Rightarrow> nat option" where
  "strrchr s c =
     (if c \<in> set s then Some (length s - 1 - length (takeWhile (\<lambda>x. x \<noteq> c) (rev s))) else None)"

text \<open>\<^verbatim>\<open>g_strsplit(s, c, 0)\<close>: GLib returns an empty vector for the empty string.\<close>

fun split_on :: "char \<Rightarrow> string \<Rightarrow> string list" where
  "split_on c [] = [[]]"
| "split_on c (x # xs) =
     (if x = c then [] # split_on c xs
      else (case split_on c xs of [] \<Rightarrow> [[x]] | y # ys \<Rightarrow> (x # y) # ys))"

definition g_strsplit :: "string \<Rightarrow> char \<Rightarrow> string list" where
  "g_strsplit s c = (if s = [] then [] else split_on c s)"

text \<open>The string a buffer of \<open>sz\<close> bytes holds after \<^verbatim>\<open>snprintf\<close>/\<^verbatim>\<open>g_strlcpy\<close>.\<close>

definition fit :: "nat \<Rightarrow> string \<Rightarrow> string" where
  "fit sz s = take (sz - 1) s"

definition TAB :: char where "TAB = CHR 0x09"
definition LF :: char where "LF = CHR 0x0A"

section \<open>Lemmas\<close>

lemma of_char_digit_char [simp]: "d < 10 \<Longrightarrow> (of_char (digit_char d) :: nat) = 48 + d"
  by (simp add: digit_char_def of_char_of)

lemma is_digit_digit_char [simp]: "d < 10 \<Longrightarrow> is_digit (digit_char d)"
  by (simp add: is_digit_def)

lemma show_nat_digits: "list_all is_digit (show_nat n)"
proof (induction n rule: show_nat.induct)
  case (1 n)
  then show ?case by (subst show_nat.simps) auto
qed

lemma show_nat_nonempty [simp]: "show_nat n \<noteq> []"
  by (subst show_nat.simps) simp

lemma digits_val_append:
  "list_all is_digit xs \<Longrightarrow> digits_val acc (xs @ ys) = digits_val (digits_val acc xs) ys"
  by (induction xs arbitrary: acc) auto

lemma digits_val_show_nat_acc: "digits_val 0 (show_nat n) = n"
proof (induction n rule: show_nat.induct)
  case (1 n)
  show ?case
  proof (cases "n < 10")
    case True
    then show ?thesis by (subst show_nat.simps) simp
  next
    case False
    with 1 have "digits_val 0 (show_nat (n div 10)) = n div 10" by simp
    with False show ?thesis
      by (subst show_nat.simps) (simp add: digits_val_append show_nat_digits)
  qed
qed

lemma digits_val_stop: "ys = [] \<or> \<not> is_digit (hd ys) \<Longrightarrow> digits_val acc ys = acc"
  by (cases ys) auto

lemma digit_not_special:
  assumes "is_digit c"
  shows "\<not> is_space c" and "c \<noteq> CHR ''-''" and "c \<noteq> CHR ''+''" and "c \<noteq> CHR '':''"
    and "c \<noteq> TAB" and "c \<noteq> LF" and "c \<noteq> CHR '' ''"
  using assms by (auto simp: is_digit_def is_space_def TAB_def LF_def)

lemma atoi_digits:
  assumes "list_all is_digit ds" and "ds \<noteq> []"
  shows "atoi (ds @ ys) = int (digits_val 0 (ds @ ys))"
proof -
  obtain c cs where ds: "ds = c # cs" using assms(2) by (cases ds) auto
  with assms(1) have "is_digit c" by simp
  then show ?thesis by (simp add: atoi_def ds digit_not_special)
qed

lemma atoi_show_int:
  assumes "0 \<le> i" and "ys = [] \<or> \<not> is_digit (hd ys)"
  shows "atoi (show_int i @ ys) = i"
  using assms atoi_digits [OF show_nat_digits show_nat_nonempty, of "nat i" ys]
  by (simp add: show_int_def digits_val_append show_nat_digits digits_val_show_nat_acc
      digits_val_stop)

lemma atoi_show_int_nonneg [simp]: "0 \<le> i \<Longrightarrow> atoi (show_int i) = i"
  using atoi_show_int [of i "[]"] by simp

lemma show_nat_length: "0 < k \<Longrightarrow> n < 10 ^ k \<Longrightarrow> length (show_nat n) \<le> k"
proof (induction k arbitrary: n)
  case 0
  then show ?case by simp
next
  case (Suc k)
  show ?case
  proof (cases "n < 10")
    case True
    then show ?thesis by (subst show_nat.simps) simp
  next
    case False
    with Suc.prems have k: "0 < k" by (cases k) auto
    from Suc.prems have "n div 10 < 10 ^ k" by (simp add: less_mult_imp_div_less mult.commute)
    with k have "length (show_nat (n div 10)) \<le> k" by (rule Suc.IH)
    with False show ?thesis by (subst show_nat.simps) simp
  qed
qed

lemma show_int_chars:
  "c \<in> set (show_int i) \<Longrightarrow> is_digit c \<or> c = CHR ''-''"
  using show_nat_digits by (auto simp: show_int_def list_all_iff split: if_splits)

lemma show_int_no_special:
  "CHR '':'' \<notin> set (show_int i)" "TAB \<notin> set (show_int i)" "LF \<notin> set (show_int i)"
  by (auto dest!: show_int_chars simp: is_digit_def TAB_def LF_def)

lemma strrchr_append: "c \<notin> set ys \<Longrightarrow> strrchr (xs @ c # ys) c = Some (length xs)"
proof -
  assume "c \<notin> set ys"
  then have "takeWhile (\<lambda>x. x \<noteq> c) (rev ys @ c # rev xs) = rev ys"
    by (subst takeWhile_append2) auto
  then show ?thesis by (simp add: strrchr_def)
qed

lemma strrchr_None [simp]: "strrchr s c = None \<longleftrightarrow> c \<notin> set s"
  by (simp add: strrchr_def)

lemma strrchr_Some:
  assumes "strrchr s c = Some n"
  shows "n < length s" and "s ! n = c" and "s = take n s @ c # drop (Suc n) s"
    and "c \<notin> set (drop (Suc n) s)"
proof -
  from assms have "c \<in> set s" by (auto simp: strrchr_def split: if_splits)
  then obtain xs ys where s: "s = xs @ c # ys" "c \<notin> set ys"
    by (metis split_list_last)
  with assms strrchr_append [of c ys xs] have "n = length xs" by simp
  with s show "n < length s" "s ! n = c" "s = take n s @ c # drop (Suc n) s"
    "c \<notin> set (drop (Suc n) s)" by auto
qed

lemma split_on_nonempty [simp]: "split_on c s \<noteq> []"
  by (induction s) (auto split: list.splits)

lemma split_on_none: "c \<notin> set s \<Longrightarrow> split_on c s = [s]"
  by (induction s) auto

lemma split_on_append: "c \<notin> set xs \<Longrightarrow> split_on c (xs @ c # ys) = xs # split_on c ys"
  by (induction xs) auto

lemma take_drop_nonempty: "0 < n \<Longrightarrow> n < length xs \<Longrightarrow> take n xs \<noteq> [] \<and> drop n xs \<noteq> []"
  by auto

lemma fit_id: "length s < sz \<Longrightarrow> fit sz s = s"
  by (simp add: fit_def)

lemma fit_length: "0 < sz \<Longrightarrow> length (fit sz s) < sz"
  by (auto simp: fit_def)

section \<open>Transition systems with an invariant\<close>

inductive reach :: "('s \<Rightarrow> bool) \<Rightarrow> ('s \<Rightarrow> 's \<Rightarrow> bool) \<Rightarrow> 's \<Rightarrow> bool" for start step where
  reach_start: "start s \<Longrightarrow> reach start step s"
| reach_step: "reach start step s \<Longrightarrow> step s t \<Longrightarrow> reach start step t"

text \<open>The contract of a component given by a step relation: its invariant is inductive.\<close>

locale invariant_system =
  fixes start :: "'s \<Rightarrow> bool" and step :: "'s \<Rightarrow> 's \<Rightarrow> bool" and inv :: "'s \<Rightarrow> bool"
  assumes inv_start: "start s \<Longrightarrow> inv s"
    and inv_step: "inv s \<Longrightarrow> step s t \<Longrightarrow> inv t"
begin

lemma reach_inv: "reach start step s \<Longrightarrow> inv s"
  by (induction rule: reach.induct) (auto intro: inv_start inv_step)

lemma steps_inv: "step\<^sup>*\<^sup>* s t \<Longrightarrow> inv s \<Longrightarrow> inv t"
  by (induction rule: rtranclp_induct) (auto intro: inv_step)

end

end
