(* ===== verification/RC_Wire.thy ===== *)
theory RC_Wire
  imports RC_Prelude
begin

text \<open>
  The protocol vocabulary of \<^verbatim>\<open>core/include/rc/rc_client.h\<close> and \<^verbatim>\<open>core/src/rc_internal.h\<close>: status
  codes, configuration enums, wire constants, and the big-endian helpers of \<^verbatim>\<open>demuxer.c\<close>
  (readers) and \<^verbatim>\<open>client.c\<close> (writers).  The lemmas show that the readers invert the writers.
\<close>

section \<open>Status codes\<close>

datatype rc_status =
    RC_OK | RC_ERR_GENERIC | RC_ERR_INVALID_ARG | RC_ERR_NO_DEVICE | RC_ERR_ADB
  | RC_ERR_CONNECT | RC_ERR_PROTOCOL | RC_ERR_DECODE | RC_ERR_NOMEM

fun rc_status_code :: "rc_status \<Rightarrow> int" where
  "rc_status_code RC_OK = 0"
| "rc_status_code RC_ERR_GENERIC = -1"
| "rc_status_code RC_ERR_INVALID_ARG = -2"
| "rc_status_code RC_ERR_NO_DEVICE = -3"
| "rc_status_code RC_ERR_ADB = -4"
| "rc_status_code RC_ERR_CONNECT = -5"
| "rc_status_code RC_ERR_PROTOCOL = -6"
| "rc_status_code RC_ERR_DECODE = -7"
| "rc_status_code RC_ERR_NOMEM = -8"

section \<open>Configuration\<close>

datatype rc_transport = RC_TRANSPORT_USB | RC_TRANSPORT_TCP
datatype rc_codec = RC_CODEC_H264 | RC_CODEC_H265 | RC_CODEC_AV1
datatype rc_acodec = RC_ACODEC_OPUS | RC_ACODEC_AAC | RC_ACODEC_RAW

record rc_config =
  serial :: "string option"
  transport :: rc_transport
  tcp_addr :: "string option"
  tcp_device_port :: int
  max_size :: int
  bit_rate :: int
  max_fps :: int
  codec :: rc_codec
  control :: bool
  audio :: bool
  audio_codec :: rc_acodec

section \<open>Protocol constants\<close>

definition RC_META_MAGIC :: u32 where "RC_META_MAGIC = 0x52434E31"
definition RC_PROTO_VERSION :: u16 where "RC_PROTO_VERSION = 1"
definition RC_CODEC_ID_H264 :: u32 where "RC_CODEC_ID_H264 = 0x68323634"
definition RC_CODEC_ID_H265 :: u32 where "RC_CODEC_ID_H265 = 0x68323635"
definition RC_CODEC_ID_AV1 :: u32 where "RC_CODEC_ID_AV1 = 0x00617631"
definition RC_AUDIO_MAGIC :: u32 where "RC_AUDIO_MAGIC = 0x52434E41"
definition RC_ACODEC_ID_NONE :: u32 where "RC_ACODEC_ID_NONE = 0"
definition RC_ACODEC_ID_OPUS :: u32 where "RC_ACODEC_ID_OPUS = 0x6F707573"
definition RC_DEVICE_NAME_LEN :: nat where "RC_DEVICE_NAME_LEN = 64"
definition RC_PKT_FLAG_CONFIG :: u64 where "RC_PKT_FLAG_CONFIG = push_bit 63 1"
definition RC_PKT_FLAG_KEYFRAME :: u64 where "RC_PKT_FLAG_KEYFRAME = push_bit 62 1"
definition RC_PKT_PTS_MASK :: u64 where "RC_PKT_PTS_MASK = push_bit 62 1 - 1"
definition RC_CTRL_MOUSE_MOTION :: byte where "RC_CTRL_MOUSE_MOTION = 0"
definition RC_CTRL_MOUSE_BUTTON :: byte where "RC_CTRL_MOUSE_BUTTON = 1"
definition RC_CTRL_SCROLL :: byte where "RC_CTRL_SCROLL = 2"
definition RC_CTRL_KEY :: byte where "RC_CTRL_KEY = 3"
definition RC_CTRL_TEXT :: byte where "RC_CTRL_TEXT = 4"
definition RC_CTRL_DEVICE_ACTION :: byte where "RC_CTRL_DEVICE_ACTION = 5"
definition RC_DEFAULT_TCP_PORT :: int where "RC_DEFAULT_TCP_PORT = 27183"
definition RC_LAN_TOKEN_LEN :: nat where "RC_LAN_TOKEN_LEN = 32"
definition RC_ACTION_UP :: byte where "RC_ACTION_UP = 0"
definition RC_ACTION_DOWN :: byte where "RC_ACTION_DOWN = 1"

lemmas wire_consts [wire_simps] =
  RC_META_MAGIC_def RC_PROTO_VERSION_def RC_CODEC_ID_H264_def RC_CODEC_ID_H265_def
  RC_CODEC_ID_AV1_def RC_AUDIO_MAGIC_def RC_ACODEC_ID_NONE_def RC_ACODEC_ID_OPUS_def
  RC_DEVICE_NAME_LEN_def RC_CTRL_MOUSE_MOTION_def RC_CTRL_MOUSE_BUTTON_def RC_CTRL_SCROLL_def
  RC_CTRL_KEY_def RC_CTRL_TEXT_def RC_CTRL_DEVICE_ACTION_def RC_LAN_TOKEN_LEN_def
  RC_ACTION_UP_def RC_ACTION_DOWN_def

section \<open>Big-endian helpers\<close>

text \<open>The readers take the buffer at the pointer they are given: \<^verbatim>\<open>be32(hdr + 6)\<close> is
  \<open>be32 (drop 6 hdr)\<close>.\<close>

definition be16 :: "byte list \<Rightarrow> u16" where
  "be16 p = push_bit 8 (ucast (p ! 0)) OR ucast (p ! 1)"

definition be32 :: "byte list \<Rightarrow> u32" where
  "be32 p = push_bit 24 (ucast (p ! 0)) OR push_bit 16 (ucast (p ! 1))
            OR push_bit 8 (ucast (p ! 2)) OR ucast (p ! 3)"

definition be64 :: "byte list \<Rightarrow> u64" where
  "be64 p = push_bit 32 (ucast (be32 p)) OR ucast (be32 (drop 4 p))"

definition put_u32 :: "u32 \<Rightarrow> byte list" where
  "put_u32 v = [ucast (drop_bit 24 v), ucast (drop_bit 16 v), ucast (drop_bit 8 v), ucast v]"

text \<open>A C \<^verbatim>\<open>float\<close> is represented by its 32-bit pattern, which is what \<^verbatim>\<open>memcpy(&v, &f, 4)\<close> reads.\<close>

type_synonym f32 = "32 word"

definition put_f32 :: "f32 \<Rightarrow> byte list" where
  "put_f32 f = (let v = f in put_u32 v)"

text \<open>Writers of the peer (\<^verbatim>\<open>DesktopConnection.putShort\<close>, the header loop of
  \<^verbatim>\<open>ScreenEncoder.writePacket\<close>).\<close>

definition put_u16 :: "u16 \<Rightarrow> byte list" where
  "put_u16 v = [ucast (drop_bit 8 v), ucast v]"

definition put_u64 :: "u64 \<Rightarrow> byte list" where
  "put_u64 v = map (\<lambda>i. ucast (drop_bit (56 - 8 * i) v)) [0, 1, 2, 3, 4, 5, 6, 7]"

lemma put_lengths [simp]:
  "length (put_u16 a) = 2" "length (put_u32 b) = 4" "length (put_f32 b) = 4"
  "length (put_u64 c) = 8"
  by (simp_all add: put_u16_def put_u32_def put_u64_def put_f32_def)

lemma be16_put_u16 [simp]: "be16 (put_u16 v @ xs) = v"
  by (rule bit_word_eqI) (auto simp: be16_def put_u16_def bit_simps)

lemma be32_put_u32 [simp]: "be32 (put_u32 v @ xs) = v"
proof (rule bit_word_eqI)
  fix n :: nat
  assume "n < LENGTH(32)"
  then consider "n < 8" | "8 \<le> n" "n < 16" | "16 \<le> n" "n < 24" | "24 \<le> n" "n < 32"
    by fastforce
  then show "bit (be32 (put_u32 v @ xs)) n \<longleftrightarrow> bit v n"
    by cases (auto simp: be32_def put_u32_def bit_simps)
qed

lemma put_u64_halves: "put_u64 v = put_u32 (ucast (drop_bit 32 v)) @ put_u32 (ucast v)"
  by (auto simp: put_u64_def put_u32_def intro!: bit_word_eqI) (auto simp: bit_simps)

lemma be64_put_u64 [simp]: "be64 (put_u64 v @ xs) = v"
proof -
  have d: "drop 4 (put_u32 a @ ys) = ys" for a ys by (simp add: put_u32_def)
  have "be64 (put_u64 v @ xs) = push_bit 32 (ucast (ucast (drop_bit 32 v) :: u32)) OR ucast (ucast v :: u32)"
    by (simp add: be64_def put_u64_halves d del: drop_append)
  also have "\<dots> = v"
    by (rule bit_word_eqI) (auto simp: bit_simps)
  finally show ?thesis .
qed

end
