(* ===== verification/RC_OS.thy ===== *)
theory RC_OS
  imports RC_Wire "HOL-Library.Monad_Syntax"
begin

text \<open>
  The operating system as the sources use it.  What the outside world answers (return values of
  system calls, exit codes of \<^verbatim>\<open>adb\<close>, bytes a peer sends, how long a call takes, when another
  thread raises a flag) is the parameter \<^verbatim>\<open>env\<close>: a record of functions of the number of system
  calls made so far, so that every definition is executable once an environment is given and
  every theorem that quantifies over the environment covers every behaviour of it.  What the
  kernel keeps for the process (clock, descriptor table, children, bytes in flight) is the
  record \<^verbatim>\<open>os\<close>, which the operations thread explicitly.

  A result \<^term>\<open>None\<close> means that the call never returns (a blocking \<^verbatim>\<open>read\<close>, \<^verbatim>\<open>write\<close> or
  \<^verbatim>\<open>waitpid\<close> that is never satisfied).
\<close>

section \<open>Sockets as streams of events\<close>

text \<open>
  The receiving side of a socket is the sequence of things successive \<^verbatim>\<open>read\<close>s see: a chunk of
  bytes, an interrupted call, end of file, an error.  The end of the list is a peer that stays
  silent, on which \<^verbatim>\<open>read\<close> blocks.
\<close>

datatype sock_event = Chunk "byte list" | Eintr | Eof | SockErr
type_synonym sock = "sock_event list"

datatype read_res = Got "byte list" | ReadIntr | ReadErr | ReadBlock

fun sock_read :: "sock \<Rightarrow> nat \<Rightarrow> read_res \<times> sock" where
  "sock_read [] n = (ReadBlock, [])"
| "sock_read (Chunk bs # es) n =
     (if length bs \<le> n then (Got bs, es) else (Got (take n bs), Chunk (drop n bs) # es))"
| "sock_read (Eintr # es) n = (ReadIntr, es)"
| "sock_read (Eof # es) n = (Got [], Eof # es)"
| "sock_read (SockErr # es) n = (ReadErr, es)"

text \<open>The sending side: how much each successive \<^verbatim>\<open>write\<close> accepts.\<close>

datatype wr_event = Accept nat | WrIntr | WrErr

datatype write_res = Wrote nat | WriteIntr | WriteErr | WriteBlock

fun sink_write :: "wr_event list \<Rightarrow> nat \<Rightarrow> write_res \<times> wr_event list" where
  "sink_write [] n = (WriteBlock, [])"
| "sink_write (Accept k # es) n = (Wrote (min k n), es)"
| "sink_write (WrIntr # es) n = (WriteIntr, es)"
| "sink_write (WrErr # es) n = (WriteErr, es)"

section \<open>The environment and the kernel state\<close>

datatype errno = EINPROGRESS | EINTR | EOther

datatype exit_status = Exited int | Signaled

datatype wait_res = StillRunning | Reaped exit_status | WaitErr

record env =
  e_ret :: "nat \<Rightarrow> int"                \<comment> \<open>return value of the system call at this tick\<close>
  e_errno :: "nat \<Rightarrow> errno"
  e_val :: "nat \<Rightarrow> int"                \<comment> \<open>value stored through an out-pointer\<close>
  e_wait :: "nat \<Rightarrow> wait_res"          \<comment> \<open>\<^verbatim>\<open>waitpid(pid, &st, WNOHANG)\<close>\<close>
  e_wait_block :: "nat \<Rightarrow> wait_res"    \<comment> \<open>\<^verbatim>\<open>waitpid(pid, &st, 0)\<close>; \<open>StillRunning\<close> = never ends\<close>
  e_delay :: "nat \<Rightarrow> nat"              \<comment> \<open>milliseconds the call takes\<close>
  e_abort :: "nat \<Rightarrow> bool"             \<comment> \<open>another thread called \<^verbatim>\<open>rc_client_abort\<close>, or a signal stopped the agent, by this tick\<close>
  e_stream :: "nat \<Rightarrow> sock"            \<comment> \<open>what the peer of a new connection sends\<close>
  e_sink :: "nat \<Rightarrow> wr_event list"     \<comment> \<open>what the peer of a new connection accepts\<close>
  e_addrs :: "string \<Rightarrow> string \<Rightarrow> nat option"  \<comment> \<open>\<^verbatim>\<open>getaddrinfo\<close>: number of addresses\<close>
  e_getenv :: "string \<Rightarrow> string option"
  e_readable :: "string \<Rightarrow> bool"       \<comment> \<open>\<^verbatim>\<open>access(path, R_OK) == 0\<close>\<close>
  e_exe :: "string option"             \<comment> \<open>\<^verbatim>\<open>readlink("/proc/self/exe")\<close>\<close>
  e_urandom :: "byte list option"      \<comment> \<open>what one \<^verbatim>\<open>read\<close> of \<^verbatim>\<open>/dev/urandom\<close> returns\<close>
  e_rand :: "nat \<Rightarrow> byte"              \<comment> \<open>the \<^verbatim>\<open>rand()\<close> sequence\<close>

datatype os_event =
    Spawned "string list" int
  | Killed int
  | Closed int
  | ShutDown int

record os =
  tick :: nat
  clock :: int
  open_fds :: "int list"
  children :: "int list"
  inq :: "int \<Rightarrow> sock"
  outq :: "int \<Rightarrow> wr_event list"
  sent :: "int \<Rightarrow> byte list"
  evlog :: "os_event list"

text \<open>Every system call consumes a tick and takes some time.\<close>

definition step_os :: "env \<Rightarrow> 'a os_scheme \<Rightarrow> 'a os_scheme" where
  "step_os E s = s\<lparr>tick := Suc (tick s), clock := clock s + int (e_delay E (tick s))\<rparr>"

definition sys_ret :: "env \<Rightarrow> 'a os_scheme \<Rightarrow> int \<times> 'a os_scheme" where
  "sys_ret E s = (e_ret E (tick s), step_os E s)"

text \<open>A sleep, or a poll that times out, takes at least the time asked for.\<close>

definition sleep_ms :: "env \<Rightarrow> nat \<Rightarrow> 'a os_scheme \<Rightarrow> 'a os_scheme" where
  "sleep_ms E ms s = (step_os E s)\<lparr>clock := clock s + int (e_delay E (tick s)) + int ms\<rparr>"

definition sys_poll :: "env \<Rightarrow> nat \<Rightarrow> 'a os_scheme \<Rightarrow> int \<times> 'a os_scheme" where
  "sys_poll E ms s =
     (let r = e_ret E (tick s) in (r, if r = 0 then sleep_ms E ms s else step_os E s))"

text \<open>POSIX returns the lowest descriptor that is not open.\<close>

definition fresh_fd :: "int list \<Rightarrow> int" where
  "fresh_fd fds = hd (filter (\<lambda>n. n \<notin> set fds) (map int [0 ..< Suc (length fds)]))"

definition sys_close :: "env \<Rightarrow> int \<Rightarrow> 'a os_scheme \<Rightarrow> 'a os_scheme" where
  "sys_close E fd s = (step_os E s)\<lparr>open_fds := filter (\<lambda>n. n \<noteq> fd) (open_fds s),
       evlog := evlog s @ [Closed fd]\<rparr>"

definition sys_open_fd :: "env \<Rightarrow> 'a os_scheme \<Rightarrow> int \<times> 'a os_scheme" where
  "sys_open_fd E s =
     (if e_ret E (tick s) < 0 then (-1, step_os E s)
      else (let fd = fresh_fd (open_fds s)
            in (fd, (step_os E s)\<lparr>open_fds := fd # open_fds s,
                 inq := (inq s)(fd := e_stream E (tick s)),
                 outq := (outq s)(fd := e_sink E (tick s)),
                 sent := (sent s)(fd := [])\<rparr>)))"

definition sys_shutdown :: "env \<Rightarrow> int \<Rightarrow> 'a os_scheme \<Rightarrow> 'a os_scheme" where
  "sys_shutdown E fd s = (step_os E s)\<lparr>evlog := evlog s @ [ShutDown fd]\<rparr>"

text \<open>\<^verbatim>\<open>posix_spawnp\<close>: \<^term>\<open>None\<close> on failure, else a pid that no unreaped child has.\<close>

definition sys_spawn :: "env \<Rightarrow> string list \<Rightarrow> 'a os_scheme \<Rightarrow> int option \<times> 'a os_scheme" where
  "sys_spawn E argv s =
     (if e_ret E (tick s) \<noteq> 0 then (None, step_os E s)
      else (let pid = 1 + foldr max (children s) (max 1 (e_val E (tick s)))
            in (Some pid, (step_os E s)\<lparr>children := pid # children s,
                 evlog := evlog s @ [Spawned argv pid]\<rparr>)))"

definition reap :: "int \<Rightarrow> 'a os_scheme \<Rightarrow> 'a os_scheme" where
  "reap pid s = s\<lparr>children := filter (\<lambda>p. p \<noteq> pid) (children s)\<rparr>"

definition sys_waitpid_nohang :: "env \<Rightarrow> int \<Rightarrow> 'a os_scheme \<Rightarrow> wait_res \<times> 'a os_scheme" where
  "sys_waitpid_nohang E pid s =
     (case e_wait E (tick s) of
        Reaped st \<Rightarrow> (Reaped st, reap pid (step_os E s))
      | r \<Rightarrow> (r, step_os E s))"

definition sys_waitpid :: "env \<Rightarrow> int \<Rightarrow> 'a os_scheme \<Rightarrow> (wait_res \<times> 'a os_scheme) option" where
  "sys_waitpid E pid s =
     (case e_wait_block E (tick s) of
        Reaped st \<Rightarrow> Some (Reaped st, reap pid (step_os E s))
      | WaitErr \<Rightarrow> Some (WaitErr, step_os E s)
      | StillRunning \<Rightarrow> None)"

text \<open>A child that got \<^verbatim>\<open>SIGKILL\<close> ends, so the blocking wait after it returns.\<close>

definition sys_kill_reap :: "env \<Rightarrow> int \<Rightarrow> 'a os_scheme \<Rightarrow> 'a os_scheme" where
  "sys_kill_reap E pid s =
     reap pid ((step_os E s)\<lparr>evlog := evlog s @ [Killed pid]\<rparr>)"

text \<open>\<^verbatim>\<open>kill(pid, SIGTERM)\<close> only asks; the wait that follows is an ordinary one.\<close>

definition sys_kill :: "env \<Rightarrow> int \<Rightarrow> 'a os_scheme \<Rightarrow> 'a os_scheme" where
  "sys_kill E pid s = (step_os E s)\<lparr>evlog := evlog s @ [Killed pid]\<rparr>"

section \<open>Frame lemmas\<close>

lemma step_os_fields [simp]:
  "open_fds (step_os E s) = open_fds s" "children (step_os E s) = children s"
  "inq (step_os E s) = inq s" "outq (step_os E s) = outq s" "sent (step_os E s) = sent s"
  "evlog (step_os E s) = evlog s" "tick (step_os E s) = Suc (tick s)"
  "clock s \<le> clock (step_os E s)" "os.more (step_os E s) = os.more s"
  by (simp_all add: step_os_def)

lemma sleep_ms_fields [simp]:
  "open_fds (sleep_ms E ms s) = open_fds s" "children (sleep_ms E ms s) = children s"
  "inq (sleep_ms E ms s) = inq s" "outq (sleep_ms E ms s) = outq s"
  "sent (sleep_ms E ms s) = sent s" "evlog (sleep_ms E ms s) = evlog s"
  "clock s + int ms \<le> clock (sleep_ms E ms s)" "os.more (sleep_ms E ms s) = os.more s"
  by (simp_all add: sleep_ms_def)

lemma fresh_fd_ok: "fresh_fd fds \<notin> set fds" "0 \<le> fresh_fd fds"
proof -
  let ?c = "map int [0 ..< Suc (length fds)]"
  have "\<not> set ?c \<subseteq> set fds"
  proof
    assume "set ?c \<subseteq> set fds"
    then have "card (set ?c) \<le> card (set fds)" by (simp add: card_mono)
    also have "\<dots> \<le> length fds" by (rule card_length)
    finally have "card (set ?c) \<le> length fds" .
    moreover have "card (set ?c) = Suc (length fds)"
      using distinct_card [of ?c] by (simp add: distinct_map del: upt_Suc)
    ultimately show False by simp
  qed
  then have "filter (\<lambda>n. n \<notin> set fds) ?c \<noteq> []" by (auto simp: filter_empty_conv)
  then have "fresh_fd fds \<in> set (filter (\<lambda>n. n \<notin> set fds) ?c)"
    unfolding fresh_fd_def by (rule hd_in_set)
  then show "fresh_fd fds \<notin> set fds" "0 \<le> fresh_fd fds" by (auto simp del: upt_Suc)
qed

end
