(* ===== verification/RC_Decoder.thy ===== *)
theory RC_Decoder
  imports RC_OS
begin

text \<open>
  \<^verbatim>\<open>core/src/decoder.c\<close>: the wrapper around FFmpeg's video decoder.  FFmpeg is a parameter: its
  answers are functions of the history of packets the codec context has been sent.  After a packet
  the context delivers finitely many results and then \<^verbatim>\<open>AVERROR(EAGAIN)\<close> (the end of the list), as
  \<^verbatim>\<open>avcodec_receive_frame\<close> documents.
\<close>

section \<open>FFmpeg as a parameter\<close>

datatype hw_type = HW_VIDEOTOOLBOX | HW_CUDA | HW_VAAPI

datatype pix_fmt = PIX_NONE | PIX_YUV420P | PIX_YUVJ420P | PIX_NV12
  | PIX_VIDEOTOOLBOX | PIX_CUDA | PIX_VAAPI | PIX_OTHER nat

datatype av_codec = AV_CODEC_ID_H264 | AV_CODEC_ID_HEVC | AV_CODEC_ID_AV1

record av_frame =
  fr_width :: int
  fr_height :: int
  fr_format :: pix_fmt
  fr_range_jpeg :: bool
  fr_space_bt709 :: bool
  fr_pts :: "int option"           \<comment> \<open>\<^term>\<open>None\<close> is \<^verbatim>\<open>AV_NOPTS_VALUE\<close>\<close>
  fr_best_effort :: "int option"
  fr_planes :: "byte list list"
  fr_linesize :: "int list"

datatype recv_res = Frame av_frame | RecvEof | RecvErr

datatype send_res = SendOk | SendAgain | SendErr

text \<open>One entry per packet given to \<^verbatim>\<open>avcodec_send_packet\<close>: its bytes, its time stamp, and how many
  calls of \<^verbatim>\<open>avcodec_receive_frame\<close> came before it, so that the history determines the state of the
  codec context.\<close>

type_synonym ff_history = "(byte list \<times> int \<times> nat) list"

record ffmpeg =
  ff_has_decoder :: "av_codec \<Rightarrow> bool"  \<comment> \<open>\<^verbatim>\<open>avcodec_find_decoder\<close>\<close>
  ff_alloc_ctx :: bool
  ff_hwdevice :: "hw_type \<Rightarrow> string option \<Rightarrow> bool"
  ff_open :: "hw_type option \<Rightarrow> bool"
  ff_alloc_frames :: bool
  ff_is_hwaccel :: "pix_fmt \<Rightarrow> bool option"  \<comment> \<open>\<^verbatim>\<open>av_pix_fmt_desc_get\<close>: the \<^verbatim>\<open>HWACCEL\<close> flag\<close>
  ff_send :: "ff_history \<Rightarrow> send_res"
  ff_get_format :: "ff_history \<Rightarrow> pix_fmt list option"  \<comment> \<open>formats offered, if the callback runs\<close>
  ff_output :: "ff_history \<Rightarrow> pix_fmt option \<Rightarrow> recv_res list"
  ff_transfer :: "nat \<Rightarrow> av_frame \<Rightarrow> av_frame option"  \<comment> \<open>\<^verbatim>\<open>av_hwframe_transfer_data\<close>\<close>

section \<open>The decoder object\<close>

record rc_decoder =
  d_codec :: av_codec                   \<comment> \<open>the codec \<^verbatim>\<open>ctx\<close> was allocated for\<close>
  d_hw_ctx :: "hw_type option"
  d_hw_pix_fmt :: pix_fmt
  d_hw_failed :: bool
  d_emitted_unsupported :: bool
  d_sw_frame :: "(int \<times> int) option"   \<comment> \<open>size of the download buffer, if allocated\<close>
  d_history :: ff_history
  d_pulls :: nat                        \<comment> \<open>\<^verbatim>\<open>avcodec_receive_frame\<close> calls so far\<close>
  d_transfers :: nat                    \<comment> \<open>downloads attempted so far\<close>

definition HW_KINDS :: "bool \<Rightarrow> (hw_type \<times> pix_fmt) list" where
  "HW_KINDS apple = (if apple then [(HW_VIDEOTOOLBOX, PIX_VIDEOTOOLBOX)] else [])
     @ [(HW_CUDA, PIX_CUDA), (HW_VAAPI, PIX_VAAPI)]"

definition try_hw_device :: "ffmpeg \<Rightarrow> hw_type \<Rightarrow> hw_type option" where
  "try_hw_device FF type =
     (if ff_hwdevice FF type None then Some type
      else if type = HW_VAAPI \<and>
        list_ex (\<lambda>i. ff_hwdevice FF type (Some (''/dev/dri/renderD'' @ show_int (int i)))) [128 ..< 132]
      then Some type
      else None)"

text \<open>\<^verbatim>\<open>fmts\<close> is the array up to its \<^verbatim>\<open>AV_PIX_FMT_NONE\<close> terminator; \<^verbatim>\<open>fmts[0]\<close> of an empty array is
  that terminator.\<close>

definition pick_hw_format :: "ffmpeg \<Rightarrow> rc_decoder \<Rightarrow> pix_fmt list \<Rightarrow> pix_fmt \<times> rc_decoder" where
  "pick_hw_format FF d fmts =
     (if \<not> d_hw_failed d \<and> d_hw_pix_fmt d \<in> set fmts then (d_hw_pix_fmt d, d)
      else
        let d = (if \<not> d_hw_failed d then d\<lparr>d_hw_failed := True\<rparr> else d) in
        case filter (\<lambda>p. ff_is_hwaccel FF p = Some False) fmts of
          p # _ \<Rightarrow> (p, d)
        | [] \<Rightarrow> (case fmts of [] \<Rightarrow> PIX_NONE | f # _ \<Rightarrow> f, d))"

fun av_codec_id :: "rc_codec \<Rightarrow> av_codec" where
  "av_codec_id RC_CODEC_H265 = AV_CODEC_ID_HEVC"
| "av_codec_id RC_CODEC_AV1 = AV_CODEC_ID_AV1"
| "av_codec_id RC_CODEC_H264 = AV_CODEC_ID_H264"

definition hwdec_env_disabled :: "env \<Rightarrow> bool" where
  "hwdec_env_disabled E =
     (case e_getenv E ''RC_HWDEC'' of
        None \<Rightarrow> False
      | Some e \<Rightarrow> e \<in> {''off'', ''0'', ''no'', ''sw''})"

fun open_first :: "ffmpeg \<Rightarrow> (hw_type \<times> pix_fmt) list \<Rightarrow> (hw_type \<times> pix_fmt) option" where
  "open_first FF [] = None"
| "open_first FF ((t, p) # ks) =
     (case try_hw_device FF t of Some h \<Rightarrow> Some (h, p) | None \<Rightarrow> open_first FF ks)"

definition rc_decoder_create ::
    "env \<Rightarrow> ffmpeg \<Rightarrow> bool \<Rightarrow> rc_codec \<Rightarrow> bool \<Rightarrow> rc_decoder option" where
  "rc_decoder_create E FF apple cdc allow_hw =
     (if \<not> ff_has_decoder FF (av_codec_id cdc) then None
      else if \<not> ff_alloc_ctx FF then None
      else
        let allow_hw = (if hwdec_env_disabled E then False else allow_hw);
            hw = (if allow_hw then open_first FF (HW_KINDS apple) else None) in
        if \<not> ff_open FF (map_option fst hw) then None
        else if \<not> ff_alloc_frames FF then None
        else Some \<lparr>d_codec = av_codec_id cdc,
                   d_hw_ctx = map_option fst hw,
                   d_hw_pix_fmt = (case hw of None \<Rightarrow> PIX_NONE | Some (_, p) \<Rightarrow> p),
                   d_hw_failed = False, d_emitted_unsupported = False, d_sw_frame = None,
                   d_history = [], d_pulls = 0, d_transfers = 0\<rparr>)"

lemma decoder_codec: "rc_decoder_create E FF apple cdc allow_hw = Some d \<Longrightarrow> d_codec d = av_codec_id cdc"
  by (auto simp: rc_decoder_create_def Let_def split: if_splits)

definition rc_decoder_is_hw :: "rc_decoder option \<Rightarrow> bool" where
  "rc_decoder_is_hw d =
     (case d of None \<Rightarrow> False | Some d \<Rightarrow> d_hw_ctx d \<noteq> None \<and> \<not> d_hw_failed d)"

fun hw_type_name :: "hw_type \<Rightarrow> string" where
  "hw_type_name HW_VIDEOTOOLBOX = ''videotoolbox''"
| "hw_type_name HW_CUDA = ''cuda''"
| "hw_type_name HW_VAAPI = ''vaapi''"

definition rc_decoder_hw_name :: "rc_decoder option \<Rightarrow> string option" where
  "rc_decoder_hw_name d =
     (case d of None \<Rightarrow> None
      | Some d \<Rightarrow> if d_hw_failed d then None else map_option hw_type_name (d_hw_ctx d))"

section \<open>Frames for the user interface\<close>

datatype rc_pixfmt = RC_PIX_I420 | RC_PIX_NV12

record rc_frame =
  f_width :: int
  f_height :: int
  f_format :: rc_pixfmt
  f_planes :: "byte list list"
  f_linesize :: "int list"
  f_pts_us :: int
  f_recv_ms :: int
  f_full_range :: bool
  f_bt709 :: bool

fun map_pixfmt :: "pix_fmt \<Rightarrow> rc_pixfmt option" where
  "map_pixfmt PIX_YUV420P = Some RC_PIX_I420"
| "map_pixfmt PIX_YUVJ420P = Some RC_PIX_I420"
| "map_pixfmt PIX_NV12 = Some RC_PIX_NV12"
| "map_pixfmt _ = None"

text \<open>Download of a GPU frame: reuse the buffer when the size is unchanged, retry once into a fresh
  buffer when that fails.\<close>

definition download ::
    "ffmpeg \<Rightarrow> rc_decoder \<Rightarrow> av_frame \<Rightarrow> av_frame option \<times> rc_decoder" where
  "download FF d fr =
     (let t = d_transfers d; d1 = d\<lparr>d_transfers := Suc t\<rparr> in
      if d_sw_frame d \<noteq> Some (fr_width fr, fr_height fr) then
        (case ff_transfer FF t fr of
           None \<Rightarrow> (None, d1\<lparr>d_sw_frame := None\<rparr>)
         | Some sw \<Rightarrow> (Some sw, d1\<lparr>d_sw_frame := Some (fr_width fr, fr_height fr)\<rparr>))
      else
        (case ff_transfer FF t fr of
           Some sw \<Rightarrow> (Some sw, d1)
         | None \<Rightarrow>
             (let d2 = d1\<lparr>d_transfers := Suc (Suc t), d_sw_frame := None\<rparr> in
              case ff_transfer FF (Suc t) fr of
                None \<Rightarrow> (None, d2)
              | Some sw \<Rightarrow> (Some sw, d2\<lparr>d_sw_frame := Some (fr_width fr, fr_height fr)\<rparr>))))"

definition to_rc_frame :: "av_frame \<Rightarrow> rc_pixfmt \<Rightarrow> int \<Rightarrow> rc_frame" where
  "to_rc_frame out pf recv_ms =
     \<lparr>f_width = fr_width out, f_height = fr_height out, f_format = pf,
      f_planes = fr_planes out, f_linesize = fr_linesize out,
      f_pts_us = (case fr_pts out of Some p \<Rightarrow> p
                  | None \<Rightarrow> (case fr_best_effort out of Some p \<Rightarrow> p | None \<Rightarrow> 0)),
      f_recv_ms = recv_ms,
      f_full_range = (fr_range_jpeg out \<or> fr_format out = PIX_YUVJ420P),
      f_bt709 = fr_space_bt709 out\<rparr>"

text \<open>The receive loop.  \<^verbatim>\<open>av_frame_copy_props\<close> carries time stamp and colour information over to the
  downloaded frame.\<close>

definition cpu_frame :: "ffmpeg \<Rightarrow> rc_decoder \<Rightarrow> av_frame \<Rightarrow> av_frame option \<times> rc_decoder" where
  "cpu_frame FF d fr =
     (if d_hw_ctx d \<noteq> None \<and> fr_format fr = d_hw_pix_fmt d
      then (case download FF d fr of
              (None, d) \<Rightarrow> (None, d)
            | (Some sw, d) \<Rightarrow>
                (Some (sw\<lparr>fr_pts := fr_pts fr, fr_best_effort := fr_best_effort fr,
                          fr_range_jpeg := fr_range_jpeg fr,
                          fr_space_bt709 := fr_space_bt709 fr\<rparr>), d))
      else (Some fr, d))"

definition pulled :: "rc_decoder \<Rightarrow> rc_decoder" where
  "pulled d = d\<lparr>d_pulls := Suc (d_pulls d)\<rparr>"

fun receive_loop ::
    "ffmpeg \<Rightarrow> bool \<Rightarrow> int \<Rightarrow> rc_decoder \<Rightarrow> recv_res list \<Rightarrow> rc_status \<times> rc_decoder \<times> rc_frame list" where
  "receive_loop FF cb recv_ms d [] = (RC_OK, pulled d, [])"
| "receive_loop FF cb recv_ms d (RecvEof # rs) = (RC_OK, pulled d, [])"
| "receive_loop FF cb recv_ms d (RecvErr # rs) = (RC_ERR_DECODE, pulled d, [])"
| "receive_loop FF cb recv_ms d (Frame fr # rs) =
     (let (out, d) = cpu_frame FF (pulled d) fr in
      case out of
        None \<Rightarrow> (RC_ERR_DECODE, d, [])
      | Some out \<Rightarrow>
          (case map_pixfmt (fr_format out) of
             None \<Rightarrow> (RC_ERR_DECODE, d\<lparr>d_emitted_unsupported := True\<rparr>, [])
           | Some pf \<Rightarrow>
               (let (r, d, fs) = receive_loop FF cb recv_ms d rs in
                (r, d, (if cb then [to_rc_frame out pf recv_ms] else []) @ fs))))"

text \<open>FFmpeg runs the \<^verbatim>\<open>get_format\<close> callback, when it needs one, while it processes the packet; the
  callback is installed only when a hardware device was opened.\<close>

definition run_get_format :: "ffmpeg \<Rightarrow> rc_decoder \<Rightarrow> ff_history \<Rightarrow> pix_fmt option \<times> rc_decoder" where
  "run_get_format FF d h =
     (case (if d_hw_ctx d = None then None else ff_get_format FF h) of
        None \<Rightarrow> (None, d)
      | Some fmts \<Rightarrow> (let (f, d) = pick_hw_format FF d fmts in (Some f, d)))"

definition rc_decoder_feed ::
    "ffmpeg \<Rightarrow> rc_decoder option \<Rightarrow> byte list \<Rightarrow> int \<Rightarrow> bool \<Rightarrow> int \<Rightarrow>
     rc_status \<times> rc_decoder option \<times> rc_frame list" where
  "rc_decoder_feed FF dd data pts cb recv_ms =
     (case dd of
        None \<Rightarrow> (RC_ERR_INVALID_ARG, None, [])
      | Some d \<Rightarrow>
          if data = [] then (RC_ERR_INVALID_ARG, Some d, [])
          else
            let h = d_history d @ [(data, pts, d_pulls d)];
                (fmt, d) = run_get_format FF (d\<lparr>d_history := h\<rparr>) h in
            case ff_send FF h of
              SendErr \<Rightarrow> (RC_ERR_DECODE, Some d, [])
            | _ \<Rightarrow> (let (r, d, fs) = receive_loop FF cb recv_ms d (ff_output FF h fmt)
                     in (r, Some d, fs)))"

section \<open>Which decoder is built\<close>

lemma create_software:
  "hwdec_env_disabled E \<or> \<not> allow_hw \<Longrightarrow> rc_decoder_create E FF apple cdc allow_hw = Some d \<Longrightarrow>
     d_hw_ctx d = None \<and> \<not> rc_decoder_is_hw (Some d)"
  by (auto simp: rc_decoder_create_def Let_def rc_decoder_is_hw_def split: if_splits)

lemma open_first_order:
  "open_first FF ks = Some (t, p) \<Longrightarrow>
     \<exists>pre post. ks = pre @ (t, p) # post \<and> try_hw_device FF t \<noteq> None \<and>
        list_all (\<lambda>k. try_hw_device FF (fst k) = None) pre"
proof (induction ks)
  case (Cons k ks)
  obtain t' p' where k: "k = (t', p')" by fastforce
  show ?case
  proof (cases "try_hw_device FF t'")
    case None
    with Cons k obtain pre post where "ks = pre @ (t, p) # post" "try_hw_device FF t \<noteq> None"
      "list_all (\<lambda>k. try_hw_device FF (fst k) = None) pre" by auto
    with None k show ?thesis by (intro exI [of _ "k # pre"] exI [of _ post]) simp
  next
    case (Some h)
    then have "h = t'" by (auto simp: try_hw_device_def split: if_splits)
    with Some Cons.prems k show ?thesis by (intro exI [of _ "[]"] exI [of _ ks]) simp
  qed
qed simp

section \<open>Feeding\<close>

lemma pick_hw_format_keeps:
  "pick_hw_format FF d fmts = (f, d') \<Longrightarrow>
     d_history d' = d_history d \<and> d_hw_ctx d' = d_hw_ctx d \<and> d_hw_pix_fmt d' = d_hw_pix_fmt d \<and> (d_hw_failed d \<longrightarrow> d_hw_failed d')"
  by (auto simp: pick_hw_format_def Let_def split: if_splits list.splits)

lemma download_keeps:
  "download FF d fr = (out, d') \<Longrightarrow>
     d_history d' = d_history d \<and> d_hw_ctx d' = d_hw_ctx d \<and> d_hw_pix_fmt d' = d_hw_pix_fmt d \<and> d_hw_failed d' = d_hw_failed d"
  by (auto simp: download_def Let_def split: if_splits option.splits)

lemma cpu_frame_keeps:
  "cpu_frame FF d fr = (out, d') \<Longrightarrow>
     d_history d' = d_history d \<and> d_hw_ctx d' = d_hw_ctx d \<and> d_hw_pix_fmt d' = d_hw_pix_fmt d \<and> d_hw_failed d' = d_hw_failed d"
  by (auto simp: cpu_frame_def split: if_splits prod.splits option.splits dest: download_keeps)

lemma pulled_fields [simp]:
  "d_hw_ctx (pulled d) = d_hw_ctx d" "d_hw_pix_fmt (pulled d) = d_hw_pix_fmt d"
  "d_hw_failed (pulled d) = d_hw_failed d" "d_history (pulled d) = d_history d"
  by (simp_all add: pulled_def)

lemma receive_loop_keeps:
  "receive_loop FF cb ms d rs = (r, d', fs) \<Longrightarrow>
     d_history d' = d_history d \<and> d_hw_ctx d' = d_hw_ctx d \<and> d_hw_pix_fmt d' = d_hw_pix_fmt d \<and> d_hw_failed d' = d_hw_failed d"
proof (induction rs arbitrary: d r d' fs)
  case Nil
  then show ?case by auto
next
  case (Cons x rs)
  show ?case
  proof (cases x)
    case (Frame fr)
    obtain out d1 where c: "cpu_frame FF (pulled d) fr = (out, d1)" by fastforce
    obtain r2 d2 f2 where l: "receive_loop FF cb ms d1 rs = (r2, d2, f2)" by (metis prod_cases3)
    show ?thesis
      using Cons.prems Frame c l cpu_frame_keeps [OF c] Cons.IH [OF l]
      by (auto split: option.splits)
  qed (use Cons.prems in auto)
qed

lemma run_get_format_keeps:
  "run_get_format FF d h = (f, d') \<Longrightarrow>
     d_history d' = d_history d \<and> d_hw_ctx d' = d_hw_ctx d \<and> d_hw_pix_fmt d' = d_hw_pix_fmt d \<and> (d_hw_failed d \<longrightarrow> d_hw_failed d')"
  by (auto simp: run_get_format_def Let_def split: if_splits option.splits prod.splits
      dest: pick_hw_format_keeps)

lemma feed_Some:
  "rc_decoder_feed FF (Some d) data pts cb ms = (r, dd', fs) \<Longrightarrow>
     \<exists>d'. dd' = Some d' \<and> d_hw_ctx d' = d_hw_ctx d \<and> d_hw_pix_fmt d' = d_hw_pix_fmt d \<and>
        (d_hw_failed d \<longrightarrow> d_hw_failed d')"
  by (auto simp: rc_decoder_feed_def Let_def split: if_splits prod.splits send_res.splits
      dest!: receive_loop_keeps run_get_format_keeps)

text \<open>Every non-empty packet is passed on, once and unchanged.\<close>

lemma feed_history:
  "rc_decoder_feed FF (Some d) data pts cb ms = (r, Some d', fs) \<Longrightarrow> data \<noteq> [] \<Longrightarrow>
     d_history d' = d_history d @ [(data, pts, d_pulls d)]"
  by (auto simp: rc_decoder_feed_def Let_def split: if_splits prod.splits send_res.splits
      dest!: receive_loop_keeps run_get_format_keeps)

text \<open>Once a decoder runs in software it never goes back to hardware.\<close>

lemma feed_software_stays:
  assumes "rc_decoder_feed FF dd data pts cb ms = (r, dd', fs)" and "\<not> rc_decoder_is_hw dd"
  shows "\<not> rc_decoder_is_hw dd'"
proof (cases dd)
  case None
  with assms show ?thesis by (auto simp: rc_decoder_feed_def rc_decoder_is_hw_def)
next
  case (Some d)
  with assms(1) feed_Some [of FF d data pts cb ms r dd' fs] assms(2) show ?thesis
    by (auto simp: rc_decoder_is_hw_def)
qed

lemma feed_None_iff: "rc_decoder_feed FF dd data pts cb ms = (r, dd', fs) \<Longrightarrow> dd' = None \<longleftrightarrow> dd = None"
  by (cases dd) (auto simp: rc_decoder_feed_def [of FF None] dest: feed_Some)

section \<open>What the callback sees\<close>

fun shown :: "recv_res \<Rightarrow> bool" where
  "shown (Frame fr) = (map_pixfmt (fr_format fr) \<noteq> None)"
| "shown _ = False"

fun shown_frame :: "int \<Rightarrow> recv_res \<Rightarrow> rc_frame list" where
  "shown_frame ms (Frame fr) =
     (case map_pixfmt (fr_format fr) of None \<Rightarrow> [] | Some pf \<Rightarrow> [to_rc_frame fr pf ms])"
| "shown_frame ms _ = []"

lemma receive_loop_software:
  "d_hw_ctx d = None \<Longrightarrow> receive_loop FF True ms d rs = (r, d', fs) \<Longrightarrow>
     fs = concat (map (shown_frame ms) (takeWhile shown rs)) \<and>
     (r = RC_OK \<longleftrightarrow> dropWhile shown rs = [] \<or> hd (dropWhile shown rs) = RecvEof)"
proof (induction rs arbitrary: d r d' fs)
  case Nil
  then show ?case by auto
next
  case (Cons x rs)
  show ?case
  proof (cases x)
    case (Frame fr)
    have c: "cpu_frame FF (pulled d) fr = (Some fr, pulled d)"
      using Cons.prems(1) by (simp add: cpu_frame_def)
    show ?thesis
    proof (cases "map_pixfmt (fr_format fr)")
      case None
      with Cons.prems Frame c show ?thesis by auto
    next
      case (Some pf)
      obtain r2 d2 f2 where l: "receive_loop FF True ms (pulled d) rs = (r2, d2, f2)"
        by (metis prod_cases3)
      from Cons.IH [OF _ l] Cons.prems Frame c Some l show ?thesis by auto
    qed
  qed (use Cons.prems in auto)
qed

text \<open>
  C21: a software decoder hands every frame FFmpeg produces for the packet to the callback, once, in
  order and with the packet's arrival time, up to the first error or unsupported pixel format, and
  returns \<^verbatim>\<open>RC_OK\<close> exactly when there was none.
\<close>

theorem feed_delivers:
  assumes "d_hw_ctx d = None" and "data \<noteq> []"
    and "ff_send FF (d_history d @ [(data, pts, d_pulls d)]) \<noteq> SendErr"
    and "rs = ff_output FF (d_history d @ [(data, pts, d_pulls d)]) None"
    and "rc_decoder_feed FF (Some d) data pts True ms = (r, dd', fs)"
  shows "fs = concat (map (shown_frame ms) (takeWhile shown rs)) \<and>
     (r = RC_OK \<longleftrightarrow> dropWhile shown rs = [] \<or> hd (dropWhile shown rs) = RecvEof)"
proof -
  let ?h = "d_history d @ [(data, pts, d_pulls d)]"
  let ?d = "d\<lparr>d_history := ?h\<rparr>"
  obtain r2 d2 f2 where l: "receive_loop FF True ms ?d rs = (r2, d2, f2)" by (metis prod_cases3)
  have "run_get_format FF ?d ?h = (None, ?d)" using assms(1) by (simp add: run_get_format_def)
  with assms l have "r = r2" "fs = f2"
    by (auto simp: rc_decoder_feed_def Let_def split: send_res.splits)
  with receive_loop_software [OF _ l] assms(1) show ?thesis by simp
qed

definition demo_frame :: av_frame where
  "demo_frame = \<lparr>fr_width = 8, fr_height = 8, fr_format = PIX_YUV420P, fr_range_jpeg = False,
     fr_space_bt709 = True, fr_pts = None, fr_best_effort = Some 33, fr_planes = [], fr_linesize = []\<rparr>"

definition demo_ffmpeg :: ffmpeg where
  "demo_ffmpeg = \<lparr>ff_has_decoder = (\<lambda>_. True), ff_alloc_ctx = True, ff_hwdevice = (\<lambda>_ _. False),
     ff_open = (\<lambda>_. True), ff_alloc_frames = True, ff_is_hwaccel = (\<lambda>_. Some False),
     ff_send = (\<lambda>_. SendOk), ff_get_format = (\<lambda>_. None),
     ff_output = (\<lambda>_ _. [Frame demo_frame, RecvErr]), ff_transfer = (\<lambda>_ _. None)\<rparr>"

definition demo_decoder :: rc_decoder where
  "demo_decoder = \<lparr>d_codec = AV_CODEC_ID_H264, d_hw_ctx = None, d_hw_pix_fmt = PIX_NONE, d_hw_failed = False,
     d_emitted_unsupported = False, d_sw_frame = None, d_history = [], d_pulls = 0, d_transfers = 0\<rparr>"

theorem feed_delivers_witness:
  "\<exists>r dd' fs. rc_decoder_feed demo_ffmpeg (Some demo_decoder) [0, 0, 1] 33 True 7 = (r, dd', fs) \<and>
     fs = [to_rc_frame demo_frame RC_PIX_I420 7] \<and> r \<noteq> RC_OK"
proof -
  obtain r dd' fs where f: "rc_decoder_feed demo_ffmpeg (Some demo_decoder) [0, 0, 1] 33 True 7 = (r, dd', fs)"
    by (metis prod_cases3)
  have "fs = concat (map (shown_frame 7) (takeWhile shown [Frame demo_frame, RecvErr])) \<and>
     (r = RC_OK \<longleftrightarrow> dropWhile shown [Frame demo_frame, RecvErr] = [] \<or>
        hd (dropWhile shown [Frame demo_frame, RecvErr]) = RecvEof)"
    by (rule feed_delivers [OF _ _ _ _ f]) (simp_all add: demo_decoder_def demo_ffmpeg_def)
  with f show ?thesis by (simp add: demo_frame_def)
qed

end
