(* ===== verification/RC_Net.thy ===== *)
theory RC_Net
  imports RC_OS
begin

text \<open>
  \<^verbatim>\<open>core/src/net.c\<close>: the loops that read or write a whole buffer, and the socket helpers (listen
  on loopback, accept, connect with a timeout).  The reading loop is given an interface
  (\<^verbatim>\<open>exact_reader\<close>): a reader over a stream of pending bytes.  The demultiplexer is proved against
  that interface, so its theorems hold however the network cuts the stream into chunks.
\<close>

section \<open>Reading and writing whole buffers\<close>

lemma sock_read_length: "sock_read s n = (r, s') \<Longrightarrow> length s' \<le> length s"
  by (cases "(s, n)" rule: sock_read.cases) (auto split: if_splits)

lemma sock_read_intr: "sock_read s n = (ReadIntr, s') \<Longrightarrow> length s' < length s"
  by (cases "(s, n)" rule: sock_read.cases) (auto split: if_splits)

text \<open>Result: status, the bytes stored in the buffer (all of them exactly when the status is
  \<^const>\<open>RC_OK\<close>), the rest of the stream.\<close>

function rc_net_read_full :: "sock \<Rightarrow> nat \<Rightarrow> (rc_status \<times> byte list \<times> sock) option" where
  "rc_net_read_full s len =
     (if len = 0 then Some (RC_OK, [], s)
      else (case sock_read s len of
              (ReadBlock, s') \<Rightarrow> None
            | (ReadIntr, s') \<Rightarrow> rc_net_read_full s' len
            | (ReadErr, s') \<Rightarrow> Some (RC_ERR_CONNECT, [], s')
            | (Got bs, s') \<Rightarrow>
                if bs = [] then Some (RC_ERR_CONNECT, [], s')
                else (case rc_net_read_full s' (len - length bs) of
                        None \<Rightarrow> None
                      | Some (r, bs', s'') \<Rightarrow> Some (r, bs @ bs', s''))))"
  by pat_completeness auto

termination
proof (relation "measure (\<lambda>(s, len). length s + len)", goal_cases)
  case 1
  then show ?case by simp
next
  case (2 s len rr s' bs)
  then have "length s' \<le> length s" using sock_read_length by metis
  moreover have "len - length bs < len" using 2 by (auto intro: diff_less)
  ultimately show ?case by simp
next
  case (3 s len rr s')
  then show ?case using sock_read_intr [of s len s'] by simp
qed

declare rc_net_read_full.simps [simp del]

lemma read_full_simps [simp]:
  "rc_net_read_full s 0 = Some (RC_OK, [], s)"
  "0 < len \<Longrightarrow> rc_net_read_full [] len = None"
  "0 < len \<Longrightarrow> rc_net_read_full (Eintr # es) len = rc_net_read_full es len"
  "0 < len \<Longrightarrow> rc_net_read_full (Eof # es) len = Some (RC_ERR_CONNECT, [], Eof # es)"
  "0 < len \<Longrightarrow> rc_net_read_full (SockErr # es) len = Some (RC_ERR_CONNECT, [], es)"
  "0 < len \<Longrightarrow> rc_net_read_full (Chunk [] # es) len = Some (RC_ERR_CONNECT, [], es)"
  by (subst rc_net_read_full.simps, simp)+

lemma read_full_Chunk_long:
  "len < length bs \<Longrightarrow>
     rc_net_read_full (Chunk bs # es) len = Some (RC_OK, take len bs, if len = 0 then Chunk bs # es else Chunk (drop len bs) # es)"
  by (subst rc_net_read_full.simps) (auto simp: min_def)

lemma read_full_Chunk_short:
  "bs \<noteq> [] \<Longrightarrow> length bs \<le> len \<Longrightarrow>
     rc_net_read_full (Chunk bs # es) len =
       (case rc_net_read_full es (len - length bs) of
          None \<Rightarrow> None | Some (r, bs', s'') \<Rightarrow> Some (r, bs @ bs', s''))"
  by (subst rc_net_read_full.simps) (cases bs; auto)

fun rc_net_write_full ::
    "wr_event list \<Rightarrow> byte list \<Rightarrow> (rc_status \<times> byte list \<times> wr_event list) option" where
  "rc_net_write_full es buf =
     (if buf = [] then Some (RC_OK, [], es)
      else (case es of
              [] \<Rightarrow> None
            | e # es' \<Rightarrow>
                (case sink_write es (length buf) of
                   (WriteBlock, _) \<Rightarrow> None
                 | (WriteIntr, _) \<Rightarrow> rc_net_write_full es' buf
                 | (WriteErr, _) \<Rightarrow> Some (RC_ERR_CONNECT, [], es')
                 | (Wrote n, _) \<Rightarrow>
                     (case rc_net_write_full es' (drop n buf) of
                        None \<Rightarrow> None
                      | Some (r, out, es'') \<Rightarrow> Some (r, take n buf @ out, es'')))))"

declare rc_net_write_full.simps [simp del]

section \<open>What is pending on a stream\<close>

text \<open>The bytes that can be read before the first end of file or error.\<close>

fun sock_bytes :: "sock \<Rightarrow> byte list" where
  "sock_bytes [] = []"
| "sock_bytes (Chunk bs # es) = (if bs = [] then [] else bs @ sock_bytes es)"
| "sock_bytes (Eintr # es) = sock_bytes es"
| "sock_bytes (Eof # es) = []"
| "sock_bytes (SockErr # es) = []"

section \<open>The reader interface\<close>

locale exact_reader =
  fixes rd :: "'s \<Rightarrow> nat \<Rightarrow> (rc_status \<times> byte list \<times> 's) option"
    and pending :: "'s \<Rightarrow> byte list"
  assumes rd_enough: "n \<le> length (pending s) \<Longrightarrow>
      \<exists>s'. rd s n = Some (RC_OK, take n (pending s), s') \<and> pending s' = drop n (pending s)"
    and rd_short: "length (pending s) < n \<Longrightarrow> rd s n = Some (r, bs, s') \<Longrightarrow>
      r = RC_ERR_CONNECT \<and> length bs < n"
begin

lemma rd_okD:
  assumes "rd s n = Some (RC_OK, bs, s')"
  shows "n \<le> length (pending s)" and "bs = take n (pending s)"
    and "pending s' = drop n (pending s)" and "length bs = n"
proof -
  show n: "n \<le> length (pending s)"
    using rd_short [of s n RC_OK bs s'] assms by (cases "n \<le> length (pending s)") auto
  then show "bs = take n (pending s)" "pending s' = drop n (pending s)" "length bs = n"
    using rd_enough [OF n] assms by auto
qed

lemma rd_errD:
  assumes "rd s n = Some (r, bs, s')" and "r \<noteq> RC_OK"
  shows "r = RC_ERR_CONNECT" and "length (pending s) < n"
proof -
  show n: "length (pending s) < n"
    using rd_enough [of n s] assms by (cases "n \<le> length (pending s)") auto
  show "r = RC_ERR_CONNECT" using rd_short [OF n assms(1)] by simp
qed

lemma rd_prefix:
  assumes "pending s = xs @ ys" and "length xs = n"
  obtains s' where "rd s n = Some (RC_OK, xs, s')" and "pending s' = ys"
  using rd_enough [of n s] assms by auto

end

lemma read_full_enough:
  "n \<le> length (sock_bytes s) \<Longrightarrow>
     \<exists>s'. rc_net_read_full s n = Some (RC_OK, take n (sock_bytes s), s') \<and>
          sock_bytes s' = drop n (sock_bytes s)"
proof (induction s arbitrary: n)
  case Nil
  then show ?case by simp
next
  case (Cons e es)
  show ?case
  proof (cases e)
    case (Chunk bs)
    show ?thesis
    proof (cases "bs = [] \<or> n < length bs")
      case True
      with Cons Chunk show ?thesis by (cases "n = 0") (auto simp: read_full_Chunk_long)
    next
      case False
      with Cons.prems Chunk have "n - length bs \<le> length (sock_bytes es)" by auto
      from Cons.IH [OF this] False Chunk show ?thesis
        by (auto simp: read_full_Chunk_short)
    qed
  qed (use Cons in \<open>cases "n = 0"; auto\<close>)+
qed

lemma read_full_short:
  "length (sock_bytes s) < n \<Longrightarrow> rc_net_read_full s n = Some (r, bs, s') \<Longrightarrow>
     r = RC_ERR_CONNECT \<and> length bs < n"
proof (induction s arbitrary: n bs)
  case Nil
  then show ?case by simp
next
  case (Cons e es)
  show ?case
  proof (cases e)
    case (Chunk cs)
    show ?thesis
    proof (cases "cs = []")
      case True
      with Cons.prems Chunk show ?thesis by simp
    next
      case False
      with Cons.prems(1) Chunk have le: "length cs \<le> n"
        and short: "length (sock_bytes es) < n - length cs" by auto
      from Cons.prems(2) Chunk False le obtain bs' where
        rec: "rc_net_read_full es (n - length cs) = Some (r, bs', s')" and "bs = cs @ bs'"
        by (auto simp: read_full_Chunk_short split: option.splits)
      with Cons.IH [OF short rec] show ?thesis by auto
    qed
  qed (use Cons in auto)
qed

interpretation sock: exact_reader rc_net_read_full sock_bytes
  by unfold_locales (use read_full_enough read_full_short in auto)

section \<open>The writer\<close>

text \<open>How many bytes the sink accepts before its first error.\<close>

fun sink_room :: "wr_event list \<Rightarrow> nat" where
  "sink_room [] = 0"
| "sink_room (Accept k # es) = k + sink_room es"
| "sink_room (WrIntr # es) = sink_room es"
| "sink_room (WrErr # es) = 0"

lemma write_full_simps [simp]:
  "rc_net_write_full es [] = Some (RC_OK, [], es)"
  "buf \<noteq> [] \<Longrightarrow> rc_net_write_full [] buf = None"
  "buf \<noteq> [] \<Longrightarrow> rc_net_write_full (WrIntr # es) buf = rc_net_write_full es buf"
  "buf \<noteq> [] \<Longrightarrow> rc_net_write_full (WrErr # es) buf = Some (RC_ERR_CONNECT, [], es)"
  by (subst rc_net_write_full.simps, simp)+

lemma write_full_Accept:
  "buf \<noteq> [] \<Longrightarrow> rc_net_write_full (Accept k # es) buf =
     (case rc_net_write_full es (drop k buf) of
        None \<Rightarrow> None | Some (r, out, es'') \<Rightarrow> Some (r, take k buf @ out, es''))"
  by (subst rc_net_write_full.simps) (auto simp: min_def)

lemma write_full_result:
  "rc_net_write_full es buf = Some (r, out, es') \<Longrightarrow>
     (r = RC_OK \<and> out = buf) \<or> (r = RC_ERR_CONNECT \<and> (\<exists>rest. rest \<noteq> [] \<and> buf = out @ rest))"
proof (induction es arbitrary: buf out)
  case Nil
  then show ?case by (cases "buf = []") auto
next
  case (Cons e es)
  show ?case
  proof (cases "buf = []")
    case True
    with Cons.prems show ?thesis by simp
  next
    case buf: False
    show ?thesis
    proof (cases e)
      case (Accept k)
      with Cons.prems buf obtain out' where
        rec: "rc_net_write_full es (drop k buf) = Some (r, out', es')" and o: "out = take k buf @ out'"
        by (auto simp: write_full_Accept split: option.splits)
      from Cons.IH [OF rec] show ?thesis
      proof (elim disjE conjE exE)
        fix rest
        assume "rest \<noteq> []" "drop k buf = out' @ rest" "r = RC_ERR_CONNECT"
        then show ?thesis using o append_take_drop_id [of k buf] by auto
      qed (use o in auto)
    qed (use Cons buf in auto)
  qed
qed

lemma write_full_room:
  "length buf \<le> sink_room es \<Longrightarrow> \<exists>es'. rc_net_write_full es buf = Some (RC_OK, buf, es')"
proof (induction es arbitrary: buf)
  case Nil
  then show ?case by simp
next
  case (Cons e es)
  show ?case
  proof (cases "buf = []")
    case buf: False
    show ?thesis
    proof (cases e)
      case (Accept k)
      with Cons.prems have "length (drop k buf) \<le> sink_room es" by simp
      from Cons.IH [OF this] Accept buf show ?thesis by (auto simp: write_full_Accept)
    qed (use Cons buf in auto)
  qed simp
qed

section \<open>Descriptors: listen, accept, connect\<close>

text \<open>\<^verbatim>\<open>set_low_latency\<close> only sets a socket option whose result is ignored.\<close>

definition set_low_latency :: "env \<Rightarrow> int \<Rightarrow> 'a os_scheme \<Rightarrow> 'a os_scheme" where
  "set_low_latency E fd s = step_os E s"

definition rc_net_listen_loopback :: "env \<Rightarrow> 'a os_scheme \<Rightarrow> int \<times> int \<times> 'a os_scheme" where
  "rc_net_listen_loopback E s =
     (let (fd, s) = sys_open_fd E s in
      if fd < 0 then (-1, 0, s)
      else
        let s = step_os E s; \<comment> \<open>\<^verbatim>\<open>setsockopt(SO_REUSEADDR)\<close>\<close>
            (r, s) = sys_ret E s in \<comment> \<open>\<^verbatim>\<open>bind\<close>\<close>
        if r < 0 then (-1, 0, sys_close E fd s)
        else
          let (r, s) = sys_ret E s in \<comment> \<open>\<^verbatim>\<open>listen\<close>\<close>
          if r < 0 then (-1, 0, sys_close E fd s)
          else
            let port = e_val E (tick s); (r, s) = sys_ret E s in \<comment> \<open>\<^verbatim>\<open>getsockname\<close>\<close>
            if r < 0 then (-1, 0, sys_close E fd s)
            else (fd, port, s))"

definition rc_net_accept :: "env \<Rightarrow> 'a os_scheme \<Rightarrow> int \<times> 'a os_scheme" where
  "rc_net_accept E s =
     (let (fd, s) = sys_open_fd E s in
      if 0 \<le> fd then (fd, set_low_latency E fd s) else (fd, s))"

definition connect_addr_timeout :: "env \<Rightarrow> nat \<Rightarrow> 'a os_scheme \<Rightarrow> int \<times> 'a os_scheme" where
  "connect_addr_timeout E timeout_ms s =
     (let (fd, s) = sys_open_fd E s in
      if fd < 0 then (-1, s)
      else
        let s = step_os E s; \<comment> \<open>\<^verbatim>\<open>fcntl(O_NONBLOCK)\<close>\<close>
            en = e_errno E (tick s);
            (rc, s) = sys_ret E s in \<comment> \<open>\<^verbatim>\<open>connect\<close>\<close>
        if rc < 0 then
          (if en \<noteq> EINPROGRESS then (-1, sys_close E fd s)
           else
             let (p, s) = sys_poll E timeout_ms s in
             if p \<le> 0 then (-1, sys_close E fd s)
             else
               let err = e_val E (tick s); (g, s) = sys_ret E s in \<comment> \<open>\<^verbatim>\<open>getsockopt(SO_ERROR)\<close>\<close>
               if g < 0 \<or> err \<noteq> 0 then (-1, sys_close E fd s)
               else (fd, step_os E s))
        else (fd, step_os E s))"

fun connect_addrs :: "env \<Rightarrow> nat \<Rightarrow> nat \<Rightarrow> 'a os_scheme \<Rightarrow> int \<times> 'a os_scheme" where
  "connect_addrs E 0 timeout_ms s = (-1, s)"
| "connect_addrs E (Suc n) timeout_ms s =
     (let (fd, s) = connect_addr_timeout E timeout_ms s in
      if fd < 0 then connect_addrs E n timeout_ms s else (fd, s))"

definition rc_net_connect_tcp ::
    "env \<Rightarrow> string \<Rightarrow> int \<Rightarrow> int \<Rightarrow> 'a os_scheme \<Rightarrow> int \<times> 'a os_scheme" where
  "rc_net_connect_tcp E host port timeout_ms s =
     (let timeout_ms = (if timeout_ms \<le> 0 then 5000 else nat timeout_ms);
          portstr = fit 8 (show_int port);
          res = e_addrs E host portstr;
          s = step_os E s in
      case res of
        None \<Rightarrow> (-1, s)
      | Some n \<Rightarrow>
          (let (fd, s) = connect_addrs E n timeout_ms s in
           if 0 \<le> fd then (fd, set_low_latency E fd s) else (fd, s)))"

section \<open>Descriptor accounting\<close>

text \<open>The contract of an operation that hands out a descriptor: either it returns a descriptor that
  was free and is now the only addition to the table, or it returns a negative value and the table
  is unchanged.  Everything else of the state that belongs to the caller stays.\<close>

definition gives_fd :: "'a os_scheme \<Rightarrow> int \<times> 'a os_scheme \<Rightarrow> bool" where
  "gives_fd s res \<longleftrightarrow>
     (let (fd, s') = res in
      children s' = children s \<and> os.more s' = os.more s \<and> clock s \<le> clock s' \<and>
      (if 0 \<le> fd then fd \<notin> set (open_fds s) \<and> set (open_fds s') = insert fd (set (open_fds s))
       else set (open_fds s') = set (open_fds s)))"

lemma sys_open_fd_gives: "gives_fd s (sys_open_fd E s)"
  using fresh_fd_ok [of "open_fds s"] by (auto simp: gives_fd_def sys_open_fd_def Let_def)

lemma gives_fd_close:
  assumes "gives_fd s (fd, s1)" and "0 \<le> fd"
    and "open_fds s2 = open_fds s1" "children s2 = children s1" "os.more s2 = os.more s1"
      "clock s1 \<le> clock s2"
  shows "gives_fd s (-1, sys_close E fd s2)"
  using assms step_os_fields(8) [of s2 E]
  by (auto simp: gives_fd_def sys_close_def simp del: step_os_fields(8))

text \<open>Calls that touch neither the descriptor table nor the children.\<close>

definition calm :: "'a os_scheme \<Rightarrow> 'a os_scheme \<Rightarrow> bool" where
  "calm s s' \<longleftrightarrow> open_fds s' = open_fds s \<and> children s' = children s \<and>
     os.more s' = os.more s \<and> clock s \<le> clock s'"

lemma calm_intros [simp]:
  "calm s s" "calm s (step_os E s)" "calm s (sleep_ms E ms s)"
  "sys_ret E s = (r, s') \<Longrightarrow> calm s s'"
  "sys_poll E ms s = (r, s') \<Longrightarrow> calm s s'"
  by (auto simp: calm_def step_os_def sleep_ms_def sys_ret_def sys_poll_def Let_def
      split: if_splits)

lemma calm_trans: "calm s t \<Longrightarrow> calm t u \<Longrightarrow> calm s u"
  by (auto simp: calm_def)

lemma gives_fd_calm: "gives_fd s (fd, s1) \<Longrightarrow> calm s1 s2 \<Longrightarrow> gives_fd s (fd, s2)"
  by (auto simp: gives_fd_def calm_def)

lemma gives_fd_calm_close:
  "gives_fd s (fd, s1) \<Longrightarrow> 0 \<le> fd \<Longrightarrow> calm s1 s2 \<Longrightarrow> gives_fd s (-1, sys_close E fd s2)"
  by (rule gives_fd_close) (auto simp: calm_def)

locale fd_provider =
  fixes op :: "'a os_scheme \<Rightarrow> int \<times> 'a os_scheme"
  assumes gives: "gives_fd s (op s)"
begin

lemma frame:
  "op s = (fd, s') \<Longrightarrow> children s' = children s \<and> os.more s' = os.more s \<and> clock s \<le> clock s'"
  using gives [of s] by (simp add: gives_fd_def)

lemma fail: "op s = (fd, s') \<Longrightarrow> fd < 0 \<Longrightarrow> set (open_fds s') = set (open_fds s)"
  using gives [of s] by (simp add: gives_fd_def)

lemma ok: "op s = (fd, s') \<Longrightarrow> 0 \<le> fd \<Longrightarrow>
    fd \<notin> set (open_fds s) \<and> set (open_fds s') = insert fd (set (open_fds s))"
  using gives [of s] by (simp add: gives_fd_def)

end

lemma connect_addr_timeout_gives: "gives_fd s (connect_addr_timeout E ms s)"
proof -
  obtain fd s1 where o: "sys_open_fd E s = (fd, s1)" by fastforce
  with sys_open_fd_gives [of s E] have g: "gives_fd s (fd, s1)" by simp
  show ?thesis
  proof (cases "fd < 0")
    case True
    with o g show ?thesis by (auto simp: connect_addr_timeout_def gives_fd_def)
  next
    case False
    let ?s2 = "step_os E s1"
    obtain rc s3 where c: "sys_ret E ?s2 = (rc, s3)" by fastforce
    have c13: "calm s1 s3" using calm_trans [of s1 ?s2 s3] c by simp
    obtain p s4 where p: "sys_poll E ms s3 = (p, s4)" by fastforce
    have c14: "calm s1 s4" using calm_trans [OF c13] p by simp
    obtain g2 s5 where g2: "sys_ret E s4 = (g2, s5)" by fastforce
    have c15: "calm s1 s5" using calm_trans [OF c14] g2 by simp
    have "calm s1 (step_os E s3)" "calm s1 (step_os E s5)"
      using calm_trans [OF c13] calm_trans [OF c15] by simp_all
    with False o c p g2 g c13 c14 c15 show ?thesis
      by (auto simp: connect_addr_timeout_def Let_def intro: gives_fd_calm gives_fd_calm_close)
  qed
qed

lemma connect_addrs_gives: "gives_fd s (connect_addrs E n ms s)"
proof (induction n arbitrary: s)
  case 0
  then show ?case by (simp add: gives_fd_def)
next
  case (Suc n)
  obtain fd s1 where c: "connect_addr_timeout E ms s = (fd, s1)" by fastforce
  then have g: "gives_fd s (fd, s1)" using connect_addr_timeout_gives [of s E ms] by simp
  obtain fd2 s2 where c2: "connect_addrs E n ms s1 = (fd2, s2)" by fastforce
  then have "gives_fd s1 (fd2, s2)" using Suc [of s1] by simp
  with g c c2 show ?case by (auto simp: gives_fd_def split: if_splits)
qed

lemma rc_net_accept_gives: "gives_fd s (rc_net_accept E s)"
  using sys_open_fd_gives [of s E]
  by (auto simp: rc_net_accept_def set_low_latency_def split: prod.splits
      intro: gives_fd_calm)

lemma calm_gives_fd: "calm s s1 \<Longrightarrow> gives_fd s1 r \<Longrightarrow> gives_fd s r"
  by (cases r) (auto simp: gives_fd_def calm_def)

lemma rc_net_connect_tcp_gives: "gives_fd s (rc_net_connect_tcp E host port t s)"
proof (rule calm_gives_fd [of s "step_os E s"])
  show "gives_fd (step_os E s) (rc_net_connect_tcp E host port t s)"
  proof (cases "e_addrs E host (fit 8 (show_int port))")
    case None
    then show ?thesis by (simp add: rc_net_connect_tcp_def Let_def gives_fd_def)
  next
    case (Some n)
    then show ?thesis
      using connect_addrs_gives [of "step_os E s" E n "if t \<le> 0 then 5000 else nat t"]
      by (auto simp: rc_net_connect_tcp_def Let_def set_low_latency_def split: prod.splits
          intro: gives_fd_calm)
  qed
qed simp

definition listen_fd_of :: "env \<Rightarrow> 'a os_scheme \<Rightarrow> int \<times> 'a os_scheme" where
  "listen_fd_of E s = (let (fd, port, s') = rc_net_listen_loopback E s in (fd, s'))"

lemma listen_loopback_gives: "gives_fd s (listen_fd_of E s)"
proof -
  obtain fd s1 where o: "sys_open_fd E s = (fd, s1)" by fastforce
  with sys_open_fd_gives [of s E] have g: "gives_fd s (fd, s1)" by simp
  show ?thesis
  proof (cases "fd < 0")
    case True
    with o g show ?thesis
      by (auto simp: listen_fd_of_def rc_net_listen_loopback_def gives_fd_def)
  next
    case False
    let ?s2 = "step_os E s1"
    obtain r3 s3 where c3: "sys_ret E ?s2 = (r3, s3)" by fastforce
    have c13: "calm s1 s3" using calm_trans [of s1 ?s2 s3] c3 by simp
    obtain r4 s4 where c4: "sys_ret E s3 = (r4, s4)" by fastforce
    have c14: "calm s1 s4" using calm_trans [OF c13] c4 by simp
    obtain r5 s5 where c5: "sys_ret E s4 = (r5, s5)" by fastforce
    have c15: "calm s1 s5" using calm_trans [OF c14] c5 by simp
    from False o c3 c4 c5 g c13 c14 c15 show ?thesis
      by (auto simp: listen_fd_of_def rc_net_listen_loopback_def Let_def
          intro: gives_fd_calm gives_fd_calm_close)
  qed
qed

interpretation accept: fd_provider "rc_net_accept E" for E
  by unfold_locales (rule rc_net_accept_gives)

interpretation connect: fd_provider "rc_net_connect_tcp E host port t" for E host port t
  by unfold_locales (rule rc_net_connect_tcp_gives)

interpretation listen: fd_provider "listen_fd_of E" for E
  by unfold_locales (rule listen_loopback_gives)

end
