(* ===== verification/RC_Demux.thy ===== *)
theory RC_Demux
  imports RC_Net
begin

text \<open>
  \<^verbatim>\<open>core/src/demuxer.c\<close>: reading \<^verbatim>\<open>device_meta\<close>, \<^verbatim>\<open>audio_meta\<close> and the packet framing, and the
  peer's writers (\<^verbatim>\<open>DesktopConnection.writeDeviceMeta\<close>, \<^verbatim>\<open>writeAudioMeta\<close>,
  \<^verbatim>\<open>ScreenEncoder.writePacket\<close> of the Java server) as the reference encoders of the round trips.
\<close>

section \<open>Session metadata\<close>

record rc_device_meta =
  dm_magic :: u32
  dm_version :: u16
  dm_codec_id :: u32
  dm_width :: u16
  dm_height :: u16
  device_name :: "byte list"

record rc_audio_meta =
  am_magic :: u32
  am_codec_id :: u32
  am_sample_rate :: u32
  am_channels :: byte

text \<open>The out-pointer may be NULL (\<^term>\<open>None\<close>).  On a magic mismatch the fields are already
  stored when the error is returned.\<close>

definition rc_demux_read_meta ::
    "sock \<Rightarrow> rc_device_meta option \<Rightarrow> (rc_status \<times> rc_device_meta option \<times> sock) option" where
  "rc_demux_read_meta s out =
     (case out of
        None \<Rightarrow> Some (RC_ERR_INVALID_ARG, None, s)
      | Some m \<Rightarrow> do {
          (r, hdr, s) \<leftarrow> rc_net_read_full s (4 + 2 + 4 + 2 + 2 + RC_DEVICE_NAME_LEN);
          if r \<noteq> RC_OK then Some (r, Some m, s)
          else
            let m = \<lparr>dm_magic = be32 hdr, dm_version = be16 (drop 4 hdr),
                     dm_codec_id = be32 (drop 6 hdr), dm_width = be16 (drop 10 hdr),
                     dm_height = be16 (drop 12 hdr),
                     device_name =
                       (take RC_DEVICE_NAME_LEN (drop 14 hdr))[RC_DEVICE_NAME_LEN - 1 := 0]\<rparr> in
            if dm_magic m \<noteq> RC_META_MAGIC then Some (RC_ERR_PROTOCOL, Some m, s)
            else Some (RC_OK, Some m, s)
        })"

definition rc_demux_read_audio_meta ::
    "sock \<Rightarrow> rc_audio_meta option \<Rightarrow> (rc_status \<times> rc_audio_meta option \<times> sock) option" where
  "rc_demux_read_audio_meta s out =
     (case out of
        None \<Rightarrow> Some (RC_ERR_INVALID_ARG, None, s)
      | Some m \<Rightarrow> do {
          (r, hdr, s) \<leftarrow> rc_net_read_full s (4 + 4 + 4 + 1);
          if r \<noteq> RC_OK then Some (r, Some m, s)
          else
            let m = \<lparr>am_magic = be32 hdr, am_codec_id = be32 (drop 4 hdr),
                     am_sample_rate = be32 (drop 8 hdr), am_channels = hdr ! 12\<rparr> in
            if am_magic m \<noteq> RC_AUDIO_MAGIC then Some (RC_ERR_PROTOCOL, Some m, s)
            else Some (RC_OK, Some m, s)
        })"

section \<open>Packets\<close>

text \<open>The reusable packet buffer: its contents and capacity.  \<^verbatim>\<open>realloc\<close> is a parameter that maps
  the old block and the new size to the new block, or \<^term>\<open>None\<close> when memory is exhausted.\<close>

type_synonym reallocator = "byte list \<Rightarrow> nat \<Rightarrow> byte list option"

definition realloc_laws :: "reallocator \<Rightarrow> bool" where
  "realloc_laws ra \<longleftrightarrow>
     (\<forall>old n new. ra old n = Some new \<longrightarrow>
        length new = n \<and> take (min n (length old)) new = take (min n (length old)) old)"

record pktbuf =
  pb_data :: "byte list"
  pb_cap :: nat

record pkt_out =
  out_len :: nat
  is_config :: bool
  is_key :: bool
  pts_us :: int

definition rc_demux_read_packet ::
    "reallocator \<Rightarrow> sock \<Rightarrow> pktbuf \<Rightarrow> pkt_out \<Rightarrow> (rc_status \<times> pktbuf \<times> pkt_out \<times> sock) option" where
  "rc_demux_read_packet ra s pb out = do {
     (r, hdr, s) \<leftarrow> rc_net_read_full s (8 + 4);
     if r \<noteq> RC_OK then Some (r, pb, out, s)
     else
       let flags = be64 hdr;
           len = be32 (drop 8 hdr);
           out = out\<lparr>is_config := (flags AND RC_PKT_FLAG_CONFIG \<noteq> 0),
                     is_key := (flags AND RC_PKT_FLAG_KEYFRAME \<noteq> 0),
                     pts_us := uint (flags AND RC_PKT_PTS_MASK)\<rparr> in
       if len = 0 \<or> len > push_bit 20 32 then Some (RC_ERR_PROTOCOL, pb, out, s)
       else
         let grown = (if pb_cap pb < unat len
                      then (case ra (pb_data pb) (unat len) of
                              None \<Rightarrow> None
                            | Some nb \<Rightarrow> Some \<lparr>pb_data = nb, pb_cap = unat len\<rparr>)
                      else Some pb) in
         case grown of
           None \<Rightarrow> Some (RC_ERR_NOMEM, pb, out, s)
         | Some pb \<Rightarrow> do {
             (r, bs, s) \<leftarrow> rc_net_read_full s (unat len);
             let pb = pb\<lparr>pb_data := bs @ drop (length bs) (pb_data pb)\<rparr>;
             if r \<noteq> RC_OK then Some (r, pb, out, s)
             else Some (RC_OK, pb, out\<lparr>out_len := unat len\<rparr>, s)
           }
   }"

text \<open>The payload a caller sees: \<^verbatim>\<open>buf[0..len)\<close>.\<close>

definition payload :: "pktbuf \<Rightarrow> pkt_out \<Rightarrow> byte list" where
  "payload pb out = take (out_len out) (pb_data pb)"

definition pktbuf_ok :: "pktbuf \<Rightarrow> bool" where
  "pktbuf_ok pb \<longleftrightarrow> length (pb_data pb) = pb_cap pb"

section \<open>The server's encoders\<close>

definition writeDeviceMeta :: "u32 \<Rightarrow> u16 \<Rightarrow> u16 \<Rightarrow> byte list \<Rightarrow> byte list" where
  "writeDeviceMeta codecId width height name =
     put_u32 RC_META_MAGIC @ put_u16 RC_PROTO_VERSION @ put_u32 codecId @ put_u16 width
     @ put_u16 height @ take (RC_DEVICE_NAME_LEN - 1) name
     @ replicate (RC_DEVICE_NAME_LEN - length (take (RC_DEVICE_NAME_LEN - 1) name)) 0"

definition writeAudioMeta :: "u32 \<Rightarrow> u32 \<Rightarrow> byte \<Rightarrow> byte list" where
  "writeAudioMeta codecId sampleRate channels =
     put_u32 RC_AUDIO_MAGIC @ put_u32 codecId @ put_u32 sampleRate @ [channels]"

record packet =
  pk_config :: bool
  pk_key :: bool
  pk_pts :: u64
  pk_data :: "byte list"

definition packet_flags :: "packet \<Rightarrow> u64" where
  "packet_flags p = (pk_pts p AND RC_PKT_PTS_MASK)
     OR (if pk_config p then RC_PKT_FLAG_CONFIG else 0)
     OR (if pk_key p then RC_PKT_FLAG_KEYFRAME else 0)"

definition writePacket :: "packet \<Rightarrow> byte list" where
  "writePacket p = put_u64 (packet_flags p) @ put_u32 (of_nat (length (pk_data p))) @ pk_data p"

definition packet_ok :: "packet \<Rightarrow> bool" where
  "packet_ok p \<longleftrightarrow> 0 < length (pk_data p) \<and> length (pk_data p) \<le> 33554432"

section \<open>Flag arithmetic\<close>

lemma bit_config [simp]: "bit RC_PKT_FLAG_CONFIG n \<longleftrightarrow> n = 63"
  unfolding RC_PKT_FLAG_CONFIG_def push_bit_of_1 by (auto simp only: bit_exp_iff possible_bit_word)
    simp

lemma bit_keyframe [simp]: "bit RC_PKT_FLAG_KEYFRAME n \<longleftrightarrow> n = 62"
  unfolding RC_PKT_FLAG_KEYFRAME_def push_bit_of_1
  by (auto simp only: bit_exp_iff possible_bit_word) simp

lemma config_flag: "(w AND RC_PKT_FLAG_CONFIG \<noteq> 0) = bit w 63"
  unfolding RC_PKT_FLAG_CONFIG_def push_bit_of_1 by (simp only: and_exp_eq_0_iff_not_bit) simp

lemma keyframe_flag: "(w AND RC_PKT_FLAG_KEYFRAME \<noteq> 0) = bit w 62"
  unfolding RC_PKT_FLAG_KEYFRAME_def push_bit_of_1 by (simp only: and_exp_eq_0_iff_not_bit) simp

lemma pts_mask: "RC_PKT_PTS_MASK = mask 62"
  unfolding RC_PKT_PTS_MASK_def push_bit_of_1 by (simp only: mask_eq_exp_minus_1)

lemma packet_flags_fields [simp]:
  "(packet_flags p AND RC_PKT_FLAG_CONFIG \<noteq> 0) = pk_config p"
  "(packet_flags p AND RC_PKT_FLAG_KEYFRAME \<noteq> 0) = pk_key p"
  "packet_flags p AND RC_PKT_PTS_MASK = pk_pts p AND RC_PKT_PTS_MASK"
proof -
  show "(packet_flags p AND RC_PKT_FLAG_CONFIG \<noteq> 0) = pk_config p"
    unfolding config_flag by (simp add: packet_flags_def pts_mask bit_simps)
  show "(packet_flags p AND RC_PKT_FLAG_KEYFRAME \<noteq> 0) = pk_key p"
    unfolding keyframe_flag by (simp add: packet_flags_def pts_mask bit_simps)
  show "packet_flags p AND RC_PKT_PTS_MASK = pk_pts p AND RC_PKT_PTS_MASK"
    by (rule bit_word_eqI) (auto simp: packet_flags_def pts_mask bit_simps)
qed

lemma pts_bound: "0 \<le> uint (w AND RC_PKT_PTS_MASK)" "uint (w AND RC_PKT_PTS_MASK) < 2 ^ 62"
proof -
  have "uint (w AND RC_PKT_PTS_MASK) = take_bit 62 (uint w)"
    by (simp add: pts_mask take_bit_eq_mask [symmetric] unsigned_take_bit_eq)
  then show "uint (w AND RC_PKT_PTS_MASK) < 2 ^ 62" by (simp only: take_bit_int_less_exp)
qed simp

section \<open>Reading one packet\<close>

lemma hdr_fields:
  assumes "pending = writePacket p @ rest"
  shows "be64 (take 12 pending) = packet_flags p"
    and "be32 (drop 8 (take 12 pending)) = of_nat (length (pk_data p))"
    and "drop 12 pending = pk_data p @ rest"
proof -
  let ?a = "put_u64 (packet_flags p)" and ?b = "put_u32 (of_nat (length (pk_data p)))"
  have t: "take 12 pending = ?a @ ?b" by (simp add: assms writePacket_def)
  show "be64 (take 12 pending) = packet_flags p" unfolding t by (rule be64_put_u64)
  have "drop 8 (take 12 pending) = ?b @ []" unfolding t by simp
  then show "be32 (drop 8 (take 12 pending)) = of_nat (length (pk_data p))"
    by (simp only: be32_put_u32)
  show "drop 12 pending = pk_data p @ rest" by (simp add: assms writePacket_def)
qed

lemma packet_len_word:
  assumes "packet_ok p"
  shows "unat (of_nat (length (pk_data p)) :: u32) = length (pk_data p)"
    and "(of_nat (length (pk_data p)) :: u32) \<noteq> 0"
    and "\<not> (of_nat (length (pk_data p)) :: u32) > push_bit 20 32"
proof -
  have b: "length (pk_data p) \<le> 33554432" "0 < length (pk_data p)"
    using assms by (auto simp: packet_ok_def)
  then show u: "unat (of_nat (length (pk_data p)) :: u32) = length (pk_data p)"
    by (simp add: unat_of_nat take_bit_nat_eq_self)
  show "(of_nat (length (pk_data p)) :: u32) \<noteq> 0"
  proof
    assume "(of_nat (length (pk_data p)) :: u32) = 0"
    then have "unat (of_nat (length (pk_data p)) :: u32) = 0" by (simp only: unat_0)
    then show False using u b by simp
  qed
  show "\<not> (of_nat (length (pk_data p)) :: u32) > push_bit 20 32"
    using u b by (simp add: word_less_nat_alt)
qed

definition pkt_view :: "pktbuf \<Rightarrow> pkt_out \<Rightarrow> bool \<times> bool \<times> int \<times> byte list" where
  "pkt_view pb out = (is_config out, is_key out, pts_us out, payload pb out)"

definition packet_view :: "packet \<Rightarrow> bool \<times> bool \<times> int \<times> byte list" where
  "packet_view p = (pk_config p, pk_key p, uint (pk_pts p AND RC_PKT_PTS_MASK), pk_data p)"

lemma read_packet_complete:
  assumes ra: "realloc_laws ra" "\<And>old n. ra old n \<noteq> None"
    and ok: "packet_ok p" and pb: "pktbuf_ok pb"
    and pend: "sock_bytes s = writePacket p @ rest"
  shows "\<exists>pb' out' s'. rc_demux_read_packet ra s pb out = Some (RC_OK, pb', out', s') \<and>
           pkt_view pb' out' = packet_view p \<and> sock_bytes s' = rest \<and> pktbuf_ok pb' \<and>
           pb_cap pb' = max (pb_cap pb) (length (pk_data p))"
proof -
  let ?n = "length (pk_data p)"
  note w = packet_len_word [OF ok]
  obtain s1 where s1: "rc_net_read_full s 12 = Some (RC_OK, take 12 (sock_bytes s), s1)"
    and p1: "sock_bytes s1 = pk_data p @ rest"
    using sock.rd_enough [of 12 s] hdr_fields(3) [OF pend] pend by (auto simp: writePacket_def)
  obtain s2 where s2: "rc_net_read_full s1 ?n = Some (RC_OK, pk_data p, s2)"
    and p2: "sock_bytes s2 = rest"
    using sock.rd_prefix [OF p1] by blast
  obtain nb where nb: "ra (pb_data pb) ?n = Some nb" using ra(2) by fastforce
  then have len_nb: "length nb = ?n" using ra(1) by (simp add: realloc_laws_def)
  show ?thesis
    using s1 s2 p2 w pb nb len_nb hdr_fields [OF pend]
    by (auto simp: rc_demux_read_packet_def Let_def pkt_view_def packet_view_def payload_def
        pktbuf_ok_def max_def)
qed

text \<open>Reading \<open>n\<close> packets in a row, as the receive loops do.\<close>

fun read_packets :: "reallocator \<Rightarrow> nat \<Rightarrow> sock \<Rightarrow> pktbuf \<Rightarrow>
    ((bool \<times> bool \<times> int \<times> byte list) list \<times> pktbuf \<times> sock) option" where
  "read_packets ra 0 s pb = Some ([], pb, s)"
| "read_packets ra (Suc n) s pb =
     (case rc_demux_read_packet ra s pb \<lparr>out_len = 0, is_config = False, is_key = False, pts_us = 0\<rparr> of
        Some (RC_OK, pb', out, s') \<Rightarrow>
          (case read_packets ra n s' pb' of
             None \<Rightarrow> None
           | Some (vs, pb'', s'') \<Rightarrow> Some (pkt_view pb' out # vs, pb'', s''))
      | _ \<Rightarrow> None)"

text \<open>
  C1: framing round trip.  Whatever way the network cuts the byte stream into chunks (and however
  often reads are interrupted), reading \<open>n\<close> packets from a stream that begins with \<open>n\<close> packets the
  server wrote returns exactly those packets in order (flags, timestamp modulo the 62-bit mask,
  payload) and leaves the rest of the stream unread.
\<close>

theorem demux_stream_roundtrip:
  assumes "realloc_laws ra" and "\<And>old n. ra old n \<noteq> None"
    and "list_all packet_ok ps" and "pktbuf_ok pb"
    and "sock_bytes s = concat (map writePacket ps) @ rest"
  shows "\<exists>pb' s'. read_packets ra (length ps) s pb = Some (map packet_view ps, pb', s') \<and>
           sock_bytes s' = rest"
  using assms(3-5)
proof (induction ps arbitrary: s pb)
  case Nil
  then show ?case by simp
next
  case (Cons p ps)
  let ?o = "\<lparr>out_len = 0, is_config = False, is_key = False, pts_us = 0\<rparr>"
  have ok: "packet_ok p" and pend: "sock_bytes s = writePacket p @ (concat (map writePacket ps) @ rest)"
    using Cons.prems by auto
  obtain pb1 o1 s1 where 1: "rc_demux_read_packet ra s pb ?o = Some (RC_OK, pb1, o1, s1)"
    "pkt_view pb1 o1 = packet_view p" "sock_bytes s1 = concat (map writePacket ps) @ rest"
    "pktbuf_ok pb1"
    using read_packet_complete [OF assms(1,2) ok Cons.prems(2) pend, of ?o] by blast
  obtain pb2 s2 where "read_packets ra (length ps) s1 pb1 = Some (map packet_view ps, pb2, s2)"
    "sock_bytes s2 = rest"
    using Cons.IH [OF _ 1(4) 1(3)] Cons.prems(1) by auto
  with 1 show ?case by simp
qed

definition libc_realloc :: reallocator where
  "libc_realloc old n = Some (take n old @ replicate (n - length old) 0)"

lemma libc_realloc_laws: "realloc_laws libc_realloc"
  by (auto simp: realloc_laws_def libc_realloc_def min_def)

definition demo_packets :: "packet list" where
  "demo_packets =
     [\<lparr>pk_config = True, pk_key = False, pk_pts = 0, pk_data = [0, 0, 0, 1, 103]\<rparr>,
      \<lparr>pk_config = False, pk_key = True, pk_pts = 16667, pk_data = [0, 0, 1]\<rparr>]"

theorem demux_stream_roundtrip_witness:
  "\<exists>pb' s'. read_packets libc_realloc 2
      [Chunk (take 7 (concat (map writePacket demo_packets))), Eintr,
       Chunk (drop 7 (concat (map writePacket demo_packets))), Chunk [42]]
      \<lparr>pb_data = [], pb_cap = 0\<rparr> = Some (map packet_view demo_packets, pb', s') \<and>
    sock_bytes s' = [42]"
proof -
  let ?w = "concat (map writePacket demo_packets)"
  have "7 < length ?w" by (simp add: demo_packets_def writePacket_def)
  then have "take 7 ?w \<noteq> [] \<and> drop 7 ?w \<noteq> []" by (intro take_drop_nonempty) simp
  then have b: "sock_bytes [Chunk (take 7 ?w), Eintr, Chunk (drop 7 ?w), Chunk [42]] = ?w @ [42]"
    by simp
  have n: "length demo_packets = 2" by (simp add: demo_packets_def)
  show ?thesis
    using demux_stream_roundtrip [OF libc_realloc_laws _ _ _ b, of "\<lparr>pb_data = [], pb_cap = 0\<rparr>"]
    unfolding n by (simp add: libc_realloc_def demo_packets_def packet_ok_def pktbuf_ok_def)
qed

text \<open>
  C15: memory safety and bounds of the packet reader on every input stream, malformed ones included.
  The payload never overruns the buffer (the buffer length stays its capacity and never shrinks),
  the capacity stays below 32 MiB however large a length the peer announces, an accepted packet has
  1 byte to 32 MiB and a non-negative 62-bit timestamp, and the only errors are a lost connection,
  a bad length and exhausted memory.
\<close>

theorem read_packet_safe:
  assumes "rc_demux_read_packet ra s pb out = Some (r, pb', out', s')"
    and "realloc_laws ra" and "pktbuf_ok pb"
  shows "pktbuf_ok pb' \<and> pb_cap pb \<le> pb_cap pb' \<and> pb_cap pb' \<le> max (pb_cap pb) 33554432 \<and>
         r \<in> {RC_OK, RC_ERR_CONNECT, RC_ERR_PROTOCOL, RC_ERR_NOMEM} \<and>
         (r = RC_OK \<longrightarrow> 1 \<le> out_len out' \<and> out_len out' \<le> 33554432 \<and>
            out_len out' \<le> pb_cap pb' \<and> 0 \<le> pts_us out' \<and> pts_us out' < 2 ^ 62)"
proof -
  from assms(1) obtain r1 hdr s1 where h: "rc_net_read_full s 12 = Some (r1, hdr, s1)"
    by (cases "rc_net_read_full s 12") (auto simp: rc_demux_read_packet_def)
  show ?thesis
  proof (cases "r1 = RC_OK")
    case False
    with assms h sock.rd_errD(1) [OF h] show ?thesis by (simp add: rc_demux_read_packet_def)
  next
    case r1: True
    let ?len = "be32 (drop 8 hdr)"
    show ?thesis
    proof (cases "?len = 0 \<or> ?len > push_bit 20 32")
      case True
      with assms h r1 show ?thesis by (auto simp: rc_demux_read_packet_def Let_def)
    next
      case False
      then have len: "0 < unat ?len" "unat ?len \<le> 33554432"
        by (auto simp: word_le_nat_alt word_less_nat_alt unat_gt_0)
      define pb1 where "pb1 = (if pb_cap pb < unat ?len
        then (case ra (pb_data pb) (unat ?len) of None \<Rightarrow> None
              | Some nb \<Rightarrow> Some \<lparr>pb_data = nb, pb_cap = unat ?len\<rparr>) else Some pb)"
      show ?thesis
      proof (cases pb1)
        case None
        with assms h r1 False show ?thesis by (auto simp: rc_demux_read_packet_def Let_def pb1_def)
      next
        case (Some b)
        have b: "pktbuf_ok b" "unat ?len \<le> pb_cap b" "pb_cap b = max (pb_cap pb) (unat ?len)"
          using Some assms(2,3) by (auto simp: pb1_def pktbuf_ok_def realloc_laws_def
              split: if_splits option.splits)
        from assms(1) h r1 False Some obtain r2 bs s2 where
          rd: "rc_net_read_full s1 (unat ?len) = Some (r2, bs, s2)"
          by (cases "rc_net_read_full s1 (unat ?len)")
            (auto simp: rc_demux_read_packet_def Let_def pb1_def [symmetric])
        then have res: "r = r2" "pb' = b\<lparr>pb_data := bs @ drop (length bs) (pb_data b)\<rparr>"
          and out: "r2 = RC_OK \<Longrightarrow> out_len out' = unat ?len \<and>
              pts_us out' = uint (be64 hdr AND RC_PKT_PTS_MASK)"
          using assms(1) h r1 False Some
          by (auto simp: rc_demux_read_packet_def Let_def pb1_def [symmetric] split: if_splits)
        have bs: "length bs \<le> unat ?len \<and> r2 \<in> {RC_OK, RC_ERR_CONNECT}"
          using sock.rd_short [OF _ rd] sock.rd_okD [of s1 "unat ?len" bs s2]
            sock.rd_errD(1) [OF rd] sock.rd_errD(2) [OF rd] rd
          by (cases "r2 = RC_OK") auto
        then have "pktbuf_ok pb'" "pb_cap pb' = max (pb_cap pb) (unat ?len)"
          using b res by (auto simp: pktbuf_ok_def)
        then show ?thesis using res bs out len pts_bound [of "be64 hdr"] by auto
      qed
    qed
  qed
qed

theorem read_packet_safe_witness:
  "rc_demux_read_packet libc_realloc [Chunk (replicate 12 255)] \<lparr>pb_data = [], pb_cap = 0\<rparr>
       \<lparr>out_len = 0, is_config = False, is_key = False, pts_us = 0\<rparr>
     = Some (RC_ERR_PROTOCOL, \<lparr>pb_data = [], pb_cap = 0\<rparr>,
         \<lparr>out_len = 0, is_config = True, is_key = True, pts_us = 2 ^ 62 - 1\<rparr>, [])
   \<and> RC_ERR_PROTOCOL \<in> {RC_OK, RC_ERR_CONNECT, RC_ERR_PROTOCOL, RC_ERR_NOMEM}"
proof -
  let ?o = "\<lparr>out_len = 0, is_config = False, is_key = False, pts_us = 0\<rparr>"
    and ?b = "\<lparr>pb_data = [], pb_cap = 0\<rparr>"
  have e: "rc_demux_read_packet libc_realloc [Chunk (replicate 12 255)] ?b ?o
     = Some (RC_ERR_PROTOCOL, ?b,
         \<lparr>out_len = 0, is_config = True, is_key = True, pts_us = 2 ^ 62 - 1\<rparr>, [])"
    by code_simp
  show ?thesis
    using e read_packet_safe [OF e libc_realloc_laws] by (simp add: pktbuf_ok_def)
qed

section \<open>Metadata round trips\<close>

lemma read_meta_written:
  assumes "sock_bytes s = writeDeviceMeta cid w h name @ rest"
  shows "\<exists>s'. rc_demux_read_meta s (Some m) =
      Some (RC_OK, Some \<lparr>dm_magic = RC_META_MAGIC, dm_version = RC_PROTO_VERSION,
          dm_codec_id = cid, dm_width = w, dm_height = h,
          device_name = take 63 name @ replicate (64 - length (take 63 name)) 0\<rparr>, s') \<and>
      sock_bytes s' = rest"
proof -
  define nm where "nm = take 63 name @ replicate (64 - length (take 63 name)) (0 :: byte)"
  have len: "length nm = 64" by (simp add: nm_def)
  have last: "nm[63 := 0] = nm"
    by (rule nth_equalityI) (auto simp: nm_def nth_append nth_list_update)
  have w: "writeDeviceMeta cid w h name = put_u32 RC_META_MAGIC @ put_u16 RC_PROTO_VERSION
      @ put_u32 cid @ put_u16 w @ put_u16 h @ nm"
    by (simp add: writeDeviceMeta_def RC_DEVICE_NAME_LEN_def nm_def)
  have "length (writeDeviceMeta cid w h name) = 78" by (simp add: w len)
  then obtain s' where s': "rc_net_read_full s 78 = Some (RC_OK, writeDeviceMeta cid w h name, s')"
    "sock_bytes s' = rest"
    using sock.rd_prefix [OF assms] by blast
  have f: "be32 (writeDeviceMeta cid w h name) = RC_META_MAGIC"
    "be16 (drop 4 (writeDeviceMeta cid w h name)) = RC_PROTO_VERSION"
    "be32 (drop 6 (writeDeviceMeta cid w h name)) = cid"
    "be16 (drop 10 (writeDeviceMeta cid w h name)) = w"
    "be16 (drop 12 (writeDeviceMeta cid w h name)) = h"
    "take 64 (drop 14 (writeDeviceMeta cid w h name)) = nm"
    unfolding w by (simp_all add: len)
  show ?thesis
    using s' last by (simp add: rc_demux_read_meta_def RC_DEVICE_NAME_LEN_def f nm_def)
qed

text \<open>
  Handshake round trip.  A \<^verbatim>\<open>device_meta\<close> record written by the server is read back with the
  codec, width and height it was written with, for every chunking of the stream; the name is its
  first 63 bytes, NUL-padded to 64.
\<close>

lemma device_meta_roundtrip:
  assumes "sock_bytes s = writeDeviceMeta cid w h name @ rest"
  shows "\<exists>s'. rc_demux_read_meta s (Some m) =
      Some (RC_OK, Some \<lparr>dm_magic = RC_META_MAGIC, dm_version = RC_PROTO_VERSION,
          dm_codec_id = cid, dm_width = w, dm_height = h,
          device_name = take 63 name @ replicate (64 - length (take 63 name)) 0\<rparr>, s') \<and>
      sock_bytes s' = rest"
  by (rule read_meta_written [OF assms])

lemma device_meta_roundtrip_example:
  "\<exists>s'. rc_demux_read_meta [Chunk (writeDeviceMeta RC_CODEC_ID_H264 1080 2400 [80, 105])]
      (Some \<lparr>dm_magic = 0, dm_version = 0, dm_codec_id = 0, dm_width = 0, dm_height = 0,
        device_name = []\<rparr>) =
      Some (RC_OK, Some \<lparr>dm_magic = RC_META_MAGIC, dm_version = RC_PROTO_VERSION,
          dm_codec_id = RC_CODEC_ID_H264, dm_width = 1080, dm_height = 2400,
          device_name = [80, 105] @ replicate 62 0\<rparr>, s') \<and> sock_bytes s' = []"
proof -
  let ?w = "writeDeviceMeta RC_CODEC_ID_H264 1080 2400 [80, 105]"
  have "?w \<noteq> []" by (simp add: writeDeviceMeta_def put_u32_def)
  then have b: "sock_bytes [Chunk ?w] = ?w @ []" by simp
  show ?thesis using device_meta_roundtrip [OF b] by simp
qed

lemma audio_meta_roundtrip:
  assumes "sock_bytes s = writeAudioMeta cid rate ch @ rest"
  shows "\<exists>s'. rc_demux_read_audio_meta s (Some m) =
      Some (RC_OK, Some \<lparr>am_magic = RC_AUDIO_MAGIC, am_codec_id = cid, am_sample_rate = rate,
          am_channels = ch\<rparr>, s') \<and> sock_bytes s' = rest"
proof -
  have "length (writeAudioMeta cid rate ch) = 13" by (simp add: writeAudioMeta_def)
  then obtain s' where s': "rc_net_read_full s 13 = Some (RC_OK, writeAudioMeta cid rate ch, s')"
    "sock_bytes s' = rest"
    using sock.rd_prefix [OF assms] by blast
  have f: "be32 (writeAudioMeta cid rate ch) = RC_AUDIO_MAGIC"
    "be32 (drop 4 (writeAudioMeta cid rate ch)) = cid"
    "be32 (drop 8 (writeAudioMeta cid rate ch)) = rate"
    "writeAudioMeta cid rate ch ! 12 = ch"
    by (simp_all add: writeAudioMeta_def nth_append)
  from s' f show ?thesis by (simp add: rc_demux_read_audio_meta_def)
qed

end
