(* ===== verification/RC_Audio.thy ===== *)
theory RC_Audio
  imports RC_Demux
begin

text \<open>
  \<^verbatim>\<open>core/src/audio.c\<close>: the Opus player.  FFmpeg and miniaudio are parameters: \<^verbatim>\<open>audio_env\<close> says which
  of their initialisation calls succeed and what the decoder and the resampler produce.  The ring
  buffer between the decoding thread and the device callback is a bounded queue of sample frames.
\<close>

section \<open>Construction\<close>

type_synonym pcm = "16 word list"   \<comment> \<open>one sample frame: a sample per channel\<close>

datatype aframe = AFrame "byte list" nat | AEof | AErr

record audio_env =
  a_find_decoder :: bool
  a_alloc_ctx :: bool
  a_extradata :: bool
  a_open :: bool
  a_alloc_frames :: bool
  a_rb_init :: "nat \<Rightarrow> nat \<Rightarrow> bool"
  a_device_init :: bool
  a_device_start :: bool
  a_send :: "byte list list \<Rightarrow> bool"            \<comment> \<open>\<^verbatim>\<open>avcodec_send_packet\<close>, by the packets sent so far\<close>
  a_recv :: "byte list list \<Rightarrow> aframe list"    \<comment> \<open>what the receive calls then give\<close>
  a_swr_alloc :: "aframe \<Rightarrow> bool"               \<comment> \<open>\<^verbatim>\<open>swr_alloc_set_opts2\<close>\<close>
  a_swr_init :: "aframe \<Rightarrow> bool"
  a_out_samples :: "aframe \<Rightarrow> int"              \<comment> \<open>\<^verbatim>\<open>swr_get_out_samples\<close>\<close>
  a_realloc :: "int \<Rightarrow> bool"
  a_convert :: "aframe \<Rightarrow> pcm list option"      \<comment> \<open>\<^verbatim>\<open>swr_convert\<close>; \<^term>\<open>None\<close> is a negative result\<close>

record rc_audio =
  a_channels :: int
  a_sample_rate :: int
  a_extra :: "byte list"     \<comment> \<open>the synthesised \<^verbatim>\<open>OpusHead\<close>\<close>
  a_rb_cap :: nat            \<comment> \<open>ring capacity in sample frames\<close>
  a_ring :: "pcm list"
  a_sent :: "byte list list"
  a_swr :: bool
  a_out_cap :: int
  a_frames_played :: int

definition put_le16 :: "u16 \<Rightarrow> byte list" where
  "put_le16 v = [ucast v, ucast (drop_bit 8 v)]"

definition put_le32 :: "u32 \<Rightarrow> byte list" where
  "put_le32 v = [ucast v, ucast (drop_bit 8 v), ucast (drop_bit 16 v), ucast (drop_bit 24 v)]"

definition ascii :: "string \<Rightarrow> byte list" where
  "ascii s = map (\<lambda>c. of_nat (of_char c)) s"

definition set_opus_extradata :: "int \<Rightarrow> int \<Rightarrow> byte list" where
  "set_opus_extradata channels sample_rate =
     ascii ''OpusHead'' @ [1] @ [word_of_int channels] @ put_le16 0
     @ put_le32 (word_of_int sample_rate) @ put_le16 0 @ [0]"

definition RC_AUDIO_BUFFER_MS :: int where "RC_AUDIO_BUFFER_MS = 80"

text \<open>\<^verbatim>\<open>(ma_uint32)((long)rate * 80 / 1000)\<close>, at least 2048; C division truncates towards zero.\<close>

definition ring_frames :: "int \<Rightarrow> nat" where
  "ring_frames sample_rate =
     (let q = sgn sample_rate * (\<bar>sample_rate * RC_AUDIO_BUFFER_MS\<bar> div 1000);
          n = unat (word_of_int q :: u32)
      in if n < 2048 then 2048 else n)"

definition rc_audio_create :: "audio_env \<Rightarrow> rc_audio_meta option \<Rightarrow> rc_audio option" where
  "rc_audio_create AE meta =
     (case meta of
        None \<Rightarrow> None
      | Some m \<Rightarrow>
          if am_codec_id m = RC_ACODEC_ID_NONE then None
          else if am_codec_id m \<noteq> RC_ACODEC_ID_OPUS then None
          else
            let channels = (if am_channels m \<noteq> 0 then uint (am_channels m) else 2);
                sample_rate = (if am_sample_rate m \<noteq> 0 then sint (am_sample_rate m) else 48000);
                rb_frames = ring_frames sample_rate in
            if \<not> a_find_decoder AE then None
            else if \<not> a_alloc_ctx AE then None
            else if \<not> a_extradata AE then None
            else if \<not> a_open AE then None
            else if \<not> a_alloc_frames AE then None
            else if \<not> a_rb_init AE (nat channels) rb_frames then None
            else if \<not> a_device_init AE then None
            else if \<not> a_device_start AE then None
            else Some \<lparr>a_channels = channels, a_sample_rate = sample_rate,
                       a_extra = set_opus_extradata channels sample_rate,
                       a_rb_cap = rb_frames, a_ring = [], a_sent = [], a_swr = False, a_out_cap = 0,
                       a_frames_played = 0\<rparr>)"

section \<open>The ring buffer\<close>

text \<open>miniaudio hands out the ring in contiguous pieces: an acquire grants at most what is asked for,
  at most what is there, and at most the piece \<open>lim\<close> up to the wrap-around point.\<close>

fun data_cb_loop :: "nat list \<Rightarrow> pcm list \<Rightarrow> nat \<Rightarrow> pcm list \<times> pcm list \<times> nat" where
  "data_cb_loop lims ring 0 = ([], ring, 0)"
| "data_cb_loop [] ring (Suc r) = ([], ring, Suc r)"
| "data_cb_loop (lim # lims) ring (Suc r) =
     (let n = min (Suc r) (min (length ring) lim) in
      if n = 0 then ([], ring, Suc r)
      else (let (out, ring', r') = data_cb_loop lims (drop n ring) (Suc r - n)
            in (take n ring @ out, ring', r')))"

text \<open>\<^verbatim>\<open>audio_data_cb\<close>: the sample frames for the device and the ring afterwards.\<close>

definition audio_data_cb :: "nat list \<Rightarrow> nat \<Rightarrow> pcm list \<Rightarrow> nat \<Rightarrow> pcm list \<times> pcm list" where
  "audio_data_cb lims channels ring frame_count =
     (let (out, ring', remaining) = data_cb_loop lims ring frame_count
      in (out @ replicate remaining (replicate channels 0), ring'))"

text \<open>One iteration of the writer as the outside sees it: the piece the ring grants, whether the acquire
  fails, and how many sample frames the device callback takes meanwhile.\<close>

record rb_tick =
  rt_lim :: nat
  rt_err :: bool
  rt_drain :: nat

text \<open>\<^verbatim>\<open>rb_write_blocking\<close>: the ring afterwards and the frames played meanwhile.  The list has one entry
  per iteration; when it runs out the writer is still waiting (\<^term>\<open>None\<close>).\<close>

primrec rb_write_blocking ::
    "rb_tick list \<Rightarrow> nat \<Rightarrow> pcm list \<Rightarrow> pcm list \<Rightarrow> (pcm list \<times> pcm list) option" where
  "rb_write_blocking [] cap ring buf = (if buf = [] then Some (ring, []) else None)"
| "rb_write_blocking (t # ts) cap ring buf =
     (if buf = [] then Some (ring, [])
      else if rt_err t then Some (ring, [])
      else
        let n = min (length buf) (min (cap - length ring) (rt_lim t));
            ring1 = ring @ take n buf;
            k = rt_drain t in
        case rb_write_blocking ts cap (drop k ring1) (drop n buf) of
          None \<Rightarrow> None
        | Some (ring', played) \<Rightarrow> Some (ring', take k ring1 @ played))"

section \<open>Feeding\<close>

text \<open>\<^verbatim>\<open>ensure_swr\<close>: the context stays allocated after a failed \<^verbatim>\<open>swr_init\<close>.\<close>

definition ensure_swr :: "audio_env \<Rightarrow> aframe \<Rightarrow> rc_audio \<Rightarrow> bool \<times> rc_audio" where
  "ensure_swr AE fr a =
     (if a_swr a then (True, a)
      else if \<not> a_swr_alloc AE fr then (False, a)
      else (a_swr_init AE fr, a\<lparr>a_swr := True\<rparr>))"

fun audio_receive ::
    "audio_env \<Rightarrow> (nat \<Rightarrow> rb_tick list) \<Rightarrow> nat \<Rightarrow> rc_audio \<Rightarrow> aframe list \<Rightarrow>
     (rc_status \<times> rc_audio \<times> pcm list) option" where
  "audio_receive AE T i a [] = Some (RC_OK, a, [])"
| "audio_receive AE T i a (AEof # fs) = Some (RC_OK, a, [])"
| "audio_receive AE T i a (AErr # fs) = Some (RC_ERR_DECODE, a, [])"
| "audio_receive AE T i a (AFrame bs nb # fs) =
     (let (ok, a) = ensure_swr AE (AFrame bs nb) a in
      if \<not> ok then Some (RC_ERR_DECODE, a, [])
      else
        let max_out = a_out_samples AE (AFrame bs nb) in
        if max_out > a_out_cap a \<and> \<not> a_realloc AE max_out then Some (RC_ERR_NOMEM, a, [])
        else
          let a = (if max_out > a_out_cap a then a\<lparr>a_out_cap := max_out\<rparr> else a) in
          case a_convert AE (AFrame bs nb) of
            None \<Rightarrow> audio_receive AE T (Suc i) a fs
          | Some got \<Rightarrow>
              (case rb_write_blocking (T i) (a_rb_cap a) (a_ring a) got of
                 None \<Rightarrow> None
               | Some (ring, played) \<Rightarrow>
                   (case audio_receive AE T (Suc i)
                           (a\<lparr>a_ring := ring, a_frames_played := a_frames_played a + int (length got)\<rparr>) fs of
                      None \<Rightarrow> None
                    | Some (r, a, pl) \<Rightarrow> Some (r, a, played @ pl))))"

definition rc_audio_feed ::
    "audio_env \<Rightarrow> (nat \<Rightarrow> rb_tick list) \<Rightarrow> rc_audio option \<Rightarrow> byte list \<Rightarrow> bool \<Rightarrow>
     (rc_status \<times> rc_audio option \<times> pcm list) option" where
  "rc_audio_feed AE T pl data config =
     (case pl of
        None \<Rightarrow> Some (RC_ERR_INVALID_ARG, None, [])
      | Some a \<Rightarrow>
          if config then Some (RC_OK, Some a, [])
          else
            let h = a_sent a @ [data]; a = a\<lparr>a_sent := h\<rparr> in
            if \<not> a_send AE h then Some (RC_ERR_DECODE, Some a, [])
            else (case audio_receive AE T 0 a (a_recv AE h) of
                    None \<Rightarrow> None
                  | Some (r, a, pl) \<Rightarrow> Some (r, Some a, pl)))"

section \<open>The device hears what was written\<close>

lemma data_cb_loop_spec:
  "list_all (\<lambda>l. 0 < l) lims \<Longrightarrow> r \<le> length lims \<Longrightarrow>
     data_cb_loop lims ring r = (take r ring, drop r ring, r - length ring)"
proof (induction lims ring r rule: data_cb_loop.induct)
  case (3 lim lims ring r)
  let ?n = "min (Suc r) (min (length ring) lim)"
  show ?case
  proof (cases "?n = 0")
    case True
    with 3(2) have "ring = []" by (cases ring) auto
    with True show ?thesis by simp
  next
    case False
    have le: "Suc r - ?n \<le> length lims" 
    proof -
      have "1 \<le> ?n" using False by linarith
      with 3(3) show ?thesis by simp linarith
    qed
    have "data_cb_loop lims (drop ?n ring) (Suc r - ?n)
        = (take (Suc r - ?n) (drop ?n ring), drop (Suc r - ?n) (drop ?n ring),
           Suc r - ?n - length (drop ?n ring))"
      by (rule 3(1) [OF refl False _ le]) (use 3(2) in simp)
    moreover have "take ?n ring @ take (Suc r - ?n) (drop ?n ring) = take (Suc r) ring"
      by (metis min.cobounded1 le_add_diff_inverse take_add)
    ultimately show ?thesis using False by (simp add: Let_def add.commute)
  qed
qed auto

text \<open>
  C23: the playback callback.  However the ring is split at its wrap-around point, the device receives
  exactly the number of sample frames it asked for: first the oldest frames of the ring in order,
  then silence if there are not enough; the ring keeps exactly the rest.
\<close>

theorem audio_cb_correct:
  assumes "list_all (\<lambda>l. 0 < l) lims" and "n \<le> length lims"
  shows "audio_data_cb lims ch ring n =
      (take n ring @ replicate (n - length ring) (replicate ch 0), drop n ring) \<and>
    length (fst (audio_data_cb lims ch ring n)) = n"
  using data_cb_loop_spec [OF assms] by (simp add: audio_data_cb_def)

theorem audio_cb_correct_witness:
  "audio_data_cb [2, 2, 1, 1] 2 [[1, 2], [3, 4], [5, 6]] 4 =
     ([[1, 2], [3, 4], [5, 6], [0, 0]], []) \<and>
   length (fst (audio_data_cb [2, 2, 1, 1] 2 [[1, 2], [3, 4], [5, 6 :: 16 word]] 4)) = 4"
  using audio_cb_correct [of "[2, 2, 1, 1]" 4 2 "[[1, 2], [3, 4], [5, 6]]"]
  by (simp add: numeral_2_eq_2)

text \<open>Whatever the ring and the device do, what has been written is an initial part of the data in
  order; only a failed acquire makes it a proper one.\<close>

lemma rb_write_spec:
  "rb_write_blocking ts cap ring buf = Some (ring', played) \<Longrightarrow> length ring \<le> cap \<Longrightarrow>
     \<exists>m \<le> length buf. played @ ring' = ring @ take m buf \<and> length ring' \<le> cap \<and>
       (m < length buf \<longrightarrow> (\<exists>t \<in> set ts. rt_err t))"
proof (induction ts arbitrary: ring buf ring' played)
  case Nil
  then show ?case by (auto split: if_splits)
next
  case (Cons t ts)
  define n where "n = min (length buf) (min (cap - length ring) (rt_lim t))"
  define ring1 where "ring1 = ring @ take n buf"
  show ?case
  proof (cases "buf = [] \<or> rt_err t")
    case True
    with Cons.prems show ?thesis by (intro exI [of _ 0]) (auto split: if_splits)
  next
    case False
    then obtain p2 where rec: "rb_write_blocking ts cap (drop (rt_drain t) ring1) (drop n buf) = Some (ring', p2)"
      and eq: "played = take (rt_drain t) ring1 @ p2"
      using Cons.prems(1,2)
      by (auto simp: Let_def n_def [symmetric] ring1_def [symmetric] simp del: drop_append take_append
          split: option.splits)
    have le: "length (drop (rt_drain t) ring1) \<le> cap" using Cons.prems(2) by (simp add: ring1_def n_def)
    obtain m where m: "m \<le> length (drop n buf)" "p2 @ ring' = drop (rt_drain t) ring1 @ take m (drop n buf)"
      "length ring' \<le> cap" "m < length (drop n buf) \<longrightarrow> (\<exists>t \<in> set ts. rt_err t)"
      using Cons.IH [OF rec le] by blast
    have "played @ ring' = ring1 @ take m (drop n buf)"
      unfolding eq using m(2) by (metis append.assoc append_take_drop_id)
    also have "\<dots> = ring @ take (n + m) buf" by (simp add: ring1_def take_add)
    finally show ?thesis using m by (intro exI [of _ "n + m"]) (auto simp: n_def)
  qed
qed

lemma rb_write_returns:
  "list_all (\<lambda>t. 0 < rt_lim t \<and> 0 < rt_drain t) ts \<Longrightarrow> 0 < cap \<Longrightarrow>
     length ring \<le> cap \<Longrightarrow> 2 * length buf + (if length ring = cap then 1 else 0) \<le> length ts + 1 \<Longrightarrow>
     rb_write_blocking ts cap ring buf \<noteq> None"
proof (induction ts arbitrary: ring buf)
  case Nil
  then show ?case by (cases buf) auto
next
  case (Cons t ts)
  define n where "n = min (length buf) (min (cap - length ring) (rt_lim t))"
  define ring2 where "ring2 = drop (rt_drain t) (ring @ take n buf)"
  show ?case
  proof (cases "buf = []")
    case buf: False
    have l2: "length ring2 < cap" using Cons.prems(1-3) by (auto simp: ring2_def n_def)
    have fewer: "2 * length (drop n buf) \<le> length ts + 1"
    proof (cases "length ring = cap")
      case True
      then show ?thesis using Cons.prems(4) by simp
    next
      case False
      then have "0 < n" using Cons.prems(1,3) buf by (auto simp: n_def)
      then show ?thesis using Cons.prems(4) buf by (simp add: False)
    qed
    have "rb_write_blocking ts cap ring2 (drop n buf) \<noteq> None"
      by (rule Cons.IH) (use Cons.prems l2 fewer in auto)
    then show ?thesis using Cons.prems(1) buf
      by (auto simp: Let_def n_def [symmetric] ring2_def [symmetric] simp del: drop_append
          split: option.splits)
  qed simp
qed

lemma rb_write_stalled:
  "list_all (\<lambda>t. \<not> rt_err t \<and> rt_drain t = 0) ts \<Longrightarrow> length ring + length buf > cap \<Longrightarrow> length ring \<le> cap \<Longrightarrow>
     rb_write_blocking ts cap ring buf = None"
proof (induction ts arbitrary: ring buf)
  case (Cons t ts)
  define n where "n = min (length buf) (min (cap - length ring) (rt_lim t))"
  have "rb_write_blocking ts cap (ring @ take n buf) (drop n buf) = None"
    by (rule Cons.IH) (use Cons.prems in \<open>auto simp: n_def\<close>)
  with Cons.prems show ?case by (auto simp: Let_def n_def [symmetric])
qed auto

text \<open>
  C22: the blocking writer, for every behaviour of the ring and the device.  When it returns, what was
  played since and what is in the ring are the earlier contents followed by an initial part of the data,
  in order, within the capacity of the ring; the rest is dropped only if an acquire failed.  It does
  return when every acquire that finds the ring not full offers room and the device takes at least one
  sample frame per iteration: \<open>2 * n\<close> iterations are enough for \<open>n\<close> frames.  With a device that takes
  nothing and data that does not fit, it goes on waiting.
\<close>

theorem rb_write_correct:
  assumes "length ring \<le> cap"
  shows "(\<forall>ring' played. rb_write_blocking ts cap ring buf = Some (ring', played) \<longrightarrow>
       (\<exists>m \<le> length buf. played @ ring' = ring @ take m buf \<and> length ring' \<le> cap \<and>
          (list_all (\<lambda>t. \<not> rt_err t) ts \<longrightarrow> m = length buf))) \<and>
     (0 < cap \<and> list_all (\<lambda>t. 0 < rt_lim t \<and> 0 < rt_drain t) ts \<and> 2 * length buf \<le> length ts \<longrightarrow>
        rb_write_blocking ts cap ring buf \<noteq> None) \<and>
     (list_all (\<lambda>t. \<not> rt_err t \<and> rt_drain t = 0) ts \<and> cap < length ring + length buf \<longrightarrow>
        rb_write_blocking ts cap ring buf = None)"
proof (intro conjI allI impI)
  fix ring' played
  assume "rb_write_blocking ts cap ring buf = Some (ring', played)"
  from rb_write_spec [OF this assms] show "\<exists>m \<le> length buf. played @ ring' = ring @ take m buf \<and>
      length ring' \<le> cap \<and> (list_all (\<lambda>t. \<not> rt_err t) ts \<longrightarrow> m = length buf)"
    unfolding list_all_iff by (metis order_le_less)
next
  assume "0 < cap \<and> list_all (\<lambda>t. 0 < rt_lim t \<and> 0 < rt_drain t) ts \<and> 2 * length buf \<le> length ts"
  then show "rb_write_blocking ts cap ring buf \<noteq> None" using assms by (intro rb_write_returns) auto
qed (use assms rb_write_stalled in blast)

theorem rb_write_correct_witness:
  "(\<exists>ring' played. rb_write_blocking (replicate 6 \<lparr>rt_lim = 4, rt_err = False, rt_drain = 1\<rparr>) 2
      [[1], [2]] [[3], [4], [5]] = Some (ring', played) \<and>
     played @ ring' = [[1], [2], [3], [4], [5 :: 16 word]] \<and> length ring' \<le> 2) \<and>
   rb_write_blocking (replicate 6 \<lparr>rt_lim = 4, rt_err = False, rt_drain = 0\<rparr>) 2 [[1 :: 16 word], [2]] [[3]] = None"
proof -
  let ?ts = "replicate 6 \<lparr>rt_lim = 4, rt_err = False, rt_drain = 1\<rparr>"
  note W = rb_write_correct [of "[[1], [2 :: 16 word]]" 2 ?ts "[[3], [4], [5]]"]
  have "rb_write_blocking ?ts 2 [[1], [2 :: 16 word]] [[3], [4], [5]] \<noteq> None" using W by (simp add: list_all_iff)
  then obtain ring' played where r: "rb_write_blocking ?ts 2 [[1], [2 :: 16 word]] [[3], [4], [5]] = Some (ring', played)"
    by auto
  with W have "played @ ring' = [[1], [2], [3], [4], [5]] \<and> length ring' \<le> 2" by (auto simp: list_all_iff)
  moreover have "rb_write_blocking (replicate 6 \<lparr>rt_lim = 4, rt_err = False, rt_drain = 0\<rparr>) 2 [[1 :: 16 word], [2]] [[3]] = None"
    using rb_write_correct [of "[[1 :: 16 word], [2]]" 2 "replicate 6 \<lparr>rt_lim = 4, rt_err = False, rt_drain = 0\<rparr>" "[[3]]"]
    by (simp add: list_all_iff)
  ultimately show ?thesis using r by blast
qed

end
