(* ===== verification/RC_Client_State.thy ===== *)
theory RC_Client_State
  imports RC_Decoder RC_Audio
begin

text \<open>
  \<^verbatim>\<open>struct rc_client\<close> of \<^verbatim>\<open>core/src/rc_internal.h\<close> and the system state the client operations act on:
  the kernel state of \<^verbatim>\<open>RC_OS\<close> extended with the client object.  Status callbacks are recorded in
  the order they are made.  The texts of the callbacks are a datatype with one constructor per
  message of the source.
\<close>

datatype message =
    MsgAdbConnectFailed | MsgAdbPushFailed | MsgAdbReverseFailed | MsgRunServerFailed
  | MsgNoVideoConnection | MsgNoDeviceMeta | MsgBadTcpAddr | MsgLanPortTaken
  | MsgLanFallback string | MsgTcpFailed string
  | MsgVersionMismatch | MsgUnknownCodec | MsgDeviceName "byte list" | MsgDecoderInitFailed
  | MsgDecoder string | MsgVideoEnded | MsgHwFallback | MsgDecoderRebuildFailed
  | MsgDecodeError | MsgDefault rc_status

datatype transport_desc = LanDirect | LanViaAdb | AdbEmulator | UsbCable

record rc_client =
  cfg :: rc_config
  has_frame_cb :: bool
  has_status_cb :: bool
  video_fd :: int
  audio_fd :: int
  control_fd :: int
  listen_fd :: int
  meta :: rc_device_meta
  have_meta :: bool
  server_pid :: int
  socket_name :: string
  lan_token :: string
  running :: bool
  abort_requested :: bool
  decoder_desc :: "string option"
  c_transport_desc :: "transport_desc option"
  net_thread :: bool          \<comment> \<open>a joinable thread handle is stored\<close>
  audio_thread :: bool
  decoder :: "rc_decoder option"
  audio_player :: "rc_audio option"

record sys = os +
  client :: rc_client
  statuses :: "(rc_status \<times> message) list"   \<comment> \<open>status callbacks, oldest first\<close>

definition upd :: "(rc_client \<Rightarrow> rc_client) \<Rightarrow> sys \<Rightarrow> sys" where
  "upd f s = s\<lparr>client := f (client s)\<rparr>"

definition rc_emit_status :: "rc_status \<Rightarrow> message \<Rightarrow> sys \<Rightarrow> sys" where
  "rc_emit_status code msg s =
     (if has_status_cb (client s) then s\<lparr>statuses := statuses s @ [(code, msg)]\<rparr> else s)"

definition zero_meta :: rc_device_meta where
  "zero_meta = \<lparr>dm_magic = 0, dm_version = 0, dm_codec_id = 0, dm_width = 0, dm_height = 0,
     device_name = replicate 64 0\<rparr>"

definition dup_or_null :: "bool \<Rightarrow> string option \<Rightarrow> string option" where
  "dup_or_null ok s = (case s of None \<Rightarrow> None | Some x \<Rightarrow> if ok then Some x else None)"

text \<open>\<^verbatim>\<open>rc_client_create\<close>: \<open>mem\<close> says which of the three allocations succeed, \<open>pid\<close> is \<^verbatim>\<open>getpid()\<close>, \<open>scid\<close>
  the value the static session counter had.  \<^verbatim>\<open>NULL\<close> when the configuration is missing or the object
  cannot be allocated; a string that cannot be copied becomes \<^verbatim>\<open>NULL\<close>.\<close>

definition rc_client_create ::
    "(nat \<Rightarrow> bool) \<Rightarrow> int \<Rightarrow> int \<Rightarrow> rc_config option \<Rightarrow> (rc_client option \<times> int)" where
  "rc_client_create mem pid scid conf =
     (case conf of
        None \<Rightarrow> (None, scid)
      | Some cf \<Rightarrow>
          if \<not> mem 0 then (None, scid)
          else
            (Some \<lparr>cfg = cf\<lparr>serial := dup_or_null (mem 1) (serial cf),
                           tcp_addr := dup_or_null (mem 2) (tcp_addr cf)\<rparr>,
               has_frame_cb = False, has_status_cb = False,
               video_fd = -1, audio_fd = -1, control_fd = -1, listen_fd = -1,
               meta = zero_meta, have_meta = False, server_pid = 0,
               socket_name = fit 64 (''rigcontrol_'' @ show_int pid @ ''_'' @ show_int scid),
               lan_token = [], running = False, abort_requested = False,
               decoder_desc = None, c_transport_desc = None,
               net_thread = False, audio_thread = False, decoder = None, audio_player = None\<rparr>,
             scid + 1))"

definition rc_client_set_frame_callback :: "bool \<Rightarrow> rc_client \<Rightarrow> rc_client" where
  "rc_client_set_frame_callback cb c = c\<lparr>has_frame_cb := cb\<rparr>"

definition rc_client_set_status_callback :: "bool \<Rightarrow> rc_client \<Rightarrow> rc_client" where
  "rc_client_set_status_callback cb c = c\<lparr>has_status_cb := cb\<rparr>"

definition rc_client_get_decoder_desc :: "rc_client option \<Rightarrow> string option" where
  "rc_client_get_decoder_desc c = (case c of None \<Rightarrow> None | Some c \<Rightarrow> decoder_desc c)"

definition rc_client_get_transport_desc :: "rc_client option \<Rightarrow> transport_desc option" where
  "rc_client_get_transport_desc c = (case c of None \<Rightarrow> None | Some c \<Rightarrow> c_transport_desc c)"

definition rc_client_get_device_size :: "rc_client option \<Rightarrow> rc_status \<times> (int \<times> int) option" where
  "rc_client_get_device_size c =
     (case c of
        None \<Rightarrow> (RC_ERR_INVALID_ARG, None)
      | Some c \<Rightarrow>
          if \<not> have_meta c then (RC_ERR_PROTOCOL, None)
          else (RC_OK, Some (uint (dm_width (meta c)), uint (dm_height (meta c)))))"

section \<open>Frame lemmas\<close>

lemma upd_fields [simp]:
  "client (upd f s) = f (client s)" "open_fds (upd f s) = open_fds s"
  "children (upd f s) = children s" "clock (upd f s) = clock s" "tick (upd f s) = tick s"
  "inq (upd f s) = inq s" "outq (upd f s) = outq s" "sent (upd f s) = sent s"
  "evlog (upd f s) = evlog s" "statuses (upd f s) = statuses s"
  by (simp_all add: upd_def)

lemma rc_emit_status_fields [simp]:
  "client (rc_emit_status c m s) = client s" "open_fds (rc_emit_status c m s) = open_fds s"
  "children (rc_emit_status c m s) = children s" "clock (rc_emit_status c m s) = clock s"
  "tick (rc_emit_status c m s) = tick s" "inq (rc_emit_status c m s) = inq s"
  "outq (rc_emit_status c m s) = outq s" "sent (rc_emit_status c m s) = sent s"
  "evlog (rc_emit_status c m s) = evlog s"
  by (simp_all add: rc_emit_status_def)

lemma step_os_client [simp]:
  "client (step_os E s) = client s" "statuses (step_os E s) = statuses s"
  "client (sleep_ms E ms s) = client s" "statuses (sleep_ms E ms s) = statuses s"
  "client (sys_close E fd s) = client s" "statuses (sys_close E fd s) = statuses s"
  "client (sys_shutdown E fd s) = client s" "statuses (sys_shutdown E fd s) = statuses s"
  "client (reap p s) = client s" "client (sys_kill E p s) = client s"
  "client (sys_kill_reap E p s) = client s"
  by (simp_all add: step_os_def sleep_ms_def sys_close_def sys_shutdown_def reap_def sys_kill_def
      sys_kill_reap_def)

lemma more_client:
  fixes s s' :: sys
  shows "os.more s' = os.more s \<Longrightarrow> client s' = client s \<and> statuses s' = statuses s"
  by (cases s; cases s') auto

end
