(* ===== verification/RC_Control.thy ===== *)
theory RC_Control
  imports RC_Client_State
begin

text \<open>
  The control channel: the message builders of \<^verbatim>\<open>core/src/client.c\<close>, the sender of
  \<^verbatim>\<open>core/src/control_msg.c\<close>, and the server's \<^verbatim>\<open>ControlReceiver.dispatch\<close> as the reference decoder.
  Both sides agree on every message, and a sequence of successful calls is received as exactly that
  sequence of events.
\<close>

section \<open>Sending\<close>

definition fd_write :: "int \<Rightarrow> byte list \<Rightarrow> 'a os_scheme \<Rightarrow> (rc_status \<times> 'a os_scheme) option" where
  "fd_write fd buf s = do {
     (r, out, rest) \<leftarrow> rc_net_write_full (outq s fd) buf;
     Some (r, s\<lparr>outq := (outq s)(fd := rest), sent := (sent s)(fd := sent s fd @ out)\<rparr>)
   }"

definition rc_control_send :: "byte list \<Rightarrow> sys \<Rightarrow> (rc_status \<times> sys) option" where
  "rc_control_send buf s =
     (if \<not> control (cfg (client s)) then Some (RC_ERR_INVALID_ARG, s)
      else if control_fd (client s) < 0 then Some (RC_ERR_CONNECT, s)
      else fd_write (control_fd (client s)) buf s)"

definition rc_client_send_mouse_motion :: "u32 \<Rightarrow> f32 \<Rightarrow> f32 \<Rightarrow> sys \<Rightarrow> (rc_status \<times> sys) option" where
  "rc_client_send_mouse_motion buttons x y s =
     (let b = [RC_CTRL_MOUSE_MOTION] @ put_u32 buttons @ put_f32 x @ put_f32 y
      in rc_control_send b s)"

definition rc_client_send_mouse_button ::
    "int \<Rightarrow> u32 \<Rightarrow> u32 \<Rightarrow> f32 \<Rightarrow> f32 \<Rightarrow> sys \<Rightarrow> (rc_status \<times> sys) option" where
  "rc_client_send_mouse_button action button buttons x y s =
     (let b = [RC_CTRL_MOUSE_BUTTON, if action \<noteq> 0 then RC_ACTION_DOWN else RC_ACTION_UP]
              @ put_u32 button @ put_u32 buttons @ put_f32 x @ put_f32 y
      in rc_control_send b s)"

definition rc_client_send_scroll ::
    "f32 \<Rightarrow> f32 \<Rightarrow> f32 \<Rightarrow> f32 \<Rightarrow> sys \<Rightarrow> (rc_status \<times> sys) option" where
  "rc_client_send_scroll x y hscroll vscroll s =
     (let b = [RC_CTRL_SCROLL] @ put_f32 x @ put_f32 y @ put_f32 hscroll @ put_f32 vscroll
      in rc_control_send b s)"

definition rc_client_send_key ::
    "int \<Rightarrow> u32 \<Rightarrow> u32 \<Rightarrow> u32 \<Rightarrow> sys \<Rightarrow> (rc_status \<times> sys) option" where
  "rc_client_send_key action keycode metastate repeat s =
     (let b = [RC_CTRL_KEY, if action \<noteq> 0 then RC_ACTION_DOWN else RC_ACTION_UP]
              @ put_u32 keycode @ put_u32 metastate @ put_u32 repeat
      in rc_control_send b s)"

text \<open>The string pointer may be NULL; \<open>mem\<close> says whether the buffer can be allocated.\<close>

definition rc_client_send_text :: "bool \<Rightarrow> byte list option \<Rightarrow> sys \<Rightarrow> (rc_status \<times> sys) option" where
  "rc_client_send_text mem utf8 s =
     (case utf8 of
        None \<Rightarrow> Some (RC_ERR_INVALID_ARG, s)
      | Some t \<Rightarrow>
          let n = length t in
          if int n > 2 ^ 20 then Some (RC_ERR_INVALID_ARG, s)
          else if \<not> mem then Some (RC_ERR_NOMEM, s)
          else rc_control_send ([RC_CTRL_TEXT] @ put_u32 (of_nat n) @ t) s)"

definition rc_client_click_button :: "u32 \<Rightarrow> sys \<Rightarrow> (rc_status \<times> sys) option" where
  "rc_client_click_button keycode s = do {
     (r, s) \<leftarrow> rc_client_send_key 1 keycode 0 0 s;
     if r \<noteq> RC_OK then Some (r, s) else rc_client_send_key 0 keycode 0 0 s
   }"

datatype rc_device_action =
    RC_DEVICE_SCREEN_OFF | RC_DEVICE_SCREEN_ON | RC_DEVICE_EXPAND_NOTIF
  | RC_DEVICE_EXPAND_SETTINGS | RC_DEVICE_COLLAPSE_PANELS | RC_DEVICE_ROTATE

fun device_action_code :: "rc_device_action \<Rightarrow> byte" where
  "device_action_code RC_DEVICE_SCREEN_OFF = 0"
| "device_action_code RC_DEVICE_SCREEN_ON = 1"
| "device_action_code RC_DEVICE_EXPAND_NOTIF = 2"
| "device_action_code RC_DEVICE_EXPAND_SETTINGS = 3"
| "device_action_code RC_DEVICE_COLLAPSE_PANELS = 4"
| "device_action_code RC_DEVICE_ROTATE = 5"

definition rc_client_send_device_action :: "rc_device_action \<Rightarrow> sys \<Rightarrow> (rc_status \<times> sys) option" where
  "rc_client_send_device_action action s =
     rc_control_send [RC_CTRL_DEVICE_ACTION, device_action_code action] s"

section \<open>The server's decoder\<close>

datatype ctrl_event =
    MouseMotion u32 f32 f32
  | MouseButton byte u32 u32 f32 f32
  | Scroll f32 f32 f32 f32
  | Key byte u32 u32 u32
  | TextInput "byte list"
  | DeviceAction byte

text \<open>\<^verbatim>\<open>DataInputStream.readInt/readFloat\<close> and \<^verbatim>\<open>readUnsignedByte\<close>; \<^term>\<open>None\<close> is \<^verbatim>\<open>EOFException\<close>.\<close>

definition readInt :: "byte list \<Rightarrow> (u32 \<times> byte list) option" where
  "readInt bs = (if length bs < 4 then None else Some (be32 bs, drop 4 bs))"

fun readUnsignedByte :: "byte list \<Rightarrow> (byte \<times> byte list) option" where
  "readUnsignedByte [] = None"
| "readUnsignedByte (b # bs) = Some (b, bs)"

definition readFully :: "nat \<Rightarrow> byte list \<Rightarrow> (byte list \<times> byte list) option" where
  "readFully n bs = (if length bs < n then None else Some (take n bs, drop n bs))"

definition dispatch :: "byte \<Rightarrow> byte list \<Rightarrow> (ctrl_event \<times> byte list) option" where
  "dispatch type bs =
     (if type = 0 then do {
        (buttons, bs) \<leftarrow> readInt bs; (x, bs) \<leftarrow> readInt bs; (y, bs) \<leftarrow> readInt bs;
        Some (MouseMotion buttons x y, bs)
      } else if type = 1 then do {
        (action, bs) \<leftarrow> readUnsignedByte bs; (button, bs) \<leftarrow> readInt bs; (buttons, bs) \<leftarrow> readInt bs;
        (x, bs) \<leftarrow> readInt bs; (y, bs) \<leftarrow> readInt bs;
        Some (MouseButton action button buttons x y, bs)
      } else if type = 2 then do {
        (x, bs) \<leftarrow> readInt bs; (y, bs) \<leftarrow> readInt bs; (h, bs) \<leftarrow> readInt bs; (v, bs) \<leftarrow> readInt bs;
        Some (Scroll x y h v, bs)
      } else if type = 3 then do {
        (action, bs) \<leftarrow> readUnsignedByte bs; (keycode, bs) \<leftarrow> readInt bs;
        (metastate, bs) \<leftarrow> readInt bs; (repeat, bs) \<leftarrow> readInt bs;
        Some (Key action keycode metastate repeat, bs)
      } else if type = 4 then do {
        (len, bs) \<leftarrow> readInt bs;
        if sint len < 0 \<or> sint len > 2 ^ 20 then None
        else do { (t, bs) \<leftarrow> readFully (unat len) bs; Some (TextInput t, bs) }
      } else if type = 5 then do {
        (action, bs) \<leftarrow> readUnsignedByte bs; Some (DeviceAction action, bs)
      } else None)"

text \<open>\<^verbatim>\<open>ControlReceiver.run\<close>: dispatch until end of stream or an exception (fuel: every message has at
  least one byte, so the length of the stream is enough).\<close>

fun receive_all :: "nat \<Rightarrow> byte list \<Rightarrow> ctrl_event list" where
  "receive_all 0 bs = []"
| "receive_all (Suc n) [] = []"
| "receive_all (Suc n) (t # bs) =
     (case dispatch t bs of None \<Rightarrow> [] | Some (e, rest) \<Rightarrow> e # receive_all n rest)"

section \<open>The API calls and the events they stand for\<close>

datatype api_call =
    CallMotion u32 f32 f32
  | CallButton int u32 u32 f32 f32
  | CallScroll f32 f32 f32 f32
  | CallKey int u32 u32 u32
  | CallText "byte list"
  | CallDevice rc_device_action

fun do_call :: "api_call \<Rightarrow> sys \<Rightarrow> (rc_status \<times> sys) option" where
  "do_call (CallMotion b x y) s = rc_client_send_mouse_motion b x y s"
| "do_call (CallButton a b bs x y) s = rc_client_send_mouse_button a b bs x y s"
| "do_call (CallScroll x y h v) s = rc_client_send_scroll x y h v s"
| "do_call (CallKey a k m r) s = rc_client_send_key a k m r s"
| "do_call (CallText t) s = rc_client_send_text True (Some t) s"
| "do_call (CallDevice a) s = rc_client_send_device_action a s"

definition act_byte :: "int \<Rightarrow> byte" where
  "act_byte a = (if a \<noteq> 0 then 1 else 0)"

fun event_of :: "api_call \<Rightarrow> ctrl_event" where
  "event_of (CallMotion b x y) = MouseMotion b x y"
| "event_of (CallButton a b bs x y) = MouseButton (act_byte a) b bs x y"
| "event_of (CallScroll x y h v) = Scroll x y h v"
| "event_of (CallKey a k m r) = Key (act_byte a) k m r"
| "event_of (CallText t) = TextInput t"
| "event_of (CallDevice a) = DeviceAction (device_action_code a)"

fun do_calls :: "api_call list \<Rightarrow> sys \<Rightarrow> (rc_status \<times> sys) option" where
  "do_calls [] s = Some (RC_OK, s)"
| "do_calls (c # cs) s = do {
     (r, s) \<leftarrow> do_call c s;
     if r \<noteq> RC_OK then Some (r, s) else do_calls cs s
   }"

section \<open>Decoding inverts encoding\<close>

lemma readInt_put [simp]: "readInt (put_u32 v @ bs) = Some (v, bs)"
  by (simp add: readInt_def)

lemma readInt_put_f32 [simp]: "readInt (put_f32 v @ bs) = Some (v, bs)"
  by (simp add: put_f32_def)

lemma readFully_append [simp]: "readFully (length t) (t @ bs) = Some (t, bs)"
  by (simp add: readFully_def)

fun wire_of :: "api_call \<Rightarrow> byte list" where
  "wire_of (CallMotion b x y) = [0] @ put_u32 b @ put_f32 x @ put_f32 y"
| "wire_of (CallButton a b bs x y) =
     [1, act_byte a] @ put_u32 b @ put_u32 bs @ put_f32 x @ put_f32 y"
| "wire_of (CallScroll x y h v) = [2] @ put_f32 x @ put_f32 y @ put_f32 h @ put_f32 v"
| "wire_of (CallKey a k m r) = [3, act_byte a] @ put_u32 k @ put_u32 m @ put_u32 r"
| "wire_of (CallText t) = [4] @ put_u32 (of_nat (length t)) @ t"
| "wire_of (CallDevice a) = [5, device_action_code a]"

fun call_ok :: "api_call \<Rightarrow> bool" where
  "call_ok (CallText t) = (int (length t) \<le> 2 ^ 20)"
| "call_ok _ = True"

lemma text_len_word:
  assumes "int n \<le> 2 ^ 20"
  shows "unat (of_nat n :: u32) = n" and "sint (of_nat n :: u32) = int n"
proof -
  from assms have n: "n < 2 ^ 31" by simp
  then show u: "unat (of_nat n :: u32) = n" by (simp add: unat_of_nat take_bit_nat_eq_self)
  show "sint (of_nat n :: u32) = int n"
    using n by (simp add: signed_take_bit_int_eq_self sint_sbintrunc' signed_of_nat)
qed

lemma dispatch_wire:
  assumes "call_ok c"
  shows "\<exists>t bs. wire_of c = t # bs \<and> dispatch t (bs @ rest) = Some (event_of c, rest)"
  using assms by (cases c) (simp_all add: dispatch_def text_len_word)

lemma receive_all_wire:
  "list_all call_ok cs \<Longrightarrow> length cs \<le> n \<Longrightarrow>
     receive_all n (concat (map wire_of cs)) = map event_of cs"
proof (induction cs arbitrary: n)
  case Nil
  then show ?case by (cases n) auto
next
  case (Cons c cs)
  then obtain m where n: "n = Suc m" "length cs \<le> m" by (cases n) auto
  obtain t bs where "wire_of c = t # bs"
    "dispatch t (bs @ concat (map wire_of cs)) = Some (event_of c, concat (map wire_of cs))"
    using dispatch_wire [of c "concat (map wire_of cs)"] Cons.prems by auto
  with Cons n show ?case by simp
qed

section \<open>What the calls send\<close>

lemma rc_control_send_ok:
  assumes "rc_control_send buf s = Some (RC_OK, s')"
  shows "control (cfg (client s))" and "0 \<le> control_fd (client s)" and "client s' = client s"
    and "sent s' = (sent s)(control_fd (client s) := sent s (control_fd (client s)) @ buf)"
proof -
  from assms obtain out rest where w: "rc_net_write_full (outq s (control_fd (client s))) buf
      = Some (RC_OK, out, rest)"
    and s': "s' = s\<lparr>outq := (outq s)(control_fd (client s) := rest),
      sent := (sent s)(control_fd (client s) := sent s (control_fd (client s)) @ out)\<rparr>"
    and g: "control (cfg (client s))" "0 \<le> control_fd (client s)"
    by (auto simp: rc_control_send_def fd_write_def bind_eq_Some_conv split: if_splits)
  from g show "control (cfg (client s))" "0 \<le> control_fd (client s)" by auto
  have "out = buf" using write_full_result [OF w] by auto
  with s' show "client s' = client s"
    "sent s' = (sent s)(control_fd (client s) := sent s (control_fd (client s)) @ buf)" by auto
qed

lemmas send_defs [rc_defs] =
  rc_client_send_mouse_motion_def rc_client_send_mouse_button_def rc_client_send_scroll_def
  rc_client_send_key_def rc_client_send_text_def rc_client_send_device_action_def

lemma do_call_send:
  "do_call c s = (if call_ok c then rc_control_send (wire_of c) s else Some (RC_ERR_INVALID_ARG, s))"
  by (cases c) (auto simp: rc_defs Let_def wire_simps act_byte_def)

lemma do_calls_ok:
  "do_calls cs s = Some (RC_OK, s') \<Longrightarrow>
     list_all call_ok cs \<and> client s' = client s \<and>
     sent s' (control_fd (client s)) = sent s (control_fd (client s)) @ concat (map wire_of cs)"
proof (induction cs arbitrary: s)
  case Nil
  then show ?case by simp
next
  case (Cons c cs)
  then obtain s1 where 1: "do_call c s = Some (RC_OK, s1)" and 2: "do_calls cs s1 = Some (RC_OK, s')"
    by (auto simp: bind_eq_Some_conv split: if_splits)
  from 1 have ok: "call_ok c" and send: "rc_control_send (wire_of c) s = Some (RC_OK, s1)"
    by (auto simp: do_call_send split: if_splits)
  from rc_control_send_ok(3,4) [OF send] Cons.IH [OF 2] ok show ?case by simp
qed

lemma wire_of_nonempty: "wire_of c \<noteq> []"
  by (cases c) auto

lemma wire_length: "length cs \<le> length (concat (map wire_of cs))"
proof (induction cs)
  case (Cons c cs)
  then show ?case using wire_of_nonempty [of c] by (cases "wire_of c") auto
qed simp

text \<open>
  C6: control channel round trip.  If a sequence of input calls (mouse motion, buttons, scroll, keys,
  text, device actions) all return \<^verbatim>\<open>RC_OK\<close>, the server's receive loop decodes from the bytes on the
  control socket exactly those events, in order, with the same coordinates, buttons, key codes and
  text.
\<close>

theorem control_roundtrip:
  assumes "do_calls cs s = Some (RC_OK, s')" and "sent s (control_fd (client s)) = []"
  shows "(let bs = sent s' (control_fd (client s)) in receive_all (length bs) bs) = map event_of cs"
proof -
  from do_calls_ok [OF assms(1)] assms(2)
  have "list_all call_ok cs" "sent s' (control_fd (client s)) = concat (map wire_of cs)" by auto
  then show ?thesis using receive_all_wire [OF _ wire_length [of cs]] by (simp add: Let_def)
qed

definition demo_config :: rc_config where
  "demo_config = \<lparr>serial = Some ''emulator-5554'', transport = RC_TRANSPORT_USB, tcp_addr = None,
     tcp_device_port = 0, max_size = 0, bit_rate = 8000000, max_fps = 60, codec = RC_CODEC_H264,
     control = True, audio = False, audio_codec = RC_ACODEC_OPUS\<rparr>"

definition demo_client :: rc_client where
  "demo_client = the (fst (rc_client_create (\<lambda>_. True) 4242 0 (Some demo_config)))"

definition demo_sys :: sys where
  "demo_sys = \<lparr>tick = 0, clock = 0, open_fds = [0, 1, 2], children = [],
     inq = (\<lambda>_. []), outq = (\<lambda>_. replicate 8 (Accept 5)), sent = (\<lambda>_. []), evlog = [],
     client = demo_client\<lparr>control_fd := 7\<rparr>, statuses = []\<rparr>"

theorem control_roundtrip_witness:
  "\<exists>s'. do_calls [CallKey 1 66 0 0, CallText [104, 105], CallDevice RC_DEVICE_ROTATE] demo_sys
       = Some (RC_OK, s') \<and>
     (let bs = sent s' 7 in receive_all (length bs) bs)
       = [Key 1 66 0 0, TextInput [104, 105], DeviceAction 5]"
proof -
  let ?cs = "[CallKey 1 66 0 0, CallText [104, 105], CallDevice RC_DEVICE_ROTATE]"
  have fd: "control_fd (client demo_sys) = 7" "sent demo_sys 7 = []"
    by (simp_all add: demo_sys_def)
  obtain s' where s': "do_calls ?cs demo_sys = Some (RC_OK, s')"
    by (simp add: do_call_send rc_control_send_def fd_write_def write_full_Accept put_u32_def
        act_byte_def demo_sys_def demo_client_def rc_client_create_def dup_or_null_def demo_config_def numeral_nat)
  with control_roundtrip [OF s'] show ?thesis by (simp add: fd act_byte_def)
qed

text \<open>
  A message that the socket has room for is sent completely however the kernel splits the writes,
  and a view-only or unconnected session refuses it without touching the socket.
\<close>

lemma control_send_complete:
  "(control (cfg (client s)) \<and> 0 \<le> control_fd (client s) \<and>
      length buf \<le> sink_room (outq s (control_fd (client s))) \<longrightarrow>
        (\<exists>s'. rc_control_send buf s = Some (RC_OK, s') \<and>
           sent s' (control_fd (client s)) = sent s (control_fd (client s)) @ buf)) \<and>
   (\<not> control (cfg (client s)) \<longrightarrow> rc_control_send buf s = Some (RC_ERR_INVALID_ARG, s)) \<and>
   (control (cfg (client s)) \<and> control_fd (client s) < 0 \<longrightarrow>
        rc_control_send buf s = Some (RC_ERR_CONNECT, s))"
  using write_full_room [of buf "outq s (control_fd (client s))"]
  by (auto simp: rc_control_send_def fd_write_def)

lemma control_send_complete_example:
  "\<exists>s'. rc_control_send [5, 0] demo_sys = Some (RC_OK, s') \<and> sent s' 7 = [5, 0]"
proof -
  have "control (cfg (client demo_sys)) \<and> 0 \<le> control_fd (client demo_sys) \<and>
      length [5, 0 :: byte] \<le> sink_room (outq demo_sys (control_fd (client demo_sys)))"
    by (simp add: demo_sys_def demo_client_def rc_client_create_def dup_or_null_def demo_config_def numeral_nat)
  with control_send_complete [of demo_sys "[5, 0]"] show ?thesis by (simp add: demo_sys_def)
qed

end
