(* ===== verification/RC_Adb.thy ===== *)
theory RC_Adb
  imports RC_Client_State
begin

text \<open>
  \<^verbatim>\<open>core/src/adb.c\<close>: running \<^verbatim>\<open>adb\<close> with a time limit, the argument vectors of the commands the core
  uses, and the server's \<^verbatim>\<open>Options.parse\<close> as the reference reader of the arguments that
  \<^verbatim>\<open>rc_adb_run_server\<close> builds.
\<close>

section \<open>Running adb\<close>

definition exit_ok :: "exit_status \<Rightarrow> rc_status" where
  "exit_ok st = (if st = Exited 0 then RC_OK else RC_ERR_ADB)"

function adb_wait :: "env \<Rightarrow> int \<Rightarrow> nat \<Rightarrow> nat \<Rightarrow> 'a os_scheme \<Rightarrow> rc_status \<times> 'a os_scheme" where
  "adb_wait E pid waited timeout_ms s =
     (case sys_waitpid_nohang E pid s of
        (Reaped st, s) \<Rightarrow> (exit_ok st, s)
      | (WaitErr, s) \<Rightarrow> (RC_ERR_ADB, s)
      | (StillRunning, s) \<Rightarrow>
          if timeout_ms \<le> waited then (RC_ERR_ADB, sys_kill_reap E pid s)
          else adb_wait E pid (waited + 50) timeout_ms (sleep_ms E 50 s))"
  by pat_completeness auto
termination
  by (relation "measure (\<lambda>(E, pid, waited, timeout_ms, s). timeout_ms - waited)") auto

declare adb_wait.simps [simp del]

definition adb_run_ex ::
    "env \<Rightarrow> string list \<Rightarrow> int \<Rightarrow> 'a os_scheme \<Rightarrow> (rc_status \<times> 'a os_scheme) option" where
  "adb_run_ex E argv timeout_ms s =
     (let (p, s) = sys_spawn E argv s in
      case p of
        None \<Rightarrow> Some (RC_ERR_ADB, s)
      | Some pid \<Rightarrow>
          if timeout_ms \<le> 0 then do {
            (w, s) \<leftarrow> sys_waitpid E pid s;
            Some (case w of Reaped st \<Rightarrow> exit_ok st | _ \<Rightarrow> RC_ERR_ADB, s)
          }
          else Some (adb_wait E pid 0 (nat timeout_ms) s))"

definition adb_run :: "env \<Rightarrow> string list \<Rightarrow> 'a os_scheme \<Rightarrow> (rc_status \<times> 'a os_scheme) option" where
  "adb_run E argv s = adb_run_ex E argv 0 s"

section \<open>Argument vectors\<close>

definition prefix_serial :: "string option \<Rightarrow> nat \<Rightarrow> string list" where
  "prefix_serial ser cap =
     (let out = (if 0 < cap then [''adb''] else []) in
      case ser of
        Some sn \<Rightarrow> if length out + 1 < cap then out @ [''-s'', sn] else out
      | None \<Rightarrow> out)"

definition RC_ADB_CONNECT_TIMEOUT_MS :: int where "RC_ADB_CONNECT_TIMEOUT_MS = 10000"

definition rc_adb_connect :: "env \<Rightarrow> string option \<Rightarrow> 'a os_scheme \<Rightarrow> (rc_status \<times> 'a os_scheme) option" where
  "rc_adb_connect E addr s =
     (case addr of
        None \<Rightarrow> Some (RC_ERR_INVALID_ARG, s)
      | Some a \<Rightarrow>
          if a = [] then Some (RC_ERR_INVALID_ARG, s)
          else do {
            (r, s) \<leftarrow> adb_run_ex E [''adb'', ''connect'', a] RC_ADB_CONNECT_TIMEOUT_MS s;
            if r \<noteq> RC_OK then Some (r, s)
            else adb_run_ex E [''adb'', ''-s'', a, ''get-state''] 5000 s
          })"

definition push_argv :: "string option \<Rightarrow> string \<Rightarrow> string \<Rightarrow> string list" where
  "push_argv ser local remote = prefix_serial ser 8 @ [''push'', local, remote]"

definition rc_adb_push ::
    "env \<Rightarrow> string option \<Rightarrow> string \<Rightarrow> string \<Rightarrow> 'a os_scheme \<Rightarrow> (rc_status \<times> 'a os_scheme) option" where
  "rc_adb_push E ser local remote s = adb_run E (push_argv ser local remote) s"

definition remote_spec :: "string \<Rightarrow> string" where
  "remote_spec remote = fit 128 (''localabstract:'' @ remote)"

definition reverse_argv :: "string option \<Rightarrow> string \<Rightarrow> int \<Rightarrow> string list" where
  "reverse_argv ser remote local_port =
     prefix_serial ser 8 @ [''reverse'', remote_spec remote, fit 32 (''tcp:'' @ show_int local_port)]"

definition rc_adb_reverse ::
    "env \<Rightarrow> string option \<Rightarrow> string \<Rightarrow> int \<Rightarrow> 'a os_scheme \<Rightarrow> (rc_status \<times> 'a os_scheme) option" where
  "rc_adb_reverse E ser remote local_port s = adb_run E (reverse_argv ser remote local_port) s"

definition reverse_remove_argv :: "string option \<Rightarrow> string \<Rightarrow> string list" where
  "reverse_remove_argv ser remote =
     prefix_serial ser 8 @ [''reverse'', ''--remove'', remote_spec remote]"

definition rc_adb_reverse_remove ::
    "env \<Rightarrow> string option \<Rightarrow> string \<Rightarrow> 'a os_scheme \<Rightarrow> (rc_status \<times> 'a os_scheme) option" where
  "rc_adb_reverse_remove E ser remote s = adb_run_ex E (reverse_remove_argv ser remote) 0 s"

fun codec_name :: "rc_codec \<Rightarrow> string" where
  "codec_name RC_CODEC_H265 = ''h265''"
| "codec_name RC_CODEC_AV1 = ''av1''"
| "codec_name RC_CODEC_H264 = ''h264''"

definition tf :: "bool \<Rightarrow> string" where
  "tf b = (if b then ''true'' else ''false'')"

definition server_args :: "rc_config \<Rightarrow> string option \<Rightarrow> int \<Rightarrow> string option \<Rightarrow> string list" where
  "server_args cf sock_name tcp_port token =
     [fit 96 (''socket_name='' @ (case sock_name of Some n \<Rightarrow> n | None \<Rightarrow> ''rigcontrol'')),
      fit 32 (''max_size='' @ show_int (max_size cf)),
      fit 32 (''bit_rate='' @ show_int (if bit_rate cf > 0 then bit_rate cf else 8000000)),
      fit 32 (''max_fps='' @ show_int (if max_fps cf > 0 then max_fps cf else 60)),
      fit 24 (''codec='' @ codec_name (codec cf)),
      fit 16 (''audio='' @ tf (audio cf)),
      fit 16 (''control='' @ tf (control cf)),
      fit 16 (''tcp='' @ tf (tcp_port > 0))]
     @ (if tcp_port > 0 then [fit 24 (''port='' @ show_int tcp_port)] else [])
     @ (case token of
          Some t \<Rightarrow> if t \<noteq> [] then [fit 48 (''token='' @ t)] else []
        | None \<Rightarrow> [])"

definition run_server_argv ::
    "string option \<Rightarrow> rc_config \<Rightarrow> string option \<Rightarrow> int \<Rightarrow> string option \<Rightarrow> string list" where
  "run_server_argv ser cf sock_name tcp_port token =
     prefix_serial ser 24
     @ [''shell'', fit 64 (''CLASSPATH=/data/local/tmp/rc-server''), ''app_process'', ''/'',
        ''com.rigcontrol.server.Server'']
     @ server_args cf sock_name tcp_port token"

text \<open>The process is left running; its pid is stored for the teardown.\<close>

definition rc_adb_run_server ::
    "env \<Rightarrow> string option \<Rightarrow> rc_config \<Rightarrow> string option \<Rightarrow> int \<Rightarrow> string option \<Rightarrow> 'a os_scheme \<Rightarrow>
     rc_status \<times> int option \<times> 'a os_scheme" where
  "rc_adb_run_server E ser cf sock_name tcp_port token s =
     (let (p, s) = sys_spawn E (run_server_argv ser cf sock_name tcp_port token) s in
      case p of None \<Rightarrow> (RC_ERR_ADB, None, s) | Some pid \<Rightarrow> (RC_OK, Some pid, s))"

section \<open>The server's option parser\<close>

record options =
  o_maxSize :: int
  o_bitRate :: int
  o_maxFps :: int
  o_codec :: string
  o_control :: bool
  o_audio :: bool
  o_tcp :: bool
  o_port :: int
  o_socketName :: string
  o_token :: "string option"

definition default_options :: options where
  "default_options = \<lparr>o_maxSize = 0, o_bitRate = 8000000, o_maxFps = 60, o_codec = ''h264'',
     o_control = True, o_audio = True, o_tcp = False, o_port = 27183,
     o_socketName = ''rigcontrol'', o_token = None\<rparr>"

text \<open>\<^verbatim>\<open>Integer.parseInt\<close>: \<^term>\<open>None\<close> is \<^verbatim>\<open>NumberFormatException\<close>.\<close>

definition parseInt :: "string \<Rightarrow> int option" where
  "parseInt v =
     (let (neg, ds) = (case v of CHR ''-'' # r \<Rightarrow> (True, r) | _ \<Rightarrow> (False, v));
          n = (if neg then - int (digits_val 0 ds) else int (digits_val 0 ds)) in
      if ds \<noteq> [] \<and> list_all is_digit ds \<and> - (2 ^ 31) \<le> n \<and> n < 2 ^ 31 then Some n else None)"

definition parse_arg :: "string \<Rightarrow> options \<Rightarrow> options option" where
  "parse_arg a opts =
     (let k = takeWhile (\<lambda>c. c \<noteq> CHR ''='') a; v = drop (Suc (length k)) a in
      if CHR ''='' \<notin> set a then Some opts
      else if k = ''max_size'' then map_option (\<lambda>n. opts\<lparr>o_maxSize := n\<rparr>) (parseInt v)
      else if k = ''bit_rate'' then map_option (\<lambda>n. opts\<lparr>o_bitRate := n\<rparr>) (parseInt v)
      else if k = ''max_fps'' then map_option (\<lambda>n. opts\<lparr>o_maxFps := n\<rparr>) (parseInt v)
      else if k = ''codec'' then Some (opts\<lparr>o_codec := v\<rparr>)
      else if k = ''control'' then Some (opts\<lparr>o_control := (v = ''true'')\<rparr>)
      else if k = ''audio'' then Some (opts\<lparr>o_audio := (v = ''true'')\<rparr>)
      else if k = ''tcp'' then Some (opts\<lparr>o_tcp := (v = ''true'')\<rparr>)
      else if k = ''port'' then map_option (\<lambda>n. opts\<lparr>o_port := n\<rparr>) (parseInt v)
      else if k = ''socket_name'' then Some (opts\<lparr>o_socketName := v\<rparr>)
      else if k = ''token'' then Some (opts\<lparr>o_token := Some v\<rparr>)
      else Some opts)"

fun parse_args :: "string list \<Rightarrow> options \<Rightarrow> options option" where
  "parse_args [] opts = Some opts"
| "parse_args (a # as) opts =
     (case parse_arg a opts of None \<Rightarrow> None | Some opts \<Rightarrow> parse_args as opts)"

section \<open>What running adb leaves behind\<close>

text \<open>\<^verbatim>\<open>waitpid\<close> on a child of this process that was not reaped yet fails only when a signal
  interrupts it; the program installs no handlers in the client.\<close>

definition waits_ok :: "env \<Rightarrow> bool" where
  "waits_ok E \<longleftrightarrow> (\<forall>n. e_wait E n \<noteq> WaitErr \<and> e_wait_block E n \<noteq> WaitErr)"

text \<open>A call that leaves the descriptor table, the client and the log of bytes alone.\<close>

definition fd_calm :: "'a os_scheme \<Rightarrow> 'a os_scheme \<Rightarrow> bool" where
  "fd_calm s s' \<longleftrightarrow> open_fds s' = open_fds s \<and> os.more s' = os.more s \<and> clock s \<le> clock s' \<and>
     inq s' = inq s \<and> outq s' = outq s \<and> sent s' = sent s"

lemma fd_calm_refl [simp]: "fd_calm s s"
  by (simp add: fd_calm_def)

lemma fd_calm_trans: "fd_calm s t \<Longrightarrow> fd_calm t u \<Longrightarrow> fd_calm s u"
  by (auto simp: fd_calm_def)

lemma fd_calm_intros [simp]:
  "fd_calm s (step_os E s)" "fd_calm s (sleep_ms E ms s)" "fd_calm s (sys_kill E pid s)"
  "fd_calm s (sys_kill_reap E pid s)" "fd_calm s (reap pid s)"
  "sys_waitpid_nohang E pid s = (w, s') \<Longrightarrow> fd_calm s s'"
  "sys_spawn E argv s = (p, s') \<Longrightarrow> fd_calm s s'"
  "sys_waitpid E pid s = Some (w, s') \<Longrightarrow> fd_calm s s'"
  "sys_ret E s = (r, s') \<Longrightarrow> fd_calm s s'" "sys_poll E ms s = (r, s') \<Longrightarrow> fd_calm s s'"
  by (auto simp: fd_calm_def step_os_def sleep_ms_def sys_kill_def sys_kill_reap_def reap_def
      sys_waitpid_nohang_def sys_spawn_def sys_waitpid_def sys_ret_def sys_poll_def Let_def
      split: wait_res.splits if_splits)

lemma foldr_max_ge: "x \<in> set xs \<Longrightarrow> (x :: int) \<le> foldr max xs b" "b \<le> foldr max xs b"
  by (induction xs) (auto simp: le_max_iff_disj)

lemma sys_spawn_Some:
  assumes "sys_spawn E argv s = (Some pid, s')"
  shows "0 < pid" and "pid \<notin> set (children s)" and "children s' = pid # children s"
    and "evlog s' = evlog s @ [Spawned argv pid]"
proof -
  let ?b = "max 1 (e_val E (tick s))"
  from assms have pid: "pid = 1 + foldr max (children s) ?b"
    and c: "children s' = pid # children s" "evlog s' = evlog s @ [Spawned argv pid]"
    by (auto simp: sys_spawn_def Let_def split: if_splits)
  from c show "children s' = pid # children s" "evlog s' = evlog s @ [Spawned argv pid]" by auto
  show "0 < pid" using foldr_max_ge(2) [of ?b "children s"] by (simp add: pid)
  show "pid \<notin> set (children s)"
    using foldr_max_ge(1) [of pid "children s" ?b] by (auto simp: pid)
qed

lemma sys_spawn_None: "sys_spawn E argv s = (None, s') \<Longrightarrow> children s' = children s"
  by (auto simp: sys_spawn_def Let_def split: if_splits)

lemma polls_step: "(w :: nat) < t \<Longrightarrow> Suc ((t - (w + 50) + 49) div 50) = (t - w + 49) div 50"
proof -
  assume "w < t"
  show ?thesis
  proof (cases "t - w \<le> 50")
    case True
    with \<open>w < t\<close> have "(t - w + 49) div 50 = 1" by (intro div_nat_eqI) auto
    with True show ?thesis by simp
  next
    case False
    define m where "m = t - (w + 50) + 49"
    from False have "t - w + 49 = m + 50" by (simp add: m_def)
    then have "(t - w + 49) div 50 = Suc (m div 50)" by (simp only: div_add_self2)
    then show ?thesis by (simp only: m_def)
  qed
qed

lemma adb_wait_spec:
  "adb_wait E pid waited t s = (r, s') \<Longrightarrow>
     fd_calm s s' \<and> tick s' \<le> tick s + 2 * ((t - waited + 49) div 50) + 2 \<and>
     (waits_ok E \<longrightarrow> children s' = filter (\<lambda>p. p \<noteq> pid) (children s))"
proof (induction E pid waited t s rule: adb_wait.induct)
  case (1 E pid waited t s)
  obtain w s1 where w: "sys_waitpid_nohang E pid s = (w, s1)" by fastforce
  then have calm1: "fd_calm s s1" and tick1: "tick s1 = Suc (tick s)"
    by (auto simp: sys_waitpid_nohang_def reap_def split: wait_res.splits)
  show ?case
  proof (cases w)
    case StillRunning
    then have ch: "children s1 = children s"
      using w by (auto simp: sys_waitpid_nohang_def split: wait_res.splits)
    show ?thesis
    proof (cases "t \<le> waited")
      case True
      with 1(2) w StillRunning have "s' = sys_kill_reap E pid s1" by (simp add: adb_wait.simps)
      then have "fd_calm s s'" "tick s' = Suc (tick s1)"
          "children s' = filter (\<lambda>p. p \<noteq> pid) (children s1)"
        using fd_calm_trans [OF calm1, of s'] by (simp, simp_all add: sys_kill_reap_def reap_def)
      with tick1 ch show ?thesis by simp
    next
      case False
      let ?s2 = "sleep_ms E 50 s1"
      from False 1(2) w StillRunning have rec: "adb_wait E pid (waited + 50) t ?s2 = (r, s')"
        by (subst (asm) adb_wait.simps) simp
      from 1(1) [OF w [symmetric] StillRunning False rec]
      have IH: "fd_calm ?s2 s'" "tick s' \<le> tick ?s2 + 2 * ((t - (waited + 50) + 49) div 50) + 2"
        "waits_ok E \<longrightarrow> children s' = filter (\<lambda>p. p \<noteq> pid) (children ?s2)" by auto
      have "tick ?s2 = Suc (Suc (tick s))" by (simp add: sleep_ms_def tick1)
      moreover have "Suc ((t - (waited + 50) + 49) div 50) = (t - waited + 49) div 50"
        using False by (intro polls_step) simp
      ultimately have "tick s' \<le> tick s + 2 * ((t - waited + 49) div 50) + 2" using IH(2) by linarith
      moreover have "fd_calm s s'"
        using fd_calm_trans [OF calm1 fd_calm_trans [OF _ IH(1)]] by simp
      ultimately show ?thesis using IH(3) ch by simp
    qed
  next
    case (Reaped st)
    with 1(2) w have "s' = s1" by (simp add: adb_wait.simps)
    with w Reaped calm1 tick1 show ?thesis
      by (auto simp: sys_waitpid_nohang_def reap_def split: wait_res.splits)
  next
    case WaitErr
    with 1(2) w have "s' = s1" by (simp add: adb_wait.simps)
    moreover have "\<not> waits_ok E"
      using w WaitErr by (auto simp: sys_waitpid_nohang_def waits_ok_def split: wait_res.splits)
    ultimately show ?thesis using calm1 tick1 by auto
  qed
qed

lemma filter_fresh: "p \<notin> set xs \<Longrightarrow> filter (\<lambda>x. x \<noteq> p) (p # xs) = xs"
  by (simp add: filter_id_conv) metis

lemma adb_run_ex_spec:
  assumes "adb_run_ex E argv t s = Some (r, s')"
  shows "fd_calm s s'" and "waits_ok E \<Longrightarrow> children s' = children s"
proof -
  obtain p s1 where sp: "sys_spawn E argv s = (p, s1)" by fastforce
  then have c1: "fd_calm s s1" by simp
  have "fd_calm s s' \<and> (waits_ok E \<longrightarrow> children s' = children s)"
  proof (cases p)
    case None
    with sp assms c1 sys_spawn_None [of E argv s s1] show ?thesis
      by (auto simp: adb_run_ex_def)
  next
    case (Some pid)
    note pid = sys_spawn_Some [OF sp [unfolded Some]]
    show ?thesis
    proof (cases "t \<le> 0")
      case True
      with assms sp Some obtain w where w: "sys_waitpid E pid s1 = Some (w, s')"
        by (auto simp: adb_run_ex_def bind_eq_Some_conv)
      then have "waits_ok E \<longrightarrow> children s' = filter (\<lambda>p. p \<noteq> pid) (children s1)"
        by (auto simp: sys_waitpid_def waits_ok_def reap_def split: wait_res.splits)
      with w fd_calm_trans [OF c1, of s'] filter_fresh [OF pid(2)] show ?thesis
        by (auto simp: pid(3))
    next
      case False
      with assms sp Some have "adb_wait E pid 0 (nat t) s1 = (r, s')"
        by (auto simp: adb_run_ex_def)
      from adb_wait_spec [OF this] fd_calm_trans [OF c1, of s'] filter_fresh [OF pid(2)]
      show ?thesis by (auto simp: pid(3))
    qed
  qed
  then show "fd_calm s s'" "waits_ok E \<Longrightarrow> children s' = children s" by auto
qed

text \<open>
  A time-limited \<^verbatim>\<open>adb\<close> command always returns.  For a positive limit, whatever the child process
  does, \<^verbatim>\<open>adb_run_ex\<close> returns after at most \<open>\<lceil>timeout/50\<rceil>\<close> polls; it leaves no child behind and does
  not touch the descriptor table.
\<close>

theorem adb_timed_run_returns:
  assumes "0 < t"
  shows "\<exists>r s'. adb_run_ex E argv t s = Some (r, s') \<and> open_fds s' = open_fds s \<and>
     tick s' \<le> tick s + 2 * ((nat t + 49) div 50) + 3 \<and> (waits_ok E \<longrightarrow> children s' = children s)"
proof -
  obtain p s1 where sp: "sys_spawn E argv s = (p, s1)" by fastforce
  then have tk: "tick s1 = Suc (tick s)"
    by (auto simp: sys_spawn_def Let_def split: if_splits)
  have "\<exists>r s'. adb_run_ex E argv t s = Some (r, s') \<and>
      tick s' \<le> tick s + 2 * ((nat t + 49) div 50) + 3"
  proof (cases p)
    case None
    with sp tk show ?thesis by (simp add: adb_run_ex_def)
  next
    case (Some pid)
    obtain r s' where w: "adb_wait E pid 0 (nat t) s1 = (r, s')" by fastforce
    with adb_wait_spec [OF w] sp Some assms tk show ?thesis by (simp add: adb_run_ex_def)
  qed
  then show ?thesis using adb_run_ex_spec by (metis fd_calm_def)
qed

text \<open>Without a limit the call returns when the child ends.\<close>

definition children_end :: "env \<Rightarrow> bool" where
  "children_end E \<longleftrightarrow> (\<forall>n. e_wait_block E n \<noteq> StillRunning)"

lemma sys_waitpid_returns: "children_end E \<Longrightarrow> \<exists>w s'. sys_waitpid E pid s = Some (w, s')"
  by (auto simp: sys_waitpid_def children_end_def split: wait_res.splits)

lemma adb_run_ex_returns:
  assumes "children_end E"
  shows "\<exists>r s'. adb_run_ex E argv t s = Some (r, s')"
proof -
  obtain p s1 where sp: "sys_spawn E argv s = (p, s1)" by fastforce
  show ?thesis
  proof (cases p)
    case None
    with sp show ?thesis by (simp add: adb_run_ex_def)
  next
    case (Some pid)
    obtain w s2 where "sys_waitpid E pid s1 = Some (w, s2)"
      using sys_waitpid_returns [OF assms] by blast
    with sp Some show ?thesis by (cases "adb_wait E pid 0 (nat t) s1") (simp add: adb_run_ex_def)
  qed
qed

text \<open>An environment in which every call succeeds at once but a child never ends by itself.\<close>

definition demo_env :: env where
  "demo_env = \<lparr>e_ret = (\<lambda>_. 0), e_errno = (\<lambda>_. EOther), e_val = (\<lambda>_. 0),
     e_wait = (\<lambda>_. StillRunning), e_wait_block = (\<lambda>_. Reaped (Exited 0)), e_delay = (\<lambda>_. 1),
     e_abort = (\<lambda>_. False), e_stream = (\<lambda>_. []), e_sink = (\<lambda>_. [Accept 64]),
     e_addrs = (\<lambda>_ _. Some 1), e_getenv = (\<lambda>_. None), e_readable = (\<lambda>_. True),
     e_exe = None, e_urandom = None, e_rand = (\<lambda>n. of_nat n)\<rparr>"

lemma demo_env_sel [simp]:
  "e_ret demo_env n = 0" "e_val demo_env n = 0" "e_wait demo_env n = StillRunning"
  "e_wait_block demo_env n = Reaped (Exited 0)" "e_delay demo_env n = 1"
  "e_abort demo_env n = False"
  by (simp_all add: demo_env_def)

definition demo_os :: os where
  "demo_os = \<lparr>tick = 0, clock = 0, open_fds = [0, 1, 2], children = [], inq = (\<lambda>_. []),
     outq = (\<lambda>_. []), sent = (\<lambda>_. []), evlog = []\<rparr>"

theorem adb_timed_run_returns_example:
  "waits_ok demo_env \<and>
   (\<exists>r s'. adb_run_ex demo_env [''adb'', ''connect'', ''10.0.0.9:5555''] 200 demo_os = Some (r, s') \<and>
      r = RC_ERR_ADB \<and> children s' = [] \<and> open_fds s' = [0, 1, 2] \<and> tick s' \<le> 11)"
proof -
  let ?argv = "[''adb'', ''connect'', ''10.0.0.9:5555'']"
  have w: "waits_ok demo_env" by (simp add: waits_ok_def demo_env_def)
  obtain r s' where r: "adb_run_ex demo_env ?argv 200 demo_os = Some (r, s')"
    "open_fds s' = [0, 1, 2]" "tick s' \<le> 11" "children s' = []"
    using adb_timed_run_returns [of 200 demo_env ?argv demo_os] w by (auto simp: demo_os_def)
  have "map_option fst (adb_run_ex demo_env ?argv 200 demo_os) = Some RC_ERR_ADB"
    by (simp add: adb_run_ex_def sys_spawn_def Let_def adb_wait.simps sys_waitpid_nohang_def)
  with r w show ?thesis by simp
qed

section \<open>Argument vectors fit their arrays\<close>

lemma prefix_serial_length: "2 < cap \<Longrightarrow> length (prefix_serial ser cap) \<le> 3"
  by (auto simp: prefix_serial_def Let_def split: option.splits)

text \<open>
  No argument vector overruns its array.  With the terminating NULL, \<^verbatim>\<open>push\<close>, \<^verbatim>\<open>reverse\<close> and
  \<^verbatim>\<open>reverse --remove\<close> use at most the 8 entries and the server command at most the 24 entries the
  functions declare, and every formatted argument is shorter than its buffer.
\<close>

lemma argv_bounds:
  "length (push_argv ser local remote) + 1 \<le> 8 \<and>
   length (reverse_argv ser remote p) + 1 \<le> 8 \<and>
   length (reverse_remove_argv ser remote) + 1 \<le> 8 \<and>
   length (run_server_argv ser cf sn p tok) + 1 \<le> 24 \<and>
   list_all (\<lambda>a. length a < 96) (server_args cf sn p tok)"
proof -
  have "length (server_args cf sn p tok) \<le> 10"
    by (auto simp: server_args_def split: option.splits)
  moreover have "list_all (\<lambda>a. length a < 96) (server_args cf sn p tok)"
  proof -
    have "length (fit sz a) < 96" if "0 < sz" "sz \<le> 96" for sz a
      using fit_length [OF that(1), of a] that(2) by linarith
    then show ?thesis by (simp add: server_args_def split: option.splits)
  qed
  ultimately show ?thesis
    using prefix_serial_length [of 8 ser] prefix_serial_length [of 24 ser]
    by (simp add: push_argv_def reverse_argv_def reverse_remove_argv_def run_server_argv_def)
qed

section \<open>The server reads the options the client wrote\<close>

definition int32 :: "int \<Rightarrow> bool" where
  "int32 i \<longleftrightarrow> - (2 ^ 31) \<le> i \<and> i < 2 ^ 31"

lemma show_int_length: "int32 i \<Longrightarrow> length (show_int i) \<le> 11"
proof -
  assume "int32 i"
  then have "nat \<bar>i\<bar> < 10 ^ 10" by (auto simp: int32_def)
  then have "length (show_nat (nat \<bar>i\<bar>)) \<le> 10" by (intro show_nat_length) simp_all
  then show ?thesis by (auto simp: show_int_def)
qed

lemma parseInt_show_int: "int32 i \<Longrightarrow> parseInt (show_int i) = Some i"
proof -
  assume i: "int32 i"
  have sn: "list_all is_digit (show_nat n)" "digits_val 0 (show_nat n) = n" for n
    by (rule show_nat_digits, rule digits_val_show_nat_acc)
  obtain c cs where c: "show_nat (nat i) = c # cs" by (cases "show_nat (nat i)") auto
  with sn(1) [of "nat i"] have "c \<noteq> CHR ''-''" using digit_not_special by auto
  then have "(case show_nat (nat i) of CHR ''-'' # r \<Rightarrow> (True, r) | _ \<Rightarrow> (False, show_nat (nat i)))
      = (False, show_nat (nat i))" by (auto simp: c split: char.splits bool.splits)
  with i show ?thesis by (auto simp: parseInt_def show_int_def int32_def sn Let_def)
qed

lemma parse_arg_kv:
  assumes "CHR ''='' \<notin> set k"
  shows "takeWhile (\<lambda>c. c \<noteq> CHR ''='') (k @ CHR ''='' # v) = k"
    and "drop (Suc (length k)) (k @ CHR ''='' # v) = v"
  using assms by (auto simp: takeWhile_append)

lemma parse_args_append:
  "parse_args (as @ bs) opts = Option.bind (parse_args as opts) (parse_args bs)"
  by (induction as arbitrary: opts) (auto split: option.splits)

definition options_of :: "rc_config \<Rightarrow> string option \<Rightarrow> int \<Rightarrow> string option \<Rightarrow> options" where
  "options_of cf sn port tok =
     \<lparr>o_maxSize = max_size cf, o_bitRate = (if bit_rate cf > 0 then bit_rate cf else 8000000),
      o_maxFps = (if max_fps cf > 0 then max_fps cf else 60), o_codec = codec_name (codec cf),
      o_control = control cf, o_audio = audio cf, o_tcp = (port > 0),
      o_port = (if port > 0 then port else 27183),
      o_socketName = (case sn of Some n \<Rightarrow> n | None \<Rightarrow> ''rigcontrol''),
      o_token = (case tok of Some t \<Rightarrow> if t = [] then None else Some t | None \<Rightarrow> None)\<rparr>"

lemma parse_int_args:
  assumes "int32 i"
  shows "parse_arg (fit 32 (''max_size='' @ show_int i)) opts = Some (opts\<lparr>o_maxSize := i\<rparr>)"
    and "parse_arg (fit 32 (''bit_rate='' @ show_int i)) opts = Some (opts\<lparr>o_bitRate := i\<rparr>)"
    and "parse_arg (fit 32 (''max_fps='' @ show_int i)) opts = Some (opts\<lparr>o_maxFps := i\<rparr>)"
    and "parse_arg (fit 24 (''port='' @ show_int i)) opts = Some (opts\<lparr>o_port := i\<rparr>)"
  using show_int_length [OF assms] parseInt_show_int [OF assms]
  by (simp_all add: parse_arg_def fit_id)

lemma parse_string_args:
  "length n < 84 \<Longrightarrow>
     parse_arg (fit 96 (''socket_name='' @ n)) opts = Some (opts\<lparr>o_socketName := n\<rparr>)"
  "length n < 42 \<Longrightarrow> parse_arg (fit 48 (''token='' @ n)) opts = Some (opts\<lparr>o_token := Some n\<rparr>)"
  "parse_arg (fit 24 (''codec='' @ codec_name cd)) opts = Some (opts\<lparr>o_codec := codec_name cd\<rparr>)"
  "parse_arg (fit 16 (''audio='' @ tf b)) opts = Some (opts\<lparr>o_audio := b\<rparr>)"
  "parse_arg (fit 16 (''control='' @ tf b)) opts = Some (opts\<lparr>o_control := b\<rparr>)"
  "parse_arg (fit 16 (''tcp='' @ tf b)) opts = Some (opts\<lparr>o_tcp := b\<rparr>)"
  by (simp_all add: parse_arg_def fit_id tf_def) (cases cd; simp add: fit_id)+

text \<open>
  The server reads back the configuration the client asked for.  For every configuration of
  \<^verbatim>\<open>int\<close> values, a socket name and token that fit their fields (as those the client generates do), the
  server's \<^verbatim>\<open>Options.parse\<close> of the arguments \<^verbatim>\<open>rc_adb_run_server\<close> builds succeeds, and every option
  has the value of the configuration: nothing is cut off by \<^verbatim>\<open>snprintf\<close>, defaults apply exactly
  when the configured value is not positive.
\<close>

lemma parse_server_args:
  assumes "int32 (max_size cf)" "int32 (bit_rate cf)" "int32 (max_fps cf)" "int32 port"
    and "\<forall>n. sn = Some n \<longrightarrow> length n < 84" and "\<forall>t. tok = Some t \<longrightarrow> length t < 42"
  shows "parse_args (server_args cf sn port tok) default_options = Some (options_of cf sn port tok)"
proof -
  have br: "int32 (if bit_rate cf > 0 then bit_rate cf else 8000000)"
    and mf: "int32 (if max_fps cf > 0 then max_fps cf else 60)"
    using assms(2,3) by (auto simp: int32_def)
  have sn: "length (case sn of Some n \<Rightarrow> n | None \<Rightarrow> ''rigcontrol'') < 84"
    using assms(5) by (auto split: option.splits)
  have tail: "parse_args (case tok of Some t \<Rightarrow> if t \<noteq> [] then [fit 48 (''token='' @ t)] else []
        | None \<Rightarrow> []) opts =
      Some (case tok of Some t \<Rightarrow> if t \<noteq> [] then opts\<lparr>o_token := Some t\<rparr> else opts | None \<Rightarrow> opts)" for opts
    using assms(6) by (auto simp: parse_string_args(2) [simplified] split: option.splits)
  show ?thesis
    unfolding server_args_def parse_args_append tail
    using parse_int_args(1) [OF assms(1)] parse_int_args(2) [OF br] parse_int_args(3) [OF mf]
      parse_int_args(4) [OF assms(4)] parse_string_args(1) [OF sn]
    by (auto simp: parse_string_args(3-6) [simplified] options_of_def default_options_def split: option.splits)
qed

lemma parse_server_args_example:
  "parse_args (server_args
       \<lparr>serial = None, transport = RC_TRANSPORT_TCP, tcp_addr = Some ''10.0.0.9'', tcp_device_port = 0,
        max_size = 1080, bit_rate = 0, max_fps = 30, codec = RC_CODEC_H265, control = True,
        audio = False, audio_codec = RC_ACODEC_OPUS\<rparr> None 27183 (Some ''00ff'')) default_options
     = Some \<lparr>o_maxSize = 1080, o_bitRate = 8000000, o_maxFps = 30, o_codec = ''h265'',
         o_control = True, o_audio = False, o_tcp = True, o_port = 27183,
         o_socketName = ''rigcontrol'', o_token = Some ''00ff''\<rparr>"
  by (subst parse_server_args) (simp_all add: int32_def options_of_def)

end
