(* ===== verification/RC_Deploy.thy ===== *)
theory RC_Deploy
  imports RC_Control RC_Adb
begin

text \<open>
  \<^verbatim>\<open>core/src/server_deploy.c\<close>: finding and pushing the server, the two ways of reaching it (reverse
  tunnel over \<^verbatim>\<open>adb\<close>, direct TCP with a token), the fallback from the second to the first, and the
  teardown.  The main theorem is resource accounting: whatever the environment answers, a deploy
  followed by a teardown leaves the descriptor table and the child processes as they were.
\<close>

section \<open>Locating the server\<close>

definition PATH_MAX :: nat where "PATH_MAX = 4096"

definition exe_dir :: "env \<Rightarrow> nat \<Rightarrow> string option" where
  "exe_dir E sz =
     (case e_exe E of
        None \<Rightarrow> None
      | Some link \<Rightarrow>
          let real = take (PATH_MAX - 1) link in
          if real = [] then None
          else (case strrchr real (CHR ''/'') of
                  None \<Rightarrow> None
                | Some dlen \<Rightarrow> if sz \<le> dlen then None else Some (take dlen real)))"

fun first_readable :: "env \<Rightarrow> string \<Rightarrow> string list \<Rightarrow> string option" where
  "first_readable E dir [] = None"
| "first_readable E dir (r # rs) =
     (let path = dir @ ''/'' @ r in
      if length path < PATH_MAX \<and> e_readable E path then Some path else first_readable E dir rs)"

definition server_local_path :: "env \<Rightarrow> string" where
  "server_local_path E =
     (case e_getenv E ''RC_SERVER_PATH'' of
        Some (c # cs) \<Rightarrow> c # cs
      | _ \<Rightarrow>
          (case Option.bind (exe_dir E PATH_MAX) (\<lambda>dir. first_readable E dir
                  [''../Resources/rc-server'', ''server/rc-server'', ''rc-server'']) of
             Some path \<Rightarrow> path
           | None \<Rightarrow> ''server/rc-server''))"

section \<open>Waiting with cancellation\<close>

text \<open>The atomic flag, which another thread may have raised by now.\<close>

definition aborted :: "env \<Rightarrow> sys \<Rightarrow> bool" where
  "aborted E s \<longleftrightarrow> abort_requested (client s) \<or> e_abort E (tick s)"

definition server_died :: "env \<Rightarrow> sys \<Rightarrow> bool \<times> sys" where
  "server_died E s =
     (if server_pid (client s) \<le> 0 then (False, s)
      else (case sys_waitpid_nohang E (server_pid (client s)) s of
              (Reaped st, s) \<Rightarrow> (True, upd (\<lambda>c. c\<lparr>server_pid := 0\<rparr>) s)
            | (w, s) \<Rightarrow> (False, s)))"

definition wait_cancelled :: "env \<Rightarrow> sys \<Rightarrow> bool \<times> sys" where
  "wait_cancelled E s = (if aborted E s then (True, s) else server_died E s)"

definition WAIT_SLICE_MS :: nat where "WAIT_SLICE_MS = 100"
definition ACCEPT_TIMEOUT_MS :: nat where "ACCEPT_TIMEOUT_MS = 15000"
definition META_TIMEOUT_MS :: nat where "META_TIMEOUT_MS = 12000"

function accept_loop :: "env \<Rightarrow> nat \<Rightarrow> nat \<Rightarrow> sys \<Rightarrow> int \<times> sys" where
  "accept_loop E waited timeout_ms s =
     (if timeout_ms \<le> waited then (-1, s)
      else
        let (r, s) = sys_poll E WAIT_SLICE_MS s in
        if r > 0 then rc_net_accept E s
        else if r < 0 then (-1, s)
        else
          let (c, s) = wait_cancelled E s in
          if c then (-1, s) else accept_loop E (waited + WAIT_SLICE_MS) timeout_ms s)"
  by pat_completeness auto
termination
  by (relation "measure (\<lambda>(E, waited, timeout_ms, s). timeout_ms - waited)")
    (auto simp: WAIT_SLICE_MS_def)

declare accept_loop.simps [simp del]

definition accept_timeout :: "env \<Rightarrow> nat \<Rightarrow> sys \<Rightarrow> int \<times> sys" where
  "accept_timeout E timeout_ms s = accept_loop E 0 timeout_ms s"

text \<open>Reading \<^verbatim>\<open>device_meta\<close> from \<^verbatim>\<open>video_fd\<close> into the client.\<close>

definition fd_read_meta :: "sys \<Rightarrow> (rc_status \<times> sys) option" where
  "fd_read_meta s = do {
     let fd = video_fd (client s);
     (r, m, q) \<leftarrow> rc_demux_read_meta (inq s fd) (Some (meta (client s)));
     Some (r, upd (\<lambda>c. c\<lparr>meta := the m\<rparr>) (s\<lparr>inq := (inq s)(fd := q)\<rparr>))
   }"

function meta_loop :: "env \<Rightarrow> nat \<Rightarrow> nat \<Rightarrow> sys \<Rightarrow> (rc_status \<times> sys) option" where
  "meta_loop E waited timeout_ms s =
     (if timeout_ms \<le> waited then Some (RC_ERR_CONNECT, s)
      else
        let (r, s) = sys_poll E WAIT_SLICE_MS s in
        if r > 0 then fd_read_meta s
        else if r < 0 then Some (RC_ERR_CONNECT, s)
        else
          let (c, s) = wait_cancelled E s in
          if c then Some (RC_ERR_CONNECT, s) else meta_loop E (waited + WAIT_SLICE_MS) timeout_ms s)"
  by pat_completeness auto
termination
  by (relation "measure (\<lambda>(E, waited, timeout_ms, s). timeout_ms - waited)")
    (auto simp: WAIT_SLICE_MS_def)

declare meta_loop.simps [simp del]

definition read_meta_timeout :: "env \<Rightarrow> nat \<Rightarrow> sys \<Rightarrow> (rc_status \<times> sys) option" where
  "read_meta_timeout E timeout_ms s = meta_loop E 0 timeout_ms s"

section \<open>Token and address\<close>

definition hex_digit :: "nat \<Rightarrow> char" where
  "hex_digit d = (if d < 10 then char_of (48 + d) else char_of (87 + d))"

text \<open>\<^verbatim>\<open>sprintf("%02x", b)\<close>.\<close>

definition hex2 :: "byte \<Rightarrow> string" where
  "hex2 b = [hex_digit (unat b div 16), hex_digit (unat b mod 16)]"

text \<open>The 16 raw bytes: one read of \<^verbatim>\<open>/dev/urandom\<close> if it opened and was not short, else \<^verbatim>\<open>rand()\<close>.\<close>

definition lan_raw :: "env \<Rightarrow> int \<Rightarrow> byte list" where
  "lan_raw E fd =
     (let n = RC_LAN_TOKEN_LEN div 2;
          got = (if 0 \<le> fd then map_option (take n) (e_urandom E) else None) in
      case got of
        Some bs \<Rightarrow> if length bs = n then bs else map (e_rand E) [0 ..< n]
      | None \<Rightarrow> map (e_rand E) [0 ..< n])"

definition gen_lan_token :: "env \<Rightarrow> 'a os_scheme \<Rightarrow> string \<times> 'a os_scheme" where
  "gen_lan_token E s =
     (let (fd, s) = sys_open_fd E s;
          s = (if 0 \<le> fd then sys_close E fd (step_os E s) else s)
      in (concat (map hex2 (lan_raw E fd)), s))"

text \<open>\<^verbatim>\<open>parse_addr(addr, host, host_sz, &port)\<close>.\<close>

definition parse_addr :: "string option \<Rightarrow> nat \<Rightarrow> rc_status + (string \<times> int)" where
  "parse_addr addr host_sz =
     (case addr of
        None \<Rightarrow> Inl RC_ERR_INVALID_ARG
      | Some a \<Rightarrow>
          if a = [] then Inl RC_ERR_INVALID_ARG
          else (case strrchr a (CHR '':'') of
                  Some n \<Rightarrow>
                    if n = 0 \<or> host_sz \<le> n then Inl RC_ERR_INVALID_ARG
                    else (let port = atoi (drop (Suc n) a)
                          in Inr (take n a, if port \<le> 0 then RC_DEFAULT_TCP_PORT else port))
                | None \<Rightarrow>
                    if host_sz \<le> length a then Inl RC_ERR_INVALID_ARG
                    else Inr (a, RC_DEFAULT_TCP_PORT)))"

section \<open>Reverse tunnel\<close>

definition has_colon :: "string option \<Rightarrow> bool" where
  "has_colon ser = (case ser of Some sn \<Rightarrow> CHR '':'' \<in> set sn | None \<Rightarrow> False)"

definition ensure_adb_device :: "env \<Rightarrow> sys \<Rightarrow> (rc_status \<times> sys) option" where
  "ensure_adb_device E s =
     (if has_colon (serial (cfg (client s))) then do {
        (r, s) \<leftarrow> rc_adb_connect E (serial (cfg (client s))) s;
        if r \<noteq> RC_OK then Some (r, rc_emit_status r MsgAdbConnectFailed s) else Some (RC_OK, s)
      }
      else Some (RC_OK, s))"

definition RC_SERVER_REMOTE_PATH :: string where
  "RC_SERVER_REMOTE_PATH = ''/data/local/tmp/rc-server''"

definition usb_desc :: "string option \<Rightarrow> transport_desc" where
  "usb_desc ser =
     (if has_colon ser then LanViaAdb
      else (case ser of
              Some sn \<Rightarrow> if take 9 sn = ''emulator-'' then AdbEmulator else UsbCable
            | None \<Rightarrow> UsbCable))"

text \<open>The accepts, in the order video, audio, control.\<close>

definition usb_accept :: "env \<Rightarrow> sys \<Rightarrow> rc_status \<times> sys" where
  "usb_accept E s =
     (let (fd, s) = accept_timeout E ACCEPT_TIMEOUT_MS s;
          s = upd (\<lambda>c. c\<lparr>video_fd := fd\<rparr>) s in
      if fd < 0 then (RC_ERR_CONNECT, rc_emit_status RC_ERR_CONNECT MsgNoVideoConnection s)
      else
        let (ok, s) =
              (if audio (cfg (client s)) then
                 (let (fd, s) = accept_timeout E ACCEPT_TIMEOUT_MS s
                  in (0 \<le> fd, upd (\<lambda>c. c\<lparr>audio_fd := fd\<rparr>) s))
               else (True, s)) in
        if \<not> ok then (RC_ERR_CONNECT, s)
        else
          let (ok, s) =
                (if control (cfg (client s)) then
                   (let (fd, s) = accept_timeout E ACCEPT_TIMEOUT_MS s
                    in (0 \<le> fd, upd (\<lambda>c. c\<lparr>control_fd := fd\<rparr>) s))
                 else (True, s)) in
          if \<not> ok then (RC_ERR_CONNECT, s)
          else (RC_OK, upd (\<lambda>c. c\<lparr>listen_fd := -1\<rparr>) (sys_close E (listen_fd (client s)) s)))"

definition usb_meta :: "env \<Rightarrow> sys \<Rightarrow> (rc_status \<times> sys) option" where
  "usb_meta E s = do {
     (r, s) \<leftarrow> read_meta_timeout E META_TIMEOUT_MS s;
     if r \<noteq> RC_OK then Some (r, rc_emit_status r MsgNoDeviceMeta s)
     else Some (RC_OK,
            upd (\<lambda>c. c\<lparr>c_transport_desc := Some (usb_desc (serial (cfg c)))\<rparr>) s)
   }"

text \<open>From the listening socket on: reverse tunnel, server, streams, meta.\<close>

definition usb_run :: "env \<Rightarrow> string option \<Rightarrow> int \<Rightarrow> sys \<Rightarrow> (rc_status \<times> sys) option" where
  "usb_run E ser port s = do {
     (r, s) \<leftarrow> rc_adb_reverse E ser (socket_name (client s)) port s;
     if r \<noteq> RC_OK then Some (r, rc_emit_status r MsgAdbReverseFailed s)
     else
       let (r, pid, s) =
             rc_adb_run_server E ser (cfg (client s)) (Some (socket_name (client s))) 0 None s;
           s = (case pid of Some p \<Rightarrow> upd (\<lambda>c. c\<lparr>server_pid := p\<rparr>) s | None \<Rightarrow> s) in
       if r \<noteq> RC_OK then Some (r, rc_emit_status r MsgRunServerFailed s)
       else
         let (r, s) = usb_accept E s in
         if r \<noteq> RC_OK then Some (r, s) else usb_meta E s
   }"

definition deploy_usb :: "env \<Rightarrow> sys \<Rightarrow> (rc_status \<times> sys) option" where
  "deploy_usb E s = do {
     let ser = serial (cfg (client s));
     (r, s) \<leftarrow> ensure_adb_device E s;
     if r \<noteq> RC_OK then Some (r, s) else do {
       (r, s) \<leftarrow> rc_adb_push E ser (server_local_path E) RC_SERVER_REMOTE_PATH s;
       if r \<noteq> RC_OK then Some (r, rc_emit_status r MsgAdbPushFailed s)
       else
         let (fd, port, s) = rc_net_listen_loopback E s;
             s = upd (\<lambda>c. c\<lparr>listen_fd := fd\<rparr>) s in
         if fd < 0 then Some (RC_ERR_CONNECT, s) else usb_run E ser port s
     }
   }"

section \<open>Teardown\<close>

definition close_streams :: "env \<Rightarrow> sys \<Rightarrow> sys" where
  "close_streams E s =
     (let s = (if 0 \<le> control_fd (client s)
               then upd (\<lambda>c. c\<lparr>control_fd := -1\<rparr>) (sys_close E (control_fd (client s)) s) else s);
          s = (if 0 \<le> audio_fd (client s)
               then upd (\<lambda>c. c\<lparr>audio_fd := -1\<rparr>) (sys_close E (audio_fd (client s)) s) else s);
          s = (if 0 \<le> video_fd (client s)
               then upd (\<lambda>c. c\<lparr>video_fd := -1\<rparr>) (sys_close E (video_fd (client s)) s) else s)
      in if 0 \<le> listen_fd (client s)
         then upd (\<lambda>c. c\<lparr>listen_fd := -1\<rparr>) (sys_close E (listen_fd (client s)) s) else s)"

definition stop_server :: "env \<Rightarrow> sys \<Rightarrow> sys option" where
  "stop_server E s =
     (if server_pid (client s) > 0 then do {
        (w, s) \<leftarrow> sys_waitpid E (server_pid (client s)) (sys_kill E (server_pid (client s)) s);
        Some (upd (\<lambda>c. c\<lparr>server_pid := 0\<rparr>) s)
      } else Some s)"

definition rc_server_teardown :: "env \<Rightarrow> sys \<Rightarrow> sys option" where
  "rc_server_teardown E s = do {
     s \<leftarrow> stop_server E (close_streams E s);
     if transport (cfg (client s)) = RC_TRANSPORT_USB then do {
       (r, s) \<leftarrow> rc_adb_reverse_remove E (serial (cfg (client s))) (socket_name (client s)) s;
       Some s
     } else Some s
   }"

section \<open>Direct TCP\<close>

lemma server_died_clock: "server_died E s = (c, s') \<Longrightarrow> clock s \<le> clock s'"
  by (auto simp: server_died_def sys_waitpid_nohang_def reap_def split: if_splits wait_res.splits)

lemma wait_cancelled_clock: "wait_cancelled E s = (c, s') \<Longrightarrow> clock s \<le> clock s'"
  by (auto simp: wait_cancelled_def dest: server_died_clock split: if_splits)

function connect_loop :: "env \<Rightarrow> string \<Rightarrow> int \<Rightarrow> int \<Rightarrow> sys \<Rightarrow> (int \<times> sys) option" where
  "connect_loop E host port deadline s =
     (let remain = deadline - clock s;
          per_try = (if remain > 1000 then 1000 else if remain < 100 then 100 else remain);
          (fd, s1) = rc_net_connect_tcp E host port per_try s in
      if 0 \<le> fd then
        (if lan_token (client s1) \<noteq> [] then do {
           (r, s2) \<leftarrow> fd_write fd (map of_char (take RC_LAN_TOKEN_LEN (lan_token (client s1)))) s1;
           if r \<noteq> RC_OK then Some (-1, sys_close E fd s2) else Some (fd, s2)
         }
         else Some (fd, s1))
      else
        let (cancelled, s2) = wait_cancelled E s1 in
        if cancelled \<or> deadline \<le> clock s2 then Some (-1, s2)
        else connect_loop E host port deadline (sleep_ms E 200 s2))"
  by pat_completeness auto
termination
proof (relation "measure (\<lambda>(E, host, port, deadline, s). nat (deadline - clock s))", goal_cases)
  case (2 E host port deadline s remain per_try y fd s1 z cancelled s2)
  have "clock s \<le> clock s1" using connect.frame 2(3,4) by (metis (no_types))
  moreover have "clock s1 \<le> clock s2" using 2(6,7) wait_cancelled_clock by metis
  ultimately show ?case using 2(8) sleep_ms_fields(7) [of s2 200 E] by auto
qed simp

declare connect_loop.simps [simp del]

definition connect_retry :: "env \<Rightarrow> string \<Rightarrow> int \<Rightarrow> int \<Rightarrow> sys \<Rightarrow> (int \<times> sys) option" where
  "connect_retry E host port budget_ms s = connect_loop E host port (clock s + budget_ms) s"

text \<open>The steps whose name appears in the failure messages.\<close>

datatype lan_step = ConnectVideo | ConnectAudio | ConnectControl | ReadMeta

fun lan_step_name :: "lan_step \<Rightarrow> string" where
  "lan_step_name ConnectVideo = ''connect video''"
| "lan_step_name ConnectAudio = ''connect audio''"
| "lan_step_name ConnectControl = ''connect control''"
| "lan_step_name ReadMeta =
     [CHR 0xC4, CHR 0x91, CHR 0xE1, CHR 0xBB, CHR 0x8D] @ ''c device_meta''"

text \<open>The optional streams; the first component is the step that failed.\<close>

definition tcp_audio :: "env \<Rightarrow> string \<Rightarrow> int \<Rightarrow> sys \<Rightarrow> (lan_step option \<times> sys) option" where
  "tcp_audio E host port s =
     (if audio (cfg (client s)) then do {
        (fd, s) \<leftarrow> connect_retry E host port 1000 s;
        Some (if fd < 0 then Some ConnectAudio else None, upd (\<lambda>c. c\<lparr>audio_fd := fd\<rparr>) s)
      } else Some (None, s))"

definition tcp_control :: "env \<Rightarrow> lan_step option \<Rightarrow> string \<Rightarrow> int \<Rightarrow> sys \<Rightarrow> (lan_step option \<times> sys) option" where
  "tcp_control E fail host port s =
     (if fail = None \<and> control (cfg (client s)) then do {
        (fd, s) \<leftarrow> connect_retry E host port 1000 s;
        Some (if fd < 0 then Some ConnectControl else None, upd (\<lambda>c. c\<lparr>control_fd := fd\<rparr>) s)
      } else Some (fail, s))"

definition tcp_meta :: "env \<Rightarrow> lan_step option \<Rightarrow> sys \<Rightarrow> (lan_step option \<times> sys) option" where
  "tcp_meta E fail s =
     (if fail = None then do {
        (r, s) \<leftarrow> read_meta_timeout E META_TIMEOUT_MS s;
        Some (if r \<noteq> RC_OK then Some ReadMeta else None, s)
      } else Some (fail, s))"

text \<open>Connecting video, audio, control and reading the meta.\<close>

definition tcp_connect_all ::
    "env \<Rightarrow> bool \<Rightarrow> string \<Rightarrow> int \<Rightarrow> sys \<Rightarrow> (lan_step option \<times> sys) option" where
  "tcp_connect_all E deployed host port s = do {
     (fd, s) \<leftarrow> connect_retry E host port (if deployed then 3000 else 1000) s;
     let s = upd (\<lambda>c. c\<lparr>video_fd := fd\<rparr>) s;
     if fd < 0 then Some (Some ConnectVideo, s)
     else do {
       (fail, s) \<leftarrow> tcp_audio E host port s;
       (fail, s) \<leftarrow> tcp_control E fail host port s;
       tcp_meta E fail s
     }
   }"

text \<open>The part after the deployment step, with the fallback to the tunnel.\<close>

definition tcp_finish :: "env \<Rightarrow> bool \<Rightarrow> string \<Rightarrow> int \<Rightarrow> sys \<Rightarrow> (rc_status \<times> sys) option" where
  "tcp_finish E deployed host port s = do {
     (fail, s) \<leftarrow> tcp_connect_all E deployed host port s;
     case fail of
       None \<Rightarrow> Some (RC_OK, upd (\<lambda>c. c\<lparr>c_transport_desc := Some LanDirect\<rparr>) s)
     | Some f \<Rightarrow>
         if deployed \<and> \<not> aborted E s then do {
           s \<leftarrow> rc_server_teardown E (rc_emit_status RC_OK (MsgLanFallback (lan_step_name f)) s);
           deploy_usb E (upd (\<lambda>c. c\<lparr>lan_token := [], cfg := (cfg c)\<lparr>transport := RC_TRANSPORT_USB\<rparr>\<rparr>) s)
         }
         else Some (RC_ERR_CONNECT, rc_emit_status RC_ERR_CONNECT (MsgTcpFailed (lan_step_name f)) s)
   }"

text \<open>Connecting before the server is there: somebody else listens on the port.\<close>

definition lan_port_taken :: "env \<Rightarrow> string \<Rightarrow> int \<Rightarrow> sys \<Rightarrow> bool \<times> sys" where
  "lan_port_taken E host port s =
     (if tcp_device_port (cfg (client s)) \<le> 0 then
        (let (probe, s) = rc_net_connect_tcp E host port 800 s in
         if 0 \<le> probe then (True, sys_close E probe s) else (False, s))
      else (False, s))"

definition tcp_deploy_server :: "env \<Rightarrow> string \<Rightarrow> int \<Rightarrow> sys \<Rightarrow> (rc_status \<times> sys) option" where
  "tcp_deploy_server E host port s = do {
     let (taken, s) = lan_port_taken E host port s;
     if taken then
       deploy_usb E (upd (\<lambda>c. c\<lparr>cfg := (cfg c)\<lparr>transport := RC_TRANSPORT_USB\<rparr>\<rparr>)
         (rc_emit_status RC_OK MsgLanPortTaken s))
     else do {
       (r, s) \<leftarrow> ensure_adb_device E s;
       if r \<noteq> RC_OK then Some (r, s) else do {
         (r, s) \<leftarrow> rc_adb_push E (serial (cfg (client s))) (server_local_path E) RC_SERVER_REMOTE_PATH s;
         if r \<noteq> RC_OK then Some (r, rc_emit_status r MsgAdbPushFailed s) else do {
           let (tok, s) = gen_lan_token E s;
           let s = upd (\<lambda>c. c\<lparr>lan_token := tok\<rparr>) s;
           let dev_port = (if tcp_device_port (cfg (client s)) > 0
                           then tcp_device_port (cfg (client s)) else port);
           let (r, pid, s) = rc_adb_run_server E (serial (cfg (client s))) (cfg (client s)) None
                               dev_port (Some (lan_token (client s))) s;
           let s = (case pid of Some p \<Rightarrow> upd (\<lambda>c. c\<lparr>server_pid := p\<rparr>) s | None \<Rightarrow> s);
           if r \<noteq> RC_OK then Some (r, rc_emit_status r MsgRunServerFailed s)
           else tcp_finish E True host port s
         }
       }
     }
   }"

definition deploy_tcp :: "env \<Rightarrow> sys \<Rightarrow> (rc_status \<times> sys) option" where
  "deploy_tcp E s =
     (case parse_addr (tcp_addr (cfg (client s))) 128 of
        Inl r \<Rightarrow> Some (r, rc_emit_status r MsgBadTcpAddr s)
      | Inr (host, port) \<Rightarrow>
          (case serial (cfg (client s)) of
             Some (ch # sn) \<Rightarrow> tcp_deploy_server E host port s
           | _ \<Rightarrow> tcp_finish E False host port s))"

definition rc_server_deploy :: "env \<Rightarrow> sys \<Rightarrow> (rc_status \<times> sys) option" where
  "rc_server_deploy E s =
     (if transport (cfg (client s)) = RC_TRANSPORT_TCP then deploy_tcp E s else deploy_usb E s)"

section \<open>Ownership of descriptors and children\<close>

definition client_fd_list :: "rc_client \<Rightarrow> int list" where
  "client_fd_list c = filter (\<lambda>f. 0 \<le> f) [video_fd c, audio_fd c, control_fd c, listen_fd c]"

definition client_fds :: "rc_client \<Rightarrow> int set" where
  "client_fds c = {f. 0 \<le> f \<and> (f = video_fd c \<or> f = audio_fd c \<or> f = control_fd c \<or> f = listen_fd c)}"

definition client_pids :: "rc_client \<Rightarrow> int set" where
  "client_pids c = {p. 0 < p \<and> p = server_pid c}"

text \<open>The fields of the client that belong to its threads; deploy and teardown leave them alone.\<close>

datatype thread_part =
  Threads bool bool "rc_decoder option" "rc_audio option" bool bool "string option"

definition threads :: "rc_client \<Rightarrow> thread_part" where
  "threads c = Threads (net_thread c) (audio_thread c) (decoder c) (audio_player c) (running c)
     (abort_requested c) (decoder_desc c)"

lemma threads_upd [simp]:
  "threads (c\<lparr>video_fd := i\<rparr>) = threads c" "threads (c\<lparr>audio_fd := i\<rparr>) = threads c"
  "threads (c\<lparr>control_fd := i\<rparr>) = threads c" "threads (c\<lparr>listen_fd := i\<rparr>) = threads c"
  "threads (c\<lparr>server_pid := i\<rparr>) = threads c" "threads (c\<lparr>lan_token := tok\<rparr>) = threads c"
  "threads (c\<lparr>cfg := cf\<rparr>) = threads c" "threads (c\<lparr>c_transport_desc := d\<rparr>) = threads c"
  "threads (c\<lparr>meta := m\<rparr>) = threads c" "threads (c\<lparr>have_meta := b\<rparr>) = threads c"
  by (simp_all add: threads_def)

text \<open>The process has exactly the descriptors \<open>B\<close> and children \<open>C\<close> besides those the client holds, and
  the thread part of the client is \<open>K\<close>.\<close>

definition owns :: "int set \<Rightarrow> int set \<Rightarrow> thread_part \<Rightarrow> sys \<Rightarrow> bool" where
  "owns B C K s \<longleftrightarrow>
     threads (client s) = K \<and>
     distinct (client_fd_list (client s)) \<and>
     set (open_fds s) = B \<union> client_fds (client s) \<and> B \<inter> client_fds (client s) = {} \<and>
     set (children s) = C \<union> client_pids (client s) \<and> C \<inter> client_pids (client s) = {}"

definition idle :: "rc_client \<Rightarrow> bool" where
  "idle c \<longleftrightarrow> video_fd c < 0 \<and> audio_fd c < 0 \<and> control_fd c < 0 \<and> listen_fd c < 0 \<and> server_pid c \<le> 0"

lemma owns_idle: "idle (client s) \<Longrightarrow> owns B C K s \<longleftrightarrow>
     threads (client s) = K \<and> set (open_fds s) = B \<and> set (children s) = C"
proof -
  assume "idle (client s)"
  then have "client_fds (client s) = {}" "client_pids (client s) = {}" "client_fd_list (client s) = []"
    by (auto simp: client_fds_def client_pids_def idle_def client_fd_list_def)
  then show ?thesis by (auto simp: owns_def)
qed

text \<open>Only the four descriptor fields, the pid and the two tables matter.\<close>

definition same_handles :: "sys \<Rightarrow> sys \<Rightarrow> bool" where
  "same_handles s s' \<longleftrightarrow> threads (client s') = threads (client s) \<and>
     set (open_fds s') = set (open_fds s) \<and> set (children s') = set (children s) \<and>
     audio (cfg (client s')) = audio (cfg (client s)) \<and>
     control (cfg (client s')) = control (cfg (client s)) \<and>
     video_fd (client s') = video_fd (client s) \<and> audio_fd (client s') = audio_fd (client s) \<and>
     control_fd (client s') = control_fd (client s) \<and> listen_fd (client s') = listen_fd (client s) \<and>
     server_pid (client s') = server_pid (client s)"

lemma same_handles_owns: "same_handles s s' \<Longrightarrow> owns B C K s' \<longleftrightarrow> owns B C K s"
  by (simp add: same_handles_def owns_def client_fds_def client_pids_def client_fd_list_def)

lemma same_handles_refl [simp]: "same_handles s s"
  by (simp add: same_handles_def)

lemma same_handles_trans: "same_handles s t \<Longrightarrow> same_handles t u \<Longrightarrow> same_handles s u"
  by (simp add: same_handles_def)

lemma same_handles_emit [simp]: "same_handles s (rc_emit_status r m s)"
  by (simp add: same_handles_def)

lemma same_handles_calm: "calm s s' \<Longrightarrow> same_handles s s'"
  using more_client [of s' s] by (auto simp: same_handles_def calm_def)

lemma same_handles_fd_calm:
  "fd_calm s s' \<Longrightarrow> children s' = children s \<Longrightarrow> same_handles s s'"
  using more_client [of s' s] by (auto simp: same_handles_def fd_calm_def)

text \<open>Steps that hand over nothing: the descriptor fields and the configuration stay, the server
  process may be found dead and be reaped.\<close>

definition keeps :: "sys \<Rightarrow> sys \<Rightarrow> bool" where
  "keeps s s' \<longleftrightarrow>
     (\<forall>B C K. owns B C K s \<longrightarrow> owns B C K s') \<and>
     audio (cfg (client s')) = audio (cfg (client s)) \<and>
     control (cfg (client s')) = control (cfg (client s)) \<and>
     video_fd (client s') = video_fd (client s) \<and> audio_fd (client s') = audio_fd (client s) \<and>
     control_fd (client s') = control_fd (client s) \<and> listen_fd (client s') = listen_fd (client s) \<and>
     (server_pid (client s) \<le> 0 \<longrightarrow> server_pid (client s') \<le> 0)"

lemma keeps_trans: "keeps s t \<Longrightarrow> keeps t u \<Longrightarrow> keeps s u"
  by (simp add: keeps_def)

lemma same_handles_keeps: "same_handles s s' \<Longrightarrow> keeps s s'"
  using same_handles_owns [of s s'] by (auto simp: keeps_def same_handles_def)

lemmas calm_keeps = same_handles_keeps [OF same_handles_calm]
lemmas fd_calm_keeps = same_handles_keeps [OF same_handles_fd_calm]

lemma keeps_basic [simp]:
  "keeps s s" "keeps s (rc_emit_status r m s)" "keeps s (step_os E s)" "keeps s (sleep_ms E ms s)"
  "sys_poll E ms s = (pr, s') \<Longrightarrow> keeps s s'"
  by (simp_all add: same_handles_keeps calm_keeps)

lemma server_pid_fields [simp]:
  "client_fds (c\<lparr>server_pid := p\<rparr>) = client_fds c"
  "client_fd_list (c\<lparr>server_pid := p\<rparr>) = client_fd_list c"
  "client_pids (c\<lparr>server_pid := p\<rparr>) = {x. x = p \<and> 0 < x}"
  by (auto simp: client_fds_def client_fd_list_def client_pids_def)

text \<open>The reaped server is forgotten.\<close>

lemma reap_server_owns:
  assumes "owns B C K s" and "client s1 = client s" and "open_fds s1 = open_fds s"
    and "set (children s1) = set (children s) - {server_pid (client s)}" and "0 < server_pid (client s)"
  shows "owns B C K (upd (\<lambda>c. c\<lparr>server_pid := 0\<rparr>) s1)"
proof -
  have "client_pids (client s) = {server_pid (client s)}"
    using assms(5) by (auto simp: client_pids_def)
  with assms show ?thesis by (auto simp: owns_def)
qed

lemma server_died_keeps: "server_died E s = (c, s') \<Longrightarrow> keeps s s'"
proof -
  assume d: "server_died E s = (c, s')"
  show ?thesis
  proof (cases "server_pid (client s) \<le> 0")
    case True
    with d show ?thesis by (simp add: server_died_def)
  next
    case pid: False
    obtain w s1 where w: "sys_waitpid_nohang E (server_pid (client s)) s = (w, s1)" by fastforce
    then have c1: "client s1 = client s" "open_fds s1 = open_fds s"
      using more_client [of s1 s] by (auto simp: sys_waitpid_nohang_def reap_def split: wait_res.splits)
    show ?thesis
    proof (cases w)
      case (Reaped st)
      with w have "set (children s1) = set (children s) - {server_pid (client s)}"
        by (auto simp: sys_waitpid_nohang_def reap_def split: wait_res.splits)
      with d pid w Reaped c1 reap_server_owns [of _ _ _ s s1] show ?thesis
        by (auto simp: server_died_def keeps_def)
    qed (use d pid w c1 in \<open>auto simp: server_died_def keeps_def sys_waitpid_nohang_def owns_def
           split: wait_res.splits\<close>)
  qed
qed

lemma wait_cancelled_keeps: "wait_cancelled E s = (c, s') \<Longrightarrow> keeps s s'"
  by (auto simp: wait_cancelled_def dest: server_died_keeps split: if_splits)

lemma adb_keeps:
  assumes "waits_ok E"
  shows "adb_run_ex E argv t s = Some (r, s') \<Longrightarrow> keeps s s'"
    and "rc_adb_connect E addr s = Some (r, s') \<Longrightarrow> keeps s s'"
    and "rc_adb_push E ser l rem s = Some (r, s') \<Longrightarrow> keeps s s'"
    and "rc_adb_reverse E ser nm p s = Some (r, s') \<Longrightarrow> keeps s s'"
    and "rc_adb_reverse_remove E ser nm s = Some (r, s') \<Longrightarrow> keeps s s'"
proof -
  have run: "keeps s s'" if "adb_run_ex E argv t s = Some (r, s')" for argv t s r s'
    using adb_run_ex_spec [OF that] assms by (simp add: fd_calm_keeps)
  then show "adb_run_ex E argv t s = Some (r, s') \<Longrightarrow> keeps s s'" .
  show "rc_adb_connect E addr s = Some (r, s') \<Longrightarrow> keeps s s'"
    by (auto simp: rc_adb_connect_def bind_eq_Some_conv dest!: run intro: keeps_trans
        split: option.splits if_splits)
  show "rc_adb_push E ser l rem s = Some (r, s') \<Longrightarrow> keeps s s'"
    "rc_adb_reverse E ser nm p s = Some (r, s') \<Longrightarrow> keeps s s'"
    "rc_adb_reverse_remove E ser nm s = Some (r, s') \<Longrightarrow> keeps s s'"
    by (auto simp: rc_adb_push_def rc_adb_reverse_def rc_adb_reverse_remove_def adb_run_def dest: run)
qed

lemma ensure_adb_device_keeps:
  "waits_ok E \<Longrightarrow> ensure_adb_device E s = Some (r, s') \<Longrightarrow> keeps s s'"
  by (auto simp: ensure_adb_device_def bind_eq_Some_conv dest!: adb_keeps(2)
      intro: keeps_trans split: if_splits)

text \<open>Operations that hand out a descriptor after some waiting.\<close>

definition takes :: "sys \<Rightarrow> int \<times> sys \<Rightarrow> bool" where
  "takes s res \<longleftrightarrow> (\<exists>s1. keeps s s1 \<and> gives_fd s1 res)"

lemma takes_none: "keeps s s' \<Longrightarrow> takes s (-1, s')"
  by (auto simp: takes_def gives_fd_def)

lemma keeps_takes: "keeps s s1 \<Longrightarrow> takes s1 res \<Longrightarrow> takes s res"
  by (auto simp: takes_def intro: keeps_trans)

lemma gives_takes: "gives_fd s res \<Longrightarrow> takes s res"
  unfolding takes_def by (rule exI [of _ s]) simp

lemma gives_fail_keeps: "gives_fd s (fd, s') \<Longrightarrow> fd < 0 \<Longrightarrow> keeps s s'"
  using more_client [of s' s]
  by (intro same_handles_keeps) (auto simp: same_handles_def gives_fd_def)

lemma accept_loop_takes: "takes s (accept_loop E waited t s)"
proof (induction E waited t s rule: accept_loop.induct)
  case (1 E waited t s)
  obtain r s1 where p: "sys_poll E WAIT_SLICE_MS s = (r, s1)" by fastforce
  then have k1: "keeps s s1" by simp
  obtain c s2 where w: "wait_cancelled E s1 = (c, s2)" by fastforce
  then have k2: "keeps s s2" using keeps_trans [OF k1 wait_cancelled_keeps] by simp
  have rec: "takes s2 (accept_loop E (waited + WAIT_SLICE_MS) t s2)"
    if "\<not> t \<le> waited" "\<not> r > 0" "\<not> r < 0" "\<not> c"
    using 1 [OF that(1) p [symmetric] _ that(2,3) w [symmetric] _ that(4)] by simp
  have acc: "takes s (rc_net_accept E s1)"
    by (rule keeps_takes [OF k1 gives_takes [OF rc_net_accept_gives]])
  show ?case
    using p w takes_none [OF k1] takes_none [OF k2] keeps_takes [OF k2 rec] acc
    by (subst accept_loop.simps) (auto intro: takes_none)
qed

lemma listen_takes: "rc_net_listen_loopback E s = (fd, port, s') \<Longrightarrow> takes s (fd, s')"
  using listen_loopback_gives [of s E] by (intro gives_takes) (simp add: listen_fd_of_def)

lemma fd_write_calm:
  assumes "fd_write fd buf s = Some (r, s')"
  shows "calm s s'"
  using assms by (auto simp: fd_write_def bind_eq_Some_conv calm_def)

lemma connect_loop_takes: "connect_loop E host port dl s = Some res \<Longrightarrow> takes s res"
proof (induction E host port dl s rule: connect_loop.induct)
  case (1 E host port dl s)
  define per where "per = (if dl - clock s > 1000 then 1000 else if dl - clock s < 100 then 100 else dl - clock s)"
  obtain fd s1 where c: "rc_net_connect_tcp E host port per s = (fd, s1)" by fastforce
  then have g: "gives_fd s (fd, s1)" using rc_net_connect_tcp_gives [of s E host port per] by simp
  show ?case
  proof (cases "0 \<le> fd")
    case True
    let ?tok = "map of_char (take RC_LAN_TOKEN_LEN (lan_token (client s1))) :: byte list"
    have "lan_token (client s1) = [] \<and> res = (fd, s1) \<or>
        (\<exists>r s2. fd_write fd ?tok s1 = Some (r, s2) \<and>
           res = (if r \<noteq> RC_OK then (-1, sys_close E fd s2) else (fd, s2)))"
      using 1(2) c True unfolding per_def
      by (subst (asm) connect_loop.simps) (auto simp: Let_def bind_eq_Some_conv split: if_splits)
    then show ?thesis
    proof (elim disjE exE conjE)
      fix r s2
      assume "fd_write fd ?tok s1 = Some (r, s2)"
        and res: "res = (if r \<noteq> RC_OK then (-1, sys_close E fd s2) else (fd, s2))"
      then have "calm s1 s2" by (intro fd_write_calm)
      with res show ?thesis
        using gives_fd_calm [OF g] gives_fd_calm_close [OF g True]
        by (cases "r = RC_OK") (simp_all add: gives_takes)
    qed (use g gives_takes in simp)
  next
    case False
    then have k1: "keeps s s1" using gives_fail_keeps [OF g] by simp
    obtain cn s2 where w: "wait_cancelled E s1 = (cn, s2)" by fastforce
    then have k2: "keeps s s2" using keeps_trans [OF k1 wait_cancelled_keeps] by simp
    have k3: "keeps s (sleep_ms E 200 s2)" using keeps_trans [OF k2] by simp
    show ?thesis
    proof (cases "cn \<or> dl \<le> clock s2")
      case True
      with 1(2) c \<open>\<not> 0 \<le> fd\<close> w have "res = (-1, s2)" unfolding per_def
        by (subst (asm) connect_loop.simps) (auto simp: Let_def)
      with k2 show ?thesis by (simp add: takes_none)
    next
      case cont: False
      with 1(2) c False w have rec: "connect_loop E host port dl (sleep_ms E 200 s2) = Some res"
        unfolding per_def by (subst (asm) connect_loop.simps) (auto simp: Let_def)
      have "takes (sleep_ms E 200 s2) res"
        by (rule 1(1) [OF refl refl c [unfolded per_def, symmetric] refl False w [symmetric] refl cont rec])
      with k3 show ?thesis by (rule keeps_takes)
    qed
  qed
qed

lemma client_fds_store:
  "video_fd c < 0 \<Longrightarrow> client_fds (c\<lparr>video_fd := fd\<rparr>) = client_fds c \<union> {f. f = fd \<and> 0 \<le> f}"
  "audio_fd c < 0 \<Longrightarrow> client_fds (c\<lparr>audio_fd := fd\<rparr>) = client_fds c \<union> {f. f = fd \<and> 0 \<le> f}"
  "control_fd c < 0 \<Longrightarrow> client_fds (c\<lparr>control_fd := fd\<rparr>) = client_fds c \<union> {f. f = fd \<and> 0 \<le> f}"
  "listen_fd c < 0 \<Longrightarrow> client_fds (c\<lparr>listen_fd := fd\<rparr>) = client_fds c \<union> {f. f = fd \<and> 0 \<le> f}"
  by (auto simp: client_fds_def)

lemma client_fd_list_store:
  assumes "fd \<notin> client_fds c" and "distinct (client_fd_list c)"
  shows "distinct (client_fd_list (c\<lparr>video_fd := fd\<rparr>))" "distinct (client_fd_list (c\<lparr>audio_fd := fd\<rparr>))"
    "distinct (client_fd_list (c\<lparr>control_fd := fd\<rparr>))" "distinct (client_fd_list (c\<lparr>listen_fd := fd\<rparr>))"
  using assms by (auto simp: client_fds_def client_fd_list_def split: if_splits)

lemma client_fds_clear:
  assumes "distinct (client_fd_list c)"
  shows "client_fds (c\<lparr>video_fd := -1\<rparr>) = client_fds c - {video_fd c}"
    "client_fds (c\<lparr>audio_fd := -1\<rparr>) = client_fds c - {audio_fd c}"
    "client_fds (c\<lparr>control_fd := -1\<rparr>) = client_fds c - {control_fd c}"
    "client_fds (c\<lparr>listen_fd := -1\<rparr>) = client_fds c - {listen_fd c}"
  using assms by (auto simp: client_fds_def client_fd_list_def split: if_splits)

lemma client_pids_fields [simp]:
  "client_pids (c\<lparr>video_fd := x\<rparr>) = client_pids c" "client_pids (c\<lparr>audio_fd := x\<rparr>) = client_pids c"
  "client_pids (c\<lparr>control_fd := x\<rparr>) = client_pids c" "client_pids (c\<lparr>listen_fd := x\<rparr>) = client_pids c"
  by (simp_all add: client_pids_def)

text \<open>Storing the descriptor in an empty field keeps the accounting.\<close>

lemma gives_store:
  assumes g: "gives_fd s (fd, s')" and o: "owns B C K s"
    and f: "client_fds (f (client s)) = client_fds (client s) \<union> {x. x = fd \<and> 0 \<le> x}"
    and p: "client_pids (f (client s)) = client_pids (client s)"
    and th: "threads (f (client s)) = threads (client s)"
    and d: "fd \<notin> client_fds (client s) \<Longrightarrow> distinct (client_fd_list (client s)) \<Longrightarrow>
      distinct (client_fd_list (f (client s)))"
  shows "owns B C K (upd f s')"
proof -
  have c: "client s' = client s" "children s' = children s"
    using g more_client [of s' s] by (auto simp: gives_fd_def)
  from o have o': "set (open_fds s) = B \<union> client_fds (client s)" "B \<inter> client_fds (client s) = {}"
    "set (children s) = C \<union> client_pids (client s)" "C \<inter> client_pids (client s) = {}"
    and ds: "distinct (client_fd_list (client s))" "threads (client s) = K"
    by (auto simp: owns_def)
  show ?thesis
  proof (cases "0 \<le> fd")
    case True
    with g have "fd \<notin> set (open_fds s)" "set (open_fds s') = insert fd (set (open_fds s))"
      by (auto simp: gives_fd_def)
    moreover from True f have "client_fds (f (client s)) = insert fd (client_fds (client s))" by auto
    ultimately show ?thesis using o' d [OF _ ds(1)] ds(2) by (simp add: owns_def c p th)
  next
    case False
    with g f have "set (open_fds s') = set (open_fds s)" "client_fds (f (client s)) = client_fds (client s)"
      by (auto simp: gives_fd_def)
    moreover from False have "fd \<notin> client_fds (client s)" by (simp add: client_fds_def)
    ultimately show ?thesis using o' d [OF _ ds(1)] ds(2) by (simp add: owns_def c p th)
  qed
qed

lemma takes_store:
  assumes "takes s (fd, s')" and "owns B C K s"
  shows "video_fd (client s) < 0 \<Longrightarrow> owns B C K (upd (\<lambda>c. c\<lparr>video_fd := fd\<rparr>) s')"
    and "audio_fd (client s) < 0 \<Longrightarrow> owns B C K (upd (\<lambda>c. c\<lparr>audio_fd := fd\<rparr>) s')"
    and "control_fd (client s) < 0 \<Longrightarrow> owns B C K (upd (\<lambda>c. c\<lparr>control_fd := fd\<rparr>) s')"
    and "listen_fd (client s) < 0 \<Longrightarrow> owns B C K (upd (\<lambda>c. c\<lparr>listen_fd := fd\<rparr>) s')"
proof -
  from assms obtain s1 where k: "keeps s s1" and g: "gives_fd s1 (fd, s')"
    by (auto simp: takes_def)
  from k assms(2) have "owns B C K s1" by (simp add: keeps_def)
  note store = gives_store [OF g this]
  show "video_fd (client s) < 0 \<Longrightarrow> owns B C K (upd (\<lambda>c. c\<lparr>video_fd := fd\<rparr>) s')"
    "audio_fd (client s) < 0 \<Longrightarrow> owns B C K (upd (\<lambda>c. c\<lparr>audio_fd := fd\<rparr>) s')"
    "control_fd (client s) < 0 \<Longrightarrow> owns B C K (upd (\<lambda>c. c\<lparr>control_fd := fd\<rparr>) s')"
    "listen_fd (client s) < 0 \<Longrightarrow> owns B C K (upd (\<lambda>c. c\<lparr>listen_fd := fd\<rparr>) s')"
    by (rule store; use k client_fds_store client_fd_list_store in \<open>simp add: keeps_def\<close>)+
qed

lemma takes_client:
  assumes "takes s (fd, s')"
  shows "video_fd (client s') = video_fd (client s)" "audio_fd (client s') = audio_fd (client s)"
    "control_fd (client s') = control_fd (client s)" "listen_fd (client s') = listen_fd (client s)"
    "server_pid (client s) \<le> 0 \<Longrightarrow> server_pid (client s') \<le> 0"
    "audio (cfg (client s')) = audio (cfg (client s))"
    "control (cfg (client s')) = control (cfg (client s))"
proof -
  from assms obtain s1 where k: "keeps s s1" and g: "gives_fd s1 (fd, s')"
    by (auto simp: takes_def)
  have "client s' = client s1" using g more_client [of s' s1] by (simp add: gives_fd_def)
  with k show "video_fd (client s') = video_fd (client s)" "audio_fd (client s') = audio_fd (client s)"
    "control_fd (client s') = control_fd (client s)" "listen_fd (client s') = listen_fd (client s)"
    "server_pid (client s) \<le> 0 \<Longrightarrow> server_pid (client s') \<le> 0"
    "audio (cfg (client s')) = audio (cfg (client s))"
    "control (cfg (client s')) = control (cfg (client s))" by (simp_all add: keeps_def)
qed

lemma keeps_owns: "keeps s s' \<Longrightarrow> owns B C K s \<Longrightarrow> owns B C K s'"
  by (simp add: keeps_def)

text \<open>Closing a descriptor the client holds and clearing the field.\<close>

lemma close_store:
  assumes "owns B C K s"
  shows "0 \<le> video_fd (client s) \<Longrightarrow>
      owns B C K (upd (\<lambda>c. c\<lparr>video_fd := -1\<rparr>) (sys_close E (video_fd (client s)) s))"
    and "0 \<le> audio_fd (client s) \<Longrightarrow>
      owns B C K (upd (\<lambda>c. c\<lparr>audio_fd := -1\<rparr>) (sys_close E (audio_fd (client s)) s))"
    and "0 \<le> control_fd (client s) \<Longrightarrow>
      owns B C K (upd (\<lambda>c. c\<lparr>control_fd := -1\<rparr>) (sys_close E (control_fd (client s)) s))"
    and "0 \<le> listen_fd (client s) \<Longrightarrow>
      owns B C K (upd (\<lambda>c. c\<lparr>listen_fd := -1\<rparr>) (sys_close E (listen_fd (client s)) s))"
proof -
  have o: "owns B C K (upd f (sys_close E fd s))"
    if "fd \<in> client_fds (client s)" "client_fds (f (client s)) = client_fds (client s) - {fd}"
      "client_pids (f (client s)) = client_pids (client s)" "distinct (client_fd_list (f (client s)))"
      "threads (f (client s)) = threads (client s)"
    for f fd
    using assms that by (auto simp: owns_def sys_close_def)
  have d: "distinct (client_fd_list (client s))" using assms by (simp add: owns_def)
  have m: "-1 \<notin> client_fds (client s)" by (simp add: client_fds_def)
  show "0 \<le> video_fd (client s) \<Longrightarrow>
      owns B C K (upd (\<lambda>c. c\<lparr>video_fd := -1\<rparr>) (sys_close E (video_fd (client s)) s))"
    "0 \<le> audio_fd (client s) \<Longrightarrow>
      owns B C K (upd (\<lambda>c. c\<lparr>audio_fd := -1\<rparr>) (sys_close E (audio_fd (client s)) s))"
    "0 \<le> control_fd (client s) \<Longrightarrow>
      owns B C K (upd (\<lambda>c. c\<lparr>control_fd := -1\<rparr>) (sys_close E (control_fd (client s)) s))"
    "0 \<le> listen_fd (client s) \<Longrightarrow>
      owns B C K (upd (\<lambda>c. c\<lparr>listen_fd := -1\<rparr>) (sys_close E (listen_fd (client s)) s))"
    by (rule o; use client_fds_clear [OF d] client_fd_list_store [OF m d] in
        \<open>simp add: client_fds_def\<close>)+
qed

section \<open>Deploy and teardown account for everything\<close>

lemma fd_read_meta_keeps: "fd_read_meta s = Some (r, s') \<Longrightarrow> keeps s s'"
  by (rule same_handles_keeps) (auto simp: fd_read_meta_def bind_eq_Some_conv same_handles_def Let_def)

lemma meta_loop_keeps: "meta_loop E waited t s = Some (r, s') \<Longrightarrow> keeps s s'"
proof (induction E waited t s rule: meta_loop.induct)
  case (1 E waited t s)
  obtain p s1 where p: "sys_poll E WAIT_SLICE_MS s = (p, s1)" by fastforce
  then have k1: "keeps s s1" by simp
  obtain c s2 where w: "wait_cancelled E s1 = (c, s2)" by fastforce
  then have k2: "keeps s s2" using keeps_trans [OF k1 wait_cancelled_keeps] by simp
  have rec: "keeps s2 s'" if "\<not> t \<le> waited" "\<not> p > 0" "\<not> p < 0" "\<not> c"
      "meta_loop E (waited + WAIT_SLICE_MS) t s2 = Some (r, s')"
    using 1(1) [OF that(1) p [symmetric] _ that(2,3) w [symmetric] _ that(4,5)] by simp
  show ?case
    using 1(2) p w k1 k2 keeps_trans [OF k2 rec] keeps_trans [OF k1 fd_read_meta_keeps]
    by (subst (asm) meta_loop.simps) (auto split: if_splits)
qed

lemma accept_timeout_takes: "accept_timeout E t s = (fd, s') \<Longrightarrow> takes s (fd, s')"
  using accept_loop_takes [of s E 0 t] by (simp add: accept_timeout_def)

lemma connect_retry_takes: "connect_retry E host port b s = Some res \<Longrightarrow> takes s res"
  using connect_loop_takes by (simp add: connect_retry_def)

lemma run_server_owns:
  assumes "rc_adb_run_server E ser cf sn port tok s = (r, pid, s1)"
    and "owns B C K s" and "server_pid (client s) \<le> 0"
  shows "owns B C K (case pid of Some p \<Rightarrow> upd (\<lambda>c. c\<lparr>server_pid := p\<rparr>) s1 | None \<Rightarrow> s1)"
    and "client s1 = client s"
proof -
  obtain p where sp: "sys_spawn E (run_server_argv ser cf sn port tok) s = (p, s1)" and pid: "pid = p"
    using assms(1) by (auto simp: rc_adb_run_server_def split: prod.splits option.splits)
  have calm: "fd_calm s s1" using sp by simp
  then show c: "client s1 = client s" using more_client [of s1 s] by (simp add: fd_calm_def)
  have none: "client_pids (client s) = {}" using assms(3) by (simp add: client_pids_def)
  show "owns B C K (case pid of Some p \<Rightarrow> upd (\<lambda>c. c\<lparr>server_pid := p\<rparr>) s1 | None \<Rightarrow> s1)"
  proof (cases p)
    case None
    with sp calm keeps_owns [OF fd_calm_keeps [OF calm sys_spawn_None], of E] assms(2)
    show ?thesis by (auto simp: pid)
  next
    case (Some q)
    note q = sys_spawn_Some [OF sp [unfolded Some]]
    have "{x. x = q \<and> 0 < x} = {q}" using q(1) by auto
    with q assms(2) none calm c show ?thesis by (simp add: pid Some owns_def fd_calm_def)
  qed
qed

lemma run_server_client:
  fixes s s1 :: sys
  shows "rc_adb_run_server E ser cf sn port tok s = (r, pid, s1) \<Longrightarrow> client s1 = client s"
  using more_client [of s1 s]
  by (auto simp: rc_adb_run_server_def sys_spawn_def Let_def split: prod.splits option.splits if_splits)

text \<open>An optional stream: the descriptor goes into a field that was empty.\<close>

lemma usb_accept_owns:
  assumes "usb_accept E s = (r, s')" and o: "owns B C K s"
    and "video_fd (client s) < 0" "audio_fd (client s) < 0" "control_fd (client s) < 0"
    and "0 \<le> listen_fd (client s)"
  shows "owns B C K s'"
proof -
  obtain fd s1 where a1: "accept_timeout E ACCEPT_TIMEOUT_MS s = (fd, s1)" by fastforce
  define t1 where "t1 = upd (\<lambda>c. c\<lparr>video_fd := fd\<rparr>) s1"
  note T1 = accept_timeout_takes [OF a1]
  have o1: "owns B C K t1" using takes_store(1) [OF T1 o] assms(3) by (simp add: t1_def)
  have f1: "audio_fd (client t1) < 0" "control_fd (client t1) < 0" "0 \<le> listen_fd (client t1)"
    using takes_client [OF T1] assms by (simp_all add: t1_def)
  obtain fd2 s2 where a2: "accept_timeout E ACCEPT_TIMEOUT_MS t1 = (fd2, s2)" by fastforce
  note T2 = accept_timeout_takes [OF a2]
  define t2 where "t2 = (if audio (cfg (client t1)) then upd (\<lambda>c. c\<lparr>audio_fd := fd2\<rparr>) s2 else t1)"
  have o2: "owns B C K t2" using takes_store(2) [OF T2 o1 f1(1)] o1 by (simp add: t2_def)
  have f2: "control_fd (client t2) < 0" "0 \<le> listen_fd (client t2)"
    using takes_client [OF T2] f1 by (simp_all add: t2_def)
  obtain fd3 s3 where a3: "accept_timeout E ACCEPT_TIMEOUT_MS t2 = (fd3, s3)" by fastforce
  note T3 = accept_timeout_takes [OF a3]
  define t3 where "t3 = (if control (cfg (client t2)) then upd (\<lambda>c. c\<lparr>control_fd := fd3\<rparr>) s3 else t2)"
  have o3: "owns B C K t3" using takes_store(3) [OF T3 o2 f2(1)] o2 by (simp add: t3_def)
  have f3: "0 \<le> listen_fd (client t3)" using takes_client [OF T3] f2 by (simp add: t3_def)
  have "s' = rc_emit_status RC_ERR_CONNECT MsgNoVideoConnection t1 \<or> s' = t2 \<or> s' = t3 \<or>
      s' = upd (\<lambda>c. c\<lparr>listen_fd := -1\<rparr>) (sys_close E (listen_fd (client t3)) t3)"
    using assms(1) a1 a2 a3
    by (auto simp: usb_accept_def Let_def t1_def t2_def t3_def split: if_splits)
  then show ?thesis
    using o2 o3 keeps_owns [OF keeps_basic(2) o1] close_store(4) [OF o3 f3] by auto
qed

lemma read_meta_timeout_keeps: "read_meta_timeout E t s = Some (r, s') \<Longrightarrow> keeps s s'"
  using meta_loop_keeps by (simp add: read_meta_timeout_def)

text \<open>Fields of the client that no handle lives in.\<close>

lemma keeps_upd [simp]:
  "keeps s (upd (\<lambda>c. c\<lparr>c_transport_desc := d\<rparr>) s)"
  "keeps s (upd (\<lambda>c. c\<lparr>c_transport_desc := g c\<rparr>) s)"
  "keeps s (upd (\<lambda>c. c\<lparr>lan_token := tok\<rparr>) s)"
  "keeps s (upd (\<lambda>c. c\<lparr>cfg := (cfg c)\<lparr>transport := x\<rparr>\<rparr>) s)"
  "keeps s (upd (\<lambda>c. c\<lparr>lan_token := tok, cfg := (cfg c)\<lparr>transport := x\<rparr>\<rparr>) s)"
  by (rule same_handles_keeps, simp add: same_handles_def)+

lemma usb_meta_keeps: "usb_meta E s = Some (r, s') \<Longrightarrow> keeps s s'"
proof -
  assume u: "usb_meta E s = Some (r, s')"
  then obtain r1 s1 where m: "read_meta_timeout E META_TIMEOUT_MS s = Some (r1, s1)"
    by (auto simp: usb_meta_def bind_eq_Some_conv)
  have "keeps s1 s'" using u m by (auto simp: usb_meta_def split: if_splits)
  with read_meta_timeout_keeps [OF m] show ?thesis by (rule keeps_trans)
qed

lemma idle_keeps: "keeps s s' \<Longrightarrow> idle (client s) \<Longrightarrow> idle (client s')"
  by (auto simp: keeps_def idle_def)

lemma emit_owns: "owns B C K s \<Longrightarrow> owns B C K (rc_emit_status r m s)"
  by (rule keeps_owns [OF keeps_basic(2)])

lemma usb_run_owns:
  assumes d: "usb_run E ser port s = Some (r, s')" and w: "waits_ok E" and o: "owns B C K s"
    and f: "video_fd (client s) < 0" "audio_fd (client s) < 0" "control_fd (client s) < 0"
      "server_pid (client s) \<le> 0" "0 \<le> listen_fd (client s)"
  shows "owns B C K s'"
proof -
  obtain r4 s4 where e4: "rc_adb_reverse E ser (socket_name (client s)) port s = Some (r4, s4)"
    using d by (auto simp: usb_run_def bind_eq_Some_conv)
  have k4: "keeps s s4" by (rule adb_keeps(4) [OF w e4])
  have o4: "owns B C K s4" and f4: "video_fd (client s4) < 0" "audio_fd (client s4) < 0"
    "control_fd (client s4) < 0" "server_pid (client s4) \<le> 0" "0 \<le> listen_fd (client s4)"
    using k4 keeps_owns [OF k4 o] f by (simp_all add: keeps_def)
  obtain r5 pid s5 where e5: "rc_adb_run_server E ser (cfg (client s4))
      (Some (socket_name (client s4))) 0 None s4 = (r5, pid, s5)"
    by (metis prod_cases3)
  define t5 where "t5 = (case pid of Some p \<Rightarrow> upd (\<lambda>c. c\<lparr>server_pid := p\<rparr>) s5 | None \<Rightarrow> s5)"
  note R = run_server_owns [OF e5 o4 f4(4)]
  have o5: "owns B C K t5" using R(1) by (simp add: t5_def)
  have f5: "video_fd (client t5) < 0" "audio_fd (client t5) < 0" "control_fd (client t5) < 0"
    "0 \<le> listen_fd (client t5)"
    using R(2) f4 by (auto simp: t5_def split: option.splits)
  obtain r6 s6 where e6: "usb_accept E t5 = (r6, s6)" by fastforce
  have o6: "owns B C K s6" by (rule usb_accept_owns [OF e6 o5 f5])
  have "s' = rc_emit_status r4 MsgAdbReverseFailed s4 \<or> s' = rc_emit_status r5 MsgRunServerFailed t5
      \<or> s' = s6 \<or> usb_meta E s6 = Some (r, s')"
    using d e4 e5 e6 by (auto simp: usb_run_def t5_def Let_def split: if_splits)
  then show ?thesis
    using o6 emit_owns [OF o4] emit_owns [OF o5] keeps_owns [OF usb_meta_keeps o6] by auto
qed

lemma deploy_usb_owns:
  assumes d: "deploy_usb E s = Some (r, s')" and w: "waits_ok E"
    and o: "owns B C K s" and i: "idle (client s)"
  shows "owns B C K s'"
proof -
  let ?ser = "serial (cfg (client s))"
  obtain r1 s1 where e1: "ensure_adb_device E s = Some (r1, s1)"
    using d by (auto simp: deploy_usb_def bind_eq_Some_conv Let_def)
  have k1: "keeps s s1" by (rule ensure_adb_device_keeps [OF w e1])
  show ?thesis
  proof (cases "r1 = RC_OK")
    case False
    with d e1 have "s' = s1" by (auto simp: deploy_usb_def)
    with k1 o show ?thesis by (simp add: keeps_owns)
  next
    case r1: True
    with d e1 obtain r2 s2 where e2:
      "rc_adb_push E ?ser (server_local_path E) RC_SERVER_REMOTE_PATH s1 = Some (r2, s2)"
      by (auto simp: deploy_usb_def bind_eq_Some_conv Let_def)
    have k2: "keeps s s2" using keeps_trans [OF k1 adb_keeps(3) [OF w e2]] .
    have o2: "owns B C K s2" and i2: "idle (client s2)"
      using keeps_owns [OF k2 o] idle_keeps [OF k2 i] by auto
    obtain fd port s3 where l: "rc_net_listen_loopback E s2 = (fd, port, s3)"
      by (metis prod_cases3)
    define t3 where "t3 = upd (\<lambda>c. c\<lparr>listen_fd := fd\<rparr>) s3"
    note T = listen_takes [OF l]
    have o3: "owns B C K t3" using takes_store(4) [OF T o2] i2 by (simp add: t3_def idle_def)
    have f3: "video_fd (client t3) < 0" "audio_fd (client t3) < 0" "control_fd (client t3) < 0"
      "server_pid (client t3) \<le> 0" "listen_fd (client t3) = fd"
      using takes_client [OF T] i2 by (simp_all add: t3_def idle_def)
    have "s' = rc_emit_status r2 MsgAdbPushFailed s2 \<or> s' = t3
        \<or> (0 \<le> fd \<and> usb_run E ?ser port t3 = Some (r, s'))"
      using d e1 r1 e2 l by (auto simp: deploy_usb_def t3_def Let_def split: if_splits)
    then show ?thesis
      using emit_owns [OF o2] o3 usb_run_owns [OF _ w o3 f3(1-4)] f3(5) by auto
  qed
qed

lemma close_streams_owns:
  assumes o: "owns B C K s"
  shows "owns B C K (close_streams E s)"
    and "client_fds (client (close_streams E s)) = {}"
proof -
  define s1 where "s1 = (if 0 \<le> control_fd (client s)
    then upd (\<lambda>c. c\<lparr>control_fd := -1\<rparr>) (sys_close E (control_fd (client s)) s) else s)"
  define s2 where "s2 = (if 0 \<le> audio_fd (client s1)
    then upd (\<lambda>c. c\<lparr>audio_fd := -1\<rparr>) (sys_close E (audio_fd (client s1)) s1) else s1)"
  define s3 where "s3 = (if 0 \<le> video_fd (client s2)
    then upd (\<lambda>c. c\<lparr>video_fd := -1\<rparr>) (sys_close E (video_fd (client s2)) s2) else s2)"
  have s4: "close_streams E s = (if 0 \<le> listen_fd (client s3)
    then upd (\<lambda>c. c\<lparr>listen_fd := -1\<rparr>) (sys_close E (listen_fd (client s3)) s3) else s3)"
    by (simp only: close_streams_def Let_def s1_def s2_def s3_def)
  have "owns B C K s1" using close_store(3) [OF o] o by (simp add: s1_def)
  then have "owns B C K s2" using close_store(2) [of B C K s1] by (simp add: s2_def)
  then have "owns B C K s3" using close_store(1) [of B C K s2] by (simp add: s3_def)
  then show "owns B C K (close_streams E s)" using close_store(4) [of B C K s3] by (simp add: s4)
  show "client_fds (client (close_streams E s)) = {}"
    by (auto simp: s1_def s2_def s3_def s4 client_fds_def)
qed

lemma idle_iff: "idle c \<longleftrightarrow> client_fds c = {} \<and> server_pid c \<le> 0"
  by (auto simp: idle_def client_fds_def not_less [symmetric])

lemma stop_server_owns:
  assumes st: "stop_server E s = Some s'" and w: "waits_ok E" and o: "owns B C K s"
  shows "owns B C K s'" and "client_fds (client s') = client_fds (client s)"
    and "server_pid (client s') \<le> 0"
proof -
  have "owns B C K s' \<and> client_fds (client s') = client_fds (client s) \<and> server_pid (client s') \<le> 0"
  proof (cases "server_pid (client s) > 0")
    case False
    with st o show ?thesis by (simp add: stop_server_def)
  next
    case True
    with st obtain wr s1 where wp: "sys_waitpid E (server_pid (client s))
        (sys_kill E (server_pid (client s)) s) = Some (wr, s1)"
      and s': "s' = upd (\<lambda>c. c\<lparr>server_pid := 0\<rparr>) s1"
      by (auto simp: stop_server_def bind_eq_Some_conv)
    have c: "client s1 = client s" "open_fds s1 = open_fds s"
      "set (children s1) = set (children s) - {server_pid (client s)}"
      using wp w by (auto simp: sys_waitpid_def sys_kill_def reap_def waits_ok_def step_os_def
          split: wait_res.splits)
    show ?thesis using reap_server_owns [OF o c True] by (simp add: s' c)
  qed
  then show "owns B C K s'" "client_fds (client s') = client_fds (client s)"
    "server_pid (client s') \<le> 0" by auto
qed

lemma teardown_owns:
  assumes td: "rc_server_teardown E s = Some s'" and w: "waits_ok E" and o: "owns B C K s"
  shows "owns B C K s'" and "idle (client s')"
proof -
  from td obtain s1 where st: "stop_server E (close_streams E s) = Some s1"
    by (auto simp: rc_server_teardown_def bind_eq_Some_conv)
  note cl = close_streams_owns [OF o, of E]
  note S = stop_server_owns [OF st w cl(1)]
  have "keeps s1 s'"
    using td st by (auto simp: rc_server_teardown_def bind_eq_Some_conv dest: adb_keeps(5) [OF w]
        split: if_splits)
  moreover have "idle (client s1)" using S cl(2) by (simp add: idle_iff)
  ultimately show "owns B C K s'" "idle (client s')" using S(1) keeps_owns idle_keeps by blast+
qed

text \<open>The teardown returns when the processes it waits for end.\<close>

lemma teardown_returns:
  assumes "children_end E"
  shows "\<exists>s'. rc_server_teardown E s = Some s'"
proof -
  let ?s = "close_streams E s"
  obtain w s0 where "sys_waitpid E (server_pid (client ?s)) (sys_kill E (server_pid (client ?s)) ?s) = Some (w, s0)"
    using sys_waitpid_returns [OF assms] by blast
  then have "\<exists>s1. stop_server E ?s = Some s1" by (simp add: stop_server_def)
  then obtain s1 where "stop_server E ?s = Some s1" by blast
  moreover obtain r s2 where
    "rc_adb_reverse_remove E (serial (cfg (client s1))) (socket_name (client s1)) s1 = Some (r, s2)"
    using adb_run_ex_returns [OF assms] unfolding rc_adb_reverse_remove_def by blast
  ultimately show ?thesis by (simp add: rc_server_teardown_def)
qed

lemma store_connect:
  assumes "connect_retry E host port b s = Some (fd, s')" and "owns B C K s"
  shows "video_fd (client s) < 0 \<Longrightarrow> owns B C K (upd (\<lambda>c. c\<lparr>video_fd := fd\<rparr>) s')"
    and "audio_fd (client s) < 0 \<Longrightarrow> owns B C K (upd (\<lambda>c. c\<lparr>audio_fd := fd\<rparr>) s')"
    and "control_fd (client s) < 0 \<Longrightarrow> owns B C K (upd (\<lambda>c. c\<lparr>control_fd := fd\<rparr>) s')"
  using takes_store [OF connect_retry_takes [OF assms(1)] assms(2)] by auto

lemma tcp_connect_all_owns:
  assumes d: "tcp_connect_all E dep host port s = Some (fl, s')" and o: "owns B C K s"
    and f: "video_fd (client s) < 0" "audio_fd (client s) < 0" "control_fd (client s) < 0"
  shows "owns B C K s'"
proof -
  obtain fd s1 where c1: "connect_retry E host port (if dep then 3000 else 1000) s = Some (fd, s1)"
    using d by (auto simp: tcp_connect_all_def bind_eq_Some_conv)
  define t1 where "t1 = upd (\<lambda>c. c\<lparr>video_fd := fd\<rparr>) s1"
  have o1: "owns B C K t1" using store_connect(1) [OF c1 o f(1)] by (simp add: t1_def)
  have f1: "audio_fd (client t1) < 0" "control_fd (client t1) < 0"
    using takes_client [OF connect_retry_takes [OF c1]] f by (simp_all add: t1_def)
  show ?thesis
  proof (cases "fd < 0")
    case True
    with d c1 have "s' = t1" by (auto simp: tcp_connect_all_def t1_def)
    with o1 show ?thesis by simp
  next
    case False
    with d c1 obtain f2 t2 f3 t3 where a: "tcp_audio E host port t1 = Some (f2, t2)"
      and c: "tcp_control E f2 host port t2 = Some (f3, t3)" and m: "tcp_meta E f3 t3 = Some (fl, s')"
      by (auto simp: tcp_connect_all_def bind_eq_Some_conv t1_def Let_def)
    have o2: "owns B C K t2" and g2: "control_fd (client t2) < 0"
      using a store_connect(2) [OF _ o1 f1(1)] o1 f1 takes_client(3) [OF connect_retry_takes]
      by (fastforce simp: tcp_audio_def bind_eq_Some_conv split: if_splits)+
    have o3: "owns B C K t3"
      using c store_connect(3) [OF _ o2 g2] o2
      by (fastforce simp: tcp_control_def bind_eq_Some_conv split: if_splits)
    have "keeps t3 s'"
      using m by (auto simp: tcp_meta_def bind_eq_Some_conv dest: read_meta_timeout_keeps split: if_splits)
    then show ?thesis using o3 by (rule keeps_owns)
  qed
qed

lemma tcp_finish_owns:
  assumes d: "tcp_finish E dep host port s = Some (r, s')" and w: "waits_ok E" and o: "owns B C K s"
    and f: "video_fd (client s) < 0" "audio_fd (client s) < 0" "control_fd (client s) < 0"
  shows "owns B C K s'"
proof -
  obtain fl s1 where c: "tcp_connect_all E dep host port s = Some (fl, s1)"
    using d by (auto simp: tcp_finish_def bind_eq_Some_conv)
  have o1: "owns B C K s1" by (rule tcp_connect_all_owns [OF c o f])
  show ?thesis
  proof (cases "\<exists>f. fl = Some f \<and> dep \<and> \<not> aborted E s1")
    case False
    with d c have "keeps s1 s'" by (auto simp: tcp_finish_def split: option.splits if_splits)
    with o1 show ?thesis by (rule keeps_owns [rotated])
  next
    case True
    with d c obtain f s2 where
      td: "rc_server_teardown E (rc_emit_status RC_OK (MsgLanFallback (lan_step_name f)) s1) = Some s2"
      and u: "deploy_usb E (upd (\<lambda>c. c\<lparr>lan_token := [],
          cfg := (cfg c)\<lparr>transport := RC_TRANSPORT_USB\<rparr>\<rparr>) s2) = Some (r, s')"
      by (auto simp: tcp_finish_def bind_eq_Some_conv)
    note T = teardown_owns [OF td w emit_owns [OF o1]]
    show ?thesis
      by (rule deploy_usb_owns [OF u w keeps_owns [OF keeps_upd(5) T(1)] idle_keeps [OF keeps_upd(5) T(2)]])
  qed
qed

lemma gives_then_close_keeps:
  "gives_fd s (fd, s1) \<Longrightarrow> 0 \<le> fd \<Longrightarrow> calm s1 s2 \<Longrightarrow> keeps s (sys_close E fd s2)"
  using gives_fail_keeps [OF gives_fd_calm_close] by simp

lemma lan_port_taken_keeps: "lan_port_taken E host port s = (b, s') \<Longrightarrow> keeps s s'"
  using rc_net_connect_tcp_gives [of s E host port 800]
  by (auto simp: lan_port_taken_def split: if_splits prod.splits
      intro: gives_fail_keeps gives_then_close_keeps)

lemma gen_lan_token_keeps:
  assumes "gen_lan_token E s = (tok, s')"
  shows "keeps s s'"
proof -
  obtain fd s1 where o: "sys_open_fd E s = (fd, s1)" by fastforce
  with sys_open_fd_gives [of s E] have g: "gives_fd s (fd, s1)" by simp
  show ?thesis
  proof (cases "0 \<le> fd")
    case True
    with assms o have "s' = sys_close E fd (step_os E s1)" by (auto simp: gen_lan_token_def Let_def)
    with g True show ?thesis using gives_then_close_keeps [of s fd s1] by simp
  next
    case False
    with assms o have "s' = s1" by (auto simp: gen_lan_token_def Let_def)
    with False g show ?thesis by (simp add: gives_fail_keeps)
  qed
qed

text \<open>The outcomes of the self-deploying TCP path: the tunnel at once, an error, or the connection
  phase with a freshly started server.\<close>

lemma tcp_deploy_server_cases:
  assumes d: "tcp_deploy_server E host port s = Some (r, s')" and w: "waits_ok E"
  obtains s1 where "keeps s s1" "deploy_usb E s1 = Some (r, s')"
  | "keeps s s'" "r \<noteq> RC_OK"
  | t4 ser cf tok dp r5 pid s5 t5 where "keeps s t4"
      "rc_adb_run_server E ser cf None dp tok t4 = (r5, pid, s5)"
      "t5 = (case pid of Some p \<Rightarrow> upd (\<lambda>c. c\<lparr>server_pid := p\<rparr>) s5 | None \<Rightarrow> s5)"
      "r = r5 \<and> r \<noteq> RC_OK \<and> s' = rc_emit_status r5 MsgRunServerFailed t5 \<or>
       tcp_finish E True host port t5 = Some (r, s')"
proof -
  obtain taken s1 where lp: "lan_port_taken E host port s = (taken, s1)" by fastforce
  have k1: "keeps s s1" by (rule lan_port_taken_keeps [OF lp])
  show thesis
  proof (cases taken)
    case True
    let ?s2 = "upd (\<lambda>c. c\<lparr>cfg := (cfg c)\<lparr>transport := RC_TRANSPORT_USB\<rparr>\<rparr>) (rc_emit_status RC_OK MsgLanPortTaken s1)"
    have "keeps s ?s2" by (rule keeps_trans [OF keeps_trans [OF k1 keeps_basic(2)] keeps_upd(4)])
    moreover from True d lp have "deploy_usb E ?s2 = Some (r, s')" by (simp add: tcp_deploy_server_def)
    ultimately show thesis by (rule that(1))
  next
    case False
    with d lp obtain r2 s2 where e2: "ensure_adb_device E s1 = Some (r2, s2)"
      by (auto simp: tcp_deploy_server_def bind_eq_Some_conv)
    have k2: "keeps s s2" by (rule keeps_trans [OF k1 ensure_adb_device_keeps [OF w e2]])
    show thesis
    proof (cases "r2 = RC_OK")
      case r2: False
      with d lp False e2 have "s' = s2" "r = r2" by (auto simp: tcp_deploy_server_def)
      with k2 r2 that(2) show thesis by simp
    next
      case r2: True
      with d lp False e2 obtain r3 s3 where e3: "rc_adb_push E (serial (cfg (client s2)))
          (server_local_path E) RC_SERVER_REMOTE_PATH s2 = Some (r3, s3)"
        by (auto simp: tcp_deploy_server_def bind_eq_Some_conv)
      have k3: "keeps s s3" by (rule keeps_trans [OF k2 adb_keeps(3) [OF w e3]])
      show thesis
      proof (cases "r3 = RC_OK")
        case r3: False
        with d lp False e2 r2 e3 have "s' = rc_emit_status r3 MsgAdbPushFailed s3" "r = r3"
          by (auto simp: tcp_deploy_server_def)
        with keeps_trans [OF k3 keeps_basic(2)] r3 that(2) show thesis by simp
      next
        case r3: True
        obtain tok s4 where e4: "gen_lan_token E s3 = (tok, s4)" by fastforce
        define t4 where "t4 = upd (\<lambda>c. c\<lparr>lan_token := tok\<rparr>) s4"
        define dp where "dp = (if tcp_device_port (cfg (client t4)) > 0
          then tcp_device_port (cfg (client t4)) else port)"
        obtain r5 pid s5 where e5: "rc_adb_run_server E (serial (cfg (client t4))) (cfg (client t4)) None
            dp (Some (lan_token (client t4))) t4 = (r5, pid, s5)" by (metis prod_cases3)
        have "keeps s t4" unfolding t4_def
          by (rule keeps_trans [OF keeps_trans [OF k3 gen_lan_token_keeps [OF e4]] keeps_upd(3)])
        from that(3) [OF this e5 refl] d lp False e2 r2 e3 r3 e4 e5 show thesis
          by (auto simp: tcp_deploy_server_def Let_def t4_def dp_def split: if_splits)
      qed
    qed
  qed
qed

lemma server_started:
  assumes "rc_adb_run_server E ser cf sn port tok s = (r, pid, s1)"
    and "t = (case pid of Some p \<Rightarrow> upd (\<lambda>c. c\<lparr>server_pid := p\<rparr>) s1 | None \<Rightarrow> s1)"
    and "owns B C K s" and "idle (client s)"
  shows "owns B C K t" "video_fd (client t) < 0" "audio_fd (client t) < 0" "control_fd (client t) < 0"
    "listen_fd (client t) < 0" "cfg (client t) = cfg (client s)"
proof -
  have "server_pid (client s) \<le> 0" using assms(4) by (simp add: idle_def)
  note R = run_server_owns [OF assms(1,3) this]
  show "owns B C K t" using R(1) assms(2) by simp
  show "video_fd (client t) < 0" "audio_fd (client t) < 0" "control_fd (client t) < 0"
    "listen_fd (client t) < 0" "cfg (client t) = cfg (client s)"
    using R(2) assms(2,4) by (auto simp: idle_def split: option.splits)
qed

lemma tcp_deploy_server_owns:
  assumes d: "tcp_deploy_server E host port s = Some (r, s')" and w: "waits_ok E"
    and o: "owns B C K s" and i: "idle (client s)"
  shows "owns B C K s'"
proof (cases rule: tcp_deploy_server_cases [OF d w])
  case (1 s1)
  then show ?thesis using deploy_usb_owns [OF _ w keeps_owns [OF _ o] idle_keeps [OF _ i]] by blast
next
  case 2
  then show ?thesis using o by (simp add: keeps_owns)
next
  case (3 t4 ser cf tok dp r5 pid s5 t5)
  note S = server_started [OF 3(2,3) keeps_owns [OF 3(1) o] idle_keeps [OF 3(1) i]]
  from 3(4) show ?thesis using emit_owns [OF S(1)] tcp_finish_owns [OF _ w S(1-4)] by auto
qed

lemma rc_server_deploy_owns:
  assumes "rc_server_deploy E s = Some (r, s')" and "waits_ok E" and "owns B C K s" and "idle (client s)"
  shows "owns B C K s'"
proof -
  have i: "video_fd (client s) < 0" "audio_fd (client s) < 0" "control_fd (client s) < 0"
    using assms(4) by (simp_all add: idle_def)
  show ?thesis
    using assms deploy_usb_owns [OF _ assms(2-4)] tcp_deploy_server_owns [OF _ assms(2-4)]
      tcp_finish_owns [OF _ assms(2,3) i] emit_owns [OF assms(3)]
    by (auto simp: rc_server_deploy_def deploy_tcp_def split: if_splits sum.splits prod.splits
        option.splits list.splits)
qed

text \<open>
  C3: no leak of descriptors or processes.  From a client that holds nothing, whatever the devices,
  \<^verbatim>\<open>adb\<close>, the network and a concurrent abort do, a deploy (with any of its failures and its fallback
  from direct TCP to the tunnel) followed by the teardown leaves exactly the descriptors that were open
  and exactly the children that were running before, and the client again holds nothing.
\<close>

theorem deploy_teardown_no_leak:
  assumes "idle (client s)" and "waits_ok E"
    and "rc_server_deploy E s = Some (r, s1)" and "rc_server_teardown E s1 = Some s2"
  shows "set (open_fds s2) = set (open_fds s) \<and> set (children s2) = set (children s) \<and> idle (client s2)"
proof -
  have "owns (set (open_fds s)) (set (children s)) (threads (client s)) s" using owns_idle [OF assms(1)] by simp
  from rc_server_deploy_owns [OF assms(3,2) this assms(1)]
  have "owns (set (open_fds s)) (set (children s)) (threads (client s)) s1" .
  note T = teardown_owns [OF assms(4,2) this]
  from T(1) T(2) owns_idle [OF T(2)] show ?thesis by simp
qed

text \<open>An emulator that answers at once, and the session it gives.\<close>

definition demo_stream :: sock where
  "demo_stream = [Chunk (writeDeviceMeta RC_CODEC_ID_H264 1080 1920 [80])]"

lemma demo_stream_bytes: "sock_bytes demo_stream = writeDeviceMeta RC_CODEC_ID_H264 1080 1920 [80]"
proof -
  let ?w = "writeDeviceMeta RC_CODEC_ID_H264 1080 1920 [80]"
  have "?w \<noteq> []" by (simp add: writeDeviceMeta_def put_u32_def)
  then show ?thesis by (simp add: demo_stream_def)
qed

lemma demo_stream_meta:
  "\<exists>q m'. rc_demux_read_meta demo_stream (Some m) = Some (RC_OK, Some m', q) \<and>
     dm_version m' = RC_PROTO_VERSION \<and> dm_codec_id m' = RC_CODEC_ID_H264"
  using read_meta_written [of demo_stream RC_CODEC_ID_H264 1080 1920 "[80]" "[]" m]
    demo_stream_bytes by auto

definition demo_usb_env :: env where
  "demo_usb_env = demo_env\<lparr>
     e_ret := (\<lambda>n. if n = 10 \<or> n = 13 \<or> n = 17 then 1 else 0),
     e_getenv := (\<lambda>_. Some ''/opt/rc-server''),
     e_stream := (\<lambda>_. demo_stream)\<rparr>"

definition demo_idle_sys :: sys where
  "demo_idle_sys = demo_sys\<lparr>client := demo_client\<rparr>"

lemmas os_eval =
  sys_ret_def sys_poll_def sys_open_fd_def sys_close_def sys_spawn_def sys_waitpid_def
  sys_waitpid_nohang_def reap_def sys_kill_def step_os_def sleep_ms_def fresh_fd_def Let_def

lemma accept_ready:
  "0 < e_ret E (tick s) \<Longrightarrow> accept_timeout E ACCEPT_TIMEOUT_MS s = rc_net_accept E (step_os E s)"
  by (simp add: accept_timeout_def accept_loop.simps sys_poll_def ACCEPT_TIMEOUT_MS_def Let_def)

lemma meta_ready:
  "0 < e_ret E (tick s) \<Longrightarrow> read_meta_timeout E META_TIMEOUT_MS s = fd_read_meta (step_os E s)"
  by (simp add: read_meta_timeout_def meta_loop.simps sys_poll_def META_TIMEOUT_MS_def Let_def)

lemmas deploy_eval =
  rc_server_deploy_def deploy_usb_def ensure_adb_device_def has_colon_def rc_adb_push_def
  push_argv_def adb_run_def adb_run_ex_def exit_ok_def rc_net_listen_loopback_def usb_run_def
  rc_adb_reverse_def rc_adb_run_server_def usb_accept_def accept_ready 
  rc_net_accept_def set_low_latency_def usb_meta_def meta_ready fd_read_meta_def 
  upd_def usb_desc_def
  rc_server_teardown_def close_streams_def stop_server_def rc_adb_reverse_remove_def

lemma demo_client_eq: "demo_client = \<lparr>cfg = demo_config, has_frame_cb = False, has_status_cb = False,
               video_fd = -1, audio_fd = -1, control_fd = -1, listen_fd = -1,
               meta = zero_meta, have_meta = False, server_pid = 0,
               socket_name = fit 64 (''rigcontrol_'' @ show_int 4242 @ ''_'' @ show_int 0),
               lan_token = [], running = False, abort_requested = False,
               decoder_desc = None, c_transport_desc = None,
               net_thread = False, audio_thread = False, decoder = None, audio_player = None\<rparr>"
  by (simp add: demo_client_def rc_client_create_def dup_or_null_def demo_config_def)

lemma demo_deploy:
  "\<exists>s1 s2. rc_server_deploy demo_usb_env demo_idle_sys = Some (RC_OK, s1) \<and>
     open_fds s1 = [5, 4, 0, 1, 2] \<and> children s1 = [2] \<and> tick s1 = 18 \<and>
     cfg (client s1) = demo_config \<and> dm_version (meta (client s1)) = RC_PROTO_VERSION \<and>
     dm_codec_id (meta (client s1)) = RC_CODEC_ID_H264 \<and>
     rc_server_teardown demo_usb_env s1 = Some s2"
proof -
  obtain q m' where "rc_demux_read_meta demo_stream (Some zero_meta) = Some (RC_OK, Some m', q)"
    "dm_version m' = RC_PROTO_VERSION" "dm_codec_id m' = RC_CODEC_ID_H264"
    using demo_stream_meta by blast
  then obtain s1 where "rc_server_deploy demo_usb_env demo_idle_sys = Some (RC_OK, s1) \<and>
     open_fds s1 = [5, 4, 0, 1, 2] \<and> children s1 = [2] \<and> tick s1 = 18 \<and>
     cfg (client s1) = demo_config \<and> dm_version (meta (client s1)) = RC_PROTO_VERSION \<and>
     dm_codec_id (meta (client s1)) = RC_CODEC_ID_H264"
    by (simp add: deploy_eval os_eval demo_idle_sys_def demo_sys_def demo_client_eq demo_config_def
        demo_usb_env_def demo_env_def)
  moreover have "children_end demo_usb_env"
    by (simp add: children_end_def demo_usb_env_def demo_env_def)
  ultimately show ?thesis using teardown_returns by blast
qed

lemma demo_deploy_env: "waits_ok demo_usb_env" "idle (client demo_idle_sys)"
  "open_fds demo_idle_sys = [0, 1, 2]" "children demo_idle_sys = []"
  by (simp_all add: waits_ok_def demo_usb_env_def demo_env_def demo_idle_sys_def demo_client_eq
      idle_def demo_sys_def)

theorem deploy_teardown_no_leak_witness:
  "\<exists>s1 s2. rc_server_deploy demo_usb_env demo_idle_sys = Some (RC_OK, s1) \<and>
     set (open_fds s1) = {0, 1, 2, 4, 5} \<and> children s1 = [2] \<and>
     rc_server_teardown demo_usb_env s1 = Some s2 \<and>
     set (open_fds s2) = {0, 1, 2} \<and> set (children s2) = {} \<and> idle (client s2)"
proof -
  obtain s1 s2 where d: "rc_server_deploy demo_usb_env demo_idle_sys = Some (RC_OK, s1)"
    "open_fds s1 = [5, 4, 0, 1, 2]" "children s1 = [2]" "rc_server_teardown demo_usb_env s1 = Some s2"
    using demo_deploy by blast
  have "set (open_fds s2) = {0, 1, 2} \<and> set (children s2) = {} \<and> idle (client s2)"
    using deploy_teardown_no_leak [OF demo_deploy_env(2,1) d(1,4)] by (simp add: demo_deploy_env)
  with d show ?thesis by (simp add: insert_commute)
qed

section \<open>What a successful deploy delivers\<close>

definition streams_up :: "bool \<Rightarrow> bool \<Rightarrow> rc_client \<Rightarrow> bool" where
  "streams_up a k c \<longleftrightarrow> 0 \<le> video_fd c \<and> (0 \<le> audio_fd c \<longleftrightarrow> a) \<and> (0 \<le> control_fd c \<longleftrightarrow> k) \<and>
     listen_fd c < 0"

lemma streams_up_keeps: "keeps s s' \<Longrightarrow> streams_up a k (client s) \<Longrightarrow> streams_up a k (client s')"
  by (simp add: keeps_def streams_up_def)

lemma usb_accept_ok:
  assumes u: "usb_accept E s = (RC_OK, s')"
    and f: "audio_fd (client s) < 0" "control_fd (client s) < 0"
  shows "streams_up (audio (cfg (client s))) (control (cfg (client s))) (client s')"
proof -
  obtain fd s1 where a1: "accept_timeout E ACCEPT_TIMEOUT_MS s = (fd, s1)" by fastforce
  define t1 where "t1 = upd (\<lambda>c. c\<lparr>video_fd := fd\<rparr>) s1"
  note T1 = takes_client [OF accept_timeout_takes [OF a1]]
  obtain fd2 s2 where a2: "accept_timeout E ACCEPT_TIMEOUT_MS t1 = (fd2, s2)" by fastforce
  define t2 where "t2 = (if audio (cfg (client t1)) then upd (\<lambda>c. c\<lparr>audio_fd := fd2\<rparr>) s2 else t1)"
  note T2 = takes_client [OF accept_timeout_takes [OF a2]]
  obtain fd3 s3 where a3: "accept_timeout E ACCEPT_TIMEOUT_MS t2 = (fd3, s3)" by fastforce
  define t3 where "t3 = (if control (cfg (client t2)) then upd (\<lambda>c. c\<lparr>control_fd := fd3\<rparr>) s3 else t2)"
  note T3 = takes_client [OF accept_timeout_takes [OF a3]]
  have ok: "0 \<le> fd" "audio (cfg (client t1)) \<longrightarrow> 0 \<le> fd2" "control (cfg (client t2)) \<longrightarrow> 0 \<le> fd3"
    "s' = upd (\<lambda>c. c\<lparr>listen_fd := -1\<rparr>) (sys_close E (listen_fd (client t3)) t3)"
    using u a1 a2 a3 by (auto simp: usb_accept_def Let_def t1_def t2_def t3_def split: if_splits)
  have c1: "client t1 = (client s1)\<lparr>video_fd := fd\<rparr>" by (simp add: t1_def)
  have c2: "video_fd (client t2) = fd" "0 \<le> audio_fd (client t2) \<longleftrightarrow> audio (cfg (client s))"
    "control_fd (client t2) < 0" "control (cfg (client t2)) = control (cfg (client s))"
    using T1 T2 f ok(2) by (auto simp: t2_def c1)
  have "video_fd (client t3) = fd" "0 \<le> audio_fd (client t3) \<longleftrightarrow> audio (cfg (client s))"
    "0 \<le> control_fd (client t3) \<longleftrightarrow> control (cfg (client s))"
    using T3 c2 ok(3) by (auto simp: t3_def)
  with ok(1,4) show ?thesis by (simp add: streams_up_def)
qed

lemma read_meta_ok:
  "rc_demux_read_meta q (Some m) = Some (RC_OK, m', q') \<Longrightarrow> dm_magic (the m') = RC_META_MAGIC"
  by (auto simp: rc_demux_read_meta_def bind_eq_Some_conv Let_def split: if_splits)

lemma fd_read_meta_ok:
  assumes "fd_read_meta s = Some (RC_OK, s')"
  shows "dm_magic (meta (client s')) = RC_META_MAGIC"
proof -
  let ?fd = "video_fd (client s)"
  obtain r m' q where r: "rc_demux_read_meta (inq s ?fd) (Some (meta (client s))) = Some (r, m', q)"
    using assms by (auto simp: fd_read_meta_def bind_eq_Some_conv Let_def)
  with assms have "r = RC_OK \<and> upd (\<lambda>c. c\<lparr>meta := the m'\<rparr>) (s\<lparr>inq := (inq s)(?fd := q)\<rparr>) = s'"
    by (simp add: fd_read_meta_def)
  then have "r = RC_OK" "meta (client s') = the m'" by auto
  with r read_meta_ok show ?thesis by simp
qed

lemma meta_loop_ok:
  "meta_loop E waited t s = Some (RC_OK, s') \<Longrightarrow> dm_magic (meta (client s')) = RC_META_MAGIC"
proof (induction E waited t s rule: meta_loop.induct)
  case (1 E waited t s)
  obtain p s1 where p: "sys_poll E WAIT_SLICE_MS s = (p, s1)" by fastforce
  obtain c s2 where w: "wait_cancelled E s1 = (c, s2)" by fastforce
  have rec: "dm_magic (meta (client s')) = RC_META_MAGIC"
    if "\<not> t \<le> waited" "\<not> p > 0" "\<not> p < 0" "\<not> c"
      "meta_loop E (waited + WAIT_SLICE_MS) t s2 = Some (RC_OK, s')"
    using 1(1) [OF that(1) p [symmetric] _ that(2,3) w [symmetric] _ that(4,5)] by simp
  have rd: "dm_magic (meta (client s')) = RC_META_MAGIC" if "fd_read_meta s1 = Some (RC_OK, s')"
    using that by (rule fd_read_meta_ok)
  show ?case
    using 1(2) p w rec rd by (subst (asm) meta_loop.simps) (auto split: if_splits)
qed

definition session_up :: "bool \<Rightarrow> bool \<Rightarrow> rc_client \<Rightarrow> bool" where
  "session_up a k c \<longleftrightarrow> streams_up a k c \<and> dm_magic (meta c) = RC_META_MAGIC \<and>
     c_transport_desc c \<noteq> None"

lemma usb_meta_ok:
  assumes "usb_meta E s = Some (RC_OK, s')" and "streams_up a k (client s)"
  shows "session_up a k (client s')"
proof -
  obtain s1 where m: "read_meta_timeout E META_TIMEOUT_MS s = Some (RC_OK, s1)"
    and s': "s' = upd (\<lambda>c. c\<lparr>c_transport_desc := Some (usb_desc (serial (cfg c)))\<rparr>) s1"
  proof -
    obtain r1 s1 where m: "read_meta_timeout E META_TIMEOUT_MS s = Some (r1, s1)"
      using assms(1) by (auto simp: usb_meta_def bind_eq_Some_conv)
    with assms(1) that [of s1] show ?thesis
      by (cases "r1 = RC_OK") (simp_all add: usb_meta_def)
  qed
  from m have "dm_magic (meta (client s1)) = RC_META_MAGIC"
    by (auto simp: read_meta_timeout_def dest: meta_loop_ok)
  with streams_up_keeps [OF read_meta_timeout_keeps [OF m] assms(2)] show ?thesis
    by (simp add: s' session_up_def streams_up_def)
qed

lemma usb_run_ok:
  assumes d: "usb_run E ser port s = Some (RC_OK, s')" and w: "waits_ok E"
    and f: "audio_fd (client s) < 0" "control_fd (client s) < 0"
  shows "session_up (audio (cfg (client s))) (control (cfg (client s))) (client s')"
proof -
  obtain r4 s4 where e4: "rc_adb_reverse E ser (socket_name (client s)) port s = Some (r4, s4)"
    using d by (auto simp: usb_run_def bind_eq_Some_conv)
  have k4: "keeps s s4" by (rule adb_keeps(4) [OF w e4])
  obtain r5 pid s5 where e5: "rc_adb_run_server E ser (cfg (client s4))
      (Some (socket_name (client s4))) 0 None s4 = (r5, pid, s5)"
    by (metis prod_cases3)
  define t5 where "t5 = (case pid of Some p \<Rightarrow> upd (\<lambda>c. c\<lparr>server_pid := p\<rparr>) s5 | None \<Rightarrow> s5)"
  have c5: "cfg (client t5) = cfg (client s4)" "audio_fd (client t5) = audio_fd (client s4)"
    "control_fd (client t5) = control_fd (client s4)"
    using run_server_client [OF e5] by (auto simp: t5_def split: option.splits)
  obtain r6 s6 where e6: "usb_accept E t5 = (r6, s6)" by fastforce
  have ok: "r6 = RC_OK" "usb_meta E s6 = Some (RC_OK, s')"
    using d e4 e5 e6 by (auto simp: usb_run_def t5_def Let_def split: if_splits)
  have "streams_up (audio (cfg (client s))) (control (cfg (client s))) (client s6)"
    using usb_accept_ok [OF e6 [unfolded ok(1)]] c5 k4 f by (simp add: keeps_def)
  then show ?thesis by (rule usb_meta_ok [OF ok(2)])
qed

lemma deploy_usb_ok:
  assumes d: "deploy_usb E s = Some (RC_OK, s')" and w: "waits_ok E" and i: "idle (client s)"
  shows "session_up (audio (cfg (client s))) (control (cfg (client s))) (client s')"
proof -
  let ?ser = "serial (cfg (client s))"
  obtain r1 s1 where e1: "ensure_adb_device E s = Some (r1, s1)"
    using d by (auto simp: deploy_usb_def bind_eq_Some_conv Let_def)
  have r1: "r1 = RC_OK" using d e1 by (auto simp: deploy_usb_def Let_def split: if_splits)
  with d e1 obtain r2 s2 where e2:
    "rc_adb_push E ?ser (server_local_path E) RC_SERVER_REMOTE_PATH s1 = Some (r2, s2)"
    by (auto simp: deploy_usb_def bind_eq_Some_conv Let_def)
  have k2: "keeps s s2"
    by (rule keeps_trans [OF ensure_adb_device_keeps [OF w e1] adb_keeps(3) [OF w e2]])
  obtain fd port s3 where l: "rc_net_listen_loopback E s2 = (fd, port, s3)" by (metis prod_cases3)
  have "usb_run E ?ser port (upd (\<lambda>c. c\<lparr>listen_fd := fd\<rparr>) s3) = Some (RC_OK, s')"
    using d e1 r1 e2 l by (auto simp: deploy_usb_def Let_def split: if_splits)
  from usb_run_ok [OF this w] takes_client [OF listen_takes [OF l]] k2 i show ?thesis
    by (simp add: keeps_def idle_def)
qed

lemma connect_all_ok:
  assumes d: "tcp_connect_all E dep host port s = Some (None, s')"
    and f: "audio_fd (client s) < 0" "control_fd (client s) < 0" "listen_fd (client s) < 0"
  shows "streams_up (audio (cfg (client s))) (control (cfg (client s))) (client s') \<and>
     dm_magic (meta (client s')) = RC_META_MAGIC"
proof -
  obtain fd s1 where c1: "connect_retry E host port (if dep then 3000 else 1000) s = Some (fd, s1)"
    using d by (auto simp: tcp_connect_all_def bind_eq_Some_conv)
  define t1 where "t1 = upd (\<lambda>c. c\<lparr>video_fd := fd\<rparr>) s1"
  note T1 = takes_client [OF connect_retry_takes [OF c1]]
  from d c1 have fd: "0 \<le> fd" by (auto simp: tcp_connect_all_def Let_def split: if_splits)
  with d c1 obtain f2 t2 f3 t3 where a: "tcp_audio E host port t1 = Some (f2, t2)"
    and c: "tcp_control E f2 host port t2 = Some (f3, t3)" and m: "tcp_meta E f3 t3 = Some (None, s')"
    by (auto simp: tcp_connect_all_def bind_eq_Some_conv t1_def Let_def)
  have f3: "f3 = None" using m by (auto simp: tcp_meta_def split: if_splits)
  have f2: "f2 = None" using c f3 by (auto simp: tcp_control_def bind_eq_Some_conv split: if_splits)
  have s1: "video_fd (client t1) = fd" "audio_fd (client t1) < 0" "control_fd (client t1) < 0"
    "listen_fd (client t1) < 0" "cfg (client t1) = cfg (client s1)" using T1 f by (simp_all add: t1_def)
  have s2: "video_fd (client t2) = fd" "0 \<le> audio_fd (client t2) \<longleftrightarrow> audio (cfg (client s))"
    "control_fd (client t2) < 0" "listen_fd (client t2) < 0"
    "control (cfg (client t2)) = control (cfg (client s))"
    using a f2 s1 T1 takes_client [OF connect_retry_takes, of E host port 1000 t1]
    by (auto simp: tcp_audio_def bind_eq_Some_conv split: if_splits)
  have s3: "video_fd (client t3) = fd" "0 \<le> audio_fd (client t3) \<longleftrightarrow> audio (cfg (client s))"
    "0 \<le> control_fd (client t3) \<longleftrightarrow> control (cfg (client s))" "listen_fd (client t3) < 0"
    using c f3 f2 s2 takes_client [OF connect_retry_takes, of E host port 1000 t2]
    by (auto simp: tcp_control_def bind_eq_Some_conv split: if_splits)
  have rm: "read_meta_timeout E META_TIMEOUT_MS t3 = Some (RC_OK, s')"
    using m f3 by (auto simp: tcp_meta_def bind_eq_Some_conv split: if_splits)
  then have "dm_magic (meta (client s')) = RC_META_MAGIC"
    by (simp add: read_meta_timeout_def meta_loop_ok)
  moreover have "streams_up (audio (cfg (client s))) (control (cfg (client s))) (client t3)"
    using s3 fd by (simp add: streams_up_def)
  ultimately show ?thesis using streams_up_keeps [OF read_meta_timeout_keeps [OF rm]] by blast
qed

lemma tcp_steps_cfg:
  "tcp_audio E host port s = Some (fl, s') \<Longrightarrow>
     audio (cfg (client s')) = audio (cfg (client s)) \<and> control (cfg (client s')) = control (cfg (client s))"
  "tcp_control E fl0 host port s = Some (fl, s') \<Longrightarrow>
     audio (cfg (client s')) = audio (cfg (client s)) \<and> control (cfg (client s')) = control (cfg (client s))"
  "tcp_meta E fl0 s = Some (fl, s') \<Longrightarrow>
     audio (cfg (client s')) = audio (cfg (client s)) \<and> control (cfg (client s')) = control (cfg (client s))"
  using takes_client(6,7) [OF connect_retry_takes, of E host port 1000 s] read_meta_timeout_keeps [of E _ s]
  by (auto simp: tcp_audio_def tcp_control_def tcp_meta_def bind_eq_Some_conv keeps_def split: if_splits)

lemma connect_all_cfg:
  assumes d: "tcp_connect_all E dep host port s = Some (fl, s')"
  shows "audio (cfg (client s')) = audio (cfg (client s))"
    "control (cfg (client s')) = control (cfg (client s))"
proof -
  obtain fd s1 where c1: "connect_retry E host port (if dep then 3000 else 1000) s = Some (fd, s1)"
    using d by (auto simp: tcp_connect_all_def bind_eq_Some_conv)
  let ?t1 = "upd (\<lambda>c. c\<lparr>video_fd := fd\<rparr>) s1"
  note T1 = takes_client(6,7) [OF connect_retry_takes [OF c1]]
  have "s' = ?t1 \<or> (\<exists>f2 t2 f3 t3. tcp_audio E host port ?t1 = Some (f2, t2) \<and>
      tcp_control E f2 host port t2 = Some (f3, t3) \<and> tcp_meta E f3 t3 = Some (fl, s'))"
    using d c1 by (cases "fd < 0") (auto simp: tcp_connect_all_def bind_eq_Some_conv Let_def)
  then show "audio (cfg (client s')) = audio (cfg (client s))"
    "control (cfg (client s')) = control (cfg (client s))"
    using T1 by (auto dest!: tcp_steps_cfg)
qed

lemma adb_reverse_remove_client:
  fixes s s' :: sys
  shows "rc_adb_reverse_remove E ser nm s = Some (r, s') \<Longrightarrow> client s' = client s"
  using more_client [of s' s] adb_run_ex_spec(1)
  by (fastforce simp: rc_adb_reverse_remove_def fd_calm_def)

lemma teardown_cfg:
  assumes "rc_server_teardown E s = Some s'"
  shows "cfg (client s') = cfg (client s)"
proof -
  obtain s1 where st: "stop_server E (close_streams E s) = Some s1"
    using assms by (auto simp: rc_server_teardown_def bind_eq_Some_conv)
  have "cfg (client (close_streams E s)) = cfg (client s)"
    by (simp add: close_streams_def Let_def)
  moreover have "cfg (client s1) = cfg (client (close_streams E s))"
    using st by (auto simp: stop_server_def bind_eq_Some_conv sys_waitpid_def sys_kill_def reap_def
        step_os_def split: if_splits wait_res.splits)
  moreover have "cfg (client s') = cfg (client s1)"
    using assms st adb_reverse_remove_client
    by (fastforce simp: rc_server_teardown_def bind_eq_Some_conv split: if_splits)
  ultimately show ?thesis by simp
qed

lemma tcp_finish_ok:
  assumes d: "tcp_finish E dep host port s = Some (RC_OK, s')" and w: "waits_ok E" and o: "owns B C K s"
    and f: "video_fd (client s) < 0" "audio_fd (client s) < 0" "control_fd (client s) < 0"
      "listen_fd (client s) < 0"
  shows "session_up (audio (cfg (client s))) (control (cfg (client s))) (client s')"
proof -
  obtain fl s1 where c: "tcp_connect_all E dep host port s = Some (fl, s1)"
    using d by (auto simp: tcp_finish_def bind_eq_Some_conv)
  have o1: "owns B C K s1" by (rule tcp_connect_all_owns [OF c o f(1-3)])
  show ?thesis
  proof (cases fl)
    case None
    with d c have "s' = upd (\<lambda>c. c\<lparr>c_transport_desc := Some LanDirect\<rparr>) s1"
      by (auto simp: tcp_finish_def)
    with connect_all_ok [OF c [unfolded None] f(2-4)] show ?thesis
      by (simp add: session_up_def streams_up_def)
  next
    case (Some fs)
    with d c obtain s2 where
      td: "rc_server_teardown E (rc_emit_status RC_OK (MsgLanFallback (lan_step_name fs)) s1) = Some s2"
      and u: "deploy_usb E (upd (\<lambda>c. c\<lparr>lan_token := [],
          cfg := (cfg c)\<lparr>transport := RC_TRANSPORT_USB\<rparr>\<rparr>) s2) = Some (RC_OK, s')"
      by (auto simp: tcp_finish_def bind_eq_Some_conv split: if_splits)
    note T = teardown_owns [OF td w emit_owns [OF o1]]
    have "cfg (client s2) = cfg (client s1)" using teardown_cfg [OF td] by simp
    with deploy_usb_ok [OF u w idle_keeps [OF keeps_upd(5) T(2)]] connect_all_cfg [OF c]
    show ?thesis by simp
  qed
qed

lemma tcp_deploy_server_ok:
  assumes d: "tcp_deploy_server E host port s = Some (RC_OK, s')" and w: "waits_ok E"
    and o: "owns B C K s" and i: "idle (client s)"
  shows "session_up (audio (cfg (client s))) (control (cfg (client s))) (client s')"
proof (cases rule: tcp_deploy_server_cases [OF d w])
  case (1 s1)
  then show ?thesis using deploy_usb_ok [OF 1(2) w idle_keeps [OF 1(1) i]] by (simp add: keeps_def)
next
  case 2
  then show ?thesis by simp
next
  case (3 t4 ser cf tok dp r5 pid s5 t5)
  note S = server_started [OF 3(2,3) keeps_owns [OF 3(1) o] idle_keeps [OF 3(1) i]]
  from 3(4) tcp_finish_ok [OF _ w S(1-5), of True host port s'] S(6) 3(1) show ?thesis
    by (simp add: keeps_def)
qed

lemma rc_server_deploy_up:
  assumes "rc_server_deploy E s = Some (RC_OK, s')" and "idle (client s)" and "waits_ok E"
  shows "session_up (audio (cfg (client s))) (control (cfg (client s))) (client s')"
proof -
  have o: "owns (set (open_fds s)) (set (children s)) (threads (client s)) s"
    using owns_idle [OF assms(2)] by simp
  have i: "video_fd (client s) < 0" "audio_fd (client s) < 0" "control_fd (client s) < 0"
    "listen_fd (client s) < 0"
    using assms(2) by (simp_all add: idle_def)
  show ?thesis
    using assms(1) deploy_usb_ok [OF _ assms(3,2)] tcp_deploy_server_ok [OF _ assms(3) o assms(2)]
      tcp_finish_ok [OF _ assms(3) o i]
    by (auto simp: rc_server_deploy_def deploy_tcp_def parse_addr_def Let_def
        split: if_splits sum.splits prod.splits option.splits list.splits)
qed

text \<open>
  C12: a successful deploy delivers the session that was asked for.  On \<^verbatim>\<open>RC_OK\<close> the video stream is
  open, the audio and control streams are open exactly when the configuration asks for them, all
  descriptors of the client are distinct and open, the listening socket is closed, the
  \<^verbatim>\<open>device_meta\<close> that was read has the right magic and the transport description is set: whichever of
  the paths (tunnel, direct TCP, TCP that fell back) was taken.
\<close>

theorem deploy_ok_session:
  assumes "rc_server_deploy E s = Some (RC_OK, s')" and "idle (client s)" and "waits_ok E"
  shows "session_up (audio (cfg (client s))) (control (cfg (client s))) (client s') \<and>
     distinct (client_fd_list (client s')) \<and> set (client_fd_list (client s')) \<subseteq> set (open_fds s')"
proof -
  have o: "owns (set (open_fds s)) (set (children s)) (threads (client s)) s"
    using owns_idle [OF assms(2)] by simp
  from rc_server_deploy_up [OF assms] rc_server_deploy_owns [OF assms(1,3) o assms(2)] show ?thesis
    by (auto simp: owns_def client_fds_def client_fd_list_def split: if_splits)
qed

theorem deploy_ok_session_witness:
  "\<exists>s'. rc_server_deploy demo_usb_env demo_idle_sys = Some (RC_OK, s') \<and>
     session_up False True (client s')"
proof -
  obtain s1 where d: "rc_server_deploy demo_usb_env demo_idle_sys = Some (RC_OK, s1)"
    using demo_deploy by blast
  have c: "audio (cfg (client demo_idle_sys)) = False" "control (cfg (client demo_idle_sys)) = True"
    by (simp_all add: demo_idle_sys_def demo_client_eq demo_config_def)
  from d deploy_ok_session [OF d demo_deploy_env(2,1)] c show ?thesis by simp
qed

section \<open>Addresses and tokens\<close>

lemma parse_addr_host_port:
  assumes "host \<noteq> []" and "length host < sz" and "0 < port"
  shows "parse_addr (Some (host @ CHR '':'' # show_int port)) sz = Inr (host, port)"
proof -
  have "strrchr (host @ CHR '':'' # show_int port) (CHR '':'') = Some (length host)"
    by (rule strrchr_append) (rule show_int_no_special)
  with assms show ?thesis by (simp add: parse_addr_def)
qed

text \<open>
  Address parsing.  \<^verbatim>\<open>host:port\<close> is split at the last colon into exactly that host and port; and
  every accepted address gives a host that is not empty and, with its terminating NUL, fits the
  buffer, and a positive port.
\<close>

theorem parse_addr_correct:
  "(host \<noteq> [] \<and> length host < sz \<and> 0 < port \<longrightarrow>
      parse_addr (Some (host @ '':'' @ show_int port)) sz = Inr (host, port)) \<and>
   (parse_addr addr sz = Inr (h, p) \<longrightarrow> h \<noteq> [] \<and> length h < sz \<and> 0 < p)"
proof (intro conjI impI)
  assume "host \<noteq> [] \<and> length host < sz \<and> 0 < port"
  then show "parse_addr (Some (host @ '':'' @ show_int port)) sz = Inr (host, port)"
    by (simp add: parse_addr_host_port)
next
  assume "parse_addr addr sz = Inr (h, p)"
  then show "h \<noteq> []" "length h < sz" "0 < p"
    using strrchr_Some(1)
    by (fastforce simp: parse_addr_def Let_def RC_DEFAULT_TCP_PORT_def
        split: option.splits if_splits)+
qed

theorem parse_addr_correct_example:
  "parse_addr (Some (''10.0.0.9'' @ '':'' @ show_int 27200)) 128 = Inr (''10.0.0.9'', 27200) \<and>
   parse_addr (Some ''10.0.0.9'') 128 = Inr (''10.0.0.9'', 27183) \<and> (0 :: int) < 27183"
  using parse_addr_correct [of "''10.0.0.9''" 128 27200 "Some ''10.0.0.9''" "''10.0.0.9''" 27183]
  by (simp add: parse_addr_def strrchr_def RC_DEFAULT_TCP_PORT_def)

definition lower_hex :: "char \<Rightarrow> bool" where
  "lower_hex c \<longleftrightarrow> is_digit c \<or> (97 \<le> (of_char c :: nat) \<and> (of_char c :: nat) \<le> 102)"

lemma hex_digit_ok: "d < 16 \<Longrightarrow> lower_hex (hex_digit d)"
  by (auto simp: lower_hex_def hex_digit_def is_digit_def of_char_of)

lemma hex_digit_inj: "d < 16 \<Longrightarrow> e < 16 \<Longrightarrow> hex_digit d = hex_digit e \<Longrightarrow> d = e"
proof -
  assume de: "d < 16" "e < 16" "hex_digit d = hex_digit e"
  have v: "(of_char (hex_digit n) :: nat) = (if n < 10 then 48 + n else 87 + n)" if "n < 16" for n
    using that by (auto simp: hex_digit_def of_char_of)
  from de(3) have "(of_char (hex_digit d) :: nat) = of_char (hex_digit e)" by simp
  with v [OF de(1)] v [OF de(2)] have "(if d < 10 then 48 + d else 87 + d) = (if e < 10 then 48 + e else 87 + e)"
    by simp
  then show ?thesis by (simp split: if_splits)
qed

lemma unat_byte_less: "unat (b :: byte) < 256"
proof -
  have "unat b < 2 ^ LENGTH(8)" by (rule unsigned_less)
  then show ?thesis by simp
qed

lemma hex2_ok: "list_all lower_hex (hex2 b)"
proof -
  have "unat b div 16 < 16" using unat_byte_less [of b] by (intro less_mult_imp_div_less) simp
  then show ?thesis by (simp add: hex2_def hex_digit_ok)
qed

lemma hex2_inj: "hex2 a = hex2 b \<Longrightarrow> a = b"
proof -
  assume "hex2 a = hex2 b"
  then have "unat a div 16 = unat b div 16" "unat a mod 16 = unat b mod 16"
    using hex_digit_inj unat_byte_less [of a] unat_byte_less [of b]
    by (auto simp: hex2_def less_mult_imp_div_less)
  then have "unat a = unat b" by (metis div_mult_mod_eq)
  then show ?thesis by (simp only: word_unat_eq_iff)
qed

lemma hex2_concat_Cons:
  "concat (map hex2 (x # xs)) = concat (map hex2 (y # ys)) \<longleftrightarrow>
     hex2 x = hex2 y \<and> concat (map hex2 xs) = concat (map hex2 ys)"
  by (simp add: append_eq_append_conv hex2_def)

lemma hex2_concat_inj: "concat (map hex2 xs) = concat (map hex2 ys) \<Longrightarrow> xs = ys"
proof (induction xs arbitrary: ys)
  case Nil
  then show ?case by (cases ys) (auto simp: hex2_def)
next
  case (Cons x xs)
  then obtain y ys' where ys: "ys = y # ys'" by (cases ys) (auto simp: hex2_def)
  with Cons.prems have "hex2 x = hex2 y" "concat (map hex2 xs) = concat (map hex2 ys')"
    by (simp_all only: hex2_concat_Cons ys)
  with Cons.IH hex2_inj ys show ?case by blast
qed

text \<open>
  The session token.  Whatever \<^verbatim>\<open>/dev/urandom\<close> delivers, the token has exactly 32 lowercase hex
  digits, as the server expects before it serves a connection; and when 16 random bytes could be
  read it encodes all of them: different random bytes give different tokens.
\<close>

theorem lan_token_correct:
  "length (fst (gen_lan_token E s)) = RC_LAN_TOKEN_LEN \<and>
   list_all lower_hex (fst (gen_lan_token E s)) \<and>
   (0 \<le> fst (sys_open_fd E s) \<and> 0 \<le> fst (sys_open_fd E' s') \<and>
    e_urandom E = Some raw \<and> e_urandom E' = Some raw' \<and> length raw = 16 \<and> length raw' = 16 \<and>
    fst (gen_lan_token E s) = fst (gen_lan_token E' s') \<longrightarrow> raw = raw')"
proof -
  have tok: "fst (gen_lan_token F t) = concat (map hex2 (lan_raw F (fst (sys_open_fd F t))))" for F t
    by (simp add: gen_lan_token_def Let_def split: prod.splits)
  have raw: "length (lan_raw F fd) = 16" for F fd
    by (auto simp: lan_raw_def Let_def RC_LAN_TOKEN_LEN_def split: option.splits)
  have given: "lan_raw F fd = bs" if "0 \<le> fd" "e_urandom F = Some bs" "length bs = 16" for F fd bs
    using that by (simp add: lan_raw_def RC_LAN_TOKEN_LEN_def)
  have len: "length (concat (map hex2 xs)) = 2 * length xs" for xs
    by (induction xs) (auto simp: hex2_def)
  have hex: "list_all lower_hex (concat (map hex2 xs))" for xs
    by (induction xs) (auto simp: hex2_ok)
  show ?thesis
    unfolding tok using len [of "lan_raw E (fst (sys_open_fd E s))"] hex given hex2_concat_inj
    by (auto simp: raw RC_LAN_TOKEN_LEN_def)
qed

definition demo_token_env :: env where
  "demo_token_env = demo_env\<lparr>e_urandom := Some (replicate 16 171)\<rparr>"

theorem lan_token_correct_example:
  "0 \<le> fst (sys_open_fd demo_token_env demo_os) \<and> e_urandom demo_token_env = Some (replicate 16 171) \<and>
   length (fst (gen_lan_token demo_token_env demo_os)) = 32 \<and>
   list_all lower_hex (fst (gen_lan_token demo_token_env demo_os)) \<and>
   fst (gen_lan_token demo_token_env demo_os) = concat (replicate 16 ''ab'')"
proof -
  have "0 \<le> fst (sys_open_fd demo_token_env demo_os)"
    "e_urandom demo_token_env = Some (replicate 16 171)"
    by (simp_all add: demo_token_env_def demo_os_def os_eval)
  moreover have "fst (gen_lan_token demo_token_env demo_os) = concat (replicate 16 ''ab'')"
    by code_simp
  ultimately show ?thesis
    using lan_token_correct [of demo_token_env demo_os demo_token_env demo_os
        "replicate 16 171" "replicate 16 171"]
    by (simp add: RC_LAN_TOKEN_LEN_def)
qed

end
