(* ===== verification/RC_Video.thy ===== *)
theory RC_Video
  imports RC_Deploy
begin

text \<open>
  The video and audio threads of \<^verbatim>\<open>core/src/client.c\<close>.  The video loop caches CONFIG packets and
  prepends the latest one to the next packet, and replaces a failing hardware decoder by a software
  one.  Another thread clears \<^verbatim>\<open>running\<close> at any time: the loop is given the number of iterations that
  still see the flag set, and every theorem quantifies over it.
\<close>

section \<open>Texts\<close>

fun rc_status_str :: "rc_status \<Rightarrow> string" where
  "rc_status_str RC_OK =
     ''OK''"
| "rc_status_str RC_ERR_GENERIC =
     ''l'' @ [CHR 0xE1, CHR 0xBB, CHR 0x97] @ ''i chung''"
| "rc_status_str RC_ERR_INVALID_ARG =
     ''tham s'' @ [CHR 0xE1, CHR 0xBB, CHR 0x91] @ '' kh'' @ [CHR 0xC3, CHR 0xB4] @ ''ng h'' @ [CHR 0xE1, CHR 0xBB, CHR 0xA3] @ ''p l'' @ [CHR 0xE1, CHR 0xBB, CHR 0x87]"
| "rc_status_str RC_ERR_NO_DEVICE =
     ''kh'' @ [CHR 0xC3, CHR 0xB4] @ ''ng t'' @ [CHR 0xC3, CHR 0xAC] @ ''m th'' @ [CHR 0xE1, CHR 0xBA, CHR 0xA5] @ ''y thi'' @ [CHR 0xE1, CHR 0xBA, CHR 0xBF] @ ''t b'' @ [CHR 0xE1, CHR 0xBB, CHR 0x8B]"
| "rc_status_str RC_ERR_ADB =
     ''l'' @ [CHR 0xE1, CHR 0xBB, CHR 0x97] @ ''i adb''"
| "rc_status_str RC_ERR_CONNECT =
     ''l'' @ [CHR 0xE1, CHR 0xBB, CHR 0x97] @ ''i k'' @ [CHR 0xE1, CHR 0xBA, CHR 0xBF] @ ''t n'' @ [CHR 0xE1, CHR 0xBB, CHR 0x91] @ ''i''"
| "rc_status_str RC_ERR_PROTOCOL =
     ''l'' @ [CHR 0xE1, CHR 0xBB, CHR 0x97] @ ''i giao th'' @ [CHR 0xE1, CHR 0xBB, CHR 0xA9] @ ''c''"
| "rc_status_str RC_ERR_DECODE =
     ''l'' @ [CHR 0xE1, CHR 0xBB, CHR 0x97] @ ''i gi'' @ [CHR 0xE1, CHR 0xBA, CHR 0xA3] @ ''i m'' @ [CHR 0xC3, CHR 0xA3]"
| "rc_status_str RC_ERR_NOMEM =
     ''h'' @ [CHR 0xE1, CHR 0xBA, CHR 0xBF] @ ''t b'' @ [CHR 0xE1, CHR 0xBB, CHR 0x99] @ '' nh'' @ [CHR 0xE1, CHR 0xBB, CHR 0x9B]"

definition decoder_desc_of :: "rc_decoder option \<Rightarrow> string" where
  "decoder_desc_of d =
     (case rc_decoder_hw_name d of
        None \<Rightarrow> ''CPU (software)''
      | Some hw \<Rightarrow>
          if hw = ''cuda'' then ''GPU NVIDIA (NVDEC)''
          else if hw = ''vaapi'' then ''GPU Intel/AMD (VAAPI)''
          else if hw = ''videotoolbox'' then ''GPU Apple (VideoToolbox)''
          else ''GPU (hw)'')"

section \<open>The video loop\<close>

definition ensure_cap :: "reallocator \<Rightarrow> pktbuf \<Rightarrow> nat \<Rightarrow> bool \<times> pktbuf" where
  "ensure_cap ra pb need =
     (if need \<le> pb_cap pb then (True, pb)
      else (case ra (pb_data pb) need of
              None \<Rightarrow> (False, pb)
            | Some nb \<Rightarrow> (True, \<lparr>pb_data = nb, pb_cap = need\<rparr>)))"

text \<open>\<^verbatim>\<open>memcpy(buf, bs, len)\<close> into the start of a buffer.\<close>

definition copy_in :: "pktbuf \<Rightarrow> byte list \<Rightarrow> pktbuf" where
  "copy_in pb bs = pb\<lparr>pb_data := bs @ drop (length bs) (pb_data pb)\<rparr>"

record video =
  v_sock :: sock
  v_buf :: pktbuf
  v_cfg :: pktbuf
  v_cfg_len :: nat
  v_merged :: pktbuf
  v_need_cfg :: bool
  v_err_emitted :: bool
  v_decoder :: "rc_decoder option"
  v_desc :: "string option"
  v_statuses :: "(rc_status \<times> message) list"
  v_frames :: "rc_frame list"

text \<open>What the thread takes from the client and its surroundings.\<close>

record video_env =
  ve_env :: env
  ve_ff :: ffmpeg
  ve_apple :: bool
  ve_realloc :: reallocator
  ve_codec :: rc_codec
  ve_frame_cb :: bool
  ve_status_cb :: bool
  ve_now :: "nat \<Rightarrow> int"   \<comment> \<open>\<^verbatim>\<open>CLOCK_MONOTONIC\<close> when the packet with this number is fed\<close>

definition v_emit :: "video_env \<Rightarrow> rc_status \<Rightarrow> message \<Rightarrow> video \<Rightarrow> video" where
  "v_emit V r m v = (if ve_status_cb V then v\<lparr>v_statuses := v_statuses v @ [(r, m)]\<rparr> else v)"

definition v_feed :: "video_env \<Rightarrow> byte list \<Rightarrow> int \<Rightarrow> video \<Rightarrow> rc_status \<times> video" where
  "v_feed V data pts v =
     (let n = (case v_decoder v of None \<Rightarrow> 0 | Some d \<Rightarrow> length (d_history d));
          (r, dd, fs) = rc_decoder_feed (ve_ff V) (v_decoder v) data pts (ve_frame_cb V) (ve_now V n)
      in (r, v\<lparr>v_decoder := dd, v_frames := v_frames v @ fs\<rparr>))"

text \<open>A CONFIG packet is cached.\<close>

definition v_config :: "video_env \<Rightarrow> byte list \<Rightarrow> video \<Rightarrow> video" where
  "v_config V bs v =
     (let (ok, pb) = ensure_cap (ve_realloc V) (v_cfg v) (length bs) in
      if ok then v\<lparr>v_cfg := copy_in pb bs, v_cfg_len := length bs, v_need_cfg := True\<rparr>
      else v\<lparr>v_cfg := pb\<rparr>)"

text \<open>The cached configuration followed by the packet, if there is one and memory allows.\<close>

definition v_merge :: "video_env \<Rightarrow> byte list \<Rightarrow> video \<Rightarrow> byte list option \<times> video" where
  "v_merge V bs v =
     (if v_cfg_len v = 0 then (None, v)
      else
        let (ok, pb) = ensure_cap (ve_realloc V) (v_merged v) (v_cfg_len v + length bs) in
        if ok then
          (let pb = copy_in pb (take (v_cfg_len v) (pb_data (v_cfg v)) @ bs)
           in (Some (take (v_cfg_len v + length bs) (pb_data pb)), v\<lparr>v_merged := pb\<rparr>))
        else (None, v\<lparr>v_merged := pb\<rparr>))"

text \<open>The data for the decoder: the packet, after the configuration if that is due.\<close>

definition v_prepare :: "video_env \<Rightarrow> byte list \<Rightarrow> video \<Rightarrow> byte list \<times> video" where
  "v_prepare V bs v =
     (let (m, v) = (if v_need_cfg v then v_merge V bs v else (None, v))
      in (case m of Some mm \<Rightarrow> mm | None \<Rightarrow> bs, v\<lparr>v_need_cfg := False\<rparr>))"

text \<open>After an error: replace a failing hardware decoder and feed it the packet again, or report the
  error once.  The boolean says whether the loop goes on.\<close>

definition v_failed :: "video_env \<Rightarrow> byte list \<Rightarrow> int \<Rightarrow> rc_status \<Rightarrow> video \<Rightarrow> bool \<times> video" where
  "v_failed V bs pts r v =
     (if rc_decoder_is_hw (v_decoder v) then
        (let v = v_emit V r MsgHwFallback v;
             dd = rc_decoder_create (ve_env V) (ve_ff V) (ve_apple V) (ve_codec V) False;
             v = v\<lparr>v_decoder := dd\<rparr> in
         case dd of
           None \<Rightarrow> (False, v_emit V RC_ERR_DECODE MsgDecoderRebuildFailed (v\<lparr>v_desc := None\<rparr>))
         | Some d \<Rightarrow>
             (let v = v\<lparr>v_desc := Some (decoder_desc_of dd)\<rparr>;
                  (m, v) = v_merge V bs v in
              case m of
                None \<Rightarrow> (True, v)
              | Some mm \<Rightarrow> (True, snd (v_feed V mm pts v))))
      else if \<not> v_err_emitted v then
        (True, v_emit V r MsgDecodeError (v\<lparr>v_err_emitted := True\<rparr>))
      else (True, v))"

definition v_media :: "video_env \<Rightarrow> byte list \<Rightarrow> int \<Rightarrow> video \<Rightarrow> bool \<times> video" where
  "v_media V bs pts v =
     (let (fdata, v) = v_prepare V bs v;
          (r, v) = v_feed V fdata pts v in
      if r = RC_OK then (True, v\<lparr>v_err_emitted := False\<rparr>) else v_failed V bs pts r v)"

definition pkt0 :: pkt_out where
  "pkt0 = \<lparr>out_len = 0, is_config = False, is_key = False, pts_us = 0\<rparr>"

text \<open>One iteration; \<open>still\<close> is the flag as it is read after a failed read.\<close>

definition v_step :: "video_env \<Rightarrow> bool \<Rightarrow> video \<Rightarrow> (bool \<times> video) option" where
  "v_step V still v = do {
     (r, pb, out, s) \<leftarrow> rc_demux_read_packet (ve_realloc V) (v_sock v) (v_buf v) pkt0;
     let v = v\<lparr>v_sock := s, v_buf := pb\<rparr>;
     let bs = payload pb out;
     if r \<noteq> RC_OK then Some (False, if still then v_emit V r MsgVideoEnded v else v)
     else if is_config out then Some (True, v_config V bs v)
     else Some (v_media V bs (pts_us out) v)
   }"

fun net_loop :: "video_env \<Rightarrow> nat \<Rightarrow> bool \<Rightarrow> video \<Rightarrow> video option" where
  "net_loop V 0 still v = Some v"
| "net_loop V (Suc n) still v = do {
     (go, v) \<leftarrow> v_step V still v;
     if go then net_loop V n still v else Some v
   }"

definition empty_buf :: pktbuf where
  "empty_buf = \<lparr>pb_data = [], pb_cap = 0\<rparr>"

definition net_thread_fn ::
    "video_env \<Rightarrow> nat \<Rightarrow> bool \<Rightarrow> sock \<Rightarrow> rc_decoder option \<Rightarrow> string option \<Rightarrow> video option" where
  "net_thread_fn V n still s dd desc =
     net_loop V n still
       \<lparr>v_sock = s, v_buf = empty_buf, v_cfg = empty_buf, v_cfg_len = 0, v_merged = empty_buf,
        v_need_cfg = True, v_err_emitted = False, v_decoder = dd, v_desc = desc,
        v_statuses = [], v_frames = []\<rparr>"

section \<open>What the decoder is given\<close>

text \<open>Specification: the latest CONFIG payload is put in front of the first media packet after it.\<close>

fun fed :: "byte list \<Rightarrow> bool \<Rightarrow> packet list \<Rightarrow> (byte list \<times> int) list" where
  "fed cf need [] = []"
| "fed cf need (p # ps) =
     (if pk_config p then fed (pk_data p) True ps
      else ((if need then cf else []) @ pk_data p, uint (pk_pts p AND RC_PKT_PTS_MASK)) # fed cf False ps)"

definition inputs :: "rc_decoder \<Rightarrow> (byte list \<times> int) list" where
  "inputs d = map (\<lambda>(b, t, n). (b, t)) (d_history d)"

definition cached :: "video \<Rightarrow> byte list" where
  "cached v = take (v_cfg_len v) (pb_data (v_cfg v))"

definition memory_ok :: "reallocator \<Rightarrow> bool" where
  "memory_ok ra \<longleftrightarrow> realloc_laws ra \<and> (\<forall>old n. ra old n \<noteq> None)"

definition video_ok :: "video \<Rightarrow> bool" where
  "video_ok v \<longleftrightarrow> pktbuf_ok (v_buf v) \<and> pktbuf_ok (v_cfg v) \<and> pktbuf_ok (v_merged v) \<and>
     v_cfg_len v \<le> pb_cap (v_cfg v)"

lemma ensure_cap_ok:
  assumes "memory_ok ra" and "pktbuf_ok pb"
  shows "\<exists>pb'. ensure_cap ra pb n = (True, pb') \<and> pktbuf_ok pb' \<and> n \<le> pb_cap pb'"
proof -
  obtain nb where "ra (pb_data pb) n = Some nb" using assms(1) by (auto simp: memory_ok_def)
  moreover from this have "length nb = n" using assms(1) by (simp add: memory_ok_def realloc_laws_def)
  ultimately show ?thesis using assms(2) by (auto simp: ensure_cap_def pktbuf_ok_def)
qed

lemma copy_in_ok:
  assumes "pktbuf_ok pb" and "length bs \<le> pb_cap pb"
  shows "pktbuf_ok (copy_in pb bs)" and "take (length bs) (pb_data (copy_in pb bs)) = bs"
    and "pb_cap (copy_in pb bs) = pb_cap pb"
  using assms by (auto simp: copy_in_def pktbuf_ok_def)

lemma v_config_spec:
  assumes "memory_ok (ve_realloc V)" and "video_ok v"
  shows "video_ok (v_config V bs v)" "cached (v_config V bs v) = bs" "v_need_cfg (v_config V bs v)"
    "v_decoder (v_config V bs v) = v_decoder v" "v_sock (v_config V bs v) = v_sock v"
    "v_statuses (v_config V bs v) = v_statuses v"
proof -
  obtain pb where e: "ensure_cap (ve_realloc V) (v_cfg v) (length bs) = (True, pb)" "pktbuf_ok pb"
    "length bs \<le> pb_cap pb"
    using ensure_cap_ok [OF assms(1)] assms(2) by (auto simp: video_ok_def)
  have v: "v_config V bs v = v\<lparr>v_cfg := copy_in pb bs, v_cfg_len := length bs, v_need_cfg := True\<rparr>"
    by (simp add: v_config_def e(1))
  show "video_ok (v_config V bs v)" "cached (v_config V bs v) = bs" "v_need_cfg (v_config V bs v)"
    "v_decoder (v_config V bs v) = v_decoder v" "v_sock (v_config V bs v) = v_sock v"
    "v_statuses (v_config V bs v) = v_statuses v"
    using copy_in_ok [OF e(2,3)] assms(2) e(3) by (simp_all add: v video_ok_def cached_def)
qed

lemma v_merge_spec:
  assumes "memory_ok (ve_realloc V)" and "video_ok v" and "v_merge V bs v = (m, v')"
  shows "m = (if v_cfg_len v = 0 then None else Some (cached v @ bs))"
    and "\<exists>pb. v' = v\<lparr>v_merged := pb\<rparr> \<and> pktbuf_ok pb"
proof -
  obtain pb where e: "ensure_cap (ve_realloc V) (v_merged v) (v_cfg_len v + length bs) = (True, pb)"
    "pktbuf_ok pb" "v_cfg_len v + length bs \<le> pb_cap pb"
    using ensure_cap_ok [OF assms(1)] assms(2) by (auto simp: video_ok_def)
  have len: "length (cached v @ bs) = v_cfg_len v + length bs"
    using assms(2) by (simp add: cached_def video_ok_def pktbuf_ok_def)
  note c = copy_in_ok [OF e(2), of "cached v @ bs", unfolded len, OF e(3)]
  show "m = (if v_cfg_len v = 0 then None else Some (cached v @ bs))"
    using assms(3) e(1) c(2) by (auto simp: v_merge_def Let_def cached_def [symmetric])
  show "\<exists>pb. v' = v\<lparr>v_merged := pb\<rparr> \<and> pktbuf_ok pb"
  proof (cases "v_cfg_len v = 0")
    case True
    then have "v' = v" using assms(3) by (simp add: v_merge_def)
    then show ?thesis using assms(2) by (intro exI [of _ "v_merged v"]) (simp add: video_ok_def)
  next
    case False
    then show ?thesis
      using assms(3) e(1) c(1) by (auto simp: v_merge_def Let_def cached_def [symmetric])
  qed
qed

text \<open>What goes to the decoder for a media packet.\<close>

lemma v_prepare_spec:
  assumes "memory_ok (ve_realloc V)" and "video_ok v" and "v_prepare V bs v = (fdata, v')"
  shows "fdata = (if v_need_cfg v then cached v else []) @ bs"
    and "\<exists>pb. v' = v\<lparr>v_merged := pb, v_need_cfg := False\<rparr> \<and> pktbuf_ok pb"
proof -
  have "fdata = (if v_need_cfg v then cached v else []) @ bs \<and>
      (\<exists>pb. v' = v\<lparr>v_merged := pb, v_need_cfg := False\<rparr> \<and> pktbuf_ok pb)"
  proof (cases "v_need_cfg v")
    case True
    obtain m v1 where m: "v_merge V bs v = (m, v1)" by fastforce
    with v_merge_spec [OF assms(1,2) m] True assms(3) show ?thesis
      by (auto simp: v_prepare_def cached_def split: if_splits)
  next
    case False
    then show ?thesis using assms(2,3)
      by (auto simp: v_prepare_def video_ok_def intro!: exI [of _ "v_merged v"])
  qed
  then show "fdata = (if v_need_cfg v then cached v else []) @ bs"
    "\<exists>pb. v' = v\<lparr>v_merged := pb, v_need_cfg := False\<rparr> \<and> pktbuf_ok pb" by auto
qed

lemma v_feed_frame:
  assumes "v_feed V data pts v = (r, v')"
  shows "\<exists>dd fs. v' = v\<lparr>v_decoder := dd, v_frames := fs\<rparr> \<and> (dd = None \<longleftrightarrow> v_decoder v = None) \<and>
     (\<not> rc_decoder_is_hw (v_decoder v) \<longrightarrow> \<not> rc_decoder_is_hw dd) \<and>
     (\<forall>d d'. v_decoder v = Some d \<longrightarrow> dd = Some d' \<longrightarrow> data \<noteq> [] \<longrightarrow> inputs d' = inputs d @ [(data, pts)])"
proof -
  define n where "n = (case v_decoder v of None \<Rightarrow> 0 | Some d \<Rightarrow> length (d_history d))"
  obtain r' dd fs where f: "rc_decoder_feed (ve_ff V) (v_decoder v) data pts (ve_frame_cb V) (ve_now V n)
      = (r', dd, fs)" by (metis prod_cases3)
  have v': "v' = v\<lparr>v_decoder := dd, v_frames := v_frames v @ fs\<rparr>"
    using assms f by (simp add: v_feed_def n_def)
  have "inputs d' = inputs d @ [(data, pts)]"
    if "v_decoder v = Some d" "dd = Some d'" "data \<noteq> []" for d d'
    using feed_history [OF f [unfolded that(1,2)] that(3)] by (simp add: inputs_def)
  with v' feed_None_iff [OF f] feed_software_stays [OF f] show ?thesis
    by (intro exI [of _ dd] exI [of _ "v_frames v @ fs"]) simp
qed

lemma v_media_software:
  assumes "memory_ok (ve_realloc V)" and "video_ok v" and "bs \<noteq> []"
    and d: "v_decoder v = Some d" and sw: "\<not> rc_decoder_is_hw (Some d)"
  shows "\<exists>v' d'. v_media V bs pts v = (True, v') \<and> v_decoder v' = Some d' \<and>
     \<not> rc_decoder_is_hw (Some d') \<and>
     inputs d' = inputs d @ [((if v_need_cfg v then cached v else []) @ bs, pts)] \<and>
     video_ok v' \<and> cached v' = cached v \<and> \<not> v_need_cfg v' \<and> v_sock v' = v_sock v"
proof -
  obtain fdata v1 where p: "v_prepare V bs v = (fdata, v1)" by fastforce
  obtain r v2 where f: "v_feed V fdata pts v1 = (r, v2)" by fastforce
  note P = v_prepare_spec [OF assms(1,2) p]
  from P(2) obtain pb where v1: "v1 = v\<lparr>v_merged := pb, v_need_cfg := False\<rparr>" "pktbuf_ok pb" by blast
  from v_feed_frame [OF f] d v1(1) obtain d' fs where
    v2: "v2 = v1\<lparr>v_decoder := Some d', v_frames := fs\<rparr>" "\<not> rc_decoder_is_hw (Some d')"
    "inputs d' = inputs d @ [(fdata, pts)]"
    using sw P(1) assms(3) by fastforce
  have "\<exists>v'. v_media V bs pts v = (True, v') \<and> v_decoder v' = Some d' \<and> video_ok v' \<and>
      cached v' = cached v \<and> \<not> v_need_cfg v' \<and> v_sock v' = v_sock v"
    using p f v1 v2 assms(2)
    by (auto simp: v_media_def v_failed_def v_emit_def video_ok_def cached_def)
  with v2 P(1) show ?thesis by auto
qed

lemma v_step_packet:
  assumes "memory_ok (ve_realloc V)" and "video_ok v" and "packet_ok p"
    and "sock_bytes (v_sock v) = writePacket p @ rest"
  obtains s pb where "sock_bytes s = rest" "pktbuf_ok pb"
    "v_step V still v = Some
       (let v = v\<lparr>v_sock := s, v_buf := pb\<rparr> in
        if pk_config p then (True, v_config V (pk_data p) v)
        else v_media V (pk_data p) (uint (pk_pts p AND RC_PKT_PTS_MASK)) v)"
proof -
  have ra: "realloc_laws (ve_realloc V)" "\<And>old n. ve_realloc V old n \<noteq> None"
    using assms(1) by (auto simp: memory_ok_def)
  have pb: "pktbuf_ok (v_buf v)" using assms(2) by (simp add: video_ok_def)
  obtain pb' out s where r: "rc_demux_read_packet (ve_realloc V) (v_sock v) (v_buf v) pkt0
      = Some (RC_OK, pb', out, s)" "pkt_view pb' out = packet_view p" "sock_bytes s = rest" "pktbuf_ok pb'"
    using read_packet_complete [OF ra assms(3) pb assms(4)] by blast
  then show thesis
    by (intro that [OF r(3,4)]) (simp add: v_step_def Let_def pkt_view_def packet_view_def)
qed

lemma net_loop_software:
  assumes "memory_ok (ve_realloc V)"
  shows "list_all packet_ok ps \<Longrightarrow> sock_bytes (v_sock v) = concat (map writePacket ps) @ rest \<Longrightarrow>
     video_ok v \<Longrightarrow> v_decoder v = Some d \<Longrightarrow> \<not> rc_decoder_is_hw (Some d) \<Longrightarrow>
     \<exists>v' d'. net_loop V (length ps) still v = Some v' \<and> v_decoder v' = Some d' \<and>
       inputs d' = inputs d @ fed (cached v) (v_need_cfg v) ps \<and> sock_bytes (v_sock v') = rest"
proof (induction ps arbitrary: v d)
  case Nil
  then show ?case by simp
next
  case (Cons p ps)
  have ok: "packet_ok p" and pend: "sock_bytes (v_sock v) = writePacket p @ (concat (map writePacket ps) @ rest)"
    using Cons.prems by auto
  obtain s pb where s: "sock_bytes s = concat (map writePacket ps) @ rest" "pktbuf_ok pb"
    and st: "v_step V still v = Some
       (let v = v\<lparr>v_sock := s, v_buf := pb\<rparr> in
        if pk_config p then (True, v_config V (pk_data p) v)
        else v_media V (pk_data p) (uint (pk_pts p AND RC_PKT_PTS_MASK)) v)"
    by (rule v_step_packet [OF assms Cons.prems(3) ok pend])
  let ?v = "v\<lparr>v_sock := s, v_buf := pb\<rparr>"
  have vok: "video_ok ?v" using Cons.prems(3) s(2) by (simp add: video_ok_def)
  have same: "cached ?v = cached v" "v_decoder ?v = Some d"
    using Cons.prems(4) by (simp_all add: cached_def)
  show ?case
  proof (cases "pk_config p")
    case True
    note C = v_config_spec [OF assms vok, of "pk_data p"]
    from Cons.IH [of "v_config V (pk_data p) ?v" d] Cons.prems C s(1) same st True
    show ?thesis by (simp add: Let_def)
  next
    case False
    have ne: "pk_data p \<noteq> []" using ok by (auto simp: packet_ok_def)
    let ?t = "uint (pk_pts p AND RC_PKT_PTS_MASK)"
    obtain v1 d1 where m: "v_media V (pk_data p) ?t ?v = (True, v1)" "v_decoder v1 = Some d1"
      "\<not> rc_decoder_is_hw (Some d1)"
      "inputs d1 = inputs d @ [((if v_need_cfg ?v then cached ?v else []) @ pk_data p, ?t)]"
      "video_ok v1" "cached v1 = cached ?v" "\<not> v_need_cfg v1" "v_sock v1 = v_sock ?v"
      using v_media_software [OF assms vok ne same(2) Cons.prems(5)] by blast
    from Cons.IH [OF _ _ m(5) m(2,3)] Cons.prems(1) s(1) m st False same show ?thesis
      by (auto simp: Let_def)
  qed
qed

text \<open>
  C4: the video loop gives a software decoder exactly the stream it needs.  Whatever the chunking of the
  network and whatever errors the decoder reports on the way, from a stream of packets of the server
  the decoder receives every media packet once, in order and with its time stamp; the latest CONFIG
  payload is prepended to the first media packet after it and to no other; nothing else is sent.
\<close>

theorem net_thread_feeds:
  assumes "memory_ok (ve_realloc V)" and "list_all packet_ok ps"
    and "sock_bytes s = concat (map writePacket ps) @ rest" and "\<not> rc_decoder_is_hw (Some d)"
  shows "\<exists>v' d'. net_thread_fn V (length ps) still s (Some d) desc = Some v' \<and> v_decoder v' = Some d' \<and>
     inputs d' = inputs d @ fed [] True ps \<and> sock_bytes (v_sock v') = rest"
proof -
  let ?v = "\<lparr>v_sock = s, v_buf = empty_buf, v_cfg = empty_buf, v_cfg_len = 0, v_merged = empty_buf,
        v_need_cfg = True, v_err_emitted = False, v_decoder = Some d, v_desc = desc,
        v_statuses = [], v_frames = []\<rparr>"
  have "video_ok ?v" "cached ?v = []" by (simp_all add: video_ok_def pktbuf_ok_def empty_buf_def cached_def)
  with net_loop_software [OF assms(1,2), of ?v rest d still] assms(3,4) show ?thesis
    by (simp add: net_thread_fn_def)
qed

section \<open>Falling back from hardware to software\<close>

definition fallbacks :: "video \<Rightarrow> nat" where
  "fallbacks v = length (filter (\<lambda>(r, m). m = MsgHwFallback) (v_statuses v))"

definition fallback_inv :: "video \<Rightarrow> bool" where
  "fallback_inv v \<longleftrightarrow> fallbacks v = 0 \<or> fallbacks v = 1 \<and> \<not> rc_decoder_is_hw (v_decoder v)"

lemma fallbacks_emit [simp]:
  "fallbacks (v_emit V r m v) = fallbacks v + (if ve_status_cb V \<and> m = MsgHwFallback then 1 else 0)"
  by (simp add: fallbacks_def v_emit_def)

lemma v_emit_fields [simp]:
  "v_decoder (v_emit V r m v) = v_decoder v" "v_desc (v_emit V r m v) = v_desc v"
  "v_cfg (v_emit V r m v) = v_cfg v" "v_cfg_len (v_emit V r m v) = v_cfg_len v"
  "v_merged (v_emit V r m v) = v_merged v" "v_buf (v_emit V r m v) = v_buf v"
  by (simp_all add: v_emit_def)

lemma fallbacks_upd [simp]:
  "fallbacks (v\<lparr>v_decoder := x\<rparr>) = fallbacks v" "fallbacks (v\<lparr>v_desc := y\<rparr>) = fallbacks v"
  "fallbacks (v\<lparr>v_err_emitted := z\<rparr>) = fallbacks v"
  by (simp_all add: fallbacks_def)

lemma v_merge_frame:
  "v_merge V bs v = (m, v') \<Longrightarrow> \<exists>pb. v' = v\<lparr>v_merged := pb\<rparr>"
  by (auto simp: v_merge_def Let_def split: if_splits prod.splits intro: exI [of _ "v_merged v"])

lemma v_merge_fallbacks:
  "v_merge V bs v = (m, v') \<Longrightarrow> fallbacks v' = fallbacks v \<and> v_decoder v' = v_decoder v"
  by (drule v_merge_frame) (auto simp: fallbacks_def)

lemma v_feed_fallbacks:
  "v_feed V data pts v = (r, v') \<Longrightarrow> fallbacks v' = fallbacks v \<and>
     (\<not> rc_decoder_is_hw (v_decoder v) \<longrightarrow> \<not> rc_decoder_is_hw (v_decoder v'))"
  by (drule v_feed_frame) (auto simp: fallbacks_def)

lemma v_failed_inv:
  assumes "v_failed V bs pts r v = (go, v')" and "fallback_inv v"
  shows "fallback_inv v'"
proof (cases "rc_decoder_is_hw (v_decoder v)")
  case True
  then have z: "fallbacks v = 0" using assms(2) by (simp add: fallback_inv_def)
  let ?dd = "rc_decoder_create (ve_env V) (ve_ff V) (ve_apple V) (ve_codec V) False"
  let ?v1 = "(v_emit V r MsgHwFallback v)\<lparr>v_decoder := ?dd\<rparr>"
  show ?thesis
  proof (cases ?dd)
    case None
    with assms(1) True z show ?thesis
      by (auto simp: v_failed_def Let_def fallback_inv_def rc_decoder_is_hw_def split: if_splits)
  next
    case (Some d)
    then have sw: "\<not> rc_decoder_is_hw (Some d)" by (intro create_software [THEN conjunct2]) auto
    let ?v2 = "?v1\<lparr>v_desc := Some (decoder_desc_of ?dd)\<rparr>"
    obtain m v3 where m: "v_merge V bs ?v2 = (m, v3)" by fastforce
    have v3: "fallbacks v3 \<le> 1" "\<not> rc_decoder_is_hw (v_decoder v3)"
      using v_merge_fallbacks [OF m] z sw Some by auto
    show ?thesis
    proof (cases m)
      case None
      with assms(1) True Some m have "v' = v3" by (auto simp: v_failed_def Let_def)
      with v3 show ?thesis by (auto simp: fallback_inv_def)
    next
      case (Some mm)
      obtain r4 v4 where f: "v_feed V mm pts v3 = (r4, v4)" by fastforce
      with assms(1) True \<open>?dd = Some d\<close> m Some have "v' = v4" by (auto simp: v_failed_def Let_def)
      with v_feed_fallbacks [OF f] v3 show ?thesis by (auto simp: fallback_inv_def)
    qed
  qed
next
  case False
  with assms show ?thesis by (auto simp: v_failed_def fallback_inv_def split: if_splits)
qed

lemma v_media_inv:
  assumes "v_media V bs pts v = (go, v')" and "fallback_inv v"
  shows "fallback_inv v'"
proof -
  obtain fdata v1 where p: "v_prepare V bs v = (fdata, v1)" by fastforce
  obtain r v2 where f: "v_feed V fdata pts v1 = (r, v2)" by fastforce
  have "fallbacks v1 = fallbacks v \<and> v_decoder v1 = v_decoder v"
    using p by (auto simp: v_prepare_def Let_def fallbacks_def split: if_splits prod.splits
        dest!: v_merge_frame)
  with v_feed_fallbacks [OF f] assms(2) have i2: "fallback_inv v2" by (auto simp: fallback_inv_def)
  show ?thesis
  proof (cases "r = RC_OK")
    case True
    with assms(1) p f have "v' = v2\<lparr>v_err_emitted := False\<rparr>" by (simp add: v_media_def)
    with i2 show ?thesis by (simp add: fallback_inv_def)
  next
    case False
    with assms(1) p f have "v_failed V bs pts r v2 = (go, v')" by (simp add: v_media_def)
    then show ?thesis using i2 by (rule v_failed_inv)
  qed
qed

lemma v_step_inv:
  assumes "v_step V still v = Some (go, v')" and "fallback_inv v"
  shows "fallback_inv v'"
proof -
  obtain r pb out s where rd: "rc_demux_read_packet (ve_realloc V) (v_sock v) (v_buf v) pkt0 = Some (r, pb, out, s)"
    using assms(1) by (auto simp: v_step_def bind_eq_Some_conv)
  let ?v = "v\<lparr>v_sock := s, v_buf := pb\<rparr>"
  have i: "fallback_inv ?v" using assms(2) by (simp add: fallback_inv_def fallbacks_def)
  have e: "fallback_inv (v_emit V r MsgVideoEnded ?v)"
    using i by (simp add: fallback_inv_def)
  have c: "fallback_inv (v_config V bs ?v)" for bs
    using i by (auto simp: v_config_def fallback_inv_def fallbacks_def split: prod.splits)
  show ?thesis
    using assms(1) rd i e c v_media_inv [OF _ i]
    by (auto simp: v_step_def Let_def split: if_splits)
qed

text \<open>
  Hardware decoding is given up at most once.  However long the session runs and whatever the
  decoder, the network and memory do, the loop reports the switch to software at most once, and from
  then on the decoder is never a hardware one.
\<close>

theorem hw_fallback_once:
  assumes "net_thread_fn V n still s dd desc = Some v'"
  shows "fallbacks v' \<le> 1 \<and> (fallbacks v' = 1 \<longrightarrow> \<not> rc_decoder_is_hw (v_decoder v'))"
proof -
  have loop: "fallback_inv v \<Longrightarrow> net_loop V n still v = Some v' \<Longrightarrow> fallback_inv v'" for v
    by (induction n arbitrary: v) (auto simp: bind_eq_Some_conv split: if_splits dest: v_step_inv)
  have "fallback_inv v'"
    by (rule loop [OF _ assms [unfolded net_thread_fn_def]]) (simp add: fallback_inv_def fallbacks_def)
  then show ?thesis by (auto simp: fallback_inv_def)
qed

text \<open>
  C20: the switch loses no configuration.  When the hardware decoder fails on a packet and a software
  decoder can be built, the loop goes on with that software decoder, which has been given exactly the
  cached configuration followed by the packet, and the description for the user interface says so.
\<close>

theorem hw_fallback_refeeds:
  assumes "memory_ok (ve_realloc V)" and "video_ok v" and "bs \<noteq> []" and "v_cfg_len v \<noteq> 0"
    and "rc_decoder_is_hw (v_decoder v)"
    and "rc_decoder_create (ve_env V) (ve_ff V) (ve_apple V) (ve_codec V) False = Some d"
  shows "\<exists>v' d'. v_failed V bs pts r v = (True, v') \<and> v_decoder v' = Some d' \<and>
     \<not> rc_decoder_is_hw (Some d') \<and> inputs d' = [(cached v @ bs, pts)] \<and>
     v_desc v' = Some ''CPU (software)''"
proof -
  let ?v2 = "(v_emit V r MsgHwFallback v)\<lparr>v_decoder := Some d, v_desc := Some (decoder_desc_of (Some d))\<rparr>"
  have d: "inputs d = []" "\<not> rc_decoder_is_hw (Some d)" "d_hw_ctx d = None"
    using assms(6) create_software [OF _ assms(6)]
    by (auto simp: rc_decoder_create_def Let_def inputs_def split: if_splits)
  have ok: "video_ok ?v2" "cached ?v2 = cached v"
    using assms(2) by (simp_all add: video_ok_def cached_def)
  obtain m v3 where m: "v_merge V bs ?v2 = (m, v3)" by fastforce
  from v_merge_spec [OF assms(1) ok(1) m] assms(4) ok(2) obtain pb where
    m': "m = Some (cached v @ bs)" "v3 = ?v2\<lparr>v_merged := pb\<rparr>" by auto
  obtain r4 v4 where f: "v_feed V (cached v @ bs) pts v3 = (r4, v4)" by fastforce
  have v4: "v_failed V bs pts r v = (True, v4)"
    using assms(5,6) m m' f by (simp add: v_failed_def)
  from v_feed_frame [OF f] m'(2) d assms(3) obtain d' fs where
    "v4 = v3\<lparr>v_decoder := Some d', v_frames := fs\<rparr>" "\<not> rc_decoder_is_hw (Some d')"
    "inputs d' = [(cached v @ bs, pts)]" by fastforce
  with v4 m'(2) d(3) show ?thesis
    by (auto simp: decoder_desc_of_def rc_decoder_hw_name_def)
qed

section \<open>Example sessions\<close>

definition demo_stream_packets :: "packet list" where
  "demo_stream_packets =
     [\<lparr>pk_config = True, pk_key = False, pk_pts = 0, pk_data = [7, 8]\<rparr>,
      \<lparr>pk_config = False, pk_key = True, pk_pts = 10, pk_data = [65]\<rparr>,
      \<lparr>pk_config = False, pk_key = False, pk_pts = 20, pk_data = [66]\<rparr>]"

definition demo_video_env :: "ffmpeg \<Rightarrow> video_env" where
  "demo_video_env FF = \<lparr>ve_env = demo_env, ve_ff = FF, ve_apple = False, ve_realloc = libc_realloc,
     ve_codec = RC_CODEC_H264, ve_frame_cb = True, ve_status_cb = True, ve_now = (\<lambda>n. int n)\<rparr>"

lemma demo_memory: "memory_ok (ve_realloc (demo_video_env FF))"
  using libc_realloc_laws by (auto simp: memory_ok_def demo_video_env_def libc_realloc_def)

theorem net_thread_feeds_witness:
  "\<exists>v' d'. net_thread_fn (demo_video_env demo_ffmpeg) 3 True
       [Chunk (concat (map writePacket demo_stream_packets))] (Some demo_decoder) None = Some v' \<and>
     v_decoder v' = Some d' \<and> inputs d' = [([7, 8, 65], 10), ([66], 20)]"
proof -
  let ?w = "concat (map writePacket demo_stream_packets)"
  have "?w \<noteq> []" by (simp add: demo_stream_packets_def writePacket_def put_u64_def)
  then have b: "sock_bytes [Chunk ?w] = ?w @ []" by simp
  have ok: "list_all packet_ok demo_stream_packets"
    by (simp add: demo_stream_packets_def packet_ok_def)
  have sw: "\<not> rc_decoder_is_hw (Some demo_decoder)"
    by (simp add: rc_decoder_is_hw_def demo_decoder_def)
  have f: "inputs demo_decoder @ fed [] True demo_stream_packets = [([7, 8, 65], 10), ([66], 20)]"
    by code_simp
  have n: "length demo_stream_packets = 3" by (simp add: demo_stream_packets_def)
  from net_thread_feeds [OF demo_memory ok b sw, of demo_ffmpeg True None] show ?thesis
    unfolding n f by blast
qed

text \<open>A GPU that decodes nothing.\<close>

definition demo_gpu :: ffmpeg where
  "demo_gpu = demo_ffmpeg\<lparr>ff_hwdevice := (\<lambda>t _. t = HW_CUDA),
     ff_get_format := (\<lambda>_. Some [PIX_CUDA, PIX_NV12]),
     ff_output := (\<lambda>_ fmt. if fmt = Some PIX_CUDA then [RecvErr] else [Frame demo_frame])\<rparr>"

definition demo_gpu_decoder :: rc_decoder where
  "demo_gpu_decoder = demo_decoder\<lparr>d_hw_ctx := Some HW_CUDA, d_hw_pix_fmt := PIX_CUDA\<rparr>"

theorem hw_fallback_once_example:
  "\<exists>v'. net_thread_fn (demo_video_env demo_gpu) 3 True
       [Chunk (concat (map writePacket demo_stream_packets))] (Some demo_gpu_decoder) None = Some v' \<and>
     fallbacks v' = 1 \<and> \<not> rc_decoder_is_hw (v_decoder v')"
proof -
  let ?run = "net_thread_fn (demo_video_env demo_gpu) 3 True
       [Chunk (concat (map writePacket demo_stream_packets))] (Some demo_gpu_decoder) None"
  have "map_option fallbacks ?run = Some 1" by code_simp
  then obtain v' where v': "?run = Some v'" "fallbacks v' = 1" by auto
  with hw_fallback_once [OF v'(1)] show ?thesis by simp
qed

definition demo_video :: video where
  "demo_video = \<lparr>v_sock = [], v_buf = empty_buf, v_cfg = \<lparr>pb_data = [7, 8], pb_cap = 2\<rparr>, v_cfg_len = 2,
     v_merged = empty_buf, v_need_cfg = False, v_err_emitted = False,
     v_decoder = Some demo_gpu_decoder, v_desc = None, v_statuses = [], v_frames = []\<rparr>"

theorem hw_fallback_refeeds_witness:
  "\<exists>v' d'. v_failed (demo_video_env demo_gpu) [65] 10 RC_ERR_DECODE demo_video = (True, v') \<and>
     v_decoder v' = Some d' \<and> \<not> rc_decoder_is_hw (Some d') \<and> inputs d' = [([7, 8, 65], 10)] \<and>
     v_desc v' = Some ''CPU (software)''"
proof -
  let ?V = "demo_video_env demo_gpu"
  have ok: "video_ok demo_video" "v_cfg_len demo_video \<noteq> 0"
    "rc_decoder_is_hw (v_decoder demo_video)" "cached demo_video = [7, 8]"
    by (simp_all add: demo_video_def video_ok_def pktbuf_ok_def empty_buf_def rc_decoder_is_hw_def
        demo_gpu_decoder_def demo_decoder_def cached_def)
  have "rc_decoder_create (ve_env ?V) (ve_ff ?V) (ve_apple ?V) (ve_codec ?V) False \<noteq> None"
    by code_simp
  then obtain d where d: "rc_decoder_create (ve_env ?V) (ve_ff ?V) (ve_apple ?V) (ve_codec ?V) False = Some d"
    by blast
  from hw_fallback_refeeds [OF demo_memory ok(1) _ ok(2,3) d, of "[65]" 10 RC_ERR_DECODE] ok(4)
  show ?thesis by simp
qed

end
