(* ===== verification/RC_Client.thy ===== *)
theory RC_Client
  imports RC_Video
begin

text \<open>
  The life cycle of a session in \<^verbatim>\<open>core/src/client.c\<close>: start, the two threads as seen from outside,
  abort, stop and destroy.  The life cycle is a transition system whose invariant accounts for every
  descriptor, child process, decoder and player the client holds.
\<close>

section \<open>The audio thread\<close>

fun audio_loop ::
    "reallocator \<Rightarrow> audio_env \<Rightarrow> (nat \<Rightarrow> nat \<Rightarrow> rb_tick list) \<Rightarrow> nat \<Rightarrow> sock \<Rightarrow> pktbuf \<Rightarrow>
     rc_audio option \<Rightarrow> (sock \<times> rc_audio option \<times> pcm list) option" where
  "audio_loop ra AE T 0 s pb player = Some (s, player, [])"
| "audio_loop ra AE T (Suc n) s pb player = do {
     (r, pb, out, s) \<leftarrow> rc_demux_read_packet ra s pb pkt0;
     if r \<noteq> RC_OK then Some (s, player, [])
     else
       (case player of
          None \<Rightarrow> audio_loop ra AE T n s pb None
        | Some a \<Rightarrow> do {
            (r, player, heard) \<leftarrow> rc_audio_feed AE (T n) (Some a) (payload pb out) (is_config out);
            (s, player, more) \<leftarrow> audio_loop ra AE T n s pb player;
            Some (s, player, heard @ more)
          })
   }"

text \<open>The result: what is left of the stream, the player, what was played meanwhile.  \<open>n\<close> iterations
  see \<^verbatim>\<open>running\<close> set.\<close>

definition audio_thread_fn ::
    "reallocator \<Rightarrow> audio_env \<Rightarrow> (nat \<Rightarrow> nat \<Rightarrow> rb_tick list) \<Rightarrow> nat \<Rightarrow> sock \<Rightarrow>
     (sock \<times> rc_audio option \<times> pcm list) option" where
  "audio_thread_fn ra AE T n s = do {
     (r, m, s) \<leftarrow> rc_demux_read_audio_meta s
        (Some \<lparr>am_magic = 0, am_codec_id = 0, am_sample_rate = 0, am_channels = 0\<rparr>);
     if r \<noteq> RC_OK then Some (s, None, [])
     else audio_loop ra AE T n s empty_buf (rc_audio_create AE m)
   }"

section \<open>Start, abort, stop\<close>

definition codec_from_meta :: "u32 \<Rightarrow> rc_codec option" where
  "codec_from_meta codec_id =
     (if codec_id = RC_CODEC_ID_H264 then Some RC_CODEC_H264
      else if codec_id = RC_CODEC_ID_H265 then Some RC_CODEC_H265
      else if codec_id = RC_CODEC_ID_AV1 then Some RC_CODEC_AV1
      else None)"

text \<open>The part of \<^verbatim>\<open>rc_client_start\<close> after the decoder is there: the threads.  Each
  \<^verbatim>\<open>pthread_create\<close> (with the allocation of its handle) succeeds when its call returns 0.\<close>

definition start_threads :: "env \<Rightarrow> sys \<Rightarrow> (rc_status \<times> sys) option" where
  "start_threads E s =
     (let s = upd (\<lambda>c. c\<lparr>running := True\<rparr>) s;
          (rc, s) = sys_ret E s in
      if rc \<noteq> 0 then do {
        s \<leftarrow> rc_server_teardown E (upd (\<lambda>c. c\<lparr>running := False, decoder := None\<rparr>) s);
        Some (RC_ERR_GENERIC, s)
      }
      else
        let s = upd (\<lambda>c. c\<lparr>net_thread := True\<rparr>) s in
        if audio (cfg (client s)) \<and> 0 \<le> audio_fd (client s) then
          (let (rc, s) = sys_ret E s
           in Some (RC_OK, if rc = 0 then upd (\<lambda>c. c\<lparr>audio_thread := True\<rparr>) s else s))
        else Some (RC_OK, s))"

definition fail_teardown :: "env \<Rightarrow> rc_status \<Rightarrow> message \<Rightarrow> sys \<Rightarrow> (rc_status \<times> sys) option" where
  "fail_teardown E r m s = do {
     s \<leftarrow> rc_server_teardown E (rc_emit_status r m s);
     Some (r, s)
   }"

text \<open>Validating \<^verbatim>\<open>device_meta\<close> and building the decoder.\<close>

definition start_decoder :: "env \<Rightarrow> ffmpeg \<Rightarrow> bool \<Rightarrow> sys \<Rightarrow> (rc_status \<times> sys) option" where
  "start_decoder E FF apple s =
     (if dm_version (meta (client s)) \<noteq> RC_PROTO_VERSION
      then fail_teardown E RC_ERR_PROTOCOL MsgVersionMismatch s
      else (case codec_from_meta (dm_codec_id (meta (client s))) of
              None \<Rightarrow> fail_teardown E RC_ERR_PROTOCOL MsgUnknownCodec s
            | Some cd \<Rightarrow>
                let s = upd (\<lambda>c. c\<lparr>cfg := (cfg c)\<lparr>codec := cd\<rparr>, have_meta := True\<rparr>) s;
                    s = rc_emit_status RC_OK (MsgDeviceName (device_name (meta (client s)))) s;
                    dd = rc_decoder_create E FF apple cd True;
                    s = upd (\<lambda>c. c\<lparr>decoder := dd\<rparr>) s in
                case dd of
                  None \<Rightarrow> fail_teardown E RC_ERR_DECODE MsgDecoderInitFailed s
                | Some d \<Rightarrow>
                    let desc = decoder_desc_of dd;
                        s = upd (\<lambda>c. c\<lparr>decoder_desc := Some desc\<rparr>) s in
                    start_threads E (rc_emit_status RC_OK (MsgDecoder desc) s)))"

definition rc_client_start :: "env \<Rightarrow> ffmpeg \<Rightarrow> bool \<Rightarrow> sys \<Rightarrow> (rc_status \<times> sys) option" where
  "rc_client_start E FF apple s =
     (if running (client s) then Some (RC_OK, s)
      else do {
        (r, s) \<leftarrow> rc_server_deploy E s;
        if r \<noteq> RC_OK then do {
          s \<leftarrow> rc_server_teardown E s;
          Some (r, s)
        }
        else start_decoder E FF apple s
      })"

definition rc_client_abort :: "sys \<Rightarrow> sys" where
  "rc_client_abort s = upd (\<lambda>c. c\<lparr>abort_requested := True\<rparr>) s"

text \<open>\<^verbatim>\<open>shutdown\<close> wakes the threads; \<^verbatim>\<open>pthread_join\<close> returns when the thread function has returned, and
  what the threads did to the client before is in the state already.\<close>

definition rc_client_stop :: "env \<Rightarrow> sys \<Rightarrow> sys option" where
  "rc_client_stop E s =
     (let s = upd (\<lambda>c. c\<lparr>abort_requested := True, running := False\<rparr>) s;
          s = (if 0 \<le> video_fd (client s) then sys_shutdown E (video_fd (client s)) s else s);
          s = (if 0 \<le> audio_fd (client s) then sys_shutdown E (audio_fd (client s)) s else s);
          s = (if 0 \<le> control_fd (client s) then sys_shutdown E (control_fd (client s)) s else s);
          s = upd (\<lambda>c. c\<lparr>net_thread := False, audio_thread := False\<rparr>) s;
          s = (if decoder (client s) \<noteq> None
               then upd (\<lambda>c. c\<lparr>decoder := None, decoder_desc := None\<rparr>) s else s);
          s = upd (\<lambda>c. c\<lparr>audio_player := None\<rparr>) s
      in rc_server_teardown E s)"

text \<open>\<^verbatim>\<open>rc_client_destroy\<close>: stop, then the object is gone (\<^term>\<open>None\<close> inside).\<close>

definition rc_client_destroy :: "env \<Rightarrow> sys \<Rightarrow> (rc_client option \<times> sys) option" where
  "rc_client_destroy E s = do { s \<leftarrow> rc_client_stop E s; Some (None, s) }"

section \<open>The life cycle\<close>

text \<open>
  The API calls and what the threads do to the client meanwhile: the video thread replaces the decoder
  or ends and clears \<^verbatim>\<open>running\<close>, the audio thread stores its player.  \<open>start\<close> is called on a client
  that is running (it then does nothing) or has no video thread handle: before the first start, after a
  start that failed, after a stop.  The remaining case, a start on a client whose video thread has ended
  by itself and that was not stopped, is left out of this contract since it breaks it: \<open>restart_leaks\<close>
  below.
\<close>

inductive session_step :: "sys \<Rightarrow> sys \<Rightarrow> bool" where
  step_start: "waits_ok E \<Longrightarrow> running (client s) \<or> \<not> net_thread (client s) \<Longrightarrow>
     rc_client_start E FF apple s = Some (r, s') \<Longrightarrow> session_step s s'"
| step_abort: "session_step s (rc_client_abort s)"
| step_stop: "waits_ok E \<Longrightarrow> rc_client_stop E s = Some s' \<Longrightarrow> session_step s s'"
| step_decoder: "net_thread (client s) \<Longrightarrow> running (client s) \<Longrightarrow>
     session_step s (upd (\<lambda>c. c\<lparr>decoder := dd, decoder_desc := ds\<rparr>) s)"
| step_net_end: "net_thread (client s) \<Longrightarrow> session_step s (upd (\<lambda>c. c\<lparr>running := False\<rparr>) s)"
| step_player: "audio_thread (client s) \<Longrightarrow>
     session_step s (upd (\<lambda>c. c\<lparr>audio_player := pl\<rparr>) s)"
| step_status: "session_step s (rc_emit_status r m s)"

text \<open>Without a thread handle the client holds nothing; it is running only with a thread.\<close>

definition session_inv :: "rc_client \<Rightarrow> bool" where
  "session_inv c \<longleftrightarrow>
     (\<not> net_thread c \<longrightarrow> idle c \<and> \<not> running c \<and> decoder c = None \<and> audio_player c = None \<and>
        \<not> audio_thread c)"

definition session_ok :: "int set \<Rightarrow> int set \<Rightarrow> sys \<Rightarrow> bool" where
  "session_ok B C s \<longleftrightarrow> owns B C (threads (client s)) s \<and> session_inv (client s)"

section \<open>Every step keeps the account\<close>

text \<open>Changes of the thread part only.\<close>

lemma owns_upd:
  assumes "owns B C K s"
    and "video_fd (f (client s)) = video_fd (client s)" "audio_fd (f (client s)) = audio_fd (client s)"
      "control_fd (f (client s)) = control_fd (client s)" "listen_fd (f (client s)) = listen_fd (client s)"
      "server_pid (f (client s)) = server_pid (client s)"
  shows "owns B C (threads (f (client s))) (upd f s)"
  using assms by (simp add: owns_def client_fds_def client_fd_list_def client_pids_def)

lemma owns_threads: "owns B C K s \<Longrightarrow> threads (client s) = K"
  by (simp add: owns_def)

text \<open>Thread fields as they are in a client without threads.\<close>

definition quiet :: "thread_part \<Rightarrow> bool" where
  "quiet K \<longleftrightarrow> (case K of Threads nt at dd pl run ab ds \<Rightarrow>
     \<not> nt \<and> \<not> at \<and> dd = None \<and> pl = None \<and> \<not> run)"

lemma quiet_inv: "quiet (threads (client s)) \<Longrightarrow> idle (client s) \<Longrightarrow> session_inv (client s)"
  by (simp add: quiet_def threads_def session_inv_def)

lemma inv_quiet: "session_inv c \<Longrightarrow> \<not> net_thread c \<Longrightarrow> quiet (threads c) \<and> idle c"
  by (simp add: quiet_def threads_def session_inv_def)

lemma teardown_session:
  assumes "rc_server_teardown E s = Some s'" and "waits_ok E" and "owns B C K s" and "quiet K"
  shows "session_ok B C s'"
proof -
  note T = teardown_owns [OF assms(1-3)]
  have "threads (client s') = K" by (rule owns_threads [OF T(1)])
  with T assms(4) quiet_inv [of s'] show ?thesis by (simp add: session_ok_def)
qed

lemma start_threads_session:
  assumes st: "start_threads E s = Some (r, s')" and w: "waits_ok E" and o: "owns B C K s"
    and nt: "\<not> net_thread (client s)" "\<not> audio_thread (client s)" "audio_player (client s) = None"
  shows "session_ok B C s'"
proof -
  let ?s1 = "upd (\<lambda>c. c\<lparr>running := True\<rparr>) s"
  obtain rc s2 where r: "sys_ret E ?s1 = (rc, s2)" by fastforce
  have o1: "owns B C (threads (client ?s1)) ?s1"
    using owns_upd [OF o, of "\<lambda>c. c\<lparr>running := True\<rparr>"] by simp
  have k2: "keeps ?s1 s2" using r by (intro calm_keeps) simp
  have c2: "client s2 = client ?s1" using r by (auto simp: sys_ret_def)
  have o2: "owns B C (threads (client s2)) s2" using keeps_owns [OF k2 o1] by (simp add: c2)
  show ?thesis
  proof (cases "rc = 0")
    case False
    let ?f = "\<lambda>c. c\<lparr>running := False, decoder := None\<rparr>"
    have td: "rc_server_teardown E (upd ?f s2) = Some s'"
      using st r False by (auto simp: start_threads_def bind_eq_Some_conv)
    show ?thesis
      by (rule teardown_session [OF td w owns_upd [OF o2]]) (use nt in \<open>simp_all add: c2 quiet_def threads_def\<close>)
  next
    case True
    let ?s3 = "upd (\<lambda>c. c\<lparr>net_thread := True\<rparr>) s2"
    have o3: "owns B C (threads (client ?s3)) ?s3"
      using owns_upd [OF o2, of "\<lambda>c. c\<lparr>net_thread := True\<rparr>"] by simp
    obtain rc2 s4 where r4: "sys_ret E ?s3 = (rc2, s4)" by fastforce
    have k4: "keeps ?s3 s4" using r4 by (intro calm_keeps) simp
    have c4: "client s4 = client ?s3" using r4 by (auto simp: sys_ret_def)
    have o4: "owns B C (threads (client s4)) s4" using keeps_owns [OF k4 o3] by (simp add: c4)
    let ?s5 = "upd (\<lambda>c. c\<lparr>audio_thread := True\<rparr>) s4"
    have o5: "owns B C (threads (client ?s5)) ?s5"
      using owns_upd [OF o4, of "\<lambda>c. c\<lparr>audio_thread := True\<rparr>"] by simp
    have "s' = ?s3 \<or> s' = s4 \<or> s' = ?s5"
      using st r True r4 by (auto simp: start_threads_def Let_def split: if_splits)
    then show ?thesis using o3 o4 o5 by (auto simp: session_ok_def session_inv_def c4)
  qed
qed

lemma fail_teardown_session:
  assumes "fail_teardown E r m s = Some (r', s')" and "waits_ok E" and "owns B C K s" and "quiet K"
  shows "session_ok B C s'"
  using assms teardown_session [OF _ assms(2) emit_owns [OF assms(3)] assms(4)]
  by (auto simp: fail_teardown_def bind_eq_Some_conv)

lemma start_decoder_session:
  assumes st: "start_decoder E FF apple s = Some (r, s')" and w: "waits_ok E"
    and o: "owns B C K s" and q: "quiet K"
  shows "session_ok B C s'"
proof (cases "codec_from_meta (dm_codec_id (meta (client s)))")
  case None
  with st fail_teardown_session [OF _ w o q] show ?thesis
    by (auto simp: start_decoder_def split: if_splits)
next
  case (Some cd)
  let ?s1 = "upd (\<lambda>c. c\<lparr>cfg := (cfg c)\<lparr>codec := cd\<rparr>, have_meta := True\<rparr>) s"
  let ?s2 = "rc_emit_status RC_OK (MsgDeviceName (device_name (meta (client ?s1)))) ?s1"
  let ?dd = "rc_decoder_create E FF apple cd True"
  let ?s3 = "upd (\<lambda>c. c\<lparr>decoder := ?dd\<rparr>) ?s2"
  let ?s4 = "upd (\<lambda>c. c\<lparr>decoder_desc := Some (decoder_desc_of ?dd)\<rparr>) ?s3"
  let ?s5 = "rc_emit_status RC_OK (MsgDecoder (decoder_desc_of ?dd)) ?s4"
  have K: "threads (client s) = K" by (rule owns_threads [OF o])
  have o1: "owns B C (threads (client ?s1)) ?s1"
    using owns_upd [OF o, of "\<lambda>c. c\<lparr>cfg := (cfg c)\<lparr>codec := cd\<rparr>, have_meta := True\<rparr>"] by simp
  have o3: "owns B C (threads (client ?s3)) ?s3"
    using owns_upd [OF emit_owns [OF o1], of "\<lambda>c. c\<lparr>decoder := ?dd\<rparr>"] by simp
  have o5: "owns B C (threads (client ?s4)) ?s5"
    using emit_owns [OF owns_upd [OF o3, of "\<lambda>c. c\<lparr>decoder_desc := Some (decoder_desc_of ?dd)\<rparr>"]] by simp
  have nt: "\<not> net_thread (client ?s5)" "\<not> audio_thread (client ?s5)" "audio_player (client ?s5) = None"
    using q K by (auto simp: quiet_def threads_def)
  show ?thesis
  proof (cases "dm_version (meta (client s)) = RC_PROTO_VERSION")
    case False
    with st fail_teardown_session [OF _ w o q] show ?thesis by (auto simp: start_decoder_def)
  next
    case True
    show ?thesis
    proof (cases ?dd)
      case None
      have "quiet (threads (client ?s3))" using q K None by (auto simp: quiet_def threads_def)
      moreover have "fail_teardown E RC_ERR_DECODE MsgDecoderInitFailed ?s3 = Some (r, s')"
        using st True Some None by (simp add: start_decoder_def)
      ultimately show ?thesis using fail_teardown_session [OF _ w o3] by blast
    next
      case d: (Some d)
      have "start_threads E ?s5 = Some (r, s')"
        using st True Some d by (simp add: start_decoder_def Let_def)
      then show ?thesis by (rule start_threads_session [OF _ w o5 nt])
    qed
  qed
qed

lemma start_session:
  assumes st: "rc_client_start E FF apple s = Some (r, s')" and w: "waits_ok E"
    and ok: "session_ok B C s" and nt: "\<not> net_thread (client s)"
  shows "session_ok B C s'"
proof -
  have o: "owns B C (threads (client s)) s" and q: "quiet (threads (client s))" and i: "idle (client s)"
    using ok inv_quiet [OF _ nt] by (auto simp: session_ok_def)
  have nr: "\<not> running (client s)" using q by (simp add: quiet_def threads_def)
  with st obtain r1 s1 where d: "rc_server_deploy E s = Some (r1, s1)"
    by (auto simp: rc_client_start_def bind_eq_Some_conv)
  have o1: "owns B C (threads (client s)) s1" by (rule rc_server_deploy_owns [OF d w o i])
  show ?thesis
  proof (cases "r1 = RC_OK")
    case False
    with st d nr obtain s2 where "rc_server_teardown E s1 = Some s2" "s' = s2"
      by (auto simp: rc_client_start_def bind_eq_Some_conv)
    then show ?thesis using teardown_session [OF _ w o1 q] by simp
  next
    case True
    with st d nr have "start_decoder E FF apple s1 = Some (r, s')" by (simp add: rc_client_start_def)
    then show ?thesis by (rule start_decoder_session [OF _ w o1 q])
  qed
qed

lemma owns_shutdown: "owns B C K s \<Longrightarrow> owns B C K (sys_shutdown E fd s)"
  by (simp add: owns_def sys_shutdown_def)

text \<open>The client as \<^verbatim>\<open>rc_client_stop\<close> hands it to the teardown.\<close>

definition stop_prepare :: "env \<Rightarrow> sys \<Rightarrow> sys" where
  "stop_prepare E s =
     (let s = upd (\<lambda>c. c\<lparr>abort_requested := True, running := False\<rparr>) s;
          s = (if 0 \<le> video_fd (client s) then sys_shutdown E (video_fd (client s)) s else s);
          s = (if 0 \<le> audio_fd (client s) then sys_shutdown E (audio_fd (client s)) s else s);
          s = (if 0 \<le> control_fd (client s) then sys_shutdown E (control_fd (client s)) s else s);
          s = upd (\<lambda>c. c\<lparr>net_thread := False, audio_thread := False\<rparr>) s;
          s = (if decoder (client s) \<noteq> None
               then upd (\<lambda>c. c\<lparr>decoder := None, decoder_desc := None\<rparr>) s else s)
      in upd (\<lambda>c. c\<lparr>audio_player := None\<rparr>) s)"

lemma rc_client_stop_eq: "rc_client_stop E s = rc_server_teardown E (stop_prepare E s)"
  by (simp add: rc_client_stop_def stop_prepare_def Let_def)

lemma stop_prepare_owns:
  assumes "owns B C K s"
  shows "\<exists>K'. owns B C K' (stop_prepare E s) \<and> quiet K'"
proof -
  let ?c = "client (stop_prepare E s)"
  have f: "set (open_fds (stop_prepare E s)) = set (open_fds s)"
    "set (children (stop_prepare E s)) = set (children s)"
    "video_fd ?c = video_fd (client s)" "audio_fd ?c = audio_fd (client s)"
    "control_fd ?c = control_fd (client s)" "listen_fd ?c = listen_fd (client s)"
    "server_pid ?c = server_pid (client s)"
    by (auto simp: stop_prepare_def Let_def sys_shutdown_def)
  have "owns B C (threads ?c) (stop_prepare E s)"
    using assms by (simp add: owns_def client_fds_def client_fd_list_def client_pids_def f)
  moreover have "quiet (threads ?c)"
    by (auto simp: stop_prepare_def Let_def quiet_def threads_def)
  ultimately show ?thesis by blast
qed

lemma stop_session:
  assumes "rc_client_stop E s = Some s'" and "waits_ok E" and "owns B C K s"
  shows "session_ok B C s'" and "idle (client s')" and "quiet (threads (client s'))"
proof -
  obtain K' where K': "owns B C K' (stop_prepare E s)" "quiet K'"
    using stop_prepare_owns [OF assms(3)] by blast
  have td: "rc_server_teardown E (stop_prepare E s) = Some s'"
    using assms(1) by (simp add: rc_client_stop_eq)
  show "session_ok B C s'" by (rule teardown_session [OF td assms(2) K'])
  note T = teardown_owns [OF td assms(2) K'(1)]
  show "idle (client s')" by (rule T(2))
  show "quiet (threads (client s'))" using owns_threads [OF T(1)] K'(2) by simp
qed

text \<open>A session begins with the client \<^verbatim>\<open>rc_client_create\<close> returns.\<close>

definition fresh_session :: "int set \<Rightarrow> int set \<Rightarrow> sys \<Rightarrow> bool" where
  "fresh_session B C s \<longleftrightarrow> set (open_fds s) = B \<and> set (children s) = C \<and>
     (\<exists>mem pid scid cf. fst (rc_client_create mem pid scid (Some cf)) = Some (client s))"

lemma fresh_session_ok: "fresh_session B C s \<Longrightarrow> session_ok B C s"
proof -
  assume f: "fresh_session B C s"
  then obtain mem pid scid cf where c: "fst (rc_client_create mem pid scid (Some cf)) = Some (client s)"
    by (auto simp: fresh_session_def)
  then have m: "mem 0" by (auto simp: rc_client_create_def split: if_splits)
  from c have "client s = the (fst (rc_client_create mem pid scid (Some cf)))" by simp
  with m have i: "idle (client s)" "session_inv (client s)"
    by (simp_all add: rc_client_create_def idle_def session_inv_def)
  with f owns_idle [OF i(1)] show ?thesis by (simp add: session_ok_def fresh_session_def)
qed

lemma session_step_ok:
  assumes "session_step s t" and "session_ok B C s"
  shows "session_ok B C t"
  using assms(1)
proof cases
  case (step_start E FF apple r)
  show ?thesis
  proof (cases "running (client s)")
    case True
    with step_start(3) assms(2) show ?thesis by (simp add: rc_client_start_def)
  next
    case False
    with step_start(2) show ?thesis using start_session [OF step_start(3,1) assms(2)] by simp
  qed
next
  case step_abort
  then show ?thesis
    using assms(2) owns_upd [of B C "threads (client s)" s "\<lambda>c. c\<lparr>abort_requested := True\<rparr>"]
    by (auto simp: session_ok_def session_inv_def rc_client_abort_def idle_def)
next
  case (step_stop E)
  then show ?thesis using assms(2) stop_session(1) [OF step_stop(2,1)] by (auto simp: session_ok_def)
next
  case (step_decoder ds dd)
  then show ?thesis
    using assms(2) owns_upd [of B C "threads (client s)" s "\<lambda>c. c\<lparr>decoder := dd, decoder_desc := ds\<rparr>"]
    by (auto simp: session_ok_def session_inv_def)
next
  case step_net_end
  then show ?thesis
    using assms(2) owns_upd [of B C "threads (client s)" s "\<lambda>c. c\<lparr>running := False\<rparr>"]
    by (auto simp: session_ok_def session_inv_def)
next
  case (step_player pl)
  then show ?thesis
    using assms(2) owns_upd [of B C "threads (client s)" s "\<lambda>c. c\<lparr>audio_player := pl\<rparr>"]
    by (auto simp: session_ok_def session_inv_def)
next
  case (step_status r m)
  then show ?thesis using assms(2) emit_owns by (auto simp: session_ok_def)
qed

interpretation session: invariant_system "fresh_session B C" session_step "session_ok B C" for B C
  by unfold_locales (auto intro: fresh_session_ok session_step_ok)

text \<open>
  C2: stopping a session releases everything.  In every state a session can reach, by any sequence of
  starts (successful or failed at any point), aborts, decoder replacements, thread endings and
  stops in which a client whose video thread has ended by itself is stopped before it is started again
  (otherwise the claim is false: lemma \<open>restart_leaks\<close>), and if waiting for a child of the process never
  fails, \<^verbatim>\<open>rc_client_stop\<close> leaves, when it returns, exactly the descriptors and child processes that existed
  before the client was created, and the client holds no thread, decoder, player, descriptor or process.
\<close>

theorem stop_releases_all:
  assumes "reach (fresh_session B C) session_step s" and "waits_ok E"
    and "rc_client_stop E s = Some s'"
  shows "set (open_fds s') = B \<and> set (children s') = C \<and> idle (client s') \<and>
     \<not> running (client s') \<and> \<not> net_thread (client s') \<and> \<not> audio_thread (client s') \<and>
     decoder (client s') = None \<and> audio_player (client s') = None"
proof -
  have o: "owns B C (threads (client s)) s"
    using session.reach_inv [OF assms(1)] by (simp add: session_ok_def)
  note S = stop_session [OF assms(3,2) o]
  have "set (open_fds s') = B \<and> set (children s') = C"
    using S(1) owns_idle [OF S(2)] by (simp add: session_ok_def)
  with S(2,3) show ?thesis by (auto simp: quiet_def threads_def)
qed

lemma demo_fresh: "fresh_session {0, 1, 2} {} demo_idle_sys"
proof -
  have "fst (rc_client_create (\<lambda>_. True) 4242 0 (Some demo_config)) = Some (client demo_idle_sys)"
    by (simp add: demo_idle_sys_def demo_client_def rc_client_create_def dup_or_null_def)
  then show ?thesis unfolding fresh_session_def
    by (auto simp: demo_idle_sys_def demo_sys_def)
qed

text \<open>The emulator session of \<^const>\<open>demo_usb_env\<close>, started and stopped.\<close>

lemma demo_start_decoder:
  assumes "tick s = 18" and "cfg (client s) = demo_config"
    and "dm_version (meta (client s)) = RC_PROTO_VERSION"
    and "dm_codec_id (meta (client s)) = RC_CODEC_ID_H264"
  shows "\<exists>s'. start_decoder demo_usb_env demo_ffmpeg False s = Some (RC_OK, s') \<and>
     running (client s') \<and> open_fds s' = open_fds s \<and> children s' = children s \<and>
     client_fd_list (client s') = client_fd_list (client s) \<and> server_pid (client s') = server_pid (client s)"
proof -
  have "rc_decoder_create demo_usb_env demo_ffmpeg False RC_CODEC_H264 True \<noteq> None"
    by code_simp
  then obtain d where "rc_decoder_create demo_usb_env demo_ffmpeg False RC_CODEC_H264 True = Some d"
    by blast
  moreover have "e_ret demo_usb_env 18 = 0" by (simp add: demo_usb_env_def)
  ultimately show ?thesis
    using assms by (simp add: start_decoder_def codec_from_meta_def start_threads_def sys_ret_def Let_def
        demo_config_def client_fd_list_def)
qed

lemma demo_start:
  "\<exists>s1 s2. rc_client_start demo_usb_env demo_ffmpeg False demo_idle_sys = Some (RC_OK, s1) \<and>
     running (client s1) \<and> open_fds s1 = [5, 4, 0, 1, 2] \<and> rc_client_stop demo_usb_env s1 = Some s2"
proof -
  obtain s0 where d: "rc_server_deploy demo_usb_env demo_idle_sys = Some (RC_OK, s0)"
    "open_fds s0 = [5, 4, 0, 1, 2]" "tick s0 = 18" "cfg (client s0) = demo_config"
    "dm_version (meta (client s0)) = RC_PROTO_VERSION"
    "dm_codec_id (meta (client s0)) = RC_CODEC_ID_H264"
    using demo_deploy by blast
  have nr: "\<not> running (client demo_idle_sys)" by (simp add: demo_idle_sys_def demo_client_eq)
  from demo_start_decoder [OF d(3-6)] obtain s1 where
    s1: "start_decoder demo_usb_env demo_ffmpeg False s0 = Some (RC_OK, s1)" "running (client s1)"
      "open_fds s1 = open_fds s0" by blast
  have "children_end demo_usb_env" by (simp add: children_end_def demo_usb_env_def demo_env_def)
  then obtain s2 where "rc_client_stop demo_usb_env s1 = Some s2"
    using teardown_returns by (force simp: rc_client_stop_eq)
  with d(1,2) nr s1 show ?thesis by (simp add: rc_client_start_def)
qed

theorem stop_releases_all_witness:
  "\<exists>s1 s2. reach (fresh_session {0, 1, 2} {}) session_step s1 \<and> running (client s1) \<and>
     open_fds s1 = [5, 4, 0, 1, 2] \<and> rc_client_stop demo_usb_env s1 = Some s2 \<and>
     set (open_fds s2) = {0, 1, 2} \<and> set (children s2) = {}"
proof -
  obtain s1 s2 where d: "rc_client_start demo_usb_env demo_ffmpeg False demo_idle_sys = Some (RC_OK, s1)"
    "running (client s1)" "open_fds s1 = [5, 4, 0, 1, 2]" "rc_client_stop demo_usb_env s1 = Some s2"
    using demo_start by blast
  have "\<not> net_thread (client demo_idle_sys)" by (simp add: demo_idle_sys_def demo_client_eq)
  then have "session_step demo_idle_sys s1" by (blast intro: step_start [OF demo_deploy_env(1) _ d(1)])
  with demo_fresh have r: "reach (fresh_session {0, 1, 2} {}) session_step s1"
    by (blast intro: reach_start reach_step)
  from d r stop_releases_all [OF r demo_deploy_env(1) d(4)] show ?thesis by blast
qed

text \<open>The start that \<^const>\<open>session_step\<close> leaves out: the video thread has ended by itself, the client
  still holds the streams 7 and 8 and the server 9, and is started again without a stop.  The new session
  overwrites them, and they outlive the stop.\<close>

definition demo_ended :: sys where
  "demo_ended = demo_idle_sys\<lparr>client := (client demo_idle_sys)\<lparr>video_fd := 7, control_fd := 8,
     server_pid := 9, net_thread := True\<rparr>, open_fds := [7, 8, 0, 1, 2], children := [9]\<rparr>"

lemma restart_leaks:
  "session_ok {0, 1, 2} {} demo_ended \<and>
   (\<exists>s1 s2. rc_client_start demo_usb_env demo_ffmpeg False demo_ended = Some (RC_OK, s1) \<and>
     rc_client_stop demo_usb_env s1 = Some s2 \<and> {7, 8} \<subseteq> set (open_fds s2) \<and> 9 \<in> set (children s2))"
proof -
  obtain q m' where "rc_demux_read_meta demo_stream (Some zero_meta) = Some (RC_OK, Some m', q)"
    "dm_version m' = RC_PROTO_VERSION" "dm_codec_id m' = RC_CODEC_ID_H264"
    using demo_stream_meta by blast
  then have "\<exists>s0. rc_server_deploy demo_usb_env demo_ended = Some (RC_OK, s0) \<and>
      owns {7, 8, 0, 1, 2} {9} (threads (client s0)) s0 \<and> tick s0 = 18 \<and> cfg (client s0) = demo_config \<and>
      dm_version (meta (client s0)) = RC_PROTO_VERSION \<and> dm_codec_id (meta (client s0)) = RC_CODEC_ID_H264"
    by (simp add: deploy_eval os_eval demo_ended_def demo_idle_sys_def demo_sys_def demo_client_eq demo_config_def
        demo_usb_env_def demo_env_def owns_def client_fds_def client_fd_list_def client_pids_def) auto
  then obtain s0 where d: "rc_server_deploy demo_usb_env demo_ended = Some (RC_OK, s0)"
    and o: "owns {7, 8, 0, 1, 2} {9} (threads (client s0)) s0"
    and s0: "tick s0 = 18" "cfg (client s0) = demo_config"
    "dm_version (meta (client s0)) = RC_PROTO_VERSION" "dm_codec_id (meta (client s0)) = RC_CODEC_ID_H264"
    by blast
  from demo_start_decoder [OF s0] obtain s1 where
    s1: "start_decoder demo_usb_env demo_ffmpeg False s0 = Some (RC_OK, s1)"
      "open_fds s1 = open_fds s0" "children s1 = children s0"
      "client_fd_list (client s1) = client_fd_list (client s0)" "server_pid (client s1) = server_pid (client s0)"
    by blast
  have st: "rc_client_start demo_usb_env demo_ffmpeg False demo_ended = Some (RC_OK, s1)"
    using d s1(1) by (simp add: rc_client_start_def demo_ended_def demo_idle_sys_def demo_client_eq)
  have o1: "owns {7, 8, 0, 1, 2} {9} (threads (client s1)) s1"
  proof -
    have "client_fds c = set (client_fd_list c)" for c by (auto simp: client_fds_def client_fd_list_def)
    then have "client_fds (client s1) = client_fds (client s0)" by (simp only: s1(4))
    moreover have "client_pids (client s1) = client_pids (client s0)" using s1(5) by (simp add: client_pids_def)
    ultimately show ?thesis using o s1(2-4) by (simp add: owns_def)
  qed
  have "children_end demo_usb_env" by (simp add: children_end_def demo_usb_env_def demo_env_def)
  then obtain s2 where s2: "rc_client_stop demo_usb_env s1 = Some s2"
    using teardown_returns by (force simp: rc_client_stop_eq)
  note S = stop_session [OF s2 demo_deploy_env(1) o1]
  have "set (open_fds s2) = {7, 8, 0, 1, 2} \<and> set (children s2) = {9}"
    using S(1) owns_idle [OF S(2)] by (simp add: session_ok_def)
  moreover have "session_ok {0, 1, 2} {} demo_ended"
    by (simp add: session_ok_def owns_def session_inv_def client_fds_def client_fd_list_def client_pids_def
        demo_ended_def demo_idle_sys_def demo_client_eq) auto
  ultimately show ?thesis using st s2 by auto
qed

section \<open>What a successful start means\<close>

lemma start_threads_ok:
  assumes "start_threads E s = Some (RC_OK, s')"
  shows "running (client s') \<and> net_thread (client s') \<and> cfg (client s') = cfg (client s) \<and>
     meta (client s') = meta (client s) \<and> have_meta (client s') = have_meta (client s) \<and>
     decoder (client s') = decoder (client s) \<and> video_fd (client s') = video_fd (client s) \<and>
     audio_fd (client s') = audio_fd (client s) \<and> control_fd (client s') = control_fd (client s) \<and>
     listen_fd (client s') = listen_fd (client s)"
  using assms
  by (auto simp: start_threads_def sys_ret_def Let_def bind_eq_Some_conv split: if_splits)

lemma fail_teardown_not_ok: "r \<noteq> RC_OK \<Longrightarrow> fail_teardown E r m s \<noteq> Some (RC_OK, s')"
  by (auto simp: fail_teardown_def bind_eq_Some_conv)

text \<open>
  C13: a session that starts is sound.  When \<^verbatim>\<open>rc_client_start\<close> returns \<^verbatim>\<open>RC_OK\<close> on a reachable client
  without a video thread, and waiting for a child of the process never fails, both ends speak the same protocol version, the configured codec is replaced by the one the
  server announced and the decoder object the client holds was created for that codec, the device size
  is available, the video thread runs, and exactly the requested streams are open.
\<close>

theorem start_ok_session:
  assumes "reach (fresh_session B C) session_step s" and "\<not> net_thread (client s)" and "waits_ok E"
    and "rc_client_start E FF apple s = Some (RC_OK, s')"
  shows "running (client s') \<and> net_thread (client s') \<and>
     (\<exists>cd d. codec_from_meta (dm_codec_id (meta (client s'))) = Some cd \<and> codec (cfg (client s')) = cd \<and>
        decoder (client s') = Some d \<and> d_codec d = av_codec_id cd) \<and>
     dm_magic (meta (client s')) = RC_META_MAGIC \<and> dm_version (meta (client s')) = RC_PROTO_VERSION \<and>
     rc_client_get_device_size (Some (client s')) =
       (RC_OK, Some (uint (dm_width (meta (client s'))), uint (dm_height (meta (client s'))))) \<and>
     streams_up (audio (cfg (client s))) (control (cfg (client s))) (client s')"
proof -
  have ok: "session_ok B C s" by (rule session.reach_inv [OF assms(1)])
  then have q: "quiet (threads (client s))" and i: "idle (client s)"
    using inv_quiet [OF _ assms(2)] by (auto simp: session_ok_def)
  have "\<not> running (client s)" using q by (simp add: quiet_def threads_def)
  with assms(4) obtain s1 where d: "rc_server_deploy E s = Some (RC_OK, s1)"
    and sd: "start_decoder E FF apple s1 = Some (RC_OK, s')"
    by (auto simp: rc_client_start_def bind_eq_Some_conv split: if_splits)
  have up: "session_up (audio (cfg (client s))) (control (cfg (client s))) (client s1)"
    by (rule rc_server_deploy_up [OF d i assms(3)])
  have v: "dm_version (meta (client s1)) = RC_PROTO_VERSION"
    using sd fail_teardown_not_ok by (auto simp: start_decoder_def split: if_splits)
  then obtain cd where cd: "codec_from_meta (dm_codec_id (meta (client s1))) = Some cd"
    using sd fail_teardown_not_ok by (auto simp: start_decoder_def split: option.splits)
  obtain dd where dd: "rc_decoder_create E FF apple cd True = Some dd"
    using sd fail_teardown_not_ok v cd by (auto simp: start_decoder_def Let_def split: option.splits)
  obtain s5 where st: "start_threads E s5 = Some (RC_OK, s')"
    and s5: "client s5 = (client s1)\<lparr>cfg := (cfg (client s1))\<lparr>codec := cd\<rparr>, have_meta := True,
       decoder := Some dd, decoder_desc := Some (decoder_desc_of (Some dd))\<rparr>"
    using sd v cd dd by (auto simp: start_decoder_def Let_def)
  from start_threads_ok [OF st] up v cd decoder_codec [OF dd] show ?thesis
    by (simp add: s5 session_up_def streams_up_def rc_client_get_device_size_def)
qed

theorem start_ok_session_witness:
  "\<exists>s'. rc_client_start demo_usb_env demo_ffmpeg False demo_idle_sys = Some (RC_OK, s') \<and>
     running (client s') \<and> streams_up False True (client s')"
proof -
  obtain s1 where d: "rc_client_start demo_usb_env demo_ffmpeg False demo_idle_sys = Some (RC_OK, s1)"
    using demo_start by blast
  have n: "\<not> net_thread (client demo_idle_sys)"
    and c: "audio (cfg (client demo_idle_sys)) = False" "control (cfg (client demo_idle_sys)) = True"
    by (simp_all add: demo_idle_sys_def demo_client_eq demo_config_def)
  have r: "reach (fresh_session {0, 1, 2} {}) session_step demo_idle_sys"
    using demo_fresh by (rule reach_start)
  from start_ok_session [OF r n demo_deploy_env(1) d] d c show ?thesis by simp
qed

section \<open>Stopping twice\<close>

lemma teardown_threads:
  assumes "rc_server_teardown E s = Some s'"
  shows "threads (client s') = threads (client s)"
proof -
  obtain s1 where st: "stop_server E (close_streams E s) = Some s1"
    using assms by (auto simp: rc_server_teardown_def bind_eq_Some_conv)
  have "threads (client (close_streams E s)) = threads (client s)"
    by (simp add: close_streams_def Let_def)
  moreover have "threads (client s1) = threads (client (close_streams E s))"
    using st by (auto simp: stop_server_def bind_eq_Some_conv sys_waitpid_def sys_kill_def reap_def
        step_os_def split: if_splits wait_res.splits)
  moreover have "client s' = client s1"
    using assms st adb_reverse_remove_client
    by (fastforce simp: rc_server_teardown_def bind_eq_Some_conv split: if_splits)
  ultimately show ?thesis by simp
qed

lemma stop_abort: "rc_client_stop E s = Some s' \<Longrightarrow> abort_requested (client s')"
  by (auto simp: rc_client_stop_eq threads_def stop_prepare_def Let_def dest!: teardown_threads)

lemma close_streams_idle: "idle (client s) \<Longrightarrow> close_streams E s = s"
  by (simp add: close_streams_def idle_def)

lemma teardown_idle:
  assumes "idle (client s)" and "rc_server_teardown E s = Some s'"
  shows "client s' = client s \<and> open_fds s' = open_fds s"
proof -
  have "rc_server_teardown E s = (if transport (cfg (client s)) = RC_TRANSPORT_USB then do {
       (r, s) \<leftarrow> rc_adb_reverse_remove E (serial (cfg (client s))) (socket_name (client s)) s;
       Some s
     } else Some s)"
    using assms(1) close_streams_idle [OF assms(1)]
    by (simp add: rc_server_teardown_def stop_server_def idle_def)
  with assms(2) show ?thesis
    using adb_run_ex_spec(1) more_client [of s' s]
    by (fastforce simp: bind_eq_Some_conv rc_adb_reverse_remove_def fd_calm_def split: if_splits)
qed

text \<open>
  \<^verbatim>\<open>rc_client_stop\<close> may be called again: after a stop, a further stop changes neither the client nor
  the descriptor table (it closes nothing twice and kills nothing).
\<close>

theorem stop_idempotent:
  assumes "rc_client_stop E s = Some s1" and "waits_ok E" and "rc_client_stop E' s1 = Some s2"
    and "reach (fresh_session B C) session_step s"
  shows "client s2 = client s1 \<and> open_fds s2 = open_fds s1"
proof -
  have o: "owns B C (threads (client s)) s"
    using session.reach_inv [OF assms(4)] by (simp add: session_ok_def)
  have i: "idle (client s1)" and q: "quiet (threads (client s1))"
    using stop_session [OF assms(1,2) o] by auto
  have ab: "abort_requested (client s1)"
    using stop_abort [OF assms(1)] .
  have p: "client (stop_prepare E' s1) = client s1" "open_fds (stop_prepare E' s1) = open_fds s1"
    using i q ab by (auto simp: stop_prepare_def Let_def idle_def quiet_def threads_def)
  with teardown_idle [of "stop_prepare E' s1" E' s2] assms(3) i show ?thesis
    by (simp add: rc_client_stop_eq)
qed

theorem stop_idempotent_example:
  "\<exists>s1 s2. rc_client_stop demo_usb_env demo_idle_sys = Some s1 \<and>
     rc_client_stop demo_usb_env s1 = Some s2 \<and> client s2 = client s1 \<and> open_fds s2 = open_fds s1"
proof -
  have "children_end demo_usb_env" by (simp add: children_end_def demo_usb_env_def demo_env_def)
  then obtain s1 s2 where s: "rc_client_stop demo_usb_env demo_idle_sys = Some s1"
    "rc_client_stop demo_usb_env s1 = Some s2"
    using teardown_returns unfolding rc_client_stop_eq by metis
  have r: "reach (fresh_session {0, 1, 2} {}) session_step demo_idle_sys"
    using demo_fresh by (rule reach_start)
  from s stop_idempotent [OF s(1) demo_deploy_env(1) s(2) r] show ?thesis by blast
qed

section \<open>Aborting a start\<close>

lemma poll_client: "sys_poll E ms s = (r, s') \<Longrightarrow> client s' = client s"
  for s s' :: sys
  by (auto simp: sys_poll_def Let_def split: if_splits)

text \<open>
  An abort is prompt.  Once \<^verbatim>\<open>rc_client_abort\<close> has been called, waiting for a stream or for
  \<^verbatim>\<open>device_meta\<close> ends with a failure after the current 100 ms slice, and connecting is not tried
  again after the attempt that is under way fails.
\<close>

theorem abort_prompt:
  assumes "s = rc_client_abort s0"
  shows "(e_ret E (tick s) = 0 \<longrightarrow>
       accept_timeout E ACCEPT_TIMEOUT_MS s = (-1, sleep_ms E WAIT_SLICE_MS s) \<and>
       read_meta_timeout E META_TIMEOUT_MS s = Some (RC_ERR_CONNECT, sleep_ms E WAIT_SLICE_MS s)) \<and>
     (\<forall>fd s1. rc_net_connect_tcp E host port
         (if b > 1000 then 1000 else if b < 100 then 100 else b) s = (fd, s1) \<and> fd < 0 \<longrightarrow>
       connect_retry E host port b s = Some (-1, s1))"
proof (intro conjI impI allI)
  have ab: "abort_requested (client s)" using assms by (simp add: rc_client_abort_def)
  assume z: "e_ret E (tick s) = 0"
  then have p: "sys_poll E WAIT_SLICE_MS s = (0, sleep_ms E WAIT_SLICE_MS s)" by (simp add: sys_poll_def)
  have c: "wait_cancelled E (sleep_ms E WAIT_SLICE_MS s) = (True, sleep_ms E WAIT_SLICE_MS s)"
    using ab by (simp add: wait_cancelled_def aborted_def)
  show "accept_timeout E ACCEPT_TIMEOUT_MS s = (-1, sleep_ms E WAIT_SLICE_MS s)"
    by (simp add: accept_timeout_def accept_loop.simps p c ACCEPT_TIMEOUT_MS_def)
  show "read_meta_timeout E META_TIMEOUT_MS s = Some (RC_ERR_CONNECT, sleep_ms E WAIT_SLICE_MS s)"
    by (simp add: read_meta_timeout_def meta_loop.simps p c META_TIMEOUT_MS_def)
next
  fix fd s1
  assume c: "rc_net_connect_tcp E host port (if b > 1000 then 1000 else if b < 100 then 100 else b) s = (fd, s1) \<and> fd < 0"
  have "client s1 = client s" using connect.frame [of E host port _ s fd s1] c more_client [of s1 s] by blast
  then have "wait_cancelled E s1 = (True, s1)"
    using assms by (simp add: wait_cancelled_def aborted_def rc_client_abort_def)
  with c show "connect_retry E host port b s = Some (-1, s1)"
    by (simp add: connect_retry_def connect_loop.simps [of _ _ _ _ s] Let_def)
qed

theorem abort_prompt_example:
  "accept_timeout demo_env ACCEPT_TIMEOUT_MS (rc_client_abort demo_idle_sys) =
     (-1, sleep_ms demo_env WAIT_SLICE_MS (rc_client_abort demo_idle_sys))"
  using abort_prompt [OF refl, of demo_env demo_idle_sys] by simp

section \<open>The audio thread never blocks the server\<close>

lemma audio_loop_drains:
  assumes "memory_ok ra"
  shows "list_all packet_ok ps \<Longrightarrow> pktbuf_ok pb \<Longrightarrow> sock_bytes s = concat (map writePacket ps) @ rest \<Longrightarrow>
     \<exists>s'. audio_loop ra AE T (length ps) s pb None = Some (s', None, []) \<and> sock_bytes s' = rest"
proof (induction ps arbitrary: s pb)
  case Nil
  then show ?case by simp
next
  case (Cons p ps)
  have ra: "realloc_laws ra" "\<And>old n. ra old n \<noteq> None" using assms by (auto simp: memory_ok_def)
  have ok: "packet_ok p" and pend: "sock_bytes s = writePacket p @ (concat (map writePacket ps) @ rest)"
    using Cons.prems by auto
  obtain pb1 out s1 where "rc_demux_read_packet ra s pb pkt0 = Some (RC_OK, pb1, out, s1)"
    "sock_bytes s1 = concat (map writePacket ps) @ rest" "pktbuf_ok pb1"
    using read_packet_complete [OF ra ok Cons.prems(2) pend, of pkt0] by blast
  with Cons.IH [of pb1 s1] Cons.prems(1) show ?case by simp
qed

text \<open>
  Without a usable player (the server sends no audio, or no output device) the audio thread still
  reads the whole stream, so the server is never blocked by audio nobody plays.
\<close>

theorem audio_thread_drains:
  assumes "memory_ok ra" and "list_all packet_ok ps"
    and "sock_bytes s = writeAudioMeta cid rate ch @ concat (map writePacket ps) @ rest"
    and "cid \<noteq> RC_ACODEC_ID_OPUS \<or> \<not> a_device_init AE"
  shows "\<exists>s'. audio_thread_fn ra AE T (length ps) s = Some (s', None, []) \<and> sock_bytes s' = rest"
proof -
  let ?m0 = "\<lparr>am_magic = 0, am_codec_id = 0, am_sample_rate = 0, am_channels = 0\<rparr> :: rc_audio_meta"
  obtain s1 where m: "rc_demux_read_audio_meta s (Some ?m0) = Some (RC_OK, Some \<lparr>am_magic = RC_AUDIO_MAGIC,
      am_codec_id = cid, am_sample_rate = rate, am_channels = ch\<rparr>, s1)"
    and s1: "sock_bytes s1 = concat (map writePacket ps) @ rest"
    using audio_meta_roundtrip [OF assms(3)] by blast
  have "rc_audio_create AE (Some \<lparr>am_magic = RC_AUDIO_MAGIC, am_codec_id = cid, am_sample_rate = rate,
      am_channels = ch\<rparr>) = None"
    using assms(4) by (auto simp: rc_audio_create_def Let_def)
  moreover have "pktbuf_ok empty_buf" by (simp add: pktbuf_ok_def empty_buf_def)
  ultimately show ?thesis
    using m audio_loop_drains [OF assms(1,2) _ s1] by (simp add: audio_thread_fn_def)
qed

definition demo_audio_env :: audio_env where
  "demo_audio_env = \<lparr>a_find_decoder = True, a_alloc_ctx = True, a_extradata = True, a_open = True,
     a_alloc_frames = True, a_rb_init = (\<lambda>_ _. True), a_device_init = False, a_device_start = False,
     a_send = (\<lambda>_. True), a_recv = (\<lambda>_. []), a_swr_alloc = (\<lambda>_. True), a_swr_init = (\<lambda>_. True),
     a_out_samples = (\<lambda>_. 0), a_realloc = (\<lambda>_. True), a_convert = (\<lambda>_. None)\<rparr>"

theorem audio_thread_drains_example:
  "\<exists>s'. audio_thread_fn libc_realloc demo_audio_env (\<lambda>_ _. []) 3
       [Chunk (writeAudioMeta RC_ACODEC_ID_OPUS 48000 2 @ concat (map writePacket demo_stream_packets))]
     = Some (s', None, []) \<and> sock_bytes s' = []"
proof -
  let ?w = "writeAudioMeta RC_ACODEC_ID_OPUS 48000 2 @ concat (map writePacket demo_stream_packets)"
  have "?w \<noteq> []" by (simp add: writeAudioMeta_def put_u32_def)
  then have b: "sock_bytes [Chunk ?w] = writeAudioMeta RC_ACODEC_ID_OPUS 48000 2
      @ concat (map writePacket demo_stream_packets) @ []" by simp
  have m: "memory_ok libc_realloc" using libc_realloc_laws by (simp add: memory_ok_def libc_realloc_def)
  have ok: "list_all packet_ok demo_stream_packets" "length demo_stream_packets = 3"
    by (simp_all add: demo_stream_packets_def packet_ok_def)
  from audio_thread_drains [OF m ok(1) b, of demo_audio_env "\<lambda>_ _. []"] show ?thesis
    by (simp add: ok(2) demo_audio_env_def)
qed

end
