(* ===== verification/RC_Media.thy ===== *)
theory RC_Media
  imports RC_Audio RC_Decoder RC_Adb "HOL-Library.Multiset"
begin

text \<open>
  The library objects behind \<^verbatim>\<open>core/src/audio.c\<close> and \<^verbatim>\<open>core/src/decoder.c\<close>: what \<^verbatim>\<open>rc_audio_create\<close> and
  \<^verbatim>\<open>rc_decoder_create\<close> allocate one after the other, what their common \<^verbatim>\<open>fail\<close> label and the
  destructors free.  The objects alive are a multiset of kinds.
\<close>

datatype media_obj =
    Struct | CodecCtx | Packet | FrameBuf | SwFrame | HwDevice | HwDeviceRef
  | PcmRing | PlayDevice | Playing | Resampler | OutBuf

type_synonym media_heap = "media_obj multiset"

text \<open>Freeing what a pointer or flag of the structure says is there.\<close>

definition release :: "bool \<Rightarrow> media_obj \<Rightarrow> media_heap \<Rightarrow> media_heap" where
  "release b k H = (if b then H - {#k#} else H)"

section \<open>The audio player\<close>

text \<open>The pointers and flags of \<^verbatim>\<open>struct rc_audio\<close>.\<close>

record audio_objs =
  ao_ctx :: bool
  ao_pkt :: bool
  ao_frame :: bool
  ao_rb_ok :: bool
  ao_device_ok :: bool
  ao_started :: bool
  ao_swr :: bool
  ao_out :: bool

definition rc_audio_destroy :: "audio_objs option \<Rightarrow> media_heap \<Rightarrow> media_heap" where
  "rc_audio_destroy a H =
     (case a of
        None \<Rightarrow> H
      | Some a \<Rightarrow>
          let H = release (ao_started a) Playing H;
              H = release (ao_device_ok a) PlayDevice H;
              H = release (ao_rb_ok a) PcmRing H;
              H = release (ao_swr a) Resampler H;
              H = release (ao_frame a) FrameBuf H;
              H = release (ao_pkt a) Packet H;
              H = release (ao_ctx a) CodecCtx H;
              H = release (ao_out a) OutBuf H
          in H - {#Struct#})"

definition ring_made :: "audio_env \<Rightarrow> rc_audio_meta \<Rightarrow> bool" where
  "ring_made AE m =
     (let channels = (if am_channels m \<noteq> 0 then uint (am_channels m) else 2);
          sample_rate = (if am_sample_rate m \<noteq> 0 then sint (am_sample_rate m) else 48000)
      in a_rb_init AE (nat channels) (ring_frames sample_rate))"

text \<open>\<open>mem\<close>, \<open>pk\<close> and \<open>fr\<close>: whether \<^verbatim>\<open>calloc\<close>, \<^verbatim>\<open>av_packet_alloc\<close> and \<^verbatim>\<open>av_frame_alloc\<close> succeed.\<close>

definition audio_objects ::
    "audio_env \<Rightarrow> bool \<Rightarrow> bool \<Rightarrow> bool \<Rightarrow> rc_audio_meta option \<Rightarrow> media_heap \<Rightarrow> audio_objs option \<times> media_heap" where
  "audio_objects AE mem pk fr hdr H =
     (case hdr of
        None \<Rightarrow> (None, H)
      | Some m \<Rightarrow>
          if am_codec_id m = RC_ACODEC_ID_NONE then (None, H)
          else if am_codec_id m \<noteq> RC_ACODEC_ID_OPUS then (None, H)
          else if \<not> mem then (None, H)
          else
            let a = \<lparr>ao_ctx = False, ao_pkt = False, ao_frame = False, ao_rb_ok = False, ao_device_ok = False,
                     ao_started = False, ao_swr = False, ao_out = False\<rparr>;
                H = add_mset Struct H in
            if \<not> a_find_decoder AE then (None, rc_audio_destroy (Some a) H)
            else if \<not> a_alloc_ctx AE then (None, rc_audio_destroy (Some a) H)
            else
              let a = a\<lparr>ao_ctx := True\<rparr>; H = add_mset CodecCtx H in
              if \<not> a_extradata AE then (None, rc_audio_destroy (Some a) H)
              else if \<not> a_open AE then (None, rc_audio_destroy (Some a) H)
              else
                let H = (if pk then add_mset Packet H else H); H = (if fr then add_mset FrameBuf H else H);
                    a = a\<lparr>ao_pkt := pk, ao_frame := fr\<rparr> in
                if \<not> pk \<or> \<not> fr then (None, rc_audio_destroy (Some a) H)
                else if \<not> ring_made AE m then (None, rc_audio_destroy (Some a) H)
                else
                  let a = a\<lparr>ao_rb_ok := True\<rparr>; H = add_mset PcmRing H in
                  if \<not> a_device_init AE then (None, rc_audio_destroy (Some a) H)
                  else
                    let a = a\<lparr>ao_device_ok := True\<rparr>; H = add_mset PlayDevice H in
                    if \<not> a_device_start AE then (None, rc_audio_destroy (Some a) H)
                    else (Some (a\<lparr>ao_started := True\<rparr>), add_mset Playing H))"

text \<open>While playing, \<^verbatim>\<open>rc_audio_feed\<close> makes the resampler and the output buffer once, when it needs them.\<close>

definition feed_objects :: "bool \<Rightarrow> bool \<Rightarrow> audio_objs \<Rightarrow> media_heap \<Rightarrow> audio_objs \<times> media_heap" where
  "feed_objects swr out a H =
     (let H = (if swr \<and> \<not> ao_swr a then add_mset Resampler H else H);
          H = (if out \<and> \<not> ao_out a then add_mset OutBuf H else H)
      in (a\<lparr>ao_swr := ao_swr a \<or> swr, ao_out := ao_out a \<or> out\<rparr>, H))"

primrec feeds_objects :: "(bool \<times> bool) list \<Rightarrow> audio_objs \<Rightarrow> media_heap \<Rightarrow> audio_objs \<times> media_heap" where
  "feeds_objects [] a H = (a, H)"
| "feeds_objects (f # fs) a H = (case feed_objects (fst f) (snd f) a H of (a, H) \<Rightarrow> feeds_objects fs a H)"

section \<open>The video decoder\<close>

record decoder_objs =
  do_ctx :: bool
  do_pkt :: bool
  do_frame :: bool
  do_sw_frame :: bool
  do_hw :: bool

text \<open>Freeing the codec context gives up its own reference to the hardware device.\<close>

definition rc_decoder_destroy :: "decoder_objs option \<Rightarrow> media_heap \<Rightarrow> media_heap" where
  "rc_decoder_destroy d H =
     (case d of
        None \<Rightarrow> H
      | Some d \<Rightarrow>
          let H = release (do_sw_frame d) SwFrame H;
              H = release (do_frame d) FrameBuf H;
              H = release (do_pkt d) Packet H;
              H = release (do_ctx d) CodecCtx (release (do_ctx d \<and> do_hw d) HwDeviceRef H);
              H = release (do_hw d) HwDevice H
          in H - {#Struct#})"

definition decoder_objects ::
    "env \<Rightarrow> ffmpeg \<Rightarrow> bool \<Rightarrow> bool \<Rightarrow> bool \<Rightarrow> bool \<Rightarrow> bool \<Rightarrow> rc_codec \<Rightarrow> bool \<Rightarrow> media_heap \<Rightarrow> decoder_objs option \<times> media_heap" where
  "decoder_objects E FF apple mem pk fr sw cdc allow_hw H =
     (if \<not> mem then (None, H)
      else
        let d = \<lparr>do_ctx = False, do_pkt = False, do_frame = False, do_sw_frame = False, do_hw = False\<rparr>;
            H = add_mset Struct H in
        if \<not> ff_has_decoder FF (av_codec_id cdc) then (None, rc_decoder_destroy (Some d) H)
        else if \<not> ff_alloc_ctx FF then (None, rc_decoder_destroy (Some d) H)
        else
          let d = d\<lparr>do_ctx := True\<rparr>; H = add_mset CodecCtx H;
              allow_hw = (if hwdec_env_disabled E then False else allow_hw);
              hw = (if allow_hw then open_first FF (HW_KINDS apple) else None);
              H = (if hw = None then H else add_mset HwDeviceRef (add_mset HwDevice H));
              d = d\<lparr>do_hw := (hw \<noteq> None)\<rparr> in
          if \<not> ff_open FF (map_option fst hw) then (None, rc_decoder_destroy (Some d) H)
          else
            let H = (if pk then add_mset Packet H else H); H = (if fr then add_mset FrameBuf H else H);
                H = (if sw then add_mset SwFrame H else H); d = d\<lparr>do_pkt := pk, do_frame := fr, do_sw_frame := sw\<rparr> in
            if \<not> pk \<or> \<not> fr \<or> \<not> sw then (None, rc_decoder_destroy (Some d) H)
            else (Some d, H))"

section \<open>Everything is given back\<close>


text \<open>The objects of a player in any state of its life.\<close>

definition owned_if :: "bool \<Rightarrow> media_obj \<Rightarrow> media_heap" where
  "owned_if b k = (if b then {#k#} else {#})"

lemma owned_if_simps [simp]: "owned_if True k = {#k#}" "owned_if False k = {#}"
  by (simp_all add: owned_if_def)

lemma release_owned: "release b k H = H - owned_if b k"
  by (simp add: release_def owned_if_def)

definition audio_owned :: "audio_objs \<Rightarrow> media_heap" where
  "audio_owned a = owned_if (ao_started a) Playing + owned_if (ao_device_ok a) PlayDevice + owned_if (ao_rb_ok a) PcmRing +
     owned_if (ao_swr a) Resampler + owned_if (ao_frame a) FrameBuf + owned_if (ao_pkt a) Packet +
     owned_if (ao_ctx a) CodecCtx + owned_if (ao_out a) OutBuf + {#Struct#}"

definition decoder_owned :: "decoder_objs \<Rightarrow> media_heap" where
  "decoder_owned d = owned_if (do_sw_frame d) SwFrame + owned_if (do_frame d) FrameBuf + owned_if (do_pkt d) Packet +
     owned_if (do_ctx d \<and> do_hw d) HwDeviceRef + owned_if (do_ctx d) CodecCtx + owned_if (do_hw d) HwDevice + {#Struct#}"

lemma audio_destroy_owned: "rc_audio_destroy (Some a) K = K - audio_owned a"
  by (simp only: rc_audio_destroy_def Let_def release_owned audio_owned_def option.case diff_diff_add add.assoc)

lemma decoder_destroy_owned: "rc_decoder_destroy (Some d) K = K - decoder_owned d"
  by (simp only: rc_decoder_destroy_def Let_def release_owned decoder_owned_def option.case diff_diff_add add.assoc)

lemma audio_objects_owned:
  assumes "audio_objects AE mem pk fr hdr H = (r, H1)"
  shows "(case r of None \<Rightarrow> H1 = H | Some a \<Rightarrow> H1 = H + audio_owned a \<and> \<not> ao_swr a \<and> \<not> ao_out a)"
proof -
  have "case audio_objects AE mem pk fr hdr H of (r, H1) \<Rightarrow>
      (case r of None \<Rightarrow> H1 = H | Some a \<Rightarrow> H1 = H + audio_owned a \<and> \<not> ao_swr a \<and> \<not> ao_out a)"
    by (cases hdr; cases pk; cases fr)
      (simp_all add: audio_objects_def Let_def audio_destroy_owned audio_owned_def split: if_split)
  with assms show ?thesis by simp
qed

lemma audio_objects_some:
  assumes "a_alloc_frames AE = (pk \<and> fr)"
  shows "fst (audio_objects AE mem pk fr hdr H) \<noteq> None \<longleftrightarrow> mem \<and> rc_audio_create AE hdr \<noteq> None"
proof (cases hdr)
  case (Some m)
  have "rc_audio_create AE (Some m) \<noteq> None \<longleftrightarrow> am_codec_id m \<noteq> RC_ACODEC_ID_NONE \<and> am_codec_id m = RC_ACODEC_ID_OPUS \<and>
      a_find_decoder AE \<and> a_alloc_ctx AE \<and> a_extradata AE \<and> a_open AE \<and> pk \<and> fr \<and> ring_made AE m \<and> a_device_init AE \<and>
      a_device_start AE"
    by (cases pk; cases fr) (simp_all add: rc_audio_create_def Let_def ring_made_def [unfolded Let_def, symmetric] assms)
  then show ?thesis by (cases pk; cases fr) (simp_all add: Some audio_objects_def Let_def)
qed (simp add: audio_objects_def rc_audio_create_def)

lemma feed_objects_owned:
  assumes "feed_objects swr out a (H + audio_owned a) = (a', H')"
  shows "H' = H + audio_owned a'"
  using assms by (cases "ao_swr a"; cases "ao_out a"; cases swr; cases out) (auto simp: feed_objects_def Let_def audio_owned_def)

lemma decoder_objects_owned:
  assumes "decoder_objects E FF apple mem pk fr sw cdc allow_hw H = (r, H1)"
  shows "(case r of None \<Rightarrow> H1 = H | Some d \<Rightarrow> H1 = H + decoder_owned d)"
proof -
  define hw where "hw = (if (if hwdec_env_disabled E then False else allow_hw) then open_first FF (HW_KINDS apple) else None)"
  have "case decoder_objects E FF apple mem pk fr sw cdc allow_hw H of (r, H1) \<Rightarrow>
      (case r of None \<Rightarrow> H1 = H | Some d \<Rightarrow> H1 = H + decoder_owned d)"
    unfolding decoder_objects_def Let_def hw_def [symmetric]
    by (cases hw; cases pk; cases fr; cases sw)
      (simp_all add: decoder_destroy_owned decoder_owned_def split: if_split)
  with assms show ?thesis by simp
qed

lemma decoder_objects_some:
  "ff_alloc_frames FF = (pk \<and> fr \<and> sw) \<Longrightarrow>
   fst (decoder_objects E FF apple mem pk fr sw cdc allow_hw H) \<noteq> None \<longleftrightarrow> mem \<and> rc_decoder_create E FF apple cdc allow_hw \<noteq> None"
  by (cases pk; cases fr; cases sw) (simp_all add: decoder_objects_def rc_decoder_create_def Let_def)

text \<open>
  C14: the decoder and the player give back every library object.  Whatever of their allocations and
  initialisations fails, a failed creation leaves the objects alive as they were; a successful one happens
  exactly when the functional model creates the decoder or player; and destroying it, for the player after
  any number of packets that made it allocate more, leaves exactly the objects of before.
\<close>

theorem media_released:
  assumes "decoder_objects E FF apple mem pk fr sw cdc allow_hw H = (d, H1)" and "ff_alloc_frames FF = (pk \<and> fr \<and> sw)"
    and "audio_objects AE mem' pk' fr' hdr H1 = (a, H2)" and "a_alloc_frames AE = (pk' \<and> fr')"
  shows "(d \<noteq> None \<longleftrightarrow> mem \<and> rc_decoder_create E FF apple cdc allow_hw \<noteq> None) \<and> (d = None \<longrightarrow> H1 = H) \<and>
     (a \<noteq> None \<longleftrightarrow> mem' \<and> rc_audio_create AE hdr \<noteq> None) \<and> (a = None \<longrightarrow> H2 = H1) \<and>
     (\<forall>x fs a' H3. a = Some x \<and> feeds_objects fs x H2 = (a', H3) \<longrightarrow> rc_audio_destroy (Some a') H3 = H1) \<and>
     rc_decoder_destroy d H1 = H"
proof -
  have "rc_audio_destroy (Some a') H3 = H1" if "feeds_objects fs x (H1 + audio_owned x) = (a', H3)" for fs x a' H3
    using that
  proof (induction fs arbitrary: x)
    case Nil
    then show ?case by (auto simp: audio_destroy_owned)
  next
    case (Cons f fs)
    obtain x' H' where f: "feed_objects (fst f) (snd f) x (H1 + audio_owned x) = (x', H')" by fastforce
    from feed_objects_owned [OF f] f Cons show ?case by simp
  qed
  moreover have "rc_decoder_destroy d H1 = H"
    using decoder_objects_owned [OF assms(1)] by (cases d) (simp_all add: decoder_destroy_owned, simp add: rc_decoder_destroy_def)
  ultimately show ?thesis
    using decoder_objects_some [OF assms(2), of E apple mem cdc allow_hw H] audio_objects_some [OF assms(4), of mem' hdr H1]
      decoder_objects_owned [OF assms(1)] audio_objects_owned [OF assms(3)] assms(1,3)
    by (auto split: option.splits)
qed

definition demo_player_env :: audio_env where
  "demo_player_env = \<lparr>a_find_decoder = True, a_alloc_ctx = True, a_extradata = True, a_open = True,
     a_alloc_frames = True, a_rb_init = (\<lambda>_ _. True), a_device_init = True, a_device_start = False,
     a_send = (\<lambda>_. True), a_recv = (\<lambda>_. []), a_swr_alloc = (\<lambda>_. True), a_swr_init = (\<lambda>_. True),
     a_out_samples = (\<lambda>_. 0), a_realloc = (\<lambda>_. True), a_convert = (\<lambda>_. None)\<rparr>"

theorem media_released_witness:
  "\<exists>d H1. decoder_objects demo_env demo_ffmpeg False True True True True RC_CODEC_H264 True {#PcmRing#} = (Some d, H1) \<and>
     snd (audio_objects demo_player_env True True True
       (Some \<lparr>am_magic = 0, am_codec_id = RC_ACODEC_ID_OPUS, am_sample_rate = 48000, am_channels = 2\<rparr>) H1) = H1 \<and>
     rc_decoder_destroy (Some d) H1 = {#PcmRing#}"
proof -
  let ?m = "Some \<lparr>am_magic = 0, am_codec_id = RC_ACODEC_ID_OPUS, am_sample_rate = 48000, am_channels = 2\<rparr>"
  obtain d H1 where d: "decoder_objects demo_env demo_ffmpeg False True True True True RC_CODEC_H264 True {#PcmRing#} = (d, H1)"
    by fastforce
  obtain a H2 where a: "audio_objects demo_player_env True True True ?m H1 = (a, H2)" by fastforce
  have f: "ff_alloc_frames demo_ffmpeg = (True \<and> True \<and> True)" "a_alloc_frames demo_player_env = (True \<and> True)"
    by (simp_all add: demo_ffmpeg_def demo_player_env_def)
  have n: "rc_decoder_create demo_env demo_ffmpeg False RC_CODEC_H264 True \<noteq> None" "rc_audio_create demo_player_env ?m = None"
    by (simp_all add: rc_decoder_create_def demo_ffmpeg_def rc_audio_create_def demo_player_env_def Let_def)
  from media_released [OF d f(1) a f(2)] n have "d \<noteq> None" "H2 = H1" "rc_decoder_destroy d H1 = {#PcmRing#}" by auto
  with d a show ?thesis by auto
qed

end
