(* ===== verification/Agent_Proc.thy ===== *)
theory Agent_Proc
  imports RC_Adb
begin

text \<open>
  The process layer of \<^verbatim>\<open>rc-agent\<close>: \<^verbatim>\<open>frontends/agent/util.c\<close> (running \<^verbatim>\<open>adb\<close> under a deadline with
  its output captured, writing a whole buffer) and \<^verbatim>\<open>frontends/agent/adb.c\<close> (reading \<^verbatim>\<open>adb devices -l\<close>,
  the table of port forwards, the addresses to bind).  Logging is left out.
\<close>

section \<open>Pipes, reads and writes\<close>

definition sys_pipe :: "env \<Rightarrow> 'a os_scheme \<Rightarrow> (int \<times> int) option \<times> 'a os_scheme" where
  "sys_pipe E s =
     (if e_ret E (tick s) < 0 then (None, step_os E s)
      else
        let rfd = fresh_fd (open_fds s); wfd = fresh_fd (rfd # open_fds s) in
        (Some (rfd, wfd), (step_os E s)\<lparr>open_fds := wfd # rfd # open_fds s,
           inq := (inq s)(rfd := e_stream E (tick s))\<rparr>))"

definition sys_read :: "env \<Rightarrow> int \<Rightarrow> nat \<Rightarrow> 'a os_scheme \<Rightarrow> (read_res \<times> 'a os_scheme) option" where
  "sys_read E fd n s =
     (case sock_read (inq s fd) n of
        (ReadBlock, _) \<Rightarrow> None
      | (r, rest) \<Rightarrow> Some (r, (step_os E s)\<lparr>inq := (inq s)(fd := rest)\<rparr>))"

text \<open>\<^verbatim>\<open>write_full\<close> on what the peer accepts; \<^term>\<open>True\<close> is the return value 0.\<close>

fun write_full :: "wr_event list \<Rightarrow> byte list \<Rightarrow> (bool \<times> byte list \<times> wr_event list) option" where
  "write_full es buf =
     (if buf = [] then Some (True, [], es)
      else (case es of
              [] \<Rightarrow> None
            | e # es' \<Rightarrow>
                (case sink_write es (length buf) of
                   (WriteBlock, _) \<Rightarrow> None
                 | (WriteIntr, _) \<Rightarrow> write_full es' buf
                 | (WriteErr, _) \<Rightarrow> Some (False, [], es')
                 | (Wrote n, _) \<Rightarrow>
                     (case write_full es' (drop n buf) of
                        None \<Rightarrow> None
                      | Some (ok, out, es'') \<Rightarrow> Some (ok, take n buf @ out, es'')))))"

declare write_full.simps [simp del]

definition sys_write_full :: "env \<Rightarrow> int \<Rightarrow> byte list \<Rightarrow> 'a os_scheme \<Rightarrow> (bool \<times> 'a os_scheme) option" where
  "sys_write_full E fd buf s = do {
     (ok, out, rest) \<leftarrow> write_full (outq s fd) buf;
     Some (ok, (step_os E s)\<lparr>outq := (outq s)(fd := rest), sent := (sent s)(fd := sent s fd @ out)\<rparr>)
   }"

section \<open>Running a command\<close>

text \<open>The loop that collects the child's output until the buffer is full, the pipe ends or the
  deadline passes.  A signal can interrupt the poll any number of times.\<close>

partial_function (option) read_out ::
    "env \<Rightarrow> int \<Rightarrow> int \<Rightarrow> nat \<Rightarrow> byte list \<Rightarrow> 'a os_scheme \<Rightarrow> (byte list \<times> 'a os_scheme) option" where
  "read_out E fd deadline room got s =
     (if room \<le> length got then Some (got, s)
      else if deadline - clock s \<le> 0 then Some (got, s)
      else
        let en = e_errno E (tick s);
            (r, s1) = sys_poll E (nat (min 200 (deadline - clock s))) s in
        if r < 0 then (if en = EINTR then read_out E fd deadline room got s1 else Some (got, s1))
        else if r = 0 then read_out E fd deadline room got s1
        else do {
          (rr, s2) \<leftarrow> sys_read E fd (room - length got) s1;
          (case rr of
             Got bs \<Rightarrow> if bs = [] then Some (got, s2) else read_out E fd deadline room (got @ bs) s2
           | _ \<Rightarrow> Some (got, s2))
        })"

function cmd_wait :: "env \<Rightarrow> int \<Rightarrow> int \<Rightarrow> 'a os_scheme \<Rightarrow> int \<times> 'a os_scheme" where
  "cmd_wait E pid deadline s =
     (case sys_waitpid_nohang E pid s of
        (Reaped st, s1) \<Rightarrow> (if st = Exited 0 then 0 else -1, s1)
      | (WaitErr, s1) \<Rightarrow> (-1, s1)
      | (StillRunning, s1) \<Rightarrow>
          if deadline \<le> clock s1 then (-1, sys_kill_reap E pid s1)
          else cmd_wait E pid deadline (sleep_ms E 50 s1))"
  by pat_completeness auto
termination
proof (relation "measure (\<lambda>(E, pid, deadline, s). nat (deadline - clock s))", goal_cases)
  case (2 E pid deadline s w s1)
  then have "clock s \<le> clock s1"
    by (auto simp: sys_waitpid_nohang_def reap_def split: wait_res.splits)
  with 2 sleep_ms_fields(7) [of s1 50 E] show ?case by (simp del: sleep_ms_fields(7))
qed simp

declare cmd_wait.simps [simp del]

text \<open>\<open>cap\<close> is the size of the output buffer, \<^term>\<open>None\<close> when \<^verbatim>\<open>out\<close> is \<^verbatim>\<open>NULL\<close> (then the child's output
  goes to \<^verbatim>\<open>/dev/null\<close>).  Result: return value and captured bytes.\<close>

definition run_cmd ::
    "env \<Rightarrow> string list \<Rightarrow> nat \<Rightarrow> nat option \<Rightarrow> 'a os_scheme \<Rightarrow> (int \<times> byte list \<times> 'a os_scheme) option" where
  "run_cmd E argv timeout_ms cap s =
     (case cap of
        None \<Rightarrow>
          (let (p, s) = sys_spawn E argv s in
           case p of
             None \<Rightarrow> Some (-1, [], s)
           | Some pid \<Rightarrow> (let (r, s) = cmd_wait E pid (clock s + int timeout_ms) s in Some (r, [], s)))
      | Some out_sz \<Rightarrow>
          (let (pp, s) = sys_pipe E s in
           case pp of
             None \<Rightarrow> Some (-1, [], s)
           | Some (rfd, wfd) \<Rightarrow>
               (let (p, s) = sys_spawn E argv s; s = sys_close E wfd s in
                case p of
                  None \<Rightarrow> Some (-1, [], sys_close E rfd s)
                | Some pid \<Rightarrow> do {
                    let deadline = clock s + int timeout_ms;
                    (got, s) \<leftarrow> read_out E rfd deadline (out_sz - 1) [] s;
                    let (r, s) = cmd_wait E pid deadline (sys_close E rfd s);
                    Some (r, got, s)
                  })))"

section \<open>adb devices\<close>

record dev =
  d_serial :: string
  d_model :: string

text \<open>The C string in a buffer: the bytes before the first NUL.\<close>

definition cstr :: "byte list \<Rightarrow> string" where
  "cstr bs = map (\<lambda>b. char_of (unat b)) (takeWhile (\<lambda>b. b \<noteq> 0) bs)"

text \<open>\<^verbatim>\<open>strtok_r(s, "\n")\<close>: the non-empty pieces.\<close>

definition lines_of :: "string \<Rightarrow> string list" where
  "lines_of s = filter (\<lambda>l. l \<noteq> []) (split_on LF s)"

text \<open>The conversion \<^verbatim>\<open>%<n>s\<close> of \<^verbatim>\<open>sscanf\<close>: white space is skipped, then up to \<open>n\<close> other characters.\<close>

definition scan_word :: "nat \<Rightarrow> string \<Rightarrow> (string \<times> string) option" where
  "scan_word n s =
     (let t = dropWhile is_space s; w = take n (takeWhile (\<lambda>c. \<not> is_space c) t) in
      if w = [] then None else Some (w, drop (length w) t))"

text \<open>\<^verbatim>\<open>strstr\<close>: what follows the first occurrence of \<open>pat\<close>.\<close>

fun after_sub :: "string \<Rightarrow> string \<Rightarrow> string option" where
  "after_sub pat [] = (if pat = [] then Some [] else None)"
| "after_sub pat (c # cs) =
     (if take (length pat) (c # cs) = pat then Some (drop (length pat) (c # cs)) else after_sub pat cs)"

definition parse_dev :: "string \<Rightarrow> dev option" where
  "parse_dev line =
     (case scan_word 127 line of
        None \<Rightarrow> None
      | Some (ser, rest) \<Rightarrow>
          (case scan_word 63 rest of
             None \<Rightarrow> None
           | Some (state, _) \<Rightarrow>
               if state \<noteq> ''device'' then None
               else Some \<lparr>d_serial = fit 128 ser,
                    d_model = (case after_sub ''model:'' line of
                       None \<Rightarrow> []
                     | Some m \<Rightarrow> (case scan_word 95 m of None \<Rightarrow> [] | Some (w, _) \<Rightarrow> w))\<rparr>))"

fun parse_devices :: "nat \<Rightarrow> string list \<Rightarrow> dev list" where
  "parse_devices cap [] = []"
| "parse_devices cap (l # ls) =
     (if cap = 0 then []
      else (case parse_dev l of
              None \<Rightarrow> parse_devices cap ls
            | Some d \<Rightarrow> d # parse_devices (cap - 1) ls))"

text \<open>\<^term>\<open>None\<close> inside is the return value \<open>-1\<close>.\<close>

definition list_devices :: "env \<Rightarrow> nat \<Rightarrow> 'a os_scheme \<Rightarrow> (dev list option \<times> 'a os_scheme) option" where
  "list_devices E cap s = do {
     (r, out, s) \<leftarrow> run_cmd E [''adb'', ''devices'', ''-l''] 10000 (Some 16384) s;
     Some (if r \<noteq> 0 then None else Some (parse_devices cap (lines_of (cstr out))), s)
   }"

section \<open>Port forwards\<close>

record fwd =
  f_serial :: string
  f_loc_port :: int

record fwd_sys = os +
  g_fwds :: "fwd list"    \<comment> \<open>the first \<^verbatim>\<open>g_nfwd\<close> entries of the array\<close>

definition FWD_CAP :: nat where "FWD_CAP = 128"

definition forward_argv :: "string \<Rightarrow> int \<Rightarrow> int \<Rightarrow> string list" where
  "forward_argv ser loc_port dev_port =
     [''adb'', ''-s'', ser, ''forward'', fit 32 (''tcp:'' @ show_int loc_port),
      fit 32 (''tcp:'' @ show_int dev_port)]"

definition remember_fwd :: "string \<Rightarrow> int \<Rightarrow> fwd list \<Rightarrow> fwd list" where
  "remember_fwd ser loc_port fs =
     (if list_ex (\<lambda>f. f_loc_port f = loc_port \<and> f_serial f = ser) fs then fs
      else if length fs < FWD_CAP then fs @ [\<lparr>f_serial = fit 128 ser, f_loc_port = loc_port\<rparr>]
      else fs)"

definition adb_forward ::
    "env \<Rightarrow> string \<Rightarrow> int \<Rightarrow> int \<Rightarrow> 'a fwd_sys_scheme \<Rightarrow> (int \<times> 'a fwd_sys_scheme) option" where
  "adb_forward E ser loc_port dev_port s = do {
     (r, _, s) \<leftarrow> run_cmd E (forward_argv ser loc_port dev_port) 10000 None s;
     Some (if r \<noteq> 0 then (-1, s) else (0, s\<lparr>g_fwds := remember_fwd ser loc_port (g_fwds s)\<rparr>))
   }"

definition remove_argv :: "fwd \<Rightarrow> string list" where
  "remove_argv f = [''adb'', ''-s'', f_serial f, ''forward'', ''--remove'',
     fit 32 (''tcp:'' @ show_int (f_loc_port f))]"

fun remove_all :: "env \<Rightarrow> fwd list \<Rightarrow> 'a os_scheme \<Rightarrow> 'a os_scheme option" where
  "remove_all E [] s = Some s"
| "remove_all E (f # fs) s = do {
     (_, _, s) \<leftarrow> run_cmd E (remove_argv f) 5000 None s;
     remove_all E fs s
   }"

definition cleanup_forwards :: "env \<Rightarrow> 'a fwd_sys_scheme \<Rightarrow> 'a fwd_sys_scheme option" where
  "cleanup_forwards E s = do {
     s \<leftarrow> remove_all E (g_fwds s) s;
     Some (s\<lparr>g_fwds := []\<rparr>)
   }"

definition verify_guest_adb :: "env \<Rightarrow> int \<Rightarrow> 'a os_scheme \<Rightarrow> (bool \<times> 'a os_scheme) option" where
  "verify_guest_adb E loc_port s = do {
     let addr = fit 32 (''127.0.0.1:'' @ show_int loc_port);
     (c, _, s) \<leftarrow> run_cmd E [''adb'', ''connect'', addr] 10000 None s;
     (ok, s) \<leftarrow> (if c = 0 then do {
         (g, _, s) \<leftarrow> run_cmd E [''adb'', ''-s'', addr, ''get-state''] 5000 None s;
         Some (g = 0, s)
       } else Some (False, s));
     (_, _, s) \<leftarrow> run_cmd E [''adb'', ''disconnect'', addr] 5000 None s;
     Some (ok, s)
   }"

section \<open>Kinds of devices, addresses to bind\<close>

definition dev_kind :: "string \<Rightarrow> string" where
  "dev_kind ser =
     (if take 9 ser = ''emulator-'' then ''emulator''
      else if CHR '':'' \<in> set ser then ''wireless'' else ''USB'')"

definition iface_skipped :: "string \<Rightarrow> bool" where
  "iface_skipped name \<longleftrightarrow> take 2 name = ''lo'' \<or> take 6 name = ''docker'' \<or>
     take 3 name = ''br-'' \<or> take 4 name = ''veth''"

text \<open>An entry of \<^verbatim>\<open>getifaddrs\<close>: its name and, when it has an \<^verbatim>\<open>AF_INET\<close> address, its printed form.\<close>

record ifaddr =
  ifa_name :: string
  ifa_inet :: "string option"

fun host_ips_loop :: "nat \<Rightarrow> ifaddr list \<Rightarrow> (string \<times> string) list" where
  "host_ips_loop cap [] = []"
| "host_ips_loop cap (i # is) =
     (if cap = 0 then []
      else (case ifa_inet i of
              None \<Rightarrow> host_ips_loop cap is
            | Some ip \<Rightarrow>
                if iface_skipped (ifa_name i) then host_ips_loop cap is
                else if take 8 ip = ''169.254.'' then host_ips_loop cap is
                else (ip, fit 32 (ifa_name i)) # host_ips_loop (cap - 1) is))"

definition host_ips :: "nat \<Rightarrow> ifaddr list option \<Rightarrow> (string \<times> string) list" where
  "host_ips cap ifs = (case ifs of None \<Rightarrow> [] | Some l \<Rightarrow> host_ips_loop cap l)"

section \<open>Writing\<close>

lemma write_full_core:
  "write_full es buf = map_option (\<lambda>(r, out, es'). (r = RC_OK, out, es')) (rc_net_write_full es buf)"
proof (induction es arbitrary: buf)
  case Nil
  then show ?case by (subst write_full.simps) (cases "buf = []", simp_all)
next
  case (Cons e es)
  show ?case
  proof (cases "buf = []")
    case True
    then show ?thesis by (subst write_full.simps) simp
  next
    case False
    then show ?thesis
      by (cases e; subst write_full.simps)
        (auto simp: write_full_Accept Cons.IH min_def split: option.splits)
  qed
qed

lemma write_full_cases:
  assumes "write_full es buf = Some (ok, out, es')"
  shows "ok \<longleftrightarrow> out = buf" and "\<exists>rest. buf = out @ rest"
proof -
  from assms obtain r where r: "rc_net_write_full es buf = Some (r, out, es')" "ok = (r = RC_OK)"
    by (auto simp: write_full_core)
  from write_full_result [OF r(1)] r(2) show "ok \<longleftrightarrow> out = buf" "\<exists>rest. buf = out @ rest" by auto
qed

lemma write_full_fits: "length buf \<le> sink_room es \<Longrightarrow> \<exists>es'. write_full es buf = Some (True, buf, es')"
  using write_full_room [of buf es] by (auto simp: write_full_core)

section \<open>What a command leaves behind\<close>

text \<open>The frame of a command: the descriptors and their streams are those from before, the state of the
  program is untouched, the log only grows, and every child is reaped.\<close>

definition cmd_frame :: "env \<Rightarrow> 'a os_scheme \<Rightarrow> 'a os_scheme \<Rightarrow> bool" where
  "cmd_frame E s s' \<longleftrightarrow>
     set (open_fds s') = set (open_fds s) \<and> os.more s' = os.more s \<and> clock s \<le> clock s' \<and>
     outq s' = outq s \<and> sent s' = sent s \<and> (\<forall>fd \<in> set (open_fds s). inq s' fd = inq s fd) \<and>
     (waits_ok E \<longrightarrow> set (children s') = set (children s)) \<and> (\<exists>l. evlog s' = evlog s @ l)"

lemma cmd_frame_refl [simp]: "cmd_frame E s s"
  by (simp add: cmd_frame_def)

lemma cmd_frame_trans: "cmd_frame E s t \<Longrightarrow> cmd_frame E t u \<Longrightarrow> cmd_frame E s u"
  by (auto simp: cmd_frame_def)

lemma cmd_frame_step [simp]: "cmd_frame E s (step_os E s)" "cmd_frame E s (sleep_ms E ms s)"
  by (simp_all add: cmd_frame_def step_os_def sleep_ms_def)

lemma cmd_wait_spec:
  "cmd_wait E pid deadline s = (r, s') \<Longrightarrow>
     fd_calm s s' \<and> (waits_ok E \<longrightarrow> set (children s') = set (children s) - {pid}) \<and>
     (\<exists>l. evlog s' = evlog s @ l)"
proof (induction E pid deadline s rule: cmd_wait.induct)
  case (1 E pid deadline s)
  obtain w s1 where w: "sys_waitpid_nohang E pid s = (w, s1)" by fastforce
  then have calm1: "fd_calm s s1" and ev: "evlog s1 = evlog s"
    by (auto simp: sys_waitpid_nohang_def reap_def split: wait_res.splits)
  show ?case
  proof (cases w)
    case StillRunning
    then have ch: "children s1 = children s"
      using w by (auto simp: sys_waitpid_nohang_def split: wait_res.splits)
    show ?thesis
    proof (cases "deadline \<le> clock s1")
      case True
      with 1(2) w StillRunning have s': "s' = sys_kill_reap E pid s1" by (simp add: cmd_wait.simps)
      then have "fd_calm s s'" using fd_calm_trans [OF calm1, of s'] by simp
      with s' ch ev show ?thesis by (auto simp: sys_kill_reap_def reap_def)
    next
      case False
      let ?s2 = "sleep_ms E 50 s1"
      from False 1(2) w StillRunning have rec: "cmd_wait E pid deadline ?s2 = (r, s')"
        by (subst (asm) cmd_wait.simps) simp
      from 1(1) [OF w [symmetric] StillRunning False rec]
      have IH: "fd_calm ?s2 s'" "waits_ok E \<longrightarrow> set (children s') = set (children ?s2) - {pid}"
        "\<exists>l. evlog s' = evlog ?s2 @ l" by auto
      have "fd_calm s s'"
        using fd_calm_trans [OF calm1 fd_calm_trans [OF _ IH(1)]] by simp
      with IH ch ev show ?thesis by simp
    qed
  next
    case (Reaped st)
    with 1(2) w have "s' = s1" by (simp add: cmd_wait.simps)
    with w Reaped calm1 ev show ?thesis
      by (auto simp: sys_waitpid_nohang_def reap_def split: wait_res.splits)
  next
    case WaitErr
    with 1(2) w have "s' = s1" by (simp add: cmd_wait.simps)
    moreover have "\<not> waits_ok E"
      using w WaitErr by (auto simp: sys_waitpid_nohang_def waits_ok_def split: wait_res.splits)
    ultimately show ?thesis using calm1 ev by auto
  qed
qed

text \<open>Reading a descriptor changes the stream of that descriptor only.\<close>

definition read_frame :: "int \<Rightarrow> 'a os_scheme \<Rightarrow> 'a os_scheme \<Rightarrow> bool" where
  "read_frame fd s s' \<longleftrightarrow>
     open_fds s' = open_fds s \<and> children s' = children s \<and> os.more s' = os.more s \<and>
     clock s \<le> clock s' \<and> outq s' = outq s \<and> sent s' = sent s \<and> evlog s' = evlog s \<and>
     (\<forall>g. g \<noteq> fd \<longrightarrow> inq s' g = inq s g)"

lemma read_frame_refl [simp]: "read_frame fd s s"
  by (simp add: read_frame_def)

lemma read_frame_trans: "read_frame fd s t \<Longrightarrow> read_frame fd t u \<Longrightarrow> read_frame fd s u"
  by (auto simp: read_frame_def)

lemma read_frame_poll: "sys_poll E ms s = (r, s') \<Longrightarrow> read_frame fd s s' \<and> inq s' = inq s"
  by (auto simp: sys_poll_def Let_def read_frame_def sleep_ms_def step_os_def split: if_splits)

lemma read_frame_read: "sys_read E fd n s = Some (r, s') \<Longrightarrow> read_frame fd s s'"
  by (auto simp: sys_read_def read_frame_def step_os_def split: prod.splits read_res.splits)

lemma sys_read_length:
  "sys_read E fd n s = Some (Got bs, s') \<Longrightarrow> length bs \<le> n"
  by (cases "(inq s fd, n)" rule: sock_read.cases)
    (auto simp: sys_read_def split: if_splits)

lemma read_out_frame:
  assumes "read_out E fd deadline room got s = Some (out, s')"
  shows "read_frame fd s s' \<and> (length got \<le> room \<longrightarrow> length out \<le> room)"
proof -
  define P where "P = (\<lambda>(E :: env) fd (deadline :: int) room (got :: byte list) (s :: 'a os_scheme) y.
      read_frame fd s (snd y) \<and> (length got \<le> room \<longrightarrow> length (fst y :: byte list) \<le> room))"
  have "P E fd deadline room got s (out, s')"
  proof (rule read_out.raw_induct [OF _ assms], goal_cases)
    case (1 rec E fd deadline room got s y)
    obtain r s1 where p: "sys_poll E (nat (min 200 (deadline - clock s))) s = (r, s1)" by fastforce
    note f1 = read_frame_poll [OF p, of fd]
    show ?case
    proof (cases "room \<le> length got \<or> deadline \<le> clock s \<or> r \<le> 0")
      case True
      with 1(2) p f1 show ?thesis
        by (auto simp: P_def Let_def split: if_splits dest!: 1(1) intro: read_frame_trans)
    next
      case False
      then obtain rr s2 where rd: "sys_read E fd (room - length got) s1 = Some (rr, s2)"
        using 1(2) p by (auto simp: Let_def bind_eq_Some_conv split: if_splits)
      have f2: "read_frame fd s s2" using f1 read_frame_read [OF rd] read_frame_trans by blast
      show ?thesis
      proof (cases "\<exists>bs. rr = Got bs \<and> bs \<noteq> []")
        case True
        then obtain bs where bs: "rr = Got bs" "bs \<noteq> []" by blast
        with 1(2) p False rd have "rec E fd deadline room (got @ bs) s2 = Some y"
          by (simp add: Let_def)
        from 1(1) [OF this] f2 sys_read_length [OF rd [unfolded bs(1)]] False show ?thesis
          by (auto simp: P_def intro: read_frame_trans)
      next
        case no: False
        with 1(2) p rd f2 False show ?thesis
          by (auto simp: P_def Let_def split: read_res.splits if_splits)
      qed
    qed
  qed
  then show ?thesis by (simp add: P_def)
qed

text \<open>Signals stop arriving after finitely many calls, and every pipe ends.\<close>

definition signals_end :: "env \<Rightarrow> nat \<Rightarrow> bool" where
  "signals_end E N \<longleftrightarrow> (\<forall>n\<ge>N. e_errno E n \<noteq> EINTR)"

definition pipes_end :: "env \<Rightarrow> bool" where
  "pipes_end E \<longleftrightarrow> (\<forall>n. Eof \<in> set (e_stream E n))"

lemma sys_read_Eof:
  assumes "Eof \<in> set (inq s fd)"
  shows "\<exists>r s'. sys_read E fd n s = Some (r, s') \<and> Eof \<in> set (inq s' fd)"
  using assms by (cases "(inq s fd, n)" rule: sock_read.cases) (auto simp: sys_read_def)

lemma sys_read_tick: "sys_read E fd n s = Some (r, s') \<Longrightarrow> tick s' = Suc (tick s)"
  by (auto simp: sys_read_def split: prod.splits read_res.splits)

lemma sys_poll_tick: "sys_poll E ms s = (r, s') \<Longrightarrow> tick s' = Suc (tick s)"
  by (auto simp: sys_poll_def Let_def sleep_ms_def split: if_splits)

lemma sys_poll_zero: "sys_poll E ms s = (0, s') \<Longrightarrow> clock s + int ms \<le> clock s'"
  by (auto simp: sys_poll_def Let_def sleep_ms_def split: if_splits)

lemma read_out_returns:
  assumes "signals_end E N" and "Eof \<in> set (inq s fd)"
  shows "\<exists>y. read_out E fd deadline room got s = Some y"
  using assms(2)
proof (induction "(N - tick s, nat (deadline - clock s) + (room - length got))" arbitrary: got s
    rule: wf_induct [OF wf_lex_prod [OF wf_less_than wf_less_than]])
  case (1 got s)
  note IH = 1(1) [rule_format, OF _ refl]
  obtain r s1 where p: "sys_poll E (nat (min 200 (deadline - clock s))) s = (r, s1)" by fastforce
  note f1 = read_frame_poll [OF p, of fd] and t1 = sys_poll_tick [OF p]
  have in1: "Eof \<in> set (inq s1 fd)" using f1 1(2) by simp
  have c1: "clock s \<le> clock s1" using f1 by (simp add: read_frame_def)
  show ?case
  proof (cases "room \<le> length got \<or> deadline \<le> clock s")
    case True
    then show ?thesis by (subst read_out.simps) auto
  next
    case go: False
    consider (intr) "r < 0" "e_errno E (tick s) = EINTR" | (err) "r < 0" "e_errno E (tick s) \<noteq> EINTR"
      | (zero) "r = 0" | (pos) "0 < r" by linarith
    then show ?thesis
    proof cases
      case intr
      with assms(1) have "tick s < N" by (metis signals_end_def not_le)
      with t1 have "\<exists>y. read_out E fd deadline room got s1 = Some y" by (intro IH in1) auto
      with go p intr show ?thesis by (subst read_out.simps) auto
    next
      case err
      with go p show ?thesis by (subst read_out.simps) auto
    next
      case zero
      with sys_poll_zero p go have "clock s < clock s1" by force
      with t1 c1 go have "\<exists>y. read_out E fd deadline room got s1 = Some y"
        by (intro IH in1) (auto simp: diff_le_mono2 le_less)
      with go p zero show ?thesis by (subst read_out.simps) auto
    next
      case pos
      obtain rr s2 where rd: "sys_read E fd (room - length got) s1 = Some (rr, s2)"
        "Eof \<in> set (inq s2 fd)" using sys_read_Eof [OF in1] by blast
      note f2 = read_frame_read [OF rd(1)] and t2 = sys_read_tick [OF rd(1)]
      show ?thesis
      proof (cases "\<exists>bs. rr = Got bs \<and> bs \<noteq> []")
        case True
        then obtain bs where bs: "rr = Got bs" "bs \<noteq> []" by blast
        have "room - length (got @ bs) < room - length got" using go bs by (cases bs) auto
        moreover have "clock s \<le> clock s2" using c1 f2 by (simp add: read_frame_def)
        ultimately have "\<exists>y. read_out E fd deadline room (got @ bs) s2 = Some y"
          using t1 t2 by (intro IH rd(2)) (auto simp: diff_le_mono2 le_less)
        with go p pos rd bs show ?thesis by (subst read_out.simps) (auto simp: Let_def)
      next
        case False
        with go p pos rd show ?thesis
          by (subst read_out.simps) (auto simp: Let_def split: read_res.splits)
      qed
    qed
  qed
qed

lemma sys_pipe_Some:
  assumes "sys_pipe E s = (Some (rfd, wfd), s')"
  shows "rfd \<notin> set (open_fds s)" and "wfd \<notin> set (open_fds s)" and "rfd \<noteq> wfd"
    and "set (open_fds s') = insert wfd (insert rfd (set (open_fds s)))"
    and "children s' = children s" and "os.more s' = os.more s" and "clock s \<le> clock s'"
    and "outq s' = outq s" and "sent s' = sent s" and "evlog s' = evlog s"
    and "inq s' = (inq s)(rfd := e_stream E (tick s))"
  using assms fresh_fd_ok [of "open_fds s"] fresh_fd_ok [of "rfd # open_fds s"]
  by (auto simp: sys_pipe_def Let_def step_os_def split: if_splits)

lemma sys_pipe_None: "sys_pipe E s = (None, s') \<Longrightarrow> cmd_frame E s s'"
  by (auto simp: sys_pipe_def Let_def split: if_splits)

lemma run_cmd_plain_frame:
  assumes "run_cmd E argv t None s = Some (r, out, s')"
  shows "cmd_frame E s s'" and "out = []"
proof -
  obtain p s1 where sp: "sys_spawn E argv s = (p, s1)" by fastforce
  then have c1: "fd_calm s s1" by simp
  have "cmd_frame E s s' \<and> out = []"
  proof (cases p)
    case None
    with sp assms c1 sys_spawn_None [of E argv s s1] show ?thesis
      by (auto simp: run_cmd_def cmd_frame_def fd_calm_def sys_spawn_def Let_def split: if_splits)
  next
    case (Some pid)
    note pid = sys_spawn_Some [OF sp [unfolded Some]]
    from Some sp assms have w: "cmd_wait E pid (clock s1 + int t) s1 = (r, s')" "out = []"
      by (auto simp: run_cmd_def split: prod.splits)
    from cmd_wait_spec [OF w(1)] fd_calm_trans [OF c1, of s'] pid w(2) show ?thesis
      by (auto simp: cmd_frame_def fd_calm_def)
  qed
  then show "cmd_frame E s s'" "out = []" by auto
qed

lemma sys_close_set [simp]: "set (open_fds (sys_close E fd s)) = set (open_fds s) - {fd}"
  by (auto simp: sys_close_def)

lemma sys_close_rest [simp]:
  "children (sys_close E fd s) = children s" "os.more (sys_close E fd s) = os.more s"
  "clock s \<le> clock (sys_close E fd s)" "outq (sys_close E fd s) = outq s"
  "sent (sys_close E fd s) = sent s" "inq (sys_close E fd s) = inq s"
  "evlog (sys_close E fd s) = evlog s @ [Closed fd]" "tick (sys_close E fd s) = Suc (tick s)"
  by (simp_all add: sys_close_def step_os_def)

lemma run_cmd_capture:
  assumes "sys_pipe E s = (Some (rfd, wfd), s1)" and "sys_spawn E argv s1 = (Some pid, s2)"
  shows "run_cmd E argv t (Some sz) s =
    (let s3 = sys_close E wfd s2; dl = clock s3 + int t in
     map_option (\<lambda>(got, s4). (fst (cmd_wait E pid dl (sys_close E rfd s4)), got,
         snd (cmd_wait E pid dl (sys_close E rfd s4))))
       (read_out E rfd dl (sz - 1) [] s3))"
  using assms
  by (cases "read_out E rfd (clock (sys_close E wfd s2) + int t) (sz - 1) [] (sys_close E wfd s2)")
    (auto simp: run_cmd_def Let_def case_prod_beta)

lemma run_cmd_capture_frame:
  assumes "run_cmd E argv t (Some sz) s = Some (r, out, s')" and "0 < sz"
  shows "cmd_frame E s s'" and "length out < sz"
proof -
  obtain pp s1 where pp: "sys_pipe E s = (pp, s1)" by fastforce
  have "cmd_frame E s s' \<and> length out < sz"
  proof (cases pp)
    case None
    with pp assms show ?thesis by (auto simp: run_cmd_def sys_pipe_None)
  next
    case (Some q)
    then obtain rfd wfd where fds: "pp = Some (rfd, wfd)" by (cases q) auto
    note pipe = sys_pipe_Some [OF pp [unfolded fds]]
    obtain p s2 where sp: "sys_spawn E argv s1 = (p, s2)" by fastforce
    then have c2: "fd_calm s1 s2" by simp
    let ?s3 = "sys_close E wfd s2"
    show ?thesis
    proof (cases p)
      case None
      with pp fds sp assms have "s' = sys_close E rfd ?s3" "out = []"
        by (auto simp: run_cmd_def split: prod.splits)
      with None pipe c2 sp sys_spawn_None [of E argv s1 s2] assms(2) show ?thesis
        using sys_close_rest(3) [of s2 E wfd] sys_close_rest(3) [of ?s3 E rfd]
        by (auto simp: cmd_frame_def fd_calm_def sys_spawn_def Let_def simp del: sys_close_rest(3)
            split: if_splits)
    next
      case (Some pid)
      note pid = sys_spawn_Some [OF sp [unfolded Some]]
      let ?dl = "clock ?s3 + int t"
      from Some pp fds sp assms obtain s4 where
        rd: "read_out E rfd ?dl (sz - 1) [] ?s3 = Some (out, s4)"
        and w: "cmd_wait E pid ?dl (sys_close E rfd s4) = (r, s')"
        using run_cmd_capture [of E s rfd wfd s1 argv pid s2 t sz] by (auto simp: Let_def)
      note f = read_out_frame [OF rd] and cw = cmd_wait_spec [OF w]
      have "clock s \<le> clock s'"
        using pipe(7) c2 f cw sys_close_rest(3) [of s2 E wfd] sys_close_rest(3) [of s4 E rfd]
        unfolding fd_calm_def read_frame_def by linarith
      with pipe c2 pid f cw assms(2) show ?thesis
        by (auto simp: cmd_frame_def fd_calm_def read_frame_def)
    qed
  qed
  then show "cmd_frame E s s'" "length out < sz" by auto
qed

lemma run_cmd_returns:
  assumes "cap = None \<or> (signals_end E N \<and> pipes_end E)"
  shows "\<exists>r out s'. run_cmd E argv t cap s = Some (r, out, s')"
proof (cases cap)
  case None
  then show ?thesis by (auto simp: run_cmd_def split: prod.splits option.splits)
next
  case (Some sz)
  with assms have sig: "signals_end E N" and eof: "pipes_end E" by auto
  obtain pp s1 where pp: "sys_pipe E s = (pp, s1)" by fastforce
  obtain p s2 where sp: "sys_spawn E argv s1 = (p, s2)" by fastforce
  show ?thesis
  proof (cases pp)
    case None
    with Some pp show ?thesis by (simp add: run_cmd_def)
  next
    case (Some q)
    then obtain rfd wfd where fds: "pp = Some (rfd, wfd)" by (cases q) auto
    have "fd_calm s1 s2" using sp by simp
    then have "Eof \<in> set (inq (sys_close E wfd s2) rfd)"
      using eof sys_pipe_Some(11) [OF pp [unfolded fds]] by (simp add: fd_calm_def pipes_end_def)
    from read_out_returns [OF sig this] show ?thesis
      using \<open>cap = Some sz\<close> pp fds sp run_cmd_capture [of E s rfd wfd s1 argv _ s2 t sz]
      by (cases p) (simp add: run_cmd_def Let_def, force simp: Let_def)
  qed
qed

text \<open>
  C32: a command whose output is captured always returns.  When signals stop arriving and the pipe ends,
  \<^verbatim>\<open>run_cmd\<close> returns whatever the child does; the output with its terminator fits the buffer, both ends
  of the pipe are closed again and the child is reaped.
\<close>

theorem agent_cmd_returns:
  assumes "signals_end E N" and "pipes_end E" and "0 < sz"
  shows "\<exists>r out s'. run_cmd E argv t (Some sz) s = Some (r, out, s') \<and> length out < sz \<and>
     set (open_fds s') = set (open_fds s) \<and>
     (waits_ok E \<longrightarrow> set (children s') = set (children s))"
proof -
  obtain r out s' where "run_cmd E argv t (Some sz) s = Some (r, out, s')"
    using run_cmd_returns [of "Some sz" E N] assms by blast
  with run_cmd_capture_frame [OF this assms(3)] show ?thesis by (auto simp: cmd_frame_def)
qed

text \<open>A child that prints two chunks, then ends with exit code 0.\<close>

definition demo_adb_env :: env where
  "demo_adb_env = demo_env\<lparr>e_ret := (\<lambda>n. if n = 1 then 0 else 1),
     e_errno := (\<lambda>n. if n = 3 then EINTR else EOther),
     e_stream := (\<lambda>_. [Chunk (map of_char ''List of devices attached''), Chunk [10], Eof]),
     e_wait := (\<lambda>_. Reaped (Exited 0))\<rparr>"

theorem agent_cmd_returns_witness:
  "signals_end demo_adb_env 4 \<and> pipes_end demo_adb_env \<and> waits_ok demo_adb_env \<and>
   (\<exists>r s'. run_cmd demo_adb_env [''adb'', ''devices''] 10000 (Some 16384) demo_os =
      Some (r, map of_char (''List of devices attached'' @ [LF]), s') \<and> r = 0 \<and>
      set (open_fds s') = {0, 1, 2} \<and> children s' = [])"
proof -
  let ?run = "run_cmd demo_adb_env [''adb'', ''devices''] 10000 (Some 16384) demo_os"
  have h: "signals_end demo_adb_env 4" "pipes_end demo_adb_env" "waits_ok demo_adb_env"
    by (simp_all add: signals_end_def pipes_end_def waits_ok_def demo_adb_env_def demo_env_def)
  obtain r out s' where r: "?run = Some (r, out, s')" "set (open_fds s') = {0, 1, 2}" "children s' = []"
    using agent_cmd_returns [OF h(1,2), of 16384 "[''adb'', ''devices'']" 10000 demo_os] h(3)
    by (auto simp: demo_os_def)
  have "map_option (\<lambda>(r, out, s'). (r, out)) ?run =
      Some (0, map of_char (''List of devices attached'' @ [LF]))"
    by (simp add: run_cmd_def sys_pipe_def sys_spawn_def demo_adb_env_def demo_env_def demo_os_def
        fresh_fd_def read_out.simps sys_poll_def sys_read_def Let_def step_os_def sys_close_def
        cmd_wait.simps sys_waitpid_nohang_def reap_def LF_def)
  with r h show ?thesis by auto
qed

section \<open>Reading the device list\<close>

lemma unat_of_char [simp]: "unat (of_char c :: byte) = of_char c"
proof -
  have "(of_char c :: byte) = of_nat (of_char c)" by (rule of_nat_of_char [symmetric])
  then have "unat (of_char c :: byte) = of_char c mod 256" by (simp only: unat_of_nat) simp
  moreover have "(of_char c :: nat) < 256" by simp
  ultimately show ?thesis by simp
qed

lemma of_char_zero: "(of_char c :: byte) = 0 \<longleftrightarrow> c = CHR 0x00"
proof
  assume "(of_char c :: byte) = 0"
  then have "(of_char c :: nat) = 0" by (metis unat_of_char unat_0)
  then have "(of_char c :: nat) = of_char (CHR 0x00)" by simp
  then show "c = CHR 0x00" by (simp only: of_char_eq_iff)
qed simp

lemma cstr_of_char: "CHR 0x00 \<notin> set s \<Longrightarrow> cstr (map of_char s) = s"
  by (induction s) (auto simp: cstr_def of_char_zero)

text \<open>What \<^verbatim>\<open>adb devices -l\<close> prints: a heading, then a line per device with its serial, its state and
  attributes \<open>name:value\<close>, among them possibly \<^verbatim>\<open>model:\<close>.\<close>

record adb_entry =
  a_serial :: string
  a_gap :: nat
  a_state :: string
  a_attrs :: string
  a_model :: "string option"
  a_tail :: string

definition adb_line :: "adb_entry \<Rightarrow> string" where
  "adb_line a = a_serial a @ replicate (a_gap a) (CHR '' '') @ a_state a @ CHR '' '' # a_attrs a @
     (case a_model a of None \<Rightarrow> [] | Some m \<Rightarrow> CHR '' '' # ''model:'' @ m @ CHR '' '' # a_tail a)"

definition adb_output :: "adb_entry list \<Rightarrow> string" where
  "adb_output as = ''List of devices attached'' @ LF # concat (map (\<lambda>a. adb_line a @ [LF]) as)"

definition word_ok :: "nat \<Rightarrow> string \<Rightarrow> bool" where
  "word_ok n w \<longleftrightarrow> w \<noteq> [] \<and> length w \<le> n \<and> list_all (\<lambda>c. \<not> is_space c \<and> c \<noteq> CHR 0x00) w"

definition entry_ok :: "adb_entry \<Rightarrow> bool" where
  "entry_ok a \<longleftrightarrow> word_ok 127 (a_serial a) \<and> 0 < a_gap a \<and> word_ok 63 (a_state a) \<and>
     LF \<notin> set (a_attrs a) \<and> LF \<notin> set (a_tail a) \<and>
     (case a_model a of None \<Rightarrow> True | Some m \<Rightarrow> word_ok 95 m) \<and>
     after_sub ''model:''
       (a_serial a @ replicate (a_gap a) (CHR '' '') @ a_state a @ CHR '' '' # a_attrs a) = None"

definition entry_dev :: "adb_entry \<Rightarrow> dev" where
  "entry_dev a = \<lparr>d_serial = a_serial a, d_model = (case a_model a of None \<Rightarrow> [] | Some m \<Rightarrow> m)\<rparr>"

lemma space_chars [simp]: "is_space (CHR '' '')" "is_space LF"
  by (simp_all add: is_space_def LF_def)

lemma word_ok_space: "word_ok n w \<Longrightarrow> is_space c \<Longrightarrow> c \<notin> set w"
  unfolding word_ok_def list_all_iff by blast

lemma word_ok_NUL: "word_ok n w \<Longrightarrow> CHR 0x00 \<notin> set w"
  unfolding word_ok_def list_all_iff by blast

lemma word_ok_LF: "word_ok n w \<Longrightarrow> LF \<notin> set w"
  by (erule word_ok_space) (simp add: is_space_def LF_def)

lemma scan_word_ok:
  assumes "word_ok n w" and "list_all is_space sp" and "rest = [] \<or> is_space (hd rest)"
  shows "scan_word n (sp @ w @ rest) = Some (w, rest)"
proof -
  have "dropWhile is_space (sp @ w @ rest) = w @ rest"
    using assms by (cases w) (auto simp: word_ok_def list_all_iff dropWhile_append2)
  moreover have "takeWhile (\<lambda>c. \<not> is_space c) (w @ rest) = w"
    using assms by (cases rest) (auto simp: word_ok_def list_all_iff takeWhile_append2)
  ultimately show ?thesis using assms(1) by (cases n) (auto simp: scan_word_def word_ok_def)
qed

lemma after_sub_skip:
  "after_sub pat xs = None \<Longrightarrow> c \<notin> set pat \<Longrightarrow> after_sub pat (xs @ c # ys) = after_sub pat ys"
proof (induction xs)
  case Nil
  then show ?case by (cases pat) auto
next
  case (Cons x xs)
  have "take (length pat) (x # xs @ c # ys) \<noteq> pat"
  proof
    assume eq: "take (length pat) (x # xs @ c # ys) = pat"
    show False
    proof (cases "length pat \<le> length (x # xs)")
      case True
      then have "take (length pat) (x # xs @ c # ys) = take (length pat) (x # xs)"
        using take_append [of "length pat" "x # xs" "c # ys"] by simp
      with eq Cons.prems(1) show False by simp
    next
      case False
      then have "c \<in> set (take (length pat) ((x # xs) @ c # ys))"
        by (subst take_append) (auto simp: take_Cons')
      with eq Cons.prems(2) show False by simp
    qed
  qed
  with Cons show ?case by (auto split: if_splits)
qed

lemma after_sub_here: "after_sub pat (pat @ ys) = Some ys"
proof (cases "pat @ ys")
  case (Cons c cs)
  moreover from Cons have "take (length pat) (c # cs) = pat" "drop (length pat) (c # cs) = ys"
    by (simp_all add: Cons [symmetric])
  ultimately show ?thesis by simp
qed simp

lemma after_sub_entry:
  "entry_ok a \<Longrightarrow> after_sub ''model:'' (adb_line a) =
     map_option (\<lambda>m. m @ CHR '' '' # a_tail a) (a_model a)"
proof -
  assume "entry_ok a"
  then have n: "after_sub ''model:''
       (a_serial a @ replicate (a_gap a) (CHR '' '') @ a_state a @ CHR '' '' # a_attrs a) = None"
    by (simp add: entry_ok_def)
  show ?thesis
  proof (cases "a_model a")
    case None
    with n show ?thesis by (simp add: adb_line_def)
  next
    case (Some m)
    have "after_sub ''model:'' (adb_line a) = after_sub ''model:'' (''model:'' @ m @ CHR '' '' # a_tail a)"
      using after_sub_skip [OF n, of "CHR '' ''" "''model:'' @ m @ CHR '' '' # a_tail a"] Some
      by (simp add: adb_line_def del: after_sub.simps)
    with Some after_sub_here [of "''model:''"] show ?thesis by (simp del: after_sub.simps)
  qed
qed

lemma parse_dev_entry:
  assumes "entry_ok a"
  shows "parse_dev (adb_line a) = (if a_state a = ''device'' then Some (entry_dev a) else None)"
proof -
  let ?rest2 = "CHR '' '' # a_attrs a @ (case a_model a of None \<Rightarrow> []
      | Some m \<Rightarrow> CHR '' '' # ''model:'' @ m @ CHR '' '' # a_tail a)"
  let ?rest1 = "replicate (a_gap a) (CHR '' '') @ a_state a @ ?rest2"
  from assms have gap: "?rest1 = [] \<or> is_space (hd ?rest1)" "list_all is_space (replicate (a_gap a) (CHR '' ''))"
    by (cases "a_gap a"; simp add: entry_ok_def list_all_iff)+
  have l: "adb_line a = [] @ a_serial a @ ?rest1" by (simp add: adb_line_def)
  have 1: "scan_word 127 (adb_line a) = Some (a_serial a, ?rest1)"
    unfolding l by (rule scan_word_ok) (use assms gap in \<open>auto simp: entry_ok_def\<close>)
  have 2: "scan_word 63 ?rest1 = Some (a_state a, ?rest2)"
    by (rule scan_word_ok) (use assms gap in \<open>auto simp: entry_ok_def\<close>)
  have 3: "scan_word 95 (m @ CHR '' '' # a_tail a) = Some (m, CHR '' '' # a_tail a)"
    if "a_model a = Some m" for m
    using scan_word_ok [of 95 m "[]" "CHR '' '' # a_tail a"] assms that by (simp add: entry_ok_def)
  have 4: "fit 128 (a_serial a) = a_serial a"
    using assms by (simp add: entry_ok_def word_ok_def fit_def)
  have "parse_dev (adb_line a) = (if a_state a \<noteq> ''device'' then None
      else Some \<lparr>d_serial = a_serial a, d_model = (case after_sub ''model:'' (adb_line a) of
         None \<Rightarrow> [] | Some m \<Rightarrow> (case scan_word 95 m of None \<Rightarrow> [] | Some (w, _) \<Rightarrow> w))\<rparr>)"
    unfolding parse_dev_def 1 option.case prod.case 2 4 ..
  then show ?thesis
    unfolding after_sub_entry [OF assms] entry_dev_def by (cases "a_model a") (simp_all add: 3)
qed

lemma adb_line_LF: "entry_ok a \<Longrightarrow> LF \<notin> set (adb_line a) \<and> adb_line a \<noteq> []"
  by (auto simp: adb_line_def entry_ok_def dest: word_ok_LF split: option.splits)
    (auto simp: LF_def word_ok_def)

lemma lines_of_entries:
  "list_all entry_ok as \<Longrightarrow> lines_of (concat (map (\<lambda>a. adb_line a @ [LF]) as)) = map adb_line as"
proof (induction as)
  case Nil
  then show ?case by (simp add: lines_of_def)
next
  case (Cons a as)
  with adb_line_LF [of a] show ?case by (simp add: lines_of_def split_on_append)
qed

lemma parse_devices_entries:
  "list_all entry_ok as \<Longrightarrow> parse_devices cap (map adb_line as) =
     take cap (map entry_dev (filter (\<lambda>a. a_state a = ''device'') as))"
  by (induction as arbitrary: cap) (auto simp: parse_dev_entry take_Cons')

text \<open>
  C33: the agent reads \<^verbatim>\<open>adb devices -l\<close> back.  From a listing of any number of devices it takes exactly
  those in state \<^verbatim>\<open>device\<close> (not the heading, not unauthorised or offline ones), in order, with their
  full serial and their model or the empty string, up to the capacity of the array.
\<close>

theorem list_devices_roundtrip:
  assumes "list_all entry_ok as"
  shows "parse_devices cap (lines_of (adb_output as)) =
     take cap (map entry_dev (filter (\<lambda>a. a_state a = ''device'') as))"
proof -
  have h: "LF \<notin> set ''List of devices attached''" by (simp add: LF_def)
  have "parse_dev ''List of devices attached'' = None"
    by (simp add: parse_dev_def scan_word_def is_space_def)
  then have "parse_devices cap (''List of devices attached'' # ls) = parse_devices cap ls" for ls
    by (cases "cap = 0"; cases ls) auto
  moreover have "lines_of (adb_output as) = ''List of devices attached'' # map adb_line as"
    unfolding adb_output_def lines_of_def split_on_append [OF h]
    using lines_of_entries [OF assms] by (simp add: lines_of_def)
  ultimately show ?thesis by (simp add: parse_devices_entries [OF assms])
qed

definition demo_entries :: "adb_entry list" where
  "demo_entries =
     [\<lparr>a_serial = ''emulator-5554'', a_gap = 1, a_state = ''device'', a_attrs = ''product:sdk'',
       a_model = Some ''Android_SDK'', a_tail = ''device:generic''\<rparr>,
      \<lparr>a_serial = ''39061FDJH'', a_gap = 2, a_state = ''unauthorized'', a_attrs = ''usb:1-1'',
       a_model = None, a_tail = []\<rparr>]"

theorem list_devices_roundtrip_witness:
  "list_all entry_ok demo_entries \<and>
   parse_devices 64 (lines_of (adb_output demo_entries)) =
     [\<lparr>d_serial = ''emulator-5554'', d_model = ''Android_SDK''\<rparr>]"
proof -
  have "list_all entry_ok demo_entries"
    by (simp add: demo_entries_def entry_ok_def word_ok_def is_space_def LF_def numeral_2_eq_2)
  with list_devices_roundtrip [of demo_entries 64] show ?thesis
    by (simp add: demo_entries_def entry_dev_def)
qed

end
