(* ===== verification/Agent_Net.thy ===== *)
theory Agent_Net
  imports Agent_Proc "HOL-Library.Sublist"
begin

text \<open>
  \<^verbatim>\<open>frontends/agent/net.c\<close>: the socket helpers of the agent, the two-way pump, the opening of the
  upstream side of a stream connection with replay of what the client has sent, and what one connection
  thread does apart from the group lock, which is \<^verbatim>\<open>Agent_Group\<close>.  The stop flag \<^verbatim>\<open>g_stop\<close>, raised by a signal handler,
  is \<^const>\<open>e_abort\<close> of the environment.
\<close>

section \<open>Socket helpers\<close>

definition connect_ai :: "env \<Rightarrow> nat \<Rightarrow> 'a os_scheme \<Rightarrow> int \<times> 'a os_scheme" where
  "connect_ai E timeout_ms s =
     (let (fd, s) = sys_open_fd E s in
      if fd < 0 then (fd, s)
      else
        let s = step_os E s; \<comment> \<open>\<^verbatim>\<open>fcntl(O_NONBLOCK)\<close>\<close>
            en = e_errno E (tick s);
            (rc, s) = sys_ret E s in \<comment> \<open>\<^verbatim>\<open>connect\<close>\<close>
        if rc < 0 then
          (if en = EINPROGRESS then
             let (p, s) = sys_poll E timeout_ms s in
             if 0 < p then
               let err = e_val E (tick s); (g, s) = sys_ret E s in \<comment> \<open>\<^verbatim>\<open>getsockopt(SO_ERROR)\<close>\<close>
               if g = 0 \<and> err = 0 then (fd, step_os E s) else (-1, sys_close E fd s)
             else (-1, sys_close E fd s)
           else (-1, sys_close E fd s))
        else (fd, step_os E s))"

fun connect_ais :: "env \<Rightarrow> nat \<Rightarrow> nat \<Rightarrow> 'a os_scheme \<Rightarrow> int \<times> 'a os_scheme" where
  "connect_ais E 0 timeout_ms s = (-1, s)"
| "connect_ais E (Suc n) timeout_ms s =
     (let (fd, s) = connect_ai E timeout_ms s in
      if fd < 0 then connect_ais E n timeout_ms s else (fd, s))"

definition tcp_connect_timeout ::
    "env \<Rightarrow> string \<Rightarrow> int \<Rightarrow> nat \<Rightarrow> 'a os_scheme \<Rightarrow> int \<times> 'a os_scheme" where
  "tcp_connect_timeout E host port timeout_ms s =
     (let portstr = fit 8 (show_int port);
          res = e_addrs E host portstr;
          s = step_os E s in
      case res of
        None \<Rightarrow> (-1, s)
      | Some n \<Rightarrow>
          (let (fd, s) = connect_ais E n timeout_ms s in
           if 0 \<le> fd then (fd, step_os E s) else (fd, s)))"

text \<open>\<^verbatim>\<open>inet_pton(AF_INET)\<close> accepts four decimal parts up to 255 without leading zeros.\<close>

definition inet_part :: "string \<Rightarrow> bool" where
  "inet_part p \<longleftrightarrow> p \<noteq> [] \<and> length p \<le> 3 \<and> list_all is_digit p \<and> digits_val 0 p \<le> 255 \<and>
     (1 < length p \<longrightarrow> hd p \<noteq> CHR ''0'')"

definition inet_pton_ok :: "string \<Rightarrow> bool" where
  "inet_pton_ok ip \<longleftrightarrow> (let ps = split_on (CHR ''.'') ip in length ps = 4 \<and> list_all inet_part ps)"

definition tcp_listen_addr :: "env \<Rightarrow> string \<Rightarrow> int \<Rightarrow> 'a os_scheme \<Rightarrow> int \<times> 'a os_scheme" where
  "tcp_listen_addr E ip port s =
     (let (fd, s) = sys_open_fd E s in
      if fd < 0 then (-1, s)
      else
        let s = step_os E s in \<comment> \<open>\<^verbatim>\<open>setsockopt(SO_REUSEADDR)\<close>\<close>
        if \<not> inet_pton_ok ip then (-1, sys_close E fd s)
        else
          let (b, s) = sys_ret E s in \<comment> \<open>\<^verbatim>\<open>bind\<close>\<close>
          if b < 0 then (-1, sys_close E fd s)
          else
            let (l, s) = sys_ret E s in \<comment> \<open>\<^verbatim>\<open>listen\<close>\<close>
            if l < 0 then (-1, sys_close E fd s) else (fd, s))"

section \<open>The pump\<close>

text \<open>\<^verbatim>\<open>poll\<close> on two descriptors: its result and whether each of them has events.\<close>

definition sys_poll2 :: "env \<Rightarrow> nat \<Rightarrow> 'a os_scheme \<Rightarrow> int \<times> bool \<times> bool \<times> 'a os_scheme" where
  "sys_poll2 E ms s =
     (let v = e_val E (tick s); (r, s') = sys_poll E ms s in
      (r, odd v, odd (v div 2), s'))"

text \<open>One direction of one round: whether the pump is done, and how many bytes were passed on.\<close>

definition pump_dir :: "env \<Rightarrow> int \<Rightarrow> int \<Rightarrow> 'a os_scheme \<Rightarrow> (bool \<times> nat \<times> 'a os_scheme) option" where
  "pump_dir E src dst s = do {
     (rr, s) \<leftarrow> sys_read E src 65536 s;
     (case rr of
        Got bs \<Rightarrow>
          if bs = [] then Some (True, 0, s)
          else do {
            (ok, s) \<leftarrow> sys_write_full E dst bs s;
            Some (if ok then (False, length bs, s) else (True, 0, s))
          }
      | _ \<Rightarrow> Some (True, 0, s))
   }"

partial_function (option) pump ::
    "env \<Rightarrow> int \<Rightarrow> int \<Rightarrow> u64 \<Rightarrow> u64 \<Rightarrow> 'a os_scheme \<Rightarrow> (u64 \<times> u64 \<times> 'a os_scheme) option" where
  "pump E a b a2b b2a s =
     (let en = e_errno E (tick s); (r, ev0, ev1, s1) = sys_poll2 E 1000 s in
      if r < 0 \<and> en = EINTR then pump E a b a2b b2a s1
      else if r < 0 \<or> e_abort E (tick s1) then Some (a2b, b2a, s1)
      else if r = 0 then pump E a b a2b b2a s1
      else do {
        (d0, n0, s2) \<leftarrow> (if ev0 then pump_dir E a b s1 else Some (False, 0, s1));
        (d1, n1, s3) \<leftarrow> (if ev1 \<and> \<not> d0 then pump_dir E b a s2 else Some (False, 0, s2));
        if d0 \<or> d1 then Some (a2b + of_nat n0, b2a + of_nat n1, s3)
        else pump E a b (a2b + of_nat n0) (b2a + of_nat n1) s3
      })"

section \<open>Opening the upstream side of a stream\<close>

definition PRE_CAP :: nat where "PRE_CAP = 4096"

text \<open>The group of stream port \<open>k\<close> of slot \<open>i\<close>.\<close>

datatype group_id = Group nat nat

record conn =
  c_client :: int
  c_dst_host :: string
  c_dst_port :: int
  c_group :: "group_id option"   \<comment> \<open>\<^term>\<open>None\<close> is \<^verbatim>\<open>NULL\<close>\<close>
  c_pub_port :: int
  c_peer :: string

text \<open>The values 1, -1 and -2 of \<^verbatim>\<open>verdict\<close>.\<close>

datatype verdict = Confirmed | UpClosed | GaveUp

partial_function (option) confirm ::
    "env \<Rightarrow> int \<Rightarrow> int \<Rightarrow> int \<Rightarrow> byte list \<Rightarrow> 'a os_scheme \<Rightarrow> (verdict \<times> byte list \<times> 'a os_scheme) option" where
  "confirm E up cl t0 pre s =
     (if 300 - (clock s - t0) \<le> 0 then Some (Confirmed, pre, s)
      else
        let en = e_errno E (tick s);
            (r, ev0, ev1, s1) = sys_poll2 E (nat (300 - (clock s - t0))) s in
        if r < 0 then
          (if en = EINTR then confirm E up cl t0 pre s1 else Some (GaveUp, pre, s1))
        else if r = 0 then Some (Confirmed, pre, s1)
        else if ev0 then do {
          (rr, s2) \<leftarrow> sys_read E up 4096 s1;
          (case rr of
             Got bs \<Rightarrow>
               if bs = [] then Some (UpClosed, pre, s2)
               else do {
                 (ok, s3) \<leftarrow> sys_write_full E cl bs s2;
                 Some (if ok then Confirmed else GaveUp, pre, s3)
               }
           | _ \<Rightarrow> Some (UpClosed, pre, s2))
        }
        else if ev1 then do {
          (rr, s2) \<leftarrow> sys_read E cl 1024 s1;
          (case rr of
             Got bs \<Rightarrow>
               if bs = [] \<or> PRE_CAP < length pre + length bs then Some (GaveUp, pre, s2)
               else do {
                 (ok, s3) \<leftarrow> sys_write_full E up bs s2;
                 if ok then confirm E up cl t0 (pre @ bs) s3 else Some (GaveUp, pre, s3)
               }
           | _ \<Rightarrow> Some (GaveUp, pre, s2))
        }
        else confirm E up cl t0 pre s1)"

text \<open>The replay of \<open>pre\<close> on a new connection.\<close>

definition replay :: "env \<Rightarrow> int \<Rightarrow> byte list \<Rightarrow> 'a os_scheme \<Rightarrow> (bool \<times> 'a os_scheme) option" where
  "replay E up pre s = (if pre \<noteq> [] then sys_write_full E up pre s else Some (True, s))"

partial_function (option) open_up_loop ::
    "env \<Rightarrow> conn \<Rightarrow> int \<Rightarrow> byte list \<Rightarrow> 'a os_scheme \<Rightarrow> (int \<times> byte list \<times> 'a os_scheme) option" where
  "open_up_loop E c deadline pre s =
     (let (up, s1) = tcp_connect_timeout E (c_dst_host c) (c_dst_port c) 3000 s in
      if up < 0 then
        (if e_abort E (tick s1) \<or> deadline \<le> clock s1 then Some (-1, pre, s1)
         else open_up_loop E c deadline pre (sleep_ms E 200 s1))
      else do {
        (ok, s2) \<leftarrow> replay E up pre s1;
        if \<not> ok then open_up_loop E c deadline pre (sys_close E up s2)
        else do {
          (v, pre', s3) \<leftarrow> confirm E up (c_client c) (clock s2) pre s2;
          if v = Confirmed then Some (up, pre', s3)
          else
            (let s4 = sys_close E up s3 in
             if v = GaveUp \<or> e_abort E (tick s4) \<or> deadline \<le> clock s4 then Some (-1, pre', s4)
             else open_up_loop E c deadline pre' (sleep_ms E 150 s4))
        }
      })"

definition stream_open_upstream ::
    "env \<Rightarrow> conn \<Rightarrow> 'a os_scheme \<Rightarrow> (int \<times> byte list \<times> 'a os_scheme) option" where
  "stream_open_upstream E c s = open_up_loop E c (clock s + 10000) [] s"

text \<open>\<^verbatim>\<open>conn_thread\<close> of a thread that need not wait for its group: the upstream connection, the pump,
  and the two closes.  The mutex and the condition variable around \<^verbatim>\<open>stream_open_upstream\<close>, lines 199-203
  and 212-215, are the step relation of \<^verbatim>\<open>Agent_Group\<close>, where \<open>conn_thread_runs\<close> shows that this function
  is a run of the whole thread, locks included.  The bytes already received from the client are returned
  for the statements about them.\<close>

definition conn_open :: "env \<Rightarrow> conn \<Rightarrow> 'a os_scheme \<Rightarrow> (int \<times> byte list \<times> 'a os_scheme) option" where
  "conn_open E c s =
     (case c_group c of
        None \<Rightarrow> (let (up, s) = tcp_connect_timeout E (c_dst_host c) (c_dst_port c) 3000 s in Some (up, [], s))
      | Some g \<Rightarrow> stream_open_upstream E c s)"

definition conn_thread :: "env \<Rightarrow> conn \<Rightarrow> 'a os_scheme \<Rightarrow> (int \<times> 'a os_scheme) option" where
  "conn_thread E c s = do {
     (up, pre, s) \<leftarrow> conn_open E c s;
     s \<leftarrow> (if 0 \<le> up then do {
              (_, _, s) \<leftarrow> pump E (c_client c) up 0 0 s;
              Some (sys_close E up s)
            } else Some s);
     Some (up, sys_close E (c_client c) s)
   }"

section \<open>What opening a descriptor does\<close>

text \<open>Calls that change nothing but the clock.\<close>

definition io_calm :: "'a os_scheme \<Rightarrow> 'a os_scheme \<Rightarrow> bool" where
  "io_calm s s' \<longleftrightarrow> calm s s' \<and> inq s' = inq s \<and> outq s' = outq s \<and> sent s' = sent s"

lemma io_calm_intros [simp]:
  "io_calm s s" "io_calm s (step_os E s)" "io_calm s (sleep_ms E ms s)"
  "sys_ret E s = (r, s') \<Longrightarrow> io_calm s s'" "sys_poll E ms s = (r, s') \<Longrightarrow> io_calm s s'"
  by (auto simp: io_calm_def sys_ret_def sys_poll_def Let_def split: if_splits)

lemma io_calm_trans: "io_calm s t \<Longrightarrow> io_calm t u \<Longrightarrow> io_calm s u"
  by (auto simp: io_calm_def intro: calm_trans)

text \<open>The streams of the descriptors in \<open>F\<close> are those from before.\<close>

definition same_streams :: "int set \<Rightarrow> 'a os_scheme \<Rightarrow> 'a os_scheme \<Rightarrow> bool" where
  "same_streams F s s' \<longleftrightarrow> (\<forall>g \<in> F. inq s' g = inq s g \<and> outq s' g = outq s g \<and> sent s' g = sent s g)"

lemma same_streams_trans:
  "same_streams F s t \<Longrightarrow> same_streams F t u \<Longrightarrow> same_streams F s u"
  by (simp add: same_streams_def)

text \<open>The contract of an operation that opens a connection: the descriptor accounting of
  \<^const>\<open>gives_fd\<close>, no other stream is touched, and a new connection starts empty, with the peer the
  environment chooses.\<close>

definition opens :: "env \<Rightarrow> 'a os_scheme \<Rightarrow> int \<times> 'a os_scheme \<Rightarrow> bool" where
  "opens E s res \<longleftrightarrow> gives_fd s res \<and> same_streams (set (open_fds s)) s (snd res) \<and>
     (0 \<le> fst res \<longrightarrow> sent (snd res) (fst res) = [] \<and>
       (\<exists>n. inq (snd res) (fst res) = e_stream E n \<and> outq (snd res) (fst res) = e_sink E n))"

lemma sys_open_fd_opens: "opens E s (sys_open_fd E s)"
  using sys_open_fd_gives [of s E] fresh_fd_ok [of "open_fds s"]
  by (auto simp: opens_def same_streams_def sys_open_fd_def Let_def)

lemma opens_calm: "opens E s (fd, s1) \<Longrightarrow> io_calm s1 s2 \<Longrightarrow> opens E s (fd, s2)"
  using gives_fd_calm by (fastforce simp: opens_def io_calm_def same_streams_def)

lemma opens_calm_close:
  "opens E s (fd, s1) \<Longrightarrow> 0 \<le> fd \<Longrightarrow> io_calm s1 s2 \<Longrightarrow> opens E s (-1, sys_close E fd s2)"
  using gives_fd_calm_close by (fastforce simp: opens_def io_calm_def same_streams_def)

lemma opens_retry:
  assumes "opens E s (fd, s1)" and "fd < 0" and "opens E s1 res"
  shows "opens E s res"
  using assms
  by (cases res) (auto simp: opens_def gives_fd_def same_streams_def split: if_splits)

lemma calm_opens: "io_calm s s1 \<Longrightarrow> opens E s1 res \<Longrightarrow> opens E s res"
  using calm_gives_fd by (fastforce simp: opens_def io_calm_def same_streams_def calm_def)

lemma connect_ai_opens: "opens E s (connect_ai E ms s)"
proof -
  obtain fd s1 where o: "sys_open_fd E s = (fd, s1)" by fastforce
  with sys_open_fd_opens [of E s] have g: "opens E s (fd, s1)" by simp
  show ?thesis
  proof (cases "fd < 0")
    case True
    with o g show ?thesis by (simp add: connect_ai_def)
  next
    case False
    let ?s2 = "step_os E s1"
    obtain rc s3 where c: "sys_ret E ?s2 = (rc, s3)" by fastforce
    have c13: "io_calm s1 s3" using io_calm_trans [of s1 ?s2 s3] c by simp
    obtain p s4 where p: "sys_poll E ms s3 = (p, s4)" by fastforce
    have c14: "io_calm s1 s4" using io_calm_trans [OF c13] p by simp
    obtain g2 s5 where g2: "sys_ret E s4 = (g2, s5)" by fastforce
    have c15: "io_calm s1 s5" using io_calm_trans [OF c14] g2 by simp
    have "io_calm s1 (step_os E s3)" "io_calm s1 (step_os E s5)"
      using io_calm_trans [OF c13] io_calm_trans [OF c15] by simp_all
    with False o c p g2 g c13 c14 c15 show ?thesis
      by (auto simp: connect_ai_def Let_def intro: opens_calm opens_calm_close)
  qed
qed

lemma connect_ais_opens: "opens E s (connect_ais E n ms s)"
proof (induction n arbitrary: s)
  case 0
  then show ?case by (simp add: opens_def gives_fd_def same_streams_def)
next
  case (Suc n)
  obtain fd s1 where c: "connect_ai E ms s = (fd, s1)" by fastforce
  then have "opens E s (fd, s1)" using connect_ai_opens [of E s ms] by simp
  with c Suc [of s1] show ?case by (auto intro: opens_retry)
qed

lemma tcp_connect_opens: "opens E s (tcp_connect_timeout E host port ms s)"
proof (rule calm_opens [of s "step_os E s"])
  show "opens E (step_os E s) (tcp_connect_timeout E host port ms s)"
  proof (cases "e_addrs E host (fit 8 (show_int port))")
    case None
    then show ?thesis
      by (simp add: tcp_connect_timeout_def Let_def opens_def gives_fd_def same_streams_def)
  next
    case (Some n)
    then show ?thesis
      using connect_ais_opens [of E "step_os E s" n ms]
      by (auto simp: tcp_connect_timeout_def Let_def split: prod.splits intro: opens_calm)
  qed
qed simp

lemma tcp_listen_opens: "opens E s (tcp_listen_addr E ip port s)"
proof -
  obtain fd s1 where o: "sys_open_fd E s = (fd, s1)" by fastforce
  with sys_open_fd_opens [of E s] have g: "opens E s (fd, s1)" by simp
  show ?thesis
  proof (cases "fd < 0")
    case True
    with o g show ?thesis
      by (auto simp: tcp_listen_addr_def opens_def gives_fd_def same_streams_def)
  next
    case False
    let ?s2 = "step_os E s1"
    obtain b s3 where b: "sys_ret E ?s2 = (b, s3)" by fastforce
    have c13: "io_calm s1 s3" using io_calm_trans [of s1 ?s2 s3] b by simp
    obtain l s4 where l: "sys_ret E s3 = (l, s4)" by fastforce
    have c14: "io_calm s1 s4" using io_calm_trans [OF c13] l by simp
    from False o b l g c13 c14 show ?thesis
      by (auto simp: tcp_listen_addr_def Let_def intro: opens_calm opens_calm_close)
  qed
qed

lemma opens_gives: "opens E s res \<Longrightarrow> gives_fd s res"
  by (simp add: opens_def)

interpretation agent_connect: fd_provider "tcp_connect_timeout E host port ms" for E host port ms
  by unfold_locales (rule opens_gives [OF tcp_connect_opens])

interpretation agent_listen: fd_provider "tcp_listen_addr E ip port" for E ip port
  by unfold_locales (rule opens_gives [OF tcp_listen_opens])

section \<open>The pump passes bytes on unchanged\<close>

lemma sock_read_Got:
  "sock_read es n = (Got bs, es') \<Longrightarrow> bs \<noteq> [] \<Longrightarrow> sock_bytes es = bs @ sock_bytes es'"
  by (cases "(es, n)" rule: sock_read.cases) (auto split: if_splits)

lemma sys_read_Got:
  "sys_read E fd n s = Some (Got bs, s') \<Longrightarrow> bs \<noteq> [] \<Longrightarrow>
     sock_bytes (inq s fd) = bs @ sock_bytes (inq s' fd)"
  by (auto simp: sys_read_def split: prod.splits read_res.splits intro: sock_read_Got)

text \<open>Only the streams of \<open>a\<close> and \<open>b\<close> change.\<close>

definition duplex :: "int \<Rightarrow> int \<Rightarrow> 'a os_scheme \<Rightarrow> 'a os_scheme \<Rightarrow> bool" where
  "duplex a b s s' \<longleftrightarrow> calm s s' \<and> same_streams (- {a, b}) s s'"

text \<open>What was added to \<open>dst\<close> is what was taken from \<open>src\<close>; respectively, a prefix of what \<open>src\<close> had.\<close>

definition carried :: "int \<Rightarrow> int \<Rightarrow> 'a os_scheme \<Rightarrow> 'a os_scheme \<Rightarrow> bool" where
  "carried src dst s s' \<longleftrightarrow>
     (\<exists>xs. sent s' dst = sent s dst @ xs \<and> sock_bytes (inq s src) = xs @ sock_bytes (inq s' src))"

definition passes :: "int \<Rightarrow> int \<Rightarrow> 'a os_scheme \<Rightarrow> 'a os_scheme \<Rightarrow> bool" where
  "passes src dst s s' \<longleftrightarrow>
     (\<exists>xs. sent s' dst = sent s dst @ xs \<and> prefix xs (sock_bytes (inq s src)))"

lemma duplex_trans: "duplex a b s t \<Longrightarrow> duplex a b t u \<Longrightarrow> duplex a b s u"
  by (auto simp: duplex_def intro: calm_trans same_streams_trans)

lemma duplex_sym: "duplex a b s t \<longleftrightarrow> duplex b a s t"
  by (simp add: duplex_def insert_commute)

lemma carried_trans: "carried a b s t \<Longrightarrow> carried a b t u \<Longrightarrow> carried a b s u"
  by (fastforce simp: carried_def)

lemma carried_passes: "carried a b s t \<Longrightarrow> passes a b s t"
  by (auto simp: carried_def passes_def)

lemma carried_then: "carried a b s t \<Longrightarrow> passes a b t u \<Longrightarrow> passes a b s u"
  by (fastforce simp: carried_def passes_def)

lemma carried_same:
  "sent s' dst = sent s dst \<Longrightarrow> inq s' src = inq s src \<Longrightarrow> carried src dst s s'"
  by (simp add: carried_def)

text \<open>A call that changes no stream.\<close>

lemma io_calm_duplex: "io_calm s t \<Longrightarrow> duplex a b s t \<and> carried a b s t"
  by (auto simp: io_calm_def duplex_def same_streams_def carried_def)

lemma sys_poll2_calm: "sys_poll2 E ms s = (r, e0, e1, s') \<Longrightarrow> io_calm s s'"
  by (auto simp: sys_poll2_def Let_def split: prod.splits)

lemma read_frame_duplex: "read_frame a s t \<Longrightarrow> duplex a b s t"
  by (auto simp: read_frame_def duplex_def calm_def same_streams_def)

lemma sys_read_duplex: "sys_read E a n s = Some (r, s') \<Longrightarrow> duplex a b s s'"
  by (rule read_frame_duplex [OF read_frame_read])

lemma sys_read_sent: "sys_read E a n s = Some (r, s') \<Longrightarrow> sent s' = sent s \<and> outq s' = outq s"
  using read_frame_read by (fastforce simp: read_frame_def)

lemma sys_read_other: "sys_read E a n s = Some (r, s') \<Longrightarrow> g \<noteq> a \<Longrightarrow> inq s' g = inq s g"
  using read_frame_read by (fastforce simp: read_frame_def)

lemma sys_write_full_spec:
  assumes "sys_write_full E b buf s = Some (ok, s')"
  shows "duplex a b s s'" and "inq s' = inq s" and "\<And>g. g \<noteq> b \<Longrightarrow> sent s' g = sent s g"
    and "\<exists>out. sent s' b = sent s b @ out \<and> prefix out buf \<and> (ok \<longleftrightarrow> out = buf)"
proof -
  from assms obtain out rest where w: "write_full (outq s b) buf = Some (ok, out, rest)"
    and s': "s' = (step_os E s)\<lparr>outq := (outq s)(b := rest), sent := (sent s)(b := sent s b @ out)\<rparr>"
    by (auto simp: sys_write_full_def bind_eq_Some_conv)
  from s' show "duplex a b s s'" "inq s' = inq s" "\<And>g. g \<noteq> b \<Longrightarrow> sent s' g = sent s g"
    by (auto simp: duplex_def calm_def same_streams_def)
  from write_full_cases [OF w] s' show
    "\<exists>out. sent s' b = sent s b @ out \<and> prefix out buf \<and> (ok \<longleftrightarrow> out = buf)"
    by (auto simp: prefix_def)
qed

lemma read_write_passes:
  assumes rd: "sys_read E src n s = Some (Got bs, s1)" and "bs \<noteq> []" and "src \<noteq> dst"
    and wr: "sys_write_full E dst bs s1 = Some (ok, s')"
  shows "duplex src dst s s'" and "passes src dst s s'" and "ok \<Longrightarrow> carried src dst s s'"
    and "carried dst src s s'"
proof -
  note r = sys_read_sent [OF rd] sys_read_Got [OF rd assms(2)] and w = sys_write_full_spec [OF wr]
  show "duplex src dst s s'"
    using duplex_trans sys_read_duplex [OF rd] w(1) by blast
  show "passes src dst s s'" "ok \<Longrightarrow> carried src dst s s'"
    using r w by (auto simp: passes_def carried_def prefix_def)
  show "carried dst src s s'"
    using r(1) w(2,3) sys_read_other [OF rd] assms(3) by (intro carried_same) auto
qed

lemma pump_dir_spec:
  assumes "pump_dir E src dst s = Some (d, n, s')" and "src \<noteq> dst"
  shows "duplex src dst s s' \<and> carried dst src s s' \<and>
     (if d then passes src dst s s' else carried src dst s s')"
proof -
  from assms obtain rr s1 where rd: "sys_read E src 65536 s = Some (rr, s1)"
    by (auto simp: pump_dir_def bind_eq_Some_conv)
  have c: "duplex src dst s s1" "carried dst src s s1" "passes src dst s s1"
    using sys_read_duplex [OF rd] sys_read_sent [OF rd] sys_read_other [OF rd] assms(2)
    by (auto simp: carried_def passes_def)
  show ?thesis
  proof (cases "\<exists>bs. rr = Got bs \<and> bs \<noteq> []")
    case True
    then obtain bs where bs: "rr = Got bs" "bs \<noteq> []" by blast
    with assms rd obtain ok where wr: "sys_write_full E dst bs s1 = Some (ok, s')" "d = (\<not> ok)"
      by (auto simp: pump_dir_def bind_eq_Some_conv split: if_splits)
    from read_write_passes [OF rd [unfolded bs(1)] bs(2) assms(2) wr(1)] wr(2) show ?thesis by auto
  next
    case False
    with assms rd c show ?thesis
      by (auto simp: pump_dir_def bind_eq_Some_conv split: read_res.splits if_splits)
  qed
qed

definition pumped :: "int \<Rightarrow> int \<Rightarrow> 'a os_scheme \<Rightarrow> 'a os_scheme \<Rightarrow> bool" where
  "pumped a b s s' \<longleftrightarrow> duplex a b s s' \<and> passes a b s s' \<and> passes b a s s'"

definition pumping :: "int \<Rightarrow> int \<Rightarrow> 'a os_scheme \<Rightarrow> 'a os_scheme \<Rightarrow> bool" where
  "pumping a b s s' \<longleftrightarrow> duplex a b s s' \<and> carried a b s s' \<and> carried b a s s'"

lemma pumping_trans: "pumping a b s t \<Longrightarrow> pumping a b t u \<Longrightarrow> pumping a b s u"
  by (auto simp: pumping_def intro: duplex_trans carried_trans)

lemma pumping_then: "pumping a b s t \<Longrightarrow> pumped a b t u \<Longrightarrow> pumped a b s u"
  by (auto simp: pumping_def pumped_def intro: duplex_trans carried_then)

lemma pumping_pumped: "pumping a b s t \<Longrightarrow> pumped a b s t"
  by (auto simp: pumping_def pumped_def intro: carried_passes)

lemma io_calm_pumping: "io_calm s t \<Longrightarrow> pumping a b s t"
  using io_calm_duplex [of s t] by (simp add: pumping_def)

lemma pump_dir_if:
  assumes "(if ev then pump_dir E src dst s else Some (False, 0, s)) = Some (d, n, s')" and "src \<noteq> dst"
  shows "if d then pumped src dst s s' else pumping src dst s s'"
proof (cases ev)
  case True
  with assms pump_dir_spec [of E src dst s d n s'] show ?thesis
    by (auto simp: pumped_def pumping_def intro: carried_passes)
next
  case False
  with assms show ?thesis by (simp add: io_calm_pumping)
qed

lemma pumped_sym: "pumped a b s t \<longleftrightarrow> pumped b a s t"
  and pumping_sym: "pumping a b s t \<longleftrightarrow> pumping b a s t"
  by (auto simp: pumped_def pumping_def duplex_sym [of a b])

lemma pump_spec:
  assumes "pump E a b x y s = Some (x', y', s')" and "a \<noteq> b"
  shows "pumped a b s s'"
proof -
  define P where "P = (\<lambda>(E :: env) a b (x :: u64) (y :: u64) (s :: 'a os_scheme)
      (z :: u64 \<times> u64 \<times> 'a os_scheme). a \<noteq> b \<longrightarrow> pumped a b s (snd (snd z)))"
  have "P E a b x y s (x', y', s')"
  proof (rule pump.raw_induct [OF _ assms(1)], goal_cases)
    case (1 rec E a b x y s z)
    obtain r e0 e1 s1 where p: "sys_poll2 E 1000 s = (r, e0, e1, s1)" by (metis prod_cases4)
    have c1: "pumping a b s s1" by (rule io_calm_pumping [OF sys_poll2_calm [OF p]])
    show ?case
    proof (cases "r \<le> 0 \<or> e_abort E (tick s1)")
      case True
      with 1(2) p c1 show ?thesis
        by (auto simp: P_def Let_def split: if_splits dest!: 1(1) intro: pumping_then pumping_pumped)
    next
      case False
      show ?thesis unfolding P_def
      proof
        assume ab: "a \<noteq> b"
        from False 1(2) p obtain d0 n0 s2 d1 n1 s3 where
          q0: "(if e0 then pump_dir E a b s1 else Some (False, 0, s1)) = Some (d0, n0, s2)" and
          q1: "(if e1 \<and> \<not> d0 then pump_dir E b a s2 else Some (False, 0, s2)) = Some (d1, n1, s3)" and
          z: "(if d0 \<or> d1 then Some (x + of_nat n0, y + of_nat n1, s3)
               else rec E a b (x + of_nat n0) (y + of_nat n1) s3) = Some z"
          by (auto simp: Let_def bind_eq_Some_conv)
        note f0 = pump_dir_if [OF q0 ab] and f1 = pump_dir_if [OF q1 ab [symmetric]]
        show "pumped a b s (snd (snd z))"
        proof (cases d0)
          case True
          with q1 z f0 have "pumped a b s1 (snd (snd z))" by auto
          with c1 show ?thesis by (rule pumping_then)
        next
          case False
          with f0 c1 have c2: "pumping a b s s2" by (auto intro: pumping_trans)
          show ?thesis
          proof (cases d1)
            case True
            with z f1 c2 show ?thesis by (auto simp: pumped_sym [of b] intro: pumping_then)
          next
            case no: False
            with f1 c2 have c3: "pumping a b s s3" by (auto simp: pumping_sym [of b] intro: pumping_trans)
            from no False z have "P E a b (x + of_nat n0) (y + of_nat n1) s3 z"
              by (intro 1(1)) simp
            with ab c3 show ?thesis by (auto simp: P_def intro: pumping_then)
          qed
        qed
      qed
    qed
  qed
  with assms(2) show ?thesis by (simp add: P_def)
qed

section \<open>Replay\<close>

text \<open>What \<^const>\<open>confirm\<close> promises.  Unless the client gives up, the bytes added to \<open>pre\<close> are exactly
  those read from the client and written upstream; an upstream that closed has sent nothing.\<close>

definition confirmed ::
    "int \<Rightarrow> int \<Rightarrow> byte list \<Rightarrow> 'a os_scheme \<Rightarrow> verdict \<times> byte list \<times> 'a os_scheme \<Rightarrow> bool" where
  "confirmed up cl pre s res \<longleftrightarrow>
     (let (v, pre', s') = res in
      duplex up cl s s' \<and> (length pre \<le> PRE_CAP \<longrightarrow> length pre' \<le> PRE_CAP) \<and>
      (v = Confirmed \<longrightarrow> carried up cl s s') \<and> (v = UpClosed \<longrightarrow> sent s' cl = sent s cl) \<and>
      (v \<noteq> GaveUp \<longrightarrow> (\<exists>ds. pre' = pre @ ds \<and> sent s' up = sent s up @ ds \<and>
          sock_bytes (inq s cl) = ds @ sock_bytes (inq s' cl))))"

lemma confirmed_idle:
  "duplex up cl s s' \<Longrightarrow> inq s' cl = inq s cl \<Longrightarrow> sent s' up = sent s up \<Longrightarrow> v \<noteq> GaveUp \<Longrightarrow>
   (v = Confirmed \<Longrightarrow> carried up cl s s') \<Longrightarrow> (v = UpClosed \<Longrightarrow> sent s' cl = sent s cl) \<Longrightarrow>
   confirmed up cl pre s (v, pre, s')"
  by (auto simp: confirmed_def)

lemma confirmed_gave_up: "duplex up cl s s' \<Longrightarrow> confirmed up cl pre s (GaveUp, pre, s')"
  by (auto simp: confirmed_def)

lemma confirmed_calm:
  assumes "io_calm s s1" and "confirmed up cl pre s1 (v, pre', s')"
  shows "confirmed up cl pre s (v, pre', s')"
proof -
  from assms(1) have "duplex up cl s s1" "inq s1 = inq s" "sent s1 = sent s"
    using io_calm_duplex by (auto simp: io_calm_def)
  with assms(2) duplex_trans [of up cl s s1 s'] show ?thesis
    by (auto simp: confirmed_def carried_def)
qed

lemma confirmed_more:
  assumes "duplex up cl s s1" and "inq s1 up = inq s up" and "sent s1 cl = sent s cl"
    and "sent s1 up = sent s up @ bs" and "sock_bytes (inq s cl) = bs @ sock_bytes (inq s1 cl)"
    and "length pre + length bs \<le> PRE_CAP" and "confirmed up cl (pre @ bs) s1 (v, pre', s')"
  shows "confirmed up cl pre s (v, pre', s')"
  using assms duplex_trans [of up cl s s1 s'] by (auto simp: confirmed_def carried_def)

text \<open>One round of the loop after the poll: \<open>k\<close> is the loop itself.\<close>

definition confirm_up :: "env \<Rightarrow> int \<Rightarrow> int \<Rightarrow> byte list \<Rightarrow> 'a os_scheme \<Rightarrow>
    (verdict \<times> byte list \<times> 'a os_scheme) option" where
  "confirm_up E up cl pre s1 = do {
     (rr, s2) \<leftarrow> sys_read E up 4096 s1;
     (case rr of
        Got bs \<Rightarrow>
          if bs = [] then Some (UpClosed, pre, s2)
          else do {
            (ok, s3) \<leftarrow> sys_write_full E cl bs s2;
            Some (if ok then Confirmed else GaveUp, pre, s3)
          }
      | _ \<Rightarrow> Some (UpClosed, pre, s2))
   }"

definition confirm_cl :: "(byte list \<Rightarrow> 'a os_scheme \<Rightarrow> (verdict \<times> byte list \<times> 'a os_scheme) option) \<Rightarrow>
    env \<Rightarrow> int \<Rightarrow> int \<Rightarrow> byte list \<Rightarrow> 'a os_scheme \<Rightarrow> (verdict \<times> byte list \<times> 'a os_scheme) option" where
  "confirm_cl k E up cl pre s1 = do {
     (rr, s2) \<leftarrow> sys_read E cl 1024 s1;
     (case rr of
        Got bs \<Rightarrow>
          if bs = [] \<or> PRE_CAP < length pre + length bs then Some (GaveUp, pre, s2)
          else do {
            (ok, s3) \<leftarrow> sys_write_full E up bs s2;
            if ok then k (pre @ bs) s3 else Some (GaveUp, pre, s3)
          }
      | _ \<Rightarrow> Some (GaveUp, pre, s2))
   }"

lemma confirm_up_spec:
  assumes "confirm_up E up cl pre s = Some (v, pre', s')" and "up \<noteq> cl"
  shows "confirmed up cl pre s (v, pre', s')"
proof -
  from assms obtain rr s2 where rd: "sys_read E up 4096 s = Some (rr, s2)"
    by (auto simp: confirm_up_def bind_eq_Some_conv)
  note f2 = sys_read_duplex [OF rd, of cl] sys_read_sent [OF rd] sys_read_other [OF rd, of cl]
  show ?thesis
  proof (cases "\<exists>bs. rr = Got bs \<and> bs \<noteq> []")
    case True
    then obtain bs where bs: "rr = Got bs" "bs \<noteq> []" by blast
    with assms rd obtain ok where wr: "sys_write_full E cl bs s2 = Some (ok, s')" "pre' = pre"
      "v = (if ok then Confirmed else GaveUp)"
      by (auto simp: confirm_up_def bind_eq_Some_conv)
    note rw = read_write_passes [OF rd [unfolded bs(1)] bs(2) assms(2) wr(1)]
    show ?thesis
    proof (cases ok)
      case True
      with rw wr f2 sys_write_full_spec [OF wr(1)] assms(2) show ?thesis
        by (auto intro!: confirmed_idle)
    next
      case False
      with rw(1) wr show ?thesis by (simp add: confirmed_gave_up)
    qed
  next
    case False
    with assms rd have "v = UpClosed" "pre' = pre" "s' = s2"
      by (auto simp: confirm_up_def split: read_res.splits)
    with f2 assms(2) show ?thesis by (auto intro!: confirmed_idle)
  qed
qed

lemma confirm_cl_spec:
  assumes "confirm_cl k E up cl pre s = Some (v, pre', s')" and "up \<noteq> cl"
    and k: "\<And>pre1 s1. k pre1 s1 = Some (v, pre', s') \<Longrightarrow> confirmed up cl pre1 s1 (v, pre', s')"
  shows "confirmed up cl pre s (v, pre', s')"
proof -
  from assms obtain rr s2 where rd: "sys_read E cl 1024 s = Some (rr, s2)"
    by (auto simp: confirm_cl_def bind_eq_Some_conv)
  have d2: "duplex up cl s s2" using sys_read_duplex [OF rd] duplex_sym by blast
  note f2 = sys_read_sent [OF rd] sys_read_other [OF rd, of up]
  show ?thesis
  proof (cases "\<exists>bs. rr = Got bs \<and> bs \<noteq> [] \<and> length pre + length bs \<le> PRE_CAP")
    case True
    then obtain bs where bs: "rr = Got bs" "bs \<noteq> []" "length pre + length bs \<le> PRE_CAP" by blast
    with assms(1) rd obtain ok s3 where wr: "sys_write_full E up bs s2 = Some (ok, s3)"
      "(if ok then k (pre @ bs) s3 else Some (GaveUp, pre, s3)) = Some (v, pre', s')"
      by (auto simp: confirm_cl_def bind_eq_Some_conv)
    note w = sys_write_full_spec [OF wr(1)]
    have d3: "duplex up cl s s3" using duplex_trans [OF d2] w(1) [of cl] duplex_sym by blast
    show ?thesis
    proof (cases ok)
      case True
      with wr(2) k have c: "confirmed up cl (pre @ bs) s3 (v, pre', s')" by simp
      show ?thesis
      proof (rule confirmed_more [OF d3 _ _ _ _ bs(3) c])
        show "inq s3 up = inq s up" "sent s3 cl = sent s cl" "sent s3 up = sent s up @ bs"
          using f2 w assms(2) True by auto
        show "sock_bytes (inq s cl) = bs @ sock_bytes (inq s3 cl)"
          using sys_read_Got [OF rd [unfolded bs(1)] bs(2)] w(2) by simp
      qed
    next
      case False
      with wr(2) d3 show ?thesis by (simp add: confirmed_gave_up)
    qed
  next
    case False
    with assms(1) rd have "v = GaveUp" "pre' = pre" "s' = s2"
      by (auto simp: confirm_cl_def split: read_res.splits if_splits)
    with d2 show ?thesis by (simp add: confirmed_gave_up)
  qed
qed

lemma confirm_spec:
  assumes "confirm E up cl t0 pre s = Some res" and "up \<noteq> cl"
  shows "confirmed up cl pre s res"
proof -
  define P where "P = (\<lambda>(E :: env) up cl (t0 :: int) pre (s :: 'a os_scheme) res.
      up \<noteq> cl \<longrightarrow> confirmed up cl pre s res)"
  have "P E up cl t0 pre s res"
  proof (rule confirm.raw_induct [OF _ assms(1)], goal_cases)
    case (1 rec E up cl t0 pre s res)
    let ?q = "300 - (clock s - t0)"
    obtain v pre' s' where res: "res = (v, pre', s')" by (metis prod_cases3)
    obtain r e0 e1 s1 where p: "sys_poll2 E (nat ?q) s = (r, e0, e1, s1)" by (metis prod_cases4)
    note c1 = sys_poll2_calm [OF p]
    show ?case unfolding P_def
    proof
      assume ne: "up \<noteq> cl"
      have rec: "confirmed up cl q u (v, pre', s')" if "rec E up cl t0 q u = Some (v, pre', s')" for q u
        using 1(1) [of E up cl t0 q u res] that ne by (simp add: P_def res)
      show "confirmed up cl pre s res"
      proof (cases "?q \<le> 0")
        case True
        with 1(2) show ?thesis
          by (auto intro!: confirmed_idle simp: carried_def duplex_def same_streams_def)
      next
        case False
        with 1(2) p have eq: "(if r < 0 then
            (if e_errno E (tick s) = EINTR then rec E up cl t0 pre s1 else Some (GaveUp, pre, s1))
            else if r = 0 then Some (Confirmed, pre, s1)
            else if e0 then confirm_up E up cl pre s1
            else if e1 then confirm_cl (\<lambda>q u. rec E up cl t0 q u) E up cl pre s1
            else rec E up cl t0 pre s1) = Some (v, pre', s')"
          unfolding confirm_up_def confirm_cl_def by (simp add: Let_def res split del: if_split)
        have "confirmed up cl pre s1 (v, pre', s')"
          using eq ne by (auto simp: io_calm_duplex split: if_splits intro: rec confirm_up_spec confirm_cl_spec
              intro!: confirmed_idle confirmed_gave_up)
        with c1 show ?thesis unfolding res by (rule confirmed_calm)
      qed
    qed
  qed
  with assms(2) show ?thesis by (simp add: P_def)
qed

text \<open>The contract of \<^verbatim>\<open>stream_open_upstream\<close>, for a client that has sent \<open>pre\<close> so far.\<close>

definition opened ::
    "env \<Rightarrow> int \<Rightarrow> byte list \<Rightarrow> 'a os_scheme \<Rightarrow> int \<times> byte list \<times> 'a os_scheme \<Rightarrow> bool" where
  "opened E cl pre s res \<longleftrightarrow>
     (let (up, pre', s') = res in
      children s' = children s \<and> os.more s' = os.more s \<and> clock s \<le> clock s' \<and>
      same_streams (set (open_fds s) - {cl}) s s' \<and>
      (if 0 \<le> up then
         up \<notin> set (open_fds s) \<and> set (open_fds s') = insert up (set (open_fds s)) \<and>
         sent s' up = pre' \<and> (length pre \<le> PRE_CAP \<longrightarrow> length pre' \<le> PRE_CAP) \<and>
         (\<exists>ds. pre' = pre @ ds \<and> sock_bytes (inq s cl) = ds @ sock_bytes (inq s' cl)) \<and>
         (\<exists>n ys. sent s' cl = sent s cl @ ys \<and> sock_bytes (e_stream E n) = ys @ sock_bytes (inq s' up))
       else set (open_fds s') = set (open_fds s)))"

text \<open>A round that ends without an upstream connection.\<close>

definition retried :: "int \<Rightarrow> byte list \<Rightarrow> 'a os_scheme \<Rightarrow> byte list \<Rightarrow> 'a os_scheme \<Rightarrow> bool" where
  "retried cl pre s pre' s' \<longleftrightarrow>
     children s' = children s \<and> os.more s' = os.more s \<and> clock s \<le> clock s' \<and>
     same_streams (set (open_fds s) - {cl}) s s' \<and> set (open_fds s') = set (open_fds s) \<and>
     (length pre \<le> PRE_CAP \<longrightarrow> length pre' \<le> PRE_CAP) \<and> sent s' cl = sent s cl \<and>
     (\<exists>ds. pre' = pre @ ds \<and> sock_bytes (inq s cl) = ds @ sock_bytes (inq s' cl))"

lemma retried_opened:
  assumes r: "retried cl pre s pre1 s1" and o: "opened E cl pre1 s1 res"
  shows "opened E cl pre s res"
proof -
  obtain up pre' s' where res: "res = (up, pre', s')" by (metis prod_cases3)
  from r have fds: "set (open_fds s1) = set (open_fds s)" by (simp add: retried_def)
  have "same_streams (set (open_fds s) - {cl}) s s1" using r by (simp add: retried_def)
  moreover have "same_streams (set (open_fds s) - {cl}) s1 s'" using o by (simp add: opened_def res fds)
  ultimately have ss: "same_streams (set (open_fds s) - {cl}) s s'" by (rule same_streams_trans)
  have basic: "children s' = children s" "os.more s' = os.more s" "clock s \<le> clock s'"
    using r o by (auto simp: retried_def opened_def res)
  show ?thesis
  proof (cases "0 \<le> up")
    case False
    with o fds ss basic show ?thesis by (simp add: opened_def res)
  next
    case True
    from r obtain ds where ds: "pre1 = pre @ ds" "sock_bytes (inq s cl) = ds @ sock_bytes (inq s1 cl)"
      by (auto simp: retried_def)
    from True o obtain es where es: "pre' = pre1 @ es" "sock_bytes (inq s1 cl) = es @ sock_bytes (inq s' cl)"
      by (auto simp: opened_def res)
    have "pre' = pre @ (ds @ es)" "sock_bytes (inq s cl) = (ds @ es) @ sock_bytes (inq s' cl)"
      using ds es by simp_all
    then have "\<exists>zs. pre' = pre @ zs \<and> sock_bytes (inq s cl) = zs @ sock_bytes (inq s' cl)" by blast
    moreover have "sent s1 cl = sent s cl" "length pre \<le> PRE_CAP \<longrightarrow> length pre1 \<le> PRE_CAP"
      using r by (simp_all add: retried_def)
    moreover from True o have "up \<notin> set (open_fds s1)" "set (open_fds s') = insert up (set (open_fds s1))"
      "sent s' up = pre'" "length pre1 \<le> PRE_CAP \<longrightarrow> length pre' \<le> PRE_CAP"
      "\<exists>n ys. sent s' cl = sent s1 cl @ ys \<and> sock_bytes (e_stream E n) = ys @ sock_bytes (inq s' up)"
      by (simp_all add: opened_def res)
    ultimately show ?thesis using True fds ss basic by (simp add: opened_def res)
  qed
qed

lemma retried_calm:
  "retried cl pre s pre1 s1 \<Longrightarrow> io_calm s1 s2 \<Longrightarrow> retried cl pre s pre1 s2"
  by (auto simp: retried_def io_calm_def calm_def same_streams_def)

text \<open>The failed rounds: no connection, a replay that fails, an upstream that closes.\<close>

lemma no_connection_retried:
  "opens E s (up, s1) \<Longrightarrow> up < 0 \<Longrightarrow> cl \<in> set (open_fds s) \<Longrightarrow> retried cl pre s pre s1"
  by (auto simp: opens_def gives_fd_def retried_def same_streams_def)

text \<open>After the connection, with a duplex exchange on it.\<close>

lemma connected_frame:
  assumes "opens E s (up, s1)" and "0 \<le> up" and "cl \<in> set (open_fds s)" and "duplex up cl s1 s2"
  shows "up \<noteq> cl" "up \<notin> set (open_fds s)" "children s2 = children s" "os.more s2 = os.more s"
    "clock s \<le> clock s2" "same_streams (set (open_fds s) - {cl}) s s2"
    "set (open_fds s2) = insert up (set (open_fds s))"
    "inq s1 cl = inq s cl" "sent s1 cl = sent s cl" "sent s1 up = []"
proof -
  from assms(1,2) have up: "up \<notin> set (open_fds s)" by (auto simp: opens_def gives_fd_def)
  with assms(1,4) show "same_streams (set (open_fds s) - {cl}) s s2"
    by (force simp: opens_def duplex_def same_streams_def)
qed (use assms in \<open>auto simp: opens_def gives_fd_def duplex_def calm_def same_streams_def\<close>)

lemma closed_retried:
  assumes "opens E s (up, s1)" and "0 \<le> up" and "cl \<in> set (open_fds s)" and "duplex up cl s1 s2"
    and "sent s2 cl = sent s1 cl" and "length pre \<le> PRE_CAP \<longrightarrow> length pre' \<le> PRE_CAP"
    and "\<exists>ds. pre' = pre @ ds \<and> sock_bytes (inq s1 cl) = ds @ sock_bytes (inq s2 cl)"
  shows "retried cl pre s pre' (sys_close E' up s2)"
proof -
  note f = connected_frame [OF assms(1-4)]
  have "clock s \<le> clock (sys_close E' up s2)"
    using f(5) sys_close_rest(3) [of s2 E' up] by linarith
  with f assms(5-7) show ?thesis by (auto simp: retried_def same_streams_def)
qed

lemma closed_failed:
  assumes "opens E s (up, s1)" and "0 \<le> up" and "cl \<in> set (open_fds s)" and "duplex up cl s1 s2"
  shows "opened E cl pre s (-1, pre', sys_close E' up s2)"
proof -
  note f = connected_frame [OF assms]
  have "clock s \<le> clock (sys_close E' up s2)"
    using f(5) sys_close_rest(3) [of s2 E' up] by linarith
  with f show ?thesis by (auto simp: opened_def same_streams_def)
qed

lemma replay_spec:
  assumes "replay E up pre s = Some (ok, s')" and "up \<noteq> cl"
  shows "duplex up cl s s'" "inq s' = inq s" "sent s' cl = sent s cl"
    "ok \<Longrightarrow> sent s' up = sent s up @ pre"
proof -
  have "duplex up cl s s' \<and> inq s' = inq s \<and> sent s' cl = sent s cl \<and>
      (ok \<longrightarrow> sent s' up = sent s up @ pre)"
  proof (cases "pre = []")
    case True
    with assms show ?thesis
      using io_calm_duplex [of s s up cl] by (auto simp: replay_def)
  next
    case False
    with assms have w: "sys_write_full E up pre s = Some (ok, s')" by (simp add: replay_def)
    have "duplex cl up s s'" by (rule sys_write_full_spec(1) [OF w])
    then show ?thesis using sys_write_full_spec(2,4) [OF w] sys_write_full_spec(3) [OF w, of cl] assms(2)
      by (auto simp: duplex_sym [of up])
  qed
  then show "duplex up cl s s'" "inq s' = inq s" "sent s' cl = sent s cl"
    "ok \<Longrightarrow> sent s' up = sent s up @ pre" by auto
qed

lemma confirmed_opened:
  assumes "opens E s (up, s1)" and "0 \<le> up" and "cl \<in> set (open_fds s)"
    and "duplex up cl s1 s2" "inq s2 = inq s1" "sent s2 cl = sent s1 cl" "sent s2 up = sent s1 up @ pre"
    and "confirmed up cl pre s2 (Confirmed, pre', s3)"
  shows "opened E cl pre s (up, pre', s3)"
proof -
  from assms(8) have c: "duplex up cl s2 s3" "length pre \<le> PRE_CAP \<longrightarrow> length pre' \<le> PRE_CAP"
    "carried up cl s2 s3" and ds: "\<exists>ds. pre' = pre @ ds \<and> sent s3 up = sent s2 up @ ds \<and>
          sock_bytes (inq s2 cl) = ds @ sock_bytes (inq s3 cl)"
    by (auto simp: confirmed_def)
  note f = connected_frame [OF assms(1-3) duplex_trans [OF assms(4) c(1)]]
  obtain n where n: "inq s1 up = e_stream E n" using assms(1,2) by (auto simp: opens_def)
  obtain ys where "sent s3 cl = sent s2 cl @ ys" "sock_bytes (inq s2 up) = ys @ sock_bytes (inq s3 up)"
    using c(3) by (auto simp: carried_def)
  with n f assms(5,6) have "\<exists>n ys. sent s3 cl = sent s cl @ ys \<and>
      sock_bytes (e_stream E n) = ys @ sock_bytes (inq s3 up)" by (intro exI [of _ n] exI [of _ ys]) simp
  with f c(2) ds assms(2,5-7) show ?thesis by (auto simp: opened_def)
qed

lemma open_up_spec:
  assumes "open_up_loop E c deadline pre s = Some res" and "c_client c \<in> set (open_fds s)"
  shows "opened E (c_client c) pre s res"
proof -
  define P where "P = (\<lambda>E (c :: conn) (deadline :: int) pre (s :: 'a os_scheme) res.
      c_client c \<in> set (open_fds s) \<longrightarrow> opened E (c_client c) pre s res)"
  have "P E c deadline pre s res"
  proof (rule open_up_loop.raw_induct [OF _ assms(1)], goal_cases)
    case (1 rec E c deadline pre s res)
    let ?cl = "c_client c"
    obtain up s1 where t: "tcp_connect_timeout E (c_dst_host c) (c_dst_port c) 3000 s = (up, s1)"
      by fastforce
    with tcp_connect_opens have o: "opens E s (up, s1)" by metis
    show ?case unfolding P_def
    proof
      assume cl: "?cl \<in> set (open_fds s)"
      have again: "opened E ?cl pre s res"
        if "retried ?cl pre s q u" and "rec E c deadline q u = Some res" for q u
      proof -
        from that(1) cl have "?cl \<in> set (open_fds u)" by (simp add: retried_def)
        with 1(1) [OF that(2)] have "opened E ?cl q u res" by (simp add: P_def)
        with that(1) show ?thesis by (rule retried_opened)
      qed
      show "opened E ?cl pre s res"
      proof (cases "up < 0")
        case True
        note r = no_connection_retried [OF o True cl, of pre]
        have r2: "retried ?cl pre s pre (sleep_ms E 200 s1)" by (rule retried_calm [OF r]) simp
        have "opened E ?cl pre s (-1, pre, s1)"
          using r by (auto simp: retried_def opened_def)
        with 1(2) t True show ?thesis
          by (auto simp: Let_def split: if_splits intro: again [OF r2])
      next
        case False
        then have up: "0 \<le> up" by simp
        have ne: "up \<noteq> ?cl" using o up cl by (auto simp: opens_def gives_fd_def)
        from 1(2) t False obtain ok s2 where rp: "replay E up pre s1 = Some (ok, s2)"
          by (auto simp: Let_def bind_eq_Some_conv)
        note w = replay_spec [OF rp ne]
        show ?thesis
        proof (cases ok)
          case nok: False
          have "retried ?cl pre s pre (sys_close E up s2)"
            by (rule closed_retried [OF o up cl w(1)]) (use w in auto)
          with 1(2) t False rp nok show ?thesis by (auto intro: again)
        next
          case ok: True
          with 1(2) t False rp obtain v pre' s3 where
            cf: "confirm E up ?cl (clock s2) pre s2 = Some (v, pre', s3)"
            by (auto simp: Let_def bind_eq_Some_conv)
          note c = confirm_spec [OF cf ne]
          then have d3: "duplex up ?cl s1 s3"
            using duplex_trans [OF w(1)] by (simp add: confirmed_def)
          show ?thesis
          proof (cases "v = Confirmed")
            case True
            with c have "opened E ?cl pre s (up, pre', s3)"
              using confirmed_opened [OF o up cl w(1-3) w(4) [OF ok]] by simp
            with 1(2) t False rp ok cf True show ?thesis by simp
          next
            case nc: False
            let ?s4 = "sys_close E up s3"
            show ?thesis
            proof (cases "v = GaveUp \<or> e_abort E (tick ?s4) \<or> deadline \<le> clock ?s4")
              case True
              with 1(2) t False rp ok cf nc have "res = (-1, pre', ?s4)" by (simp add: Let_def)
              with closed_failed [OF o up cl d3] show ?thesis by simp
            next
              case go: False
              with nc c w have "retried ?cl pre s pre' ?s4"
                by (intro closed_retried [OF o up cl d3]; cases v; simp add: confirmed_def; blast)
              then have "retried ?cl pre s pre' (sleep_ms E 150 ?s4)"
                by (rule retried_calm) simp
              moreover from go 1(2) t False rp ok cf nc
              have "rec E c deadline pre' (sleep_ms E 150 ?s4) = Some res" by (simp add: Let_def)
              ultimately show ?thesis by (rule again)
            qed
          qed
        qed
      qed
    qed
  qed
  with assms(2) show ?thesis by (simp add: P_def)
qed

text \<open>
  C24: replay is exact.  When \<^verbatim>\<open>stream_open_upstream\<close> returns a connection, however many attempts it took,
  that connection has received exactly the bytes read from the client so far, from the first one on and
  each of them once, at most \<^const>\<open>PRE_CAP\<close> of them; the client got what this upstream sent; every failed
  attempt was closed.  When it fails, no descriptor is left open.
\<close>

theorem stream_replay_exact:
  assumes "stream_open_upstream E c s = Some (up, pre, s')" and "c_client c \<in> set (open_fds s)"
  shows "if 0 \<le> up then
       sent s' up = pre \<and> length pre \<le> PRE_CAP \<and>
       sock_bytes (inq s (c_client c)) = pre @ sock_bytes (inq s' (c_client c)) \<and>
       (\<exists>n ys. sent s' (c_client c) = sent s (c_client c) @ ys \<and>
          sock_bytes (e_stream E n) = ys @ sock_bytes (inq s' up)) \<and>
       up \<notin> set (open_fds s) \<and> set (open_fds s') = insert up (set (open_fds s))
     else set (open_fds s') = set (open_fds s)"
  using open_up_spec [OF assms(1) [unfolded stream_open_upstream_def] assms(2)]
  by (auto simp: opened_def)

text \<open>A run in which the guest does not listen yet at the first attempt: the client's three bytes are
  passed on, the upstream closes, the second connection gets them again and answers.\<close>

definition demo_stream_env :: env where
  "demo_stream_env = demo_env\<lparr>e_ret := (\<lambda>n. if n \<in> {6, 9} \<or> 20 \<le> n then 1 else 0),
     e_val := (\<lambda>n. if n = 6 then 2 else 1),
     e_stream := (\<lambda>n. if n < 10 then [Eof] else [Chunk [82, 67], Eof]),
     e_sink := (\<lambda>_. Accept 2 # replicate 4095 (Accept 4096))\<rparr>"

lemma demo_stream_env_sel [simp]:
  "e_ret demo_stream_env n = (if n = 6 \<or> n = 9 \<or> 20 \<le> n then 1 else 0)"
  "e_val demo_stream_env n = (if n = 6 then 2 else 1)"
  "e_stream demo_stream_env n = (if n < 10 then [Eof] else [Chunk [82, 67], Eof])"
  "e_sink demo_stream_env n = Accept 2 # Accept 4096 # replicate 4094 (Accept 4096)"
  "e_addrs demo_stream_env h q = Some 1" "e_delay demo_stream_env n = 1"
  "e_errno demo_stream_env n = EOther" "e_abort demo_stream_env n = False"
  using replicate_Suc [of 4094 "Accept 4096"]
  by (simp_all add: demo_stream_env_def demo_env_def)

definition demo_conn :: conn where
  "demo_conn = \<lparr>c_client = 3, c_dst_host = ''127.0.0.1'', c_dst_port = 37183, c_group = Some (Group 0 0),
     c_pub_port = 27183, c_peer = ''10.0.0.7''\<rparr>"

definition demo_conn_os :: os where
  "demo_conn_os = demo_os\<lparr>open_fds := [0, 1, 2, 3], inq := (\<lambda>_. [])(3 := [Chunk [7, 8, 9], Eof]),
     outq := (\<lambda>_. [])(3 := Accept 4096 # replicate 4095 (Accept 4096))\<rparr>"

lemmas agent_net_eval = tcp_connect_timeout_def sys_open_fd_def connect_ai_def Let_def sys_ret_def
  sys_poll_def sys_poll2_def step_os_def sleep_ms_def sys_close_def sys_read_def sys_write_full_def
  replay_def fresh_fd_def demo_conn_def demo_conn_os_def demo_os_def PRE_CAP_def write_full.simps

theorem stream_replay_exact_witness:
  "\<exists>s'. stream_open_upstream demo_stream_env demo_conn demo_conn_os = Some (4, [7, 8, 9], s') \<and>
     sent s' 4 = [7, 8, 9] \<and> sent s' 3 = [82, 67] \<and> set (open_fds s') = {0, 1, 2, 3, 4}"
proof -
  have e: "map_option (\<lambda>(u, q, s). (u, q, sent s 3))
      (stream_open_upstream demo_stream_env demo_conn demo_conn_os) = Some (4, [7, 8, 9], [82, 67])"
    by (simp add: stream_open_upstream_def open_up_loop.simps [of demo_stream_env] confirm.simps
        agent_net_eval)
  then obtain s' where s': "stream_open_upstream demo_stream_env demo_conn demo_conn_os = Some (4, [7, 8, 9], s')"
    "sent s' 3 = [82, 67]" by auto
  from stream_replay_exact [OF s'(1)] s' show ?thesis
    by (auto simp: demo_conn_def demo_conn_os_def)
qed

text \<open>What a relay thread carries, over its whole life.\<close>

lemma conn_thread_carries:
  assumes "conn_thread E c s = Some (up, s')" and "c_client c \<in> set (open_fds s)"
  shows "set (open_fds s') = set (open_fds s) - {c_client c} \<and> children s' = children s \<and>
     (0 \<le> up \<longrightarrow> prefix (sent s' up) (sock_bytes (inq s (c_client c))) \<and>
        (\<exists>n ys. sent s' (c_client c) = sent s (c_client c) @ ys \<and> prefix ys (sock_bytes (e_stream E n))))"
proof -
  let ?cl = "c_client c"
  from assms(1) obtain pre s1 s2 where op: "conn_open E c s = Some (up, pre, s1)"
    and pm: "(if 0 \<le> up then do { (_, _, s) \<leftarrow> pump E ?cl up 0 0 s1; Some (sys_close E up s) } else Some s1) = Some s2"
    and s': "s' = sys_close E ?cl s2"
    by (auto simp: conn_thread_def bind_eq_Some_conv)
  have o: "opened E ?cl [] s (up, pre, s1)"
  proof (cases "c_group c")
    case None
    with op have t: "tcp_connect_timeout E (c_dst_host c) (c_dst_port c) 3000 s = (up, s1)" "pre = []"
      by (auto simp: conn_open_def split: prod.splits)
    have "opens E s (up, s1)" using tcp_connect_opens [of E s "c_dst_host c" "c_dst_port c" 3000] t by simp
    with t(2) assms(2) show ?thesis
      by (fastforce simp: opened_def opens_def gives_fd_def same_streams_def split: if_splits)
  next
    case (Some g)
    with op have "open_up_loop E c (clock s + 10000) [] s = Some (up, pre, s1)"
      by (simp add: conn_open_def stream_open_upstream_def)
    then show ?thesis using assms(2) by (rule open_up_spec)
  qed
  show ?thesis
  proof (cases "0 \<le> up")
    case False
    with o pm s' show ?thesis by (auto simp: opened_def)
  next
    case True
    with o have f: "up \<notin> set (open_fds s)" "set (open_fds s1) = insert up (set (open_fds s))"
      "children s1 = children s" "sent s1 up = pre"
      "sock_bytes (inq s ?cl) = pre @ sock_bytes (inq s1 ?cl)"
      by (auto simp: opened_def)
    from True o obtain n ys where ys: "sent s1 ?cl = sent s ?cl @ ys"
      "sock_bytes (e_stream E n) = ys @ sock_bytes (inq s1 up)"
      by (auto simp: opened_def)
    from True pm obtain x y s3 where p: "pump E ?cl up 0 0 s1 = Some (x, y, s3)"
      and s2: "s2 = sys_close E up s3" by (auto simp: bind_eq_Some_conv)
    have "?cl \<noteq> up" using f(1) assms(2) by auto
    from pump_spec [OF p this] have d: "calm s1 s3" "passes ?cl up s1 s3" "passes up ?cl s1 s3"
      by (auto simp: pumped_def duplex_def)
    from d(2) f have "prefix (sent s3 up) (sock_bytes (inq s ?cl))"
      by (auto simp: passes_def)
    moreover obtain zs where "sent s3 ?cl = sent s ?cl @ (ys @ zs)"
      "prefix (ys @ zs) (sock_bytes (e_stream E n))"
      using d(3) ys by (auto simp: passes_def)
    ultimately show ?thesis using d(1) f s2 s' by (auto simp: calm_def)
  qed
qed

text \<open>
  C25: a relayed connection is transparent.  Over its whole life (opening, retries and replay, pumping),
  \<^verbatim>\<open>conn_thread\<close> delivers to the upstream connection it ends up with a prefix of the bytes the client
  sent, nothing inserted, duplicated or reordered, and to the client a prefix of what that upstream sent;
  at the end the client and every upstream descriptor are closed and nothing else is.
\<close>

theorem relay_transparent:
  assumes "conn_thread E c s = Some (up, s')" and "c_client c \<in> set (open_fds s)"
  shows "set (open_fds s') = set (open_fds s) - {c_client c} \<and> children s' = children s \<and>
     (0 \<le> up \<longrightarrow> prefix (sent s' up) (sock_bytes (inq s (c_client c))) \<and>
        (\<exists>n ys. sent s' (c_client c) = sent s (c_client c) @ ys \<and> prefix ys (sock_bytes (e_stream E n))))"
  using conn_thread_carries [OF assms] .

definition demo_relay_env :: env where
  "demo_relay_env = demo_stream_env\<lparr>e_ret := (\<lambda>n. if 6 \<le> n then 1 else 0),
     e_val := (\<lambda>n. if n = 9 then 2 else 1), e_stream := (\<lambda>_. [Chunk [82, 67], Eof])\<rparr>"

lemma demo_relay_env_sel [simp]:
  "e_ret demo_relay_env n = (if 6 \<le> n then 1 else 0)" "e_val demo_relay_env n = (if n = 9 then 2 else 1)"
  "e_stream demo_relay_env n = [Chunk [82, 67], Eof]"
  "e_sink demo_relay_env n = Accept 2 # Accept 4096 # replicate 4094 (Accept 4096)"
  "e_addrs demo_relay_env h q = Some 1" "e_delay demo_relay_env n = 1"
  "e_errno demo_relay_env n = EOther" "e_abort demo_relay_env n = False"
  by (simp_all add: demo_relay_env_def)

theorem relay_transparent_witness:
  "\<exists>s'. conn_thread demo_relay_env (demo_conn\<lparr>c_group := None\<rparr>) demo_conn_os = Some (4, s') \<and>
     sent s' 4 = [7, 8, 9] \<and> sent s' 3 = [82, 67] \<and>
     prefix (sent s' 4) (sock_bytes (inq demo_conn_os 3)) \<and> set (open_fds s') = {0, 1, 2}"
proof -
  let ?c = "demo_conn\<lparr>c_group := None\<rparr>"
  have "map_option (\<lambda>(u, s). (u, sent s 4, sent s 3)) (conn_thread demo_relay_env ?c demo_conn_os) =
      Some (4, [7, 8, 9], [82, 67])"
    apply (simp add: conn_thread_def conn_open_def agent_net_eval)
    apply (subst pump.simps, simp add: pump_dir_def agent_net_eval)
    apply (subst pump.simps, simp add: pump_dir_def agent_net_eval)
    apply (subst pump.simps, simp add: pump_dir_def agent_net_eval)
    done
  then obtain s' where s': "conn_thread demo_relay_env ?c demo_conn_os = Some (4, s')"
    "sent s' 4 = [7, 8, 9]" "sent s' 3 = [82, 67]"
    by (cases "conn_thread demo_relay_env ?c demo_conn_os") auto
  have "c_client ?c \<in> set (open_fds demo_conn_os)" by (simp add: demo_conn_def demo_conn_os_def)
  note r = relay_transparent [OF s'(1) this]
  have "set (open_fds s') = {0, 1, 2}"
    unfolding r [THEN conjunct1] by (simp add: demo_conn_def demo_conn_os_def insert_Diff_if)
  moreover have "prefix (sent s' 4) (sock_bytes (inq demo_conn_os 3))"
    using r [THEN conjunct2, THEN conjunct2] by (simp add: demo_conn_def)
  ultimately show ?thesis using s' by blast
qed

section \<open>Opening the upstream ends\<close>

text \<open>A peer that takes something at each of the next \<open>n\<close> writes.\<close>

definition generous :: "nat \<Rightarrow> wr_event list \<Rightarrow> bool" where
  "generous n es \<longleftrightarrow> n \<le> length es \<and> list_all (\<lambda>e. \<exists>k>0. e = Accept k) es"

lemma generous_write:
  "generous (length buf + m) es \<Longrightarrow> \<exists>es'. write_full es buf = Some (True, buf, es') \<and> generous m es'"
proof (induction es arbitrary: buf)
  case Nil
  then show ?case by (subst write_full.simps) (simp add: generous_def)
next
  case (Cons e es)
  show ?case
  proof (cases "buf = []")
    case True
    with Cons.prems show ?thesis by (subst write_full.simps) (simp add: generous_def)
  next
    case False
    from Cons.prems obtain k where k: "e = Accept k" "0 < k" by (auto simp: generous_def)
    have "length (drop k buf) + 1 \<le> length buf" using False k(2) by (cases buf) auto
    then have "generous (length (drop k buf) + m) es" using Cons.prems by (auto simp: generous_def)
    from Cons.IH [OF this] obtain es' where
      "write_full es (drop k buf) = Some (True, drop k buf, es')" "generous m es'" by blast
    with False k show ?thesis by (subst write_full.simps) (auto simp: min_def)
  qed
qed

lemma generous_sys_write:
  assumes "generous (length buf + m) (outq s fd)"
  shows "\<exists>s'. sys_write_full E fd buf s = Some (True, s') \<and> generous m (outq s' fd) \<and>
     inq s' = inq s \<and> (\<forall>g. g \<noteq> fd \<longrightarrow> outq s' g = outq s g) \<and> tick s' = Suc (tick s) \<and> clock s \<le> clock s'"
  using generous_write [OF assms] by (auto simp: sys_write_full_def)

text \<open>Signals stop, a positive poll reports an event, every upstream ends its stream and reads.\<close>

definition upstreams_fair :: "env \<Rightarrow> nat \<Rightarrow> bool" where
  "upstreams_fair E N \<longleftrightarrow> signals_end E N \<and> (\<forall>n. 0 < e_ret E n \<longrightarrow> odd (e_val E n) \<or> odd (e_val E n div 2)) \<and>
     pipes_end E \<and> (\<forall>n. generous PRE_CAP (e_sink E n))"

definition client_fair :: "int \<Rightarrow> 'a os_scheme \<Rightarrow> bool" where
  "client_fair cl s \<longleftrightarrow> Eof \<in> set (inq s cl) \<and> generous 4096 (outq s cl)"

lemma sys_poll2_cases:
  assumes "sys_poll2 E ms s = (r, e0, e1, s')"
  shows "r = e_ret E (tick s)" "e0 = odd (e_val E (tick s))" "e1 = odd (e_val E (tick s) div 2)"
    "tick s' = Suc (tick s)" "inq s' = inq s" "outq s' = outq s" "clock s \<le> clock s'"
    "open_fds s' = open_fds s"
proof -
  show "tick s' = Suc (tick s)" "r = e_ret E (tick s)" "e0 = odd (e_val E (tick s))"
    "e1 = odd (e_val E (tick s) div 2)"
    using assms by (auto simp: sys_poll2_def sys_poll_def Let_def sleep_ms_def split: if_splits)
  show "inq s' = inq s" "outq s' = outq s" "clock s \<le> clock s'" "open_fds s' = open_fds s"
    using sys_poll2_calm [OF assms] by (auto simp: io_calm_def calm_def)
qed

lemma confirm_returns:
  assumes fair: "upstreams_fair E N" and ne: "up \<noteq> cl"
    and "Eof \<in> set (inq s up)" "generous (PRE_CAP - length pre) (outq s up)"
    and "client_fair cl s" "length pre \<le> PRE_CAP"
  shows "\<exists>v pre' s'. confirm E up cl t0 pre s = Some (v, pre', s') \<and> length pre' \<le> PRE_CAP \<and>
     clock s \<le> clock s' \<and> (v = UpClosed \<longrightarrow> client_fair cl s')"
  using assms(3-)
proof (induction "(N - tick s) + (PRE_CAP - length pre)" arbitrary: pre s rule: less_induct)
  case less
  let ?q = "300 - (clock s - t0)"
  obtain r e0 e1 s1 where p: "sys_poll2 E (nat ?q) s = (r, e0, e1, s1)" by (metis prod_cases4)
  note f = sys_poll2_cases [OF p]
  have h1: "Eof \<in> set (inq s1 up)" "generous (PRE_CAP - length pre) (outq s1 up)" "client_fair cl s1"
    using less.prems f by (auto simp: client_fair_def)
  have ev: "0 < r \<longrightarrow> e0 \<or> e1" using fair f(1-3) by (simp add: upstreams_fair_def)
  consider (quiet) "?q \<le> 0" | (intr) "0 < ?q" "r < 0" "e_errno E (tick s) = EINTR"
    | (err) "0 < ?q" "r < 0" "e_errno E (tick s) \<noteq> EINTR" | (zero) "0 < ?q" "r = 0"
    | (up) "0 < ?q" "0 < r" e0 | (cl) "0 < ?q" "0 < r" "\<not> e0" e1
    using ev by (metis linorder_neqE_linordered_idom not_le)
  then show ?case
  proof cases
    case quiet
    with less.prems show ?thesis by (subst confirm.simps) auto
  next
    case intr
    with fair have "tick s < N" by (metis upstreams_fair_def signals_end_def not_le)
    then have "(N - tick s1) + (PRE_CAP - length pre) < (N - tick s) + (PRE_CAP - length pre)"
      using f(4) by simp
    from less.hyps [OF this h1(1,2,3) less.prems(4)] intr p f(7) show ?thesis
      by (subst confirm.simps) (fastforce simp: Let_def)
  next
    case err
    with p f(7) less.prems show ?thesis by (subst confirm.simps) (auto simp: Let_def)
  next
    case zero
    with p f(7) less.prems show ?thesis by (subst confirm.simps) (auto simp: Let_def)
  next
    case up
    obtain rr s2 where rd: "sys_read E up 4096 s1 = Some (rr, s2)" using sys_read_Eof [OF h1(1)] by blast
    note r2 = read_frame_read [OF rd] sys_read_sent [OF rd] sys_read_other [OF rd, of cl]
    have cf: "client_fair cl s2" "clock s \<le> clock s2"
      using h1(3) r2 ne f(7) by (auto simp: client_fair_def read_frame_def)
    show ?thesis
    proof (cases "\<exists>bs. rr = Got bs \<and> bs \<noteq> []")
      case True
      then obtain bs where bs: "rr = Got bs" "bs \<noteq> []" by blast
      have "length bs \<le> 4096" using sys_read_length [OF rd [unfolded bs(1)]] .
      then have "generous (length bs + 0) (outq s2 cl)"
        using cf(1) by (auto simp: client_fair_def generous_def)
      from generous_sys_write [OF this, of E] obtain s3 where
        "sys_write_full E cl bs s2 = Some (True, s3)" "clock s2 \<le> clock s3" by blast
      with up p rd bs cf less.prems show ?thesis by (subst confirm.simps) (auto simp: Let_def)
    next
      case False
      with up p rd cf less.prems show ?thesis
        by (subst confirm.simps) (auto simp: Let_def split: read_res.splits)
    qed
  next
    case cl
    have "Eof \<in> set (inq s1 cl)" using h1(3) by (simp add: client_fair_def)
    then obtain rr s2 where rd: "sys_read E cl 1024 s1 = Some (rr, s2)" "Eof \<in> set (inq s2 cl)"
      using sys_read_Eof by blast
    note r2 = read_frame_read [OF rd(1)] sys_read_sent [OF rd(1)] sys_read_other [OF rd(1), of up]
    have c2: "clock s \<le> clock s2" using r2 f(7) by (auto simp: read_frame_def)
    show ?thesis
    proof (cases "\<exists>bs. rr = Got bs \<and> bs \<noteq> [] \<and> length pre + length bs \<le> PRE_CAP")
      case False
      with cl p rd c2 less.prems show ?thesis
        by (subst confirm.simps) (auto simp: Let_def split: read_res.splits)
    next
      case True
      then obtain bs where bs: "rr = Got bs" "bs \<noteq> []" "length pre + length bs \<le> PRE_CAP" by blast
      let ?m = "PRE_CAP - length (pre @ bs)"
      have "length bs + ?m = PRE_CAP - length pre" using bs(3) by simp
      then have "generous (length bs + ?m) (outq s2 up)" using h1(2) r2(2) by simp
      from generous_sys_write [OF this, of E] obtain s3 where w: "sys_write_full E up bs s2 = Some (True, s3)"
        "generous ?m (outq s3 up)" "inq s3 = inq s2" "\<forall>g. g \<noteq> up \<longrightarrow> outq s3 g = outq s2 g"
        "tick s3 = Suc (tick s2)" "clock s2 \<le> clock s3" by blast
      have "N - tick s3 \<le> N - tick s" using w(5) f(4) sys_read_tick [OF rd(1)] by simp
      moreover have "?m < PRE_CAP - length pre" using bs by (cases bs) auto
      ultimately have dec: "(N - tick s3) + ?m < (N - tick s) + (PRE_CAP - length pre)" by linarith
      have "client_fair cl s3" using rd(2) h1(3) w r2 ne by (simp add: client_fair_def)
      moreover have "Eof \<in> set (inq s3 up)" using h1(1) w r2 ne by simp
      ultimately obtain v pre' s' where "confirm E up cl t0 (pre @ bs) s3 = Some (v, pre', s')"
        "length pre' \<le> PRE_CAP" "clock s3 \<le> clock s'" "v = UpClosed \<longrightarrow> client_fair cl s'"
        using less.hyps [OF dec _ w(2)] bs(3) by auto
      with cl p rd bs w c2 show ?thesis by (subst confirm.simps) (auto simp: Let_def)
    qed
  qed
qed

lemma client_fair_same: "same_streams {cl} s s' \<Longrightarrow> client_fair cl s' = client_fair cl s"
  by (simp add: same_streams_def client_fair_def)

lemma replay_returns:
  assumes "generous PRE_CAP (outq s up)" and "length pre \<le> PRE_CAP" and "up \<noteq> cl"
  shows "\<exists>s'. replay E up pre s = Some (True, s') \<and> generous (PRE_CAP - length pre) (outq s' up) \<and>
     inq s' = inq s \<and> outq s' cl = outq s cl \<and> clock s \<le> clock s'"
proof (cases "pre = []")
  case True
  with assms show ?thesis by (simp add: replay_def)
next
  case False
  have "generous (length pre + (PRE_CAP - length pre)) (outq s up)" using assms by simp
  from generous_sys_write [OF this, of E] False assms(3) show ?thesis by (auto simp: replay_def)
qed

lemma open_up_returns:
  assumes fair: "upstreams_fair E N"
    and "c_client c \<in> set (open_fds s)" "client_fair (c_client c) s" "length pre \<le> PRE_CAP"
  shows "\<exists>res. open_up_loop E c deadline pre s = Some res"
  using assms(2-)
proof (induction "nat (deadline - clock s)" arbitrary: pre s rule: less_induct)
  case less
  let ?cl = "c_client c"
  obtain up s1 where t: "tcp_connect_timeout E (c_dst_host c) (c_dst_port c) 3000 s = (up, s1)"
    by fastforce
  have o: "opens E s (up, s1)"
    using tcp_connect_opens [of E s "c_dst_host c" "c_dst_port c" 3000] t by simp
  have c1: "clock s \<le> clock s1" using o by (auto simp: opens_def gives_fd_def)
  have cf1: "client_fair ?cl s1"
    using o less.prems(1,2) client_fair_same [of ?cl s s1] by (auto simp: opens_def same_streams_def)
  show ?case
  proof (cases "up < 0")
    case True
    show ?thesis
    proof (cases "e_abort E (tick s1) \<or> deadline \<le> clock s1")
      case True
      with t \<open>up < 0\<close> show ?thesis by (subst open_up_loop.simps) simp
    next
      case go: False
      let ?s2 = "sleep_ms E 200 s1"
      have "nat (deadline - clock ?s2) < nat (deadline - clock s)"
        using go c1 sleep_ms_fields(7) [of s1 200 E] by simp
      moreover have "?cl \<in> set (open_fds ?s2)"
        using o True less.prems(1) by (auto simp: opens_def gives_fd_def)
      moreover have "client_fair ?cl ?s2" using cf1 by (simp add: client_fair_def)
      ultimately have "\<exists>res. open_up_loop E c deadline pre ?s2 = Some res"
        using less.hyps less.prems(3) by blast
      with t True go show ?thesis by (subst open_up_loop.simps) simp
    qed
  next
    case False
    then have up: "0 \<le> up" by simp
    have ne: "up \<noteq> ?cl" using o up less.prems(1) by (auto simp: opens_def gives_fd_def)
    from o up obtain n where n: "inq s1 up = e_stream E n" "outq s1 up = e_sink E n"
      by (auto simp: opens_def)
    with fair have g: "generous PRE_CAP (outq s1 up)" "Eof \<in> set (inq s1 up)"
      by (auto simp: upstreams_fair_def pipes_end_def)
    obtain s2 where rp: "replay E up pre s1 = Some (True, s2)"
      "generous (PRE_CAP - length pre) (outq s2 up)" "inq s2 = inq s1" "outq s2 ?cl = outq s1 ?cl"
      "clock s1 \<le> clock s2"
      using replay_returns [OF g(1) less.prems(3) ne, of E] by blast
    have cf2: "client_fair ?cl s2" using cf1 rp by (simp add: client_fair_def)
    obtain v pre' s3 where cf: "confirm E up ?cl (clock s2) pre s2 = Some (v, pre', s3)"
      "length pre' \<le> PRE_CAP" "clock s2 \<le> clock s3" "v = UpClosed \<longrightarrow> client_fair ?cl s3"
      using confirm_returns [OF fair ne _ rp(2) cf2 less.prems(3), of "clock s2"] g(2) rp(3) by auto
    let ?s4 = "sys_close E up s3"
    have c4: "clock s3 \<le> clock ?s4" by simp
    show ?thesis
    proof (cases "v = Confirmed \<or> v = GaveUp \<or> e_abort E (tick ?s4) \<or> deadline \<le> clock ?s4")
      case True
      with t False rp cf show ?thesis
        by (subst open_up_loop.simps) (cases "v = Confirmed", simp_all add: Let_def)
    next
      case go: False
      let ?s5 = "sleep_ms E 150 ?s4"
      have "clock s < deadline \<and> clock s < clock ?s5"
        using go c1 c4 rp(5) cf(3) sleep_ms_fields(7) [of ?s4 150 E] by linarith
      then have "nat (deadline - clock ?s5) < nat (deadline - clock s)" by simp
      moreover have "?cl \<in> set (open_fds ?s5)"
      proof -
        have "duplex up ?cl s2 s3" using confirm_spec [OF cf(1) ne] by (simp add: confirmed_def)
        then have "duplex up ?cl s1 s3" using duplex_trans replay_spec(1) [OF rp(1) ne] by blast
        from connected_frame(7) [OF o up less.prems(1) this] ne less.prems(1) show ?thesis by simp
      qed
      moreover have "client_fair ?cl ?s5"
        using cf(4) go by (cases v) (simp_all add: client_fair_def)
      ultimately have "\<exists>res. open_up_loop E c deadline pre' ?s5 = Some res"
        using less.hyps cf(2) by blast
      with t False rp cf go show ?thesis by (subst open_up_loop.simps) (simp add: Let_def)
    qed
  qed
qed

text \<open>
  C29: opening a stream ends.  If signals stop, a poll that returns a positive number reports an event,
  every upstream reads what it is sent and ends its own stream, and the client's stream ends, then
  \<^verbatim>\<open>stream_open_upstream\<close> returns, so the group is released and the next connection of the port goes on.
\<close>

theorem stream_open_returns:
  assumes "upstreams_fair E N" and "c_client c \<in> set (open_fds s)" and "client_fair (c_client c) s"
  shows "\<exists>up pre s'. stream_open_upstream E c s = Some (up, pre, s')"
  using open_up_returns [OF assms, of "[]"] by (auto simp: stream_open_upstream_def)

theorem stream_open_returns_witness:
  "upstreams_fair demo_stream_env 0 \<and> client_fair (c_client demo_conn) demo_conn_os \<and>
   (\<exists>up pre s'. stream_open_upstream demo_stream_env demo_conn demo_conn_os = Some (up, pre, s'))"
proof -
  have "upstreams_fair demo_stream_env 0"
    by (auto simp: upstreams_fair_def signals_end_def pipes_end_def generous_def PRE_CAP_def
        list_all_iff)
  moreover have "client_fair (c_client demo_conn) demo_conn_os"
    by (simp add: client_fair_def demo_conn_def demo_conn_os_def generous_def list_all_iff)
  moreover have "c_client demo_conn \<in> set (open_fds demo_conn_os)"
    by (simp add: demo_conn_def demo_conn_os_def)
  ultimately show ?thesis using stream_open_returns by blast
qed

text \<open>Without the assumption on the upstream's reading side the loop need not end: the branch for a
  failed replay looks neither at the deadline nor at the stop flag.\<close>

lemma replay_failure_spins:
  assumes conn: "\<And>s :: 'a os_scheme. 0 \<le> fst (tcp_connect_timeout E (c_dst_host c) (c_dst_port c) 3000 s)"
    and dead: "\<And>n. e_sink E n = [WrErr]" and "pre \<noteq> []"
  shows "open_up_loop E c deadline pre (s :: 'a os_scheme) = None"
proof (rule ccontr)
  define P where "P = (\<lambda>E' c' (deadline :: int) (pre' :: byte list) (s :: 'a os_scheme) (res :: int \<times> byte list \<times> 'a os_scheme).
      E' = E \<and> c' = c \<and> pre' \<noteq> [] \<longrightarrow> False)"
  assume "open_up_loop E c deadline pre s \<noteq> None"
  then obtain res where "open_up_loop E c deadline pre s = Some res" by blast
  then have "P E c deadline pre s res"
  proof (rule open_up_loop.raw_induct [rotated], goal_cases)
    case (1 rec E' c' deadline pre' s res)
    show ?case unfolding P_def
    proof (intro impI, elim conjE)
      assume h: "E' = E" "c' = c" "pre' \<noteq> []"
      obtain up s1 where t: "tcp_connect_timeout E (c_dst_host c) (c_dst_port c) 3000 s = (up, s1)"
        by fastforce
      then have up: "0 \<le> up" using conn [of s] by simp
      have "opens E s (up, s1)"
        using tcp_connect_opens [of E s "c_dst_host c" "c_dst_port c" 3000] t by simp
      with up dead have "outq s1 up = [WrErr]" by (auto simp: opens_def)
      with h(3) have "\<exists>s2. replay E up pre' s1 = Some (False, s2)"
        by (simp add: replay_def sys_write_full_def write_full_core)
      then obtain s2 where "replay E up pre' s1 = Some (False, s2)" ..
      with 1(2) t up h have "rec E c deadline pre' (sys_close E up s2) = Some res" by simp
      from 1(1) [OF this] h show False by (simp add: P_def)
    qed
  qed
  with assms(3) show False by (simp add: P_def)
qed

end
