(* ===== verification/Agent_Group.thy ===== *)
theory Agent_Group
  imports Agent_Net
begin

text \<open>
  The group lock of \<^verbatim>\<open>conn_thread\<close>, \<^verbatim>\<open>frontends/agent/net.c\<close> lines 199-203 and 212-215: the connections of
  one stream port open their upstream one at a time, under a mutex, a condition variable and the flag
  \<^verbatim>\<open>busy\<close>.  Every connection thread has a program counter, one value per statement between two points
  where another thread can run; the step relation interleaves any number of threads of any groups.
  Shown: mutual exclusion, no lost wake-up, no deadlock of the lock, and that its steps come to an end.
\<close>

section \<open>The threads\<close>

text \<open>The counter names the statement that comes next.  \<open>Asleep\<close> is inside \<^verbatim>\<open>pthread_cond_wait\<close>, in the
  wait set of the condition variable and without the mutex; \<open>Woken\<close> is still inside, out of the wait set,
  and wants the mutex back.  \<open>Dialling\<close> is the connection of a thread without a group.\<close>

datatype conn_pc =
    WantEnter | Testing | Asleep | Woken | Setting | EnterUnlock
  | Opening | WantLeave | Clearing | Broadcasting | LeaveUnlock
  | Dialling | Relaying | Ended

record conn_state =
  cs_conn :: conn
  cs_pc :: conn_pc
  cs_up :: int   \<comment> \<open>\<^verbatim>\<open>up\<close>, once it is set\<close>

text \<open>The mutex with its owner and the flag of each group, and the threads.\<close>

record groups =
  g_mu :: "group_id \<Rightarrow> nat option"
  busy :: "group_id \<Rightarrow> bool"
  conns :: "nat \<Rightarrow> conn_state option"

definition goto :: "nat \<Rightarrow> conn_pc \<Rightarrow> groups \<Rightarrow> groups" where
  "goto t pc s = s\<lparr>conns := (conns s)(t := map_option (cs_pc_update (\<lambda>_. pc)) (conns s t))\<rparr>"

text \<open>\<^verbatim>\<open>pthread_mutex_lock\<close>: \<^term>\<open>None\<close> while another thread owns the mutex.\<close>

definition mutex_lock :: "nat \<Rightarrow> group_id \<Rightarrow> groups \<Rightarrow> groups option" where
  "mutex_lock t g s = (if g_mu s g = None then Some (s\<lparr>g_mu := (g_mu s)(g := Some t)\<rparr>) else None)"

definition mutex_unlock :: "group_id \<Rightarrow> groups \<Rightarrow> groups" where
  "mutex_unlock g s = s\<lparr>g_mu := (g_mu s)(g := None)\<rparr>"

text \<open>\<^verbatim>\<open>pthread_cond_broadcast\<close> takes every thread out of the wait set.\<close>

definition in_wait_set :: "group_id \<Rightarrow> conn_state \<Rightarrow> bool" where
  "in_wait_set g th \<longleftrightarrow> c_group (cs_conn th) = Some g \<and> cs_pc th = Asleep"

definition cond_broadcast :: "group_id \<Rightarrow> groups \<Rightarrow> groups" where
  "cond_broadcast g s = s\<lparr>conns := (\<lambda>t. map_option
     (\<lambda>th. if in_wait_set g th then th\<lparr>cs_pc := Woken\<rparr> else th) (conns s t))\<rparr>"

text \<open>The statements of a thread \<open>t\<close> of group \<open>g\<close> that touch the lock; \<^term>\<open>None\<close> when it is blocked or is
  at none of them.  \<^verbatim>\<open>pthread_cond_wait\<close> gives the mutex up and enters the wait set at once, and takes the
  mutex again before it returns to the test of the \<^verbatim>\<open>while\<close>.\<close>

definition group_code :: "nat \<Rightarrow> group_id \<Rightarrow> conn_pc \<Rightarrow> int \<Rightarrow> groups \<Rightarrow> groups option" where
  "group_code t g pc up s =
     (case pc of
        WantEnter \<Rightarrow> map_option (goto t Testing) (mutex_lock t g s)
      | Testing \<Rightarrow> Some (if busy s g then mutex_unlock g (goto t Asleep s) else goto t Setting s)
      | Woken \<Rightarrow> map_option (goto t Testing) (mutex_lock t g s)
      | Setting \<Rightarrow> Some (goto t EnterUnlock (s\<lparr>busy := (busy s)(g := True)\<rparr>))
      | EnterUnlock \<Rightarrow> Some (goto t Opening (mutex_unlock g s))
      | WantLeave \<Rightarrow> map_option (goto t Clearing) (mutex_lock t g s)
      | Clearing \<Rightarrow> Some (goto t Broadcasting (s\<lparr>busy := (busy s)(g := False)\<rparr>))
      | Broadcasting \<Rightarrow> Some (goto t LeaveUnlock (cond_broadcast g s))
      | LeaveUnlock \<Rightarrow> Some (goto t (if 0 \<le> up then Relaying else Ended) (mutex_unlock g s))
      | _ \<Rightarrow> None)"

definition lock_step :: "nat \<Rightarrow> groups \<Rightarrow> groups option" where
  "lock_step t s =
     (case conns s t of
        None \<Rightarrow> None
      | Some th \<Rightarrow>
          (case c_group (cs_conn th) of
             None \<Rightarrow> None
           | Some g \<Rightarrow> group_code t g (cs_pc th) (cs_up th) s))"

definition start_conn :: "nat \<Rightarrow> conn \<Rightarrow> groups \<Rightarrow> groups" where
  "start_conn t c s = s\<lparr>conns := (conns s)(t \<mapsto>
     \<lparr>cs_conn = c, cs_pc = (if c_group c = None then Dialling else WantEnter), cs_up = -1\<rparr>)\<rparr>"

text \<open>The upstream connection has been tried.\<close>

definition set_upstream :: "nat \<Rightarrow> conn_state \<Rightarrow> int \<Rightarrow> groups \<Rightarrow> groups" where
  "set_upstream t th up s = s\<lparr>conns := (conns s)(t \<mapsto> th\<lparr>cs_up := up, cs_pc :=
     (if c_group (cs_conn th) \<noteq> None then WantLeave else if 0 \<le> up then Relaying else Ended)\<rparr>)\<rparr>"

text \<open>The steps of all threads: one is created by an accepted connection; one runs a statement of the
  lock; \<^verbatim>\<open>pthread_cond_wait\<close> may end without a broadcast; opening and relaying are the functions of
  \<^verbatim>\<open>Agent_Net\<close>, from any state of the system since other threads have run in between.\<close>

inductive group_step :: "env \<Rightarrow> groups \<Rightarrow> groups \<Rightarrow> bool" for E where
  accepted: "conns s t = None \<Longrightarrow> group_step E s (start_conn t c s)"
| locked: "lock_step t s = Some s' \<Longrightarrow> group_step E s s'"
| spurious: "conns s t = Some th \<Longrightarrow> cs_pc th = Asleep \<Longrightarrow> group_step E s (goto t Woken s)"
| upstream: "conns s t = Some th \<Longrightarrow> cs_pc th = (if c_group (cs_conn th) = None then Dialling else Opening) \<Longrightarrow>
     conn_open E (cs_conn th) (os :: os) = Some (up, pre, os') \<Longrightarrow> group_step E s (set_upstream t th up s)"
| relayed: "conns s t = Some th \<Longrightarrow> cs_pc th = Relaying \<Longrightarrow>
     pump E (c_client (cs_conn th)) (cs_up th) 0 0 (os :: os) = Some r \<Longrightarrow> group_step E s (goto t Ended s)"

inductive_cases group_stepE: "group_step E s s'"

definition groups_start :: "groups \<Rightarrow> bool" where
  "groups_start s \<longleftrightarrow> (\<forall>g. g_mu s g = None \<and> \<not> busy s g) \<and> (\<forall>t. conns s t = None)"

section \<open>The invariant\<close>

text \<open>Thread \<open>t\<close> is a thread of group \<open>g\<close> with its counter in \<open>P\<close>.\<close>

definition at_pc :: "groups \<Rightarrow> nat \<Rightarrow> group_id \<Rightarrow> conn_pc set \<Rightarrow> bool" where
  "at_pc s t g P \<longleftrightarrow> (\<exists>th. conns s t = Some th \<and> c_group (cs_conn th) = Some g \<and> cs_pc th \<in> P)"

abbreviation owning :: "conn_pc set" where
  "owning \<equiv> {Testing, Setting, EnterUnlock, Clearing, Broadcasting, LeaveUnlock}"

abbreviation inside :: "conn_pc set" where
  "inside \<equiv> {EnterUnlock, Opening, WantLeave, Clearing}"

abbreviation waiting :: "conn_pc set" where
  "waiting \<equiv> {WantEnter, Testing, Asleep, Woken, Setting}"

text \<open>The mutex belongs to the one thread between a lock and an unlock; \<^verbatim>\<open>busy\<close> is set exactly while one
  thread, and only one, is between setting and clearing it; it is clear when a thread is about to set it;
  and a thread in the wait set has a broadcast ahead of it.\<close>

definition group_inv :: "groups \<Rightarrow> group_id \<Rightarrow> bool" where
  "group_inv s g \<longleftrightarrow>
     (\<forall>t. g_mu s g = Some t \<longleftrightarrow> at_pc s t g owning) \<and>
     (busy s g \<longleftrightarrow> (\<exists>t. at_pc s t g inside)) \<and>
     (\<forall>t u. at_pc s t g inside \<longrightarrow> at_pc s u g inside \<longrightarrow> t = u) \<and>
     (\<forall>t. at_pc s t g {Setting} \<longrightarrow> \<not> busy s g) \<and>
     (\<forall>t. at_pc s t g {Asleep} \<longrightarrow> busy s g \<or> (\<exists>u. at_pc s u g {Broadcasting}))"

definition groups_inv :: "groups \<Rightarrow> bool" where
  "groups_inv s \<longleftrightarrow> finite (dom (conns s)) \<and> (\<forall>g. group_inv s g)"

text \<open>How the updates change counters, mutex and flag.\<close>

lemma at_pc_goto [simp]:
  "at_pc (goto t pc s) u h P \<longleftrightarrow> (if u = t then at_pc s t h UNIV \<and> pc \<in> P else at_pc s u h P)"
  by (auto simp: at_pc_def goto_def)

lemma at_pc_broadcast [simp]:
  "at_pc (cond_broadcast g s) u h P \<longleftrightarrow>
     (if at_pc s u g {Asleep} then h = g \<and> Woken \<in> P else at_pc s u h P)"
  by (cases "conns s u") (auto simp: at_pc_def cond_broadcast_def in_wait_set_def)

lemma at_pc_locks [simp]:
  "at_pc (mutex_unlock g s) = at_pc s" "at_pc (s\<lparr>busy := b\<rparr>) = at_pc s" "at_pc (s\<lparr>g_mu := m\<rparr>) = at_pc s"
  by (simp_all add: fun_eq_iff at_pc_def mutex_unlock_def)

lemma groups_fields [simp]:
  "g_mu (goto t pc s) = g_mu s" "busy (goto t pc s) = busy s"
  "dom (conns (goto t pc s)) = dom (conns s)"
  "g_mu (cond_broadcast g s) = g_mu s" "busy (cond_broadcast g s) = busy s"
  "dom (conns (cond_broadcast g s)) = dom (conns s)"
  "g_mu (mutex_unlock g s) = (g_mu s)(g := None)" "busy (mutex_unlock g s) = busy s"
  "conns (mutex_unlock g s) = conns s"
  by (auto simp: goto_def cond_broadcast_def mutex_unlock_def split: if_splits)

lemma at_pc_same:
  assumes "at_pc s t g {pc}" shows "at_pc s t h P \<longleftrightarrow> h = g \<and> pc \<in> P"
  using assms by (auto simp: at_pc_def)

text \<open>The steps of a thread in a known place, with the conditions each needs.\<close>

lemma lock_step_cases:
  assumes "lock_step t s = Some s'"
  obtains g pc up where "at_pc s t g {pc}" "group_code t g pc up s = Some s'"
  using assms by (auto simp: lock_step_def at_pc_def split: option.splits)


lemma group_inv_other:
  assumes i: "group_inv s h" and v: "\<And>u P. at_pc s' u h P \<longleftrightarrow> at_pc s u h P"
    and "g_mu s' h = g_mu s h" and "busy s' h = busy s h"
  shows "group_inv s' h"
  using i unfolding group_inv_def v assms(3,4) .

text \<open>One thread \<open>t\<close> moves from \<open>q\<close> to \<open>q'\<close> (\<^term>\<open>None\<close>: it is no thread of the group), other threads
  stay where they are.\<close>

lemma group_inv_move:
  assumes i: "group_inv s g"
    and old: "\<And>P. at_pc s t g P \<longleftrightarrow> q \<in> Some ` P"
    and new: "\<And>u P. at_pc s' u g P \<longleftrightarrow> (if u = t then q' \<in> Some ` P else at_pc s u g P)"
    and mu: "g_mu s' g = (if q' \<in> Some ` owning then Some t else if q \<in> Some ` owning then None else g_mu s g)"
      "q' \<in> Some ` owning \<Longrightarrow> q \<notin> Some ` owning \<Longrightarrow> g_mu s g = None"
    and bz: "busy s' g = (q' \<in> Some ` inside \<or> q \<notin> Some ` inside \<and> busy s g)"
      "q' \<in> Some ` inside \<Longrightarrow> q \<notin> Some ` inside \<Longrightarrow> q = Some Setting"
      "q \<in> Some ` inside \<Longrightarrow> q' \<notin> Some ` inside \<Longrightarrow> q' = Some Broadcasting"
    and new_pc: "q' = Some Setting \<Longrightarrow> \<not> busy s g" "q' = Some Asleep \<Longrightarrow> busy s g \<and> q = Some Testing"
      "q \<noteq> Some Broadcasting"
  shows "group_inv s' g"
proof -
  have i1: "\<And>u. g_mu s g = Some u \<longleftrightarrow> at_pc s u g owning"
    and i2: "busy s g \<longleftrightarrow> (\<exists>u. at_pc s u g inside)"
    and i3: "\<And>u v. at_pc s u g inside \<Longrightarrow> at_pc s v g inside \<Longrightarrow> u = v"
    and i4: "\<And>u. at_pc s u g {Setting} \<Longrightarrow> \<not> busy s g"
    and i5: "\<And>u. at_pc s u g {Asleep} \<Longrightarrow> busy s g \<or> (\<exists>v. at_pc s v g {Broadcasting})"
    using i unfolding group_inv_def by blast+
  have up: "at_pc s u g P \<Longrightarrow> P \<subseteq> Q \<Longrightarrow> at_pc s u g Q" for u P Q by (auto simp: at_pc_def)
  have s4: "at_pc s t g {Setting} \<longleftrightarrow> q = Some Setting" using old by auto
  have one: "u = t" if "q \<in> Some ` owning" "at_pc s u g owning" for u
  proof -
    from that(1) have "at_pc s t g owning" by (simp only: old)
    with that(2) i1 show ?thesis by (metis option.inject)
  qed
  show ?thesis unfolding group_inv_def
  proof (intro conjI allI impI)
    fix u
    show "g_mu s' g = Some u \<longleftrightarrow> at_pc s' u g owning"
    proof (cases "u = t")
      case True
      then show ?thesis using mu i1 [of t] old [of owning] unfolding new by (cases "q' \<in> Some ` owning") simp_all
    next
      case False
      then show ?thesis using mu i1 [of u] one [of u] unfolding new
        by (metis option.distinct(1) option.inject)
    qed
  next
    show "busy s' g \<longleftrightarrow> (\<exists>u. at_pc s' u g inside)"
      using bz i2 i3 old [of inside] unfolding new by metis
  next
    fix u v
    assume "at_pc s' u g inside" "at_pc s' v g inside"
    then show "u = v" using bz(2) i2 i3 i4 [of t] s4 old [of inside] unfolding new by metis
  next
    fix u
    assume a: "at_pc s' u g {Setting}"
    show "\<not> busy s' g"
    proof (cases "u = t")
      case True
      with a have "q' = Some Setting" unfolding new by auto
      with new_pc(1) bz(1) show ?thesis by auto
    next
      case False
      with a have u: "at_pc s u g {Setting}" unfolding new by simp
      with one [of u] False up [of u "{Setting}" owning] have "q \<noteq> Some Setting" by auto
      with bz(2) have "q' \<in> Some ` inside \<Longrightarrow> q \<in> Some ` inside" by blast
      with i4 [OF u] bz(1) i2 old [of inside] show ?thesis by blast
    qed
  next
    fix u
    assume a: "at_pc s' u g {Asleep}"
    show "busy s' g \<or> (\<exists>v. at_pc s' v g {Broadcasting})"
    proof (cases "u = t")
      case True
      with a have "q' = Some Asleep" unfolding new by auto
      with new_pc(2) bz(1) show ?thesis by auto
    next
      case False
      with a have "at_pc s u g {Asleep}" unfolding new by simp
      from i5 [OF this] show ?thesis
      proof
        assume "busy s g"
        moreover from this bz have "busy s' g \<or> q' = Some Broadcasting" by blast
        moreover have "at_pc s' t g {Broadcasting}" if "q' = Some Broadcasting" using that by (simp add: new)
        ultimately show ?thesis by blast
      next
        assume "\<exists>v. at_pc s v g {Broadcasting}"
        then obtain v where v: "at_pc s v g {Broadcasting}" ..
        moreover from v old new_pc(3) have "v \<noteq> t" by auto
        ultimately have "at_pc s' v g {Broadcasting}" by (simp add: new)
        then show ?thesis by blast
      qed
    qed
  qed
qed

text \<open>The broadcast: the caller goes on, and the wait set is empty.\<close>

lemma group_inv_broadcast:
  assumes i: "group_inv s g" and a: "at_pc s t g {Broadcasting}"
  shows "group_inv (goto t LeaveUnlock (cond_broadcast g s)) g"
proof -
  let ?s = "goto t LeaveUnlock (cond_broadcast g s)"
  note at = at_pc_same [OF a]
  have v: "at_pc ?s u g P \<longleftrightarrow> (if u = t then LeaveUnlock \<in> P else
      if at_pc s u g {Asleep} then Woken \<in> P else at_pc s u g P)" for u P
    by (simp add: at)
  have sleep: "at_pc s u g {Asleep} \<Longrightarrow> at_pc s u g P \<longleftrightarrow> Asleep \<in> P" for u P
    by (auto simp: at_pc_def)
  have E: "\<And>u. at_pc ?s u g owning = at_pc s u g owning" "\<And>u. at_pc ?s u g inside = at_pc s u g inside"
    "\<And>u. at_pc ?s u g {Setting} = at_pc s u g {Setting}" "\<And>u. at_pc ?s u g {Asleep} = False"
    "g_mu ?s = g_mu s" "busy ?s = busy s"
    unfolding v using at sleep by auto
  show ?thesis using i unfolding group_inv_def E by blast
qed

text \<open>Where a thread is after a statement of the lock.\<close>

definition pc_after :: "bool \<Rightarrow> int \<Rightarrow> conn_pc \<Rightarrow> conn_pc" where
  "pc_after b up pc =
     (case pc of
        WantEnter \<Rightarrow> Testing | Testing \<Rightarrow> if b then Asleep else Setting | Woken \<Rightarrow> Testing
      | Setting \<Rightarrow> EnterUnlock | EnterUnlock \<Rightarrow> Opening | WantLeave \<Rightarrow> Clearing | Clearing \<Rightarrow> Broadcasting
      | Broadcasting \<Rightarrow> LeaveUnlock | LeaveUnlock \<Rightarrow> if 0 \<le> up then Relaying else Ended | _ \<Rightarrow> pc)"

lemma group_code_places:
  assumes a: "at_pc s t g {pc}" and c: "group_code t g pc up s = Some s'" and "pc \<noteq> Broadcasting"
  shows "at_pc s' u h P \<longleftrightarrow> (if u = t then h = g \<and> pc_after (busy s g) up pc \<in> P else at_pc s u h P)"
  using c assms(3) at_pc_same [OF a]
  by (cases pc; clarsimp simp: group_code_def mutex_lock_def pc_after_def split: if_splits)

lemma group_code_locks:
  assumes "group_code t g pc up s = Some s'"
  shows "g_mu s' = (if pc \<in> {WantEnter, Woken, WantLeave} then (g_mu s)(g := Some t)
      else if pc \<in> {EnterUnlock, LeaveUnlock} \<or> pc = Testing \<and> busy s g then (g_mu s)(g := None) else g_mu s)"
    and "busy s' = (if pc = Setting then (busy s)(g := True)
      else if pc = Clearing then (busy s)(g := False) else busy s)"
    and "pc \<in> {WantEnter, Woken, WantLeave} \<Longrightarrow> g_mu s g = None"
    and "pc \<notin> {Asleep, Opening, Relaying, Ended, Dialling}"
  using assms by (cases pc; force simp: group_code_def mutex_lock_def split: if_splits)+

lemma group_code_other:
  assumes a: "at_pc s t g {pc}" and c: "group_code t g pc up s = Some s'" and "h \<noteq> g" and i: "group_inv s h"
  shows "group_inv s' h"
proof (rule group_inv_other [OF i])
  show "g_mu s' h = g_mu s h" "busy s' h = busy s h"
    using group_code_locks(1,2) [OF c] assms(3) by simp_all
  show "at_pc s' u h P = at_pc s u h P" for u P
  proof (cases "pc = Broadcasting")
    case True
    have "at_pc s u g {Asleep} \<Longrightarrow> \<not> at_pc s u h P" using assms(3) by (auto simp: at_pc_def)
    with True a c assms(3) at_pc_same [OF a] show ?thesis by (auto simp: group_code_def split: if_splits)
  next
    case False
    then show ?thesis using assms(3) at_pc_same [OF a] by (simp add: group_code_places [OF a c])
  qed
qed

lemma group_inv_code:
  assumes a: "at_pc s t g {pc}" and c: "group_code t g pc up s = Some s'" and i: "group_inv s g"
  shows "group_inv s' g"
proof (cases "pc = Broadcasting")
  case True
  with c have "s' = goto t LeaveUnlock (cond_broadcast g s)" by (simp add: group_code_def)
  with group_inv_broadcast [OF i] a True show ?thesis by simp
next
  case False
  note at = at_pc_same [OF a] and v = group_code_places [OF a c False] and l = group_code_locks [OF c]
  have own: "g_mu s g = Some t \<longleftrightarrow> pc \<in> owning" and set: "pc = Setting \<Longrightarrow> \<not> busy s g"
    and ins: "pc \<in> inside \<Longrightarrow> busy s g"
    using i at [of g owning] at [of g "{Setting}"] at [of g inside] unfolding group_inv_def by blast+
  let ?pc' = "pc_after (busy s g) up pc"
  show ?thesis
  proof (rule group_inv_move [OF i, of t "Some pc" _ "Some (pc_after (busy s g) up pc)"])
    show "at_pc s t g P \<longleftrightarrow> Some pc \<in> Some ` P" for P by (auto simp: at)
    show "at_pc s' u g P \<longleftrightarrow> (if u = t then Some (pc_after (busy s g) up pc) \<in> Some ` P else at_pc s u g P)"
      for u P by (auto simp: v)

    show "g_mu s' g = (if Some ?pc' \<in> Some ` owning then Some t
        else if Some pc \<in> Some ` owning then None else g_mu s g)"
      using own ins l(4) unfolding l(1) by (cases pc) (simp_all add: pc_after_def)
    show "g_mu s g = None" if "Some ?pc' \<in> Some ` owning" "Some pc \<notin> Some ` owning"
      using that l(3,4) by (cases pc) (simp_all add: pc_after_def)
    show "busy s' g = (Some ?pc' \<in> Some ` inside \<or> Some pc \<notin> Some ` inside \<and> busy s g)"
      using set ins l(4) unfolding l(2) by (cases pc) (simp_all add: pc_after_def)
    show "Some pc = Some Setting" if "Some ?pc' \<in> Some ` inside" "Some pc \<notin> Some ` inside"
      using that l(4) by (cases pc) (simp_all add: pc_after_def split: if_splits)
    show "Some ?pc' = Some Broadcasting" if "Some pc \<in> Some ` inside" "Some ?pc' \<notin> Some ` inside"
      using that l(4) by (cases pc) (simp_all add: pc_after_def)
    show "\<not> busy s g" if "Some ?pc' = Some Setting"
      using that l(4) by (cases pc) (simp_all add: pc_after_def split: if_splits)
    show "busy s g \<and> Some pc = Some Testing" if "Some ?pc' = Some Asleep"
      using that l(4) by (cases pc) (simp_all add: pc_after_def split: if_splits)
    show "Some pc \<noteq> Some Broadcasting" using False by simp
  qed
qed

lemma groups_inv_lock:
  assumes i: "groups_inv s" and st: "lock_step t s = Some s'"
  shows "groups_inv s'"
proof -
  obtain g pc up where a: "at_pc s t g {pc}" and c: "group_code t g pc up s = Some s'"
    using st by (rule lock_step_cases)
  have "finite (dom (conns s'))" if "finite (dom (conns s))"
    using c that by (cases pc) (auto simp: group_code_def mutex_lock_def split: if_splits)
  with i a c show ?thesis unfolding groups_inv_def by (metis group_inv_code group_code_other)
qed

text \<open>A thread that is outside the mutex moves to another such place.\<close>

definition place :: "conn_state option \<Rightarrow> group_id \<Rightarrow> conn_pc option" where
  "place th g = (case th of None \<Rightarrow> None | Some th \<Rightarrow> if c_group (cs_conn th) = Some g then Some (cs_pc th) else None)"

lemma at_pc_place: "at_pc s u g P \<longleftrightarrow> place (conns s u) g \<in> Some ` P"
  by (auto simp: at_pc_def place_def split: option.splits)

lemma groups_inv_outside:
  assumes i: "groups_inv s" and th: "conns s' = (conns s)(t \<mapsto> th)"
    and "g_mu s' = g_mu s" and "busy s' = busy s"
    and q: "\<And>g. place (conns s t) g \<notin> Some ` owning \<and> place (Some th) g \<notin> Some ` owning \<and>
      (place (Some th) g \<in> Some ` inside \<longleftrightarrow> place (conns s t) g \<in> Some ` inside) \<and>
      place (Some th) g \<noteq> Some Asleep"
  shows "groups_inv s'"
proof -
  have "group_inv s' g" for g
  proof -
    have g: "group_inv s g" using i by (simp add: groups_inv_def)
    then have "at_pc s t g inside \<Longrightarrow> busy s g" unfolding group_inv_def by blast
    then have "place (conns s t) g \<in> Some ` inside \<Longrightarrow> busy s g" by (simp only: at_pc_place)
    with g q [of g] assms(3,4) show ?thesis
      by (intro group_inv_move [of s g t "place (conns s t) g" s' "place (Some th) g"])
        (auto simp: at_pc_place th)
  qed
  moreover have "finite (dom (conns s'))" using i by (simp add: groups_inv_def th)
  ultimately show ?thesis by (simp add: groups_inv_def)
qed

lemma groups_inv_step: "groups_inv s \<Longrightarrow> group_step E s s' \<Longrightarrow> groups_inv s'"
proof (erule group_stepE, goal_cases)
  case (1 t c)
  show ?case
    by (rule groups_inv_outside [OF 1(1), of s' t
          "\<lparr>cs_conn = c, cs_pc = (if c_group c = None then Dialling else WantEnter), cs_up = -1\<rparr>"])
      (use 1 in \<open>auto simp: start_conn_def place_def\<close>)
next
  case (2 t)
  then show ?case by (blast intro: groups_inv_lock)
next
  case (3 t th)
  show ?case
    by (rule groups_inv_outside [OF 3(1), of s' t "th\<lparr>cs_pc := Woken\<rparr>"])
      (use 3 in \<open>auto simp: goto_def place_def\<close>)
next
  case (4 t th os up pre os')
  show ?case
    by (rule groups_inv_outside [OF 4(1), of s' t "the (conns s' t)"])
      (use 4 in \<open>auto simp: set_upstream_def place_def\<close>)
next
  case (5 t th os r)
  show ?case
    by (rule groups_inv_outside [OF 5(1), of s' t "th\<lparr>cs_pc := Ended\<rparr>"])
      (use 5 in \<open>auto simp: goto_def place_def\<close>)
qed

lemma groups_inv_start: "groups_start s \<Longrightarrow> groups_inv s"
  by (simp add: groups_start_def groups_inv_def group_inv_def at_pc_def dom_def)

interpretation group_lock: invariant_system groups_start "group_step E" groups_inv for E
  by unfold_locales (erule groups_inv_start, erule (1) groups_inv_step)

section \<open>The lock goes on\<close>

text \<open>What blocks a thread at a statement of the lock: only the mutex.\<close>

lemma lock_step_enabled:
  "at_pc s t g owning \<Longrightarrow> lock_step t s \<noteq> None"
  "at_pc s t g {WantEnter, Woken, WantLeave} \<Longrightarrow> g_mu s g = None \<Longrightarrow> lock_step t s \<noteq> None"
  by (auto simp: at_pc_def lock_step_def group_code_def mutex_lock_def)

lemma group_inv_enabled:
  assumes "group_inv s g" and "at_pc s t g waiting" and "\<forall>u. \<not> at_pc s u g {Opening}"
  shows "\<exists>u. at_pc s u g UNIV \<and> lock_step u s \<noteq> None"
proof -
  have up: "at_pc s u g P \<Longrightarrow> at_pc s u g UNIV" for u P by (auto simp: at_pc_def)
  show ?thesis
  proof (cases "g_mu s g")
    case (Some u)
    with assms(1) have "at_pc s u g owning" unfolding group_inv_def by blast
    with lock_step_enabled(1) up show ?thesis by blast
  next
    case None
    with assms(1) have free: "\<not> at_pc s u g owning" for u unfolding group_inv_def by (metis option.distinct(1))
    show ?thesis
    proof (cases "at_pc s t g {WantEnter, Woken}")
      case True
      then have "at_pc s t g {WantEnter, Woken, WantLeave}" by (auto simp: at_pc_def)
      with None lock_step_enabled(2) [of s t g] up show ?thesis by blast
    next
      case False
      with free [of t] assms(2) have "at_pc s t g {Asleep}" by (auto simp: at_pc_def)
      with assms(1) have "busy s g \<or> (\<exists>u. at_pc s u g {Broadcasting})" unfolding group_inv_def by blast
      moreover have "\<not> at_pc s u g {Broadcasting}" for u using free [of u] by (auto simp: at_pc_def)
      ultimately obtain u where "at_pc s u g inside" using assms(1) unfolding group_inv_def by blast
      with free [of u] assms(3) have "at_pc s u g {WantEnter, Woken, WantLeave}" by (auto simp: at_pc_def)
      with None lock_step_enabled(2) [of s u g] up show ?thesis by blast
    qed
  qed
qed

text \<open>The statements of the lock come to an end.  The measure counts how far each thread has to go; a
  broadcast sends sleepers back to the test, and is paid for by the broadcasts still to come.\<close>

fun pc_rank :: "conn_pc \<Rightarrow> nat" where
  "pc_rank WantEnter = 10"
| "pc_rank Woken = 10"
| "pc_rank Testing = 9"
| "pc_rank Asleep = 8"
| "pc_rank Setting = 7"
| "pc_rank EnterUnlock = 6"
| "pc_rank Opening = 5"
| "pc_rank WantLeave = 4"
| "pc_rank Clearing = 3"
| "pc_rank Broadcasting = 2"
| "pc_rank LeaveUnlock = 1"
| "pc_rank _ = 0"

definition pc_weight :: "nat \<Rightarrow> conn_pc \<Rightarrow> nat" where
  "pc_weight n pc = pc_rank pc + (if 2 \<le> pc_rank pc then 2 * n else 0)"

definition lock_work :: "groups \<Rightarrow> nat" where
  "lock_work s = (\<Sum>t \<in> dom (conns s). pc_weight (card (dom (conns s))) (cs_pc (the (conns s t))))"


text \<open>The thread that runs a statement of the lock gets nearer to its end, and only a broadcast changes
  the counter of another thread.\<close>

lemma lock_step_work:
  assumes "lock_step t s = Some s'"
  obtains th th' where "conns s t = Some th" "conns s' t = Some th'"
    "\<And>u. u \<noteq> t \<Longrightarrow> cs_pc th \<noteq> Broadcasting \<Longrightarrow> conns s' u = conns s u"
    "\<And>u. u \<noteq> t \<Longrightarrow> conns s' u = conns s u \<or> (\<exists>x. conns s u = Some x \<and> cs_pc x = Asleep \<and>
       conns s' u = Some (x\<lparr>cs_pc := Woken\<rparr>))"
    "pc_rank (cs_pc th') < pc_rank (cs_pc th)" "pc_rank (cs_pc th') = 1 \<longleftrightarrow> cs_pc th = Broadcasting"
    "2 \<le> pc_rank (cs_pc th) \<or> cs_pc th = LeaveUnlock" "pc_rank (cs_pc th') = 0 \<longleftrightarrow> cs_pc th = LeaveUnlock"
proof -
  obtain th g where th: "conns s t = Some th" "c_group (cs_conn th) = Some g"
    and c: "group_code t g (cs_pc th) (cs_up th) s = Some s'"
    using assms by (auto simp: lock_step_def split: option.splits)
  have "conns s' t = Some (th\<lparr>cs_pc := pc_after (busy s g) (cs_up th) (cs_pc th)\<rparr>)"
    using c th by (cases "cs_pc th")
      (auto simp: group_code_def mutex_lock_def pc_after_def goto_def cond_broadcast_def in_wait_set_def
        mutex_unlock_def split: if_splits)
  moreover have "conns s' u = conns s u" if "u \<noteq> t" "cs_pc th \<noteq> Broadcasting" for u
    using c th that by (cases "cs_pc th")
      (auto simp: group_code_def mutex_lock_def goto_def mutex_unlock_def split: if_splits)
  moreover have "conns s' u = conns s u \<or> (\<exists>x. conns s u = Some x \<and> cs_pc x = Asleep \<and>
       conns s' u = Some (x\<lparr>cs_pc := Woken\<rparr>))" if "u \<noteq> t" for u
    using c th that by (cases "cs_pc th"; cases "conns s u")
      (auto simp: group_code_def mutex_lock_def goto_def cond_broadcast_def in_wait_set_def
        mutex_unlock_def split: if_splits)
  moreover have "cs_pc th \<notin> {Asleep, Opening, Relaying, Ended, Dialling}"
    using group_code_locks(4) [OF c] .
  ultimately show ?thesis
    by (intro that [OF th(1)]) (auto simp: pc_after_def split: conn_pc.splits if_splits)
qed


lemma lock_work_less:
  assumes st: "lock_step t s = Some s'" and fin: "finite (dom (conns s))"
  shows "lock_work s' < lock_work s" "finite (dom (conns s'))"
proof -
  obtain th th' where th: "conns s t = Some th" "conns s' t = Some th'"
    and quiet: "\<And>u. u \<noteq> t \<Longrightarrow> cs_pc th \<noteq> Broadcasting \<Longrightarrow> conns s' u = conns s u"
    and wake: "\<And>u. u \<noteq> t \<Longrightarrow> conns s' u = conns s u \<or> (\<exists>x. conns s u = Some x \<and> cs_pc x = Asleep \<and>
       conns s' u = Some (x\<lparr>cs_pc := Woken\<rparr>))"
    and rank: "pc_rank (cs_pc th') < pc_rank (cs_pc th)" "pc_rank (cs_pc th') = 1 \<longleftrightarrow> cs_pc th = Broadcasting"
      "2 \<le> pc_rank (cs_pc th) \<or> cs_pc th = LeaveUnlock" "pc_rank (cs_pc th') = 0 \<longleftrightarrow> cs_pc th = LeaveUnlock"
    by (rule lock_step_work [OF st]) (rule that)
  define T n w w' where "T = dom (conns s)" and "n = card T"
    and "w = (\<lambda>u. pc_weight n (cs_pc (the (conns s u))))" and "w' = (\<lambda>u. pc_weight n (cs_pc (the (conns s' u))))"
  have dom: "dom (conns s') = T"
  proof (rule set_eqI)
    fix u
    have "conns s' u = None \<longleftrightarrow> conns s u = None"
    proof (cases "u = t")
      case False
      from wake [OF this] show ?thesis by (elim disjE exE conjE) simp_all
    qed (simp add: th)
    then show "u \<in> dom (conns s') \<longleftrightarrow> u \<in> T" by (simp add: T_def domIff)
  qed
  then show "finite (dom (conns s'))" using fin by (simp add: T_def)
  have t: "t \<in> T" "finite T" using th fin by (auto simp: T_def)
  then have split: "(\<Sum>u \<in> T. f u) = f t + (\<Sum>u \<in> T - {t}. f u)" for f :: "nat \<Rightarrow> nat"
    by (rule sum.remove [rotated])
  have "(\<Sum>u \<in> T. w' u) < (\<Sum>u \<in> T. w u)"
  proof (cases "cs_pc th = Broadcasting")
    case True
    have "w' u \<le> w u + 2" if "u \<in> T - {t}" for u
      using wake [of u] that by (auto simp: w_def w'_def pc_weight_def)
    then have "(\<Sum>u \<in> T - {t}. w' u) \<le> (\<Sum>u \<in> T - {t}. w u + 2)" by (rule sum_mono)
    also have "\<dots> = (\<Sum>u \<in> T - {t}. w u) + 2 * (n - 1)"
      using t by (simp only: sum.distrib) (simp add: n_def)
    finally have "(\<Sum>u \<in> T - {t}. w' u) \<le> (\<Sum>u \<in> T - {t}. w u) + 2 * (n - 1)" .
    moreover have "w' t + 2 * n < w t" using True rank th by (simp add: w_def w'_def pc_weight_def)
    ultimately show ?thesis unfolding split by linarith
  next
    case False
    then have "(\<Sum>u \<in> T - {t}. w' u) = (\<Sum>u \<in> T - {t}. w u)"
      using quiet by (intro sum.cong) (auto simp: w_def w'_def)
    moreover have "w' t < w t" using rank th by (auto simp: w_def w'_def pc_weight_def)
    ultimately show ?thesis unfolding split by linarith
  qed
  then show "lock_work s' < lock_work s" by (simp add: lock_work_def dom T_def n_def w_def w'_def)
qed

lemma lock_steps_end:
  assumes "finite (dom (conns s))"
  shows "\<not> (\<exists>f. f 0 = s \<and> (\<forall>n. \<exists>t. lock_step t (f n) = Some (f (Suc n))))"
proof
  assume "\<exists>f. f 0 = s \<and> (\<forall>n. \<exists>t. lock_step t (f n) = Some (f (Suc n)))"
  then obtain f where f: "f 0 = s" "\<And>n. \<exists>t. lock_step t (f n) = Some (f (Suc n))" by blast
  have fin: "finite (dom (conns (f n)))" for n
    by (induction n) (use assms f lock_work_less(2) in \<open>metis+\<close>)
  have "lock_work (f n) + n \<le> lock_work s" for n
  proof (induction n)
    case (Suc n)
    have "lock_work (f (Suc n)) < lock_work (f n)" using f(2) [of n] fin [of n] lock_work_less(1) by blast
    with Suc show ?case by simp
  qed (simp add: f)
  from this [of "Suc (lock_work s)"] show False by simp
qed

text \<open>
  C28: the lock of a stream port.  In every reachable state, for any number of connection threads and
  wake-ups without a broadcast included: at most one thread of a group is opening its upstream
  connection; a thread that waits for its group is never lost, since either a thread of that group is
  opening its upstream (and returns, by \<^verbatim>\<open>stream_open_returns\<close>) or some thread of the group can run its
  next statement of the lock; and the statements of the lock cannot go on for ever, so after finitely
  many of them a thread of the group is opening or none waits.
\<close>

theorem group_exclusive:
  assumes "reach groups_start (group_step E) s"
  shows "(at_pc s t g {Opening} \<and> at_pc s t' g {Opening} \<longrightarrow> t = t') \<and>
     (at_pc s t g waiting \<longrightarrow>
        (\<exists>u. at_pc s u g {Opening}) \<or> (\<exists>u. at_pc s u g UNIV \<and> lock_step u s \<noteq> None)) \<and>
     \<not> (\<exists>f. f 0 = s \<and> (\<forall>n. \<exists>u. lock_step u (f n) = Some (f (Suc n))))"
proof -
  have i: "groups_inv s" by (rule group_lock.reach_inv [OF assms])
  then have g: "group_inv s g" and fin: "finite (dom (conns s))" by (auto simp: groups_inv_def)
  have "t = t'" if "at_pc s t g {Opening}" "at_pc s t' g {Opening}"
  proof -
    from that have "at_pc s t g inside" "at_pc s t' g inside" by (auto simp: at_pc_def)
    with g show ?thesis unfolding group_inv_def by blast
  qed
  with group_inv_enabled [OF g, of t] lock_steps_end [OF fin] show ?thesis by blast
qed


text \<open>Statements of the lock, by the threads of a list in turn.\<close>

fun lock_run :: "nat list \<Rightarrow> groups \<Rightarrow> groups option" where
  "lock_run [] s = Some s"
| "lock_run (t # ts) s = (case lock_step t s of None \<Rightarrow> None | Some s \<Rightarrow> lock_run ts s)"

lemma lock_run_steps: "lock_run ts s = Some s' \<Longrightarrow> (group_step E)\<^sup>*\<^sup>* s s'"
  by (induction ts arbitrary: s) (auto split: option.splits intro: converse_rtranclp_into_rtranclp locked)

lemma cond_broadcast_quiet:
  assumes "\<And>u x. conns s u = Some x \<Longrightarrow> \<not> in_wait_set g x"
  shows "cond_broadcast g s = s"
proof -
  have "map_option (\<lambda>th. if in_wait_set g th then th\<lparr>cs_pc := Woken\<rparr> else th) (conns s u) = conns s u" for u
    using assms [of u] by (cases "conns s u") auto
  then show ?thesis by (simp add: cond_broadcast_def)
qed

lemma reach_steps: "step\<^sup>*\<^sup>* s s' \<Longrightarrow> reach st step s \<Longrightarrow> reach st step s'"
  by (induction rule: rtranclp_induct) (auto intro: reach_step)

text \<open>A thread that finds its group free does what \<^const>\<open>conn_thread\<close> does: its run opens the same
  upstream, and ends.\<close>

lemma conn_thread_runs:
  assumes i: "groups_inv s" and new: "conns s t = None"
    and free: "\<And>g. c_group c = Some g \<Longrightarrow> g_mu s g = None \<and> \<not> busy s g"
    and run: "conn_thread E c (os :: os) = Some (up, os')"
  shows "(group_step E)\<^sup>*\<^sup>* (start_conn t c s) (s\<lparr>conns := (conns s)(t \<mapsto> \<lparr>cs_conn = c, cs_pc = Ended, cs_up = up\<rparr>)\<rparr>)"
proof -
  obtain pre os1 where o: "conn_open E c os = Some (up, pre, os1)"
    and p: "0 \<le> up \<Longrightarrow> \<exists>r. pump E (c_client c) up 0 0 os1 = Some r"
    using run by (auto simp: conn_thread_def split: if_splits Option.bind_splits)
  define th where "th = (\<lambda>pc up. \<lparr>cs_conn = c, cs_pc = pc, cs_up = up\<rparr>)"
  define at where "at = (\<lambda>b th. s\<lparr>busy := b, conns := (conns s)(t \<mapsto> th)\<rparr>)"
  let ?pc = "if 0 \<le> up then Relaying else Ended"
  note dfs = start_conn_def set_upstream_def th_def at_def
  have "(group_step E)\<^sup>*\<^sup>* (start_conn t c s) (at (busy s) (th ?pc up))"
  proof (cases "c_group c")
    case None
    have "group_step E (start_conn t c s) (set_upstream t (th Dialling (-1)) up (start_conn t c s))"
      by (rule upstream [of _ _ _ _ os up pre os1]) (use None o in \<open>auto simp: dfs\<close>)
    moreover have "set_upstream t (th Dialling (-1)) up (start_conn t c s) = at (busy s) (th ?pc up)"
      using None by (simp add: dfs)
    ultimately show ?thesis by auto
  next
    case (Some g)
    have f: "g_mu s g = None" "\<not> busy s g" using free [OF Some] by auto
    have g: "group_inv s g" using i by (simp add: groups_inv_def)
    have "\<not> at_pc s u g owning" for u using g f unfolding group_inv_def by (metis option.distinct(1))
    then have "\<not> at_pc s u g {Broadcasting}" for u by (auto simp: at_pc_def)
    with g f have "\<not> at_pc s u g {Asleep}" for u unfolding group_inv_def by blast
    then have quiet: "conns s u = Some x \<Longrightarrow> \<not> in_wait_set g x" for u x
      by (auto simp: at_pc_def in_wait_set_def)
    have m: "(g_mu s)(g := None) = g_mu s" "(busy s)(g := False) = busy s"
      using f by (simp_all add: fun_upd_idem)
    note code = lock_step_def group_code_def mutex_lock_def mutex_unlock_def goto_def
    let ?b = "(busy s)(g := True)"
    have 1: "lock_run [t, t, t, t] (start_conn t c s) = Some (at ?b (th Opening (-1)))"
      using Some f by (simp add: code dfs m)
    have 2: "group_step E (at ?b (th Opening (-1))) (set_upstream t (th Opening (-1)) up (at ?b (th Opening (-1))))"
      by (rule upstream [of _ _ _ _ os up pre os1]) (use Some o in \<open>auto simp: dfs\<close>)
    have 3: "set_upstream t (th Opening (-1)) up (at ?b (th Opening (-1))) = at ?b (th WantLeave up)"
      using Some by (simp add: dfs)
    have b: "cond_broadcast g (s\<lparr>g_mu := m', conns := (conns s)(t \<mapsto> th Broadcasting up)\<rparr>) =
        s\<lparr>g_mu := m', conns := (conns s)(t \<mapsto> th Broadcasting up)\<rparr>" for m'
      by (rule cond_broadcast_quiet) (use quiet in \<open>auto simp: in_wait_set_def th_def split: if_splits\<close>)
    have 4: "lock_run [t, t, t, t] (at ?b (th WantLeave up)) = Some (at (busy s) (th ?pc up))"
      using Some f b [unfolded th_def] by (simp add: code dfs m)
    have "(group_step E)\<^sup>*\<^sup>* (at ?b (th WantLeave up)) (at (busy s) (th ?pc up))" by (rule lock_run_steps [OF 4])
    with 2 3 have "(group_step E)\<^sup>*\<^sup>* (at ?b (th Opening (-1))) (at (busy s) (th ?pc up))"
      by (simp add: converse_rtranclp_into_rtranclp)
    with lock_run_steps [OF 1] show ?thesis by (rule rtranclp_trans)
  qed
  moreover have "(group_step E)\<^sup>*\<^sup>* (at (busy s) (th ?pc up)) (at (busy s) (th Ended up))"
  proof (cases "0 \<le> up")
    case True
    then obtain r where "pump E (c_client c) up 0 0 os1 = Some r" using p by blast
    with True have "group_step E (at (busy s) (th ?pc up)) (goto t Ended (at (busy s) (th ?pc up)))"
      by (intro relayed [of _ _ "th Relaying up" _ os1 r]) (auto simp: dfs)
    then show ?thesis using True by (auto simp: dfs goto_def)
  qed simp
  ultimately show ?thesis by (auto simp: dfs)
qed


definition groups_empty :: groups where
  "groups_empty = \<lparr>g_mu = (\<lambda>_. None), busy = (\<lambda>_. False), conns = (\<lambda>_. None)\<rparr>"

text \<open>Two connections of one port: the first is opening its upstream, the second sleeps.\<close>

definition groups_demo :: groups where
  "groups_demo = the (lock_run [0, 0, 0, 0, 1, 1] (start_conn 1 demo_conn (start_conn 0 demo_conn groups_empty)))"

theorem group_exclusive_witness:
  "reach groups_start (group_step demo_stream_env) groups_demo \<and>
   at_pc groups_demo 0 (Group 0 0) {Opening} \<and> at_pc groups_demo 1 (Group 0 0) {Asleep} \<and>
   \<not> at_pc groups_demo 1 (Group 0 0) {Opening} \<and> (\<exists>u. at_pc groups_demo u (Group 0 0) {Opening})"
proof -
  let ?s = "start_conn 1 demo_conn (start_conn 0 demo_conn groups_empty)"
  note code = lock_step_def group_code_def mutex_lock_def mutex_unlock_def goto_def start_conn_def groups_empty_def demo_conn_def
  have "reach groups_start (group_step demo_stream_env) groups_empty"
    by (rule reach_start) (simp add: groups_start_def groups_empty_def)
  then have "reach groups_start (group_step demo_stream_env) (start_conn 0 demo_conn groups_empty)"
    by (rule reach_step) (rule accepted, simp add: groups_empty_def)
  then have "reach groups_start (group_step demo_stream_env) ?s"
    by (rule reach_step) (rule accepted, simp add: start_conn_def groups_empty_def)
  moreover have run: "lock_run [0, 0, 0, 0, 1, 1] ?s = Some groups_demo"
  proof -
    have "\<exists>s. lock_run [0, 0, 0, 0, 1, 1] ?s = Some s" by (simp add: code)
    then show ?thesis by (auto simp: groups_demo_def)
  qed
  ultimately have r: "reach groups_start (group_step demo_stream_env) groups_demo"
    by (intro reach_steps [OF lock_run_steps [OF run]])
  have at: "at_pc groups_demo 0 (Group 0 0) {Opening}" "at_pc groups_demo 1 (Group 0 0) {Asleep}"
    by (simp_all add: groups_demo_def at_pc_def code)
  then have "at_pc groups_demo 1 (Group 0 0) waiting" by (auto simp: at_pc_def)
  with r at group_exclusive [OF r, of 0 "Group 0 0" 1] show ?thesis by auto
qed

end
