(* ===== verification/Agent_Slots.thy ===== *)
theory Agent_Slots
  imports Agent_Net
begin

text \<open>
  \<^verbatim>\<open>frontends/agent/discovery.c\<close>: the table of slots, the table of listeners, the rescan of
  \<^verbatim>\<open>adb devices\<close> and the answer on the discovery port.  The tables are written by one thread at a time
  (the main thread for the first scan, then the rescan thread), so a scan is a sequential operation on
  the agent's state; the accept loop reads prefixes of the listener table that never change.
\<close>

section \<open>State\<close>

definition LOC_OFFSET :: int where "LOC_OFFSET = 10000"
definition STREAM_BASE :: int where "STREAM_BASE = 27183"
definition STREAM_COUNT :: nat where "STREAM_COUNT = 4"
definition MAX_SLOTS :: nat where "MAX_SLOTS = 8"
definition MAX_LISTENERS :: nat where "MAX_LISTENERS = 128"
definition RESCAN_INTERVAL_MS :: nat where "RESCAN_INTERVAL_MS = 3000"
definition AGENT_PROTOCOL_VERSION :: int where "AGENT_PROTOCOL_VERSION = 1"

record listener =
  l_fd :: int
  l_pub_port :: int
  l_dst_host :: string
  l_dst_port :: int
  l_group :: "group_id option"
  l_is_discovery :: bool

text \<open>\<^verbatim>\<open>stream_groups[k]\<close> of slot \<open>i\<close> is \<^term>\<open>Group i k\<close>.\<close>

record slot =
  sl_serial :: string
  sl_model :: string
  sl_kind :: string
  sl_adb_dst_host :: string
  sl_adb_dst_port :: int
  sl_idx :: nat
  sl_adb_port :: int
  sl_stream_base :: int
  sl_present :: bool
  sl_ready :: bool
  sl_reappeared :: bool

text \<open>What \<^verbatim>\<open>main\<close> sets once: the addresses to bind and the command line.\<close>

record agent_cfg =
  g_bind_ips :: "string list"
  g_tcpip_port :: int
  g_adb_base :: int
  g_no_stream :: bool
  g_discovery_port :: int

record agent_sys = fwd_sys +
  g_slots :: "slot list"          \<comment> \<open>the first \<^verbatim>\<open>g_nslots\<close> entries\<close>
  g_ls :: "listener list"         \<comment> \<open>the first \<^verbatim>\<open>g_nls\<close> entries\<close>
  g_slots_full_warned :: bool
  g_conns :: "conn list"          \<comment> \<open>the relay threads started so far\<close>

definition upd_slot :: "nat \<Rightarrow> (slot \<Rightarrow> slot) \<Rightarrow> agent_sys \<Rightarrow> agent_sys" where
  "upd_slot i f s = s\<lparr>g_slots := (g_slots s)[i := f (g_slots s ! i)]\<rparr>"

section \<open>Listeners\<close>

fun add_listener_ips ::
    "env \<Rightarrow> string list \<Rightarrow> int \<Rightarrow> string option \<Rightarrow> int \<Rightarrow> group_id option \<Rightarrow> bool \<Rightarrow> nat \<Rightarrow> agent_sys \<Rightarrow>
     nat \<times> agent_sys" where
  "add_listener_ips E [] pub_port dst_host dst_port grp disc made s = (made, s)"
| "add_listener_ips E (ip # ips) pub_port dst_host dst_port grp disc made s =
     (let (fd, s) = tcp_listen_addr E ip pub_port s in
      if fd < 0 then add_listener_ips E ips pub_port dst_host dst_port grp disc made s
      else if length (g_ls s) < MAX_LISTENERS then
        (let L = \<lparr>l_fd = fd, l_pub_port = pub_port,
                  l_dst_host = fit 64 (case dst_host of Some h \<Rightarrow> h | None \<Rightarrow> ''127.0.0.1''),
                  l_dst_port = dst_port, l_group = grp, l_is_discovery = disc\<rparr>
         in add_listener_ips E ips pub_port dst_host dst_port grp disc (made + 1)
              (s\<lparr>g_ls := g_ls s @ [L]\<rparr>))
      else add_listener_ips E ips pub_port dst_host dst_port grp disc made (sys_close E fd s))"

definition add_listener ::
    "env \<Rightarrow> agent_cfg \<Rightarrow> int \<Rightarrow> string option \<Rightarrow> int \<Rightarrow> group_id option \<Rightarrow> bool \<Rightarrow> agent_sys \<Rightarrow> int \<times> agent_sys" where
  "add_listener E c pub_port dst_host dst_port grp disc s =
     (let (made, s) = add_listener_ips E (g_bind_ips c) pub_port dst_host dst_port grp disc 0 s
      in (if 0 < made then 0 else -1, s))"

section \<open>Setting up a slot\<close>

text \<open>\<^verbatim>\<open>adb_forward(...) != 0 || !verify_guest_adb(...)\<close>, negated.\<close>

definition forward_guest :: "env \<Rightarrow> agent_cfg \<Rightarrow> string \<Rightarrow> int \<Rightarrow> agent_sys \<Rightarrow> (bool \<times> agent_sys) option" where
  "forward_guest E c ser loc s = do {
     (r, s) \<leftarrow> adb_forward E ser loc (g_tcpip_port c) s;
     if r \<noteq> 0 then Some (False, s) else verify_guest_adb E loc s
   }"

definition establish_adb :: "env \<Rightarrow> agent_cfg \<Rightarrow> nat \<Rightarrow> agent_sys \<Rightarrow> (int \<times> agent_sys) option" where
  "establish_adb E c i s =
     (let sl = g_slots s ! i in
      if sl_kind sl \<noteq> ''wireless'' then
        (let loc = sl_adb_port sl + LOC_OFFSET in do {
           (ok, s) \<leftarrow> forward_guest E c (sl_serial sl) loc s;
           (ok, s) \<leftarrow> (if ok then Some (True, s)
              else do {
                (_, _, s) \<leftarrow> run_cmd E [''adb'', ''-s'', sl_serial sl, ''tcpip'',
                                 fit 8 (show_int (g_tcpip_port c))] 15000 None s;
                forward_guest E c (sl_serial sl) loc (sleep_ms E 2000 s)
              });
           Some (if ok then (0, upd_slot i (\<lambda>q. q\<lparr>sl_adb_dst_host := ''127.0.0.1'', sl_adb_dst_port := loc\<rparr>) s)
                 else (-1, s))
         })
      else
        (case strrchr (sl_serial sl) (CHR '':'') of
           None \<Rightarrow> Some (-1, s)
         | Some n \<Rightarrow>
             if n = 0 \<or> 64 \<le> n then Some (-1, s)
             else Some (0, upd_slot i (\<lambda>q. q\<lparr>sl_adb_dst_host := take n (sl_serial sl),
                       sl_adb_dst_port := atoi (drop (n + 1) (sl_serial sl))\<rparr>) s)))"

fun stream_forwards :: "env \<Rightarrow> nat \<Rightarrow> nat list \<Rightarrow> agent_sys \<Rightarrow> agent_sys option" where
  "stream_forwards E i [] s = Some s"
| "stream_forwards E i (k # ks) s =
     (let sl = g_slots s ! i in do {
        (r, s) \<leftarrow> adb_forward E (sl_serial sl) (sl_stream_base sl + int k + LOC_OFFSET) (STREAM_BASE + int k) s;
        if r \<noteq> 0 then Some (upd_slot i (\<lambda>q. q\<lparr>sl_stream_base := 0\<rparr>) s)
        else stream_forwards E i ks s
      })"

definition establish_forwards :: "env \<Rightarrow> agent_cfg \<Rightarrow> nat \<Rightarrow> agent_sys \<Rightarrow> (int \<times> agent_sys) option" where
  "establish_forwards E c i s = do {
     (r, s) \<leftarrow> establish_adb E c i s;
     if r \<noteq> 0 then Some (-1, s)
     else if sl_stream_base (g_slots s ! i) \<noteq> 0 then do {
       s \<leftarrow> stream_forwards E i [0 ..< STREAM_COUNT] s;
       Some (0, s)
     }
     else Some (0, s)
   }"

fun bind_streams :: "env \<Rightarrow> agent_cfg \<Rightarrow> nat \<Rightarrow> nat list \<Rightarrow> agent_sys \<Rightarrow> agent_sys" where
  "bind_streams E c i [] s = s"
| "bind_streams E c i (k # ks) s =
     (let p = sl_stream_base (g_slots s ! i) + int k;
          (_, s) = add_listener E c p (Some ''127.0.0.1'') (p + LOC_OFFSET) (Some (Group i k)) False s
      in bind_streams E c i ks s)"

definition bind_listeners :: "env \<Rightarrow> agent_cfg \<Rightarrow> nat \<Rightarrow> agent_sys \<Rightarrow> int \<times> agent_sys" where
  "bind_listeners E c i s =
     (let sl = g_slots s ! i;
          (r, s) = add_listener E c (sl_adb_port sl) (Some (sl_adb_dst_host sl)) (sl_adb_dst_port sl) None False s in
      if r \<noteq> 0 then (-1, s)
      else if sl_stream_base (g_slots s ! i) \<noteq> 0
      then (0, bind_streams E c i [0 ..< STREAM_COUNT] s)
      else (0, s))"

definition slot_setup_new :: "env \<Rightarrow> agent_cfg \<Rightarrow> nat \<Rightarrow> agent_sys \<Rightarrow> agent_sys option" where
  "slot_setup_new E c i s = do {
     (r, s) \<leftarrow> establish_forwards E c i s;
     if r \<noteq> 0 then Some s
     else
       (let (b, s) = bind_listeners E c i s in
        if b \<noteq> 0 then Some s else Some (upd_slot i (\<lambda>q. q\<lparr>sl_ready := True\<rparr>) s))
   }"

section \<open>The discovery answer\<close>

text \<open>\<^verbatim>\<open>snprintf(buf + off, sizeof buf - off, ...)\<close>: the text written so far and \<^verbatim>\<open>off\<close>, which counts what
  would have been written.\<close>

definition emit :: "string \<Rightarrow> string \<times> nat \<Rightarrow> string \<times> nat" where
  "emit line b = (let (buf, off) = b in (buf @ fit (4096 - off) line, off + length line))"

definition slot_line :: "slot \<Rightarrow> string" where
  "slot_line q = show_int (sl_adb_port q) @ [TAB] @ sl_kind q @ [TAB] @ sl_serial q @ [TAB] @
     (if sl_model q \<noteq> [] then sl_model q else ''-'') @ [TAB] @ show_int (sl_stream_base q) @ [LF]"

fun discovery_lines :: "slot list \<Rightarrow> string \<times> nat \<Rightarrow> string \<times> nat" where
  "discovery_lines [] b = b"
| "discovery_lines (q # qs) b =
     (if 4096 \<le> snd b then b
      else if \<not> sl_present q \<or> \<not> sl_ready q then discovery_lines qs b
      else discovery_lines qs (emit (slot_line q) b))"

definition discovery_banner :: string where
  "discovery_banner = ''RCAGENT '' @ show_int AGENT_PROTOCOL_VERSION @ [LF]"

text \<open>The bytes handed to \<^verbatim>\<open>write_full\<close>: \<^verbatim>\<open>off\<close> bytes of the buffer, whose text ends with a NUL.\<close>

definition discovery_text :: "slot list \<Rightarrow> string" where
  "discovery_text qs =
     (let (buf, off) = discovery_lines qs (emit discovery_banner ([], 0));
          off = (if 4096 < off then 4096 else off)
      in take off (buf @ [CHR 0x00]))"

definition discovery_write :: "env \<Rightarrow> int \<Rightarrow> agent_sys \<Rightarrow> agent_sys option" where
  "discovery_write E fd s = do {
     (_, s) \<leftarrow> sys_write_full E fd (map of_char (discovery_text (g_slots s))) s;
     Some s
   }"

section \<open>Scanning\<close>

definition find_slot :: "string \<Rightarrow> slot list \<Rightarrow> slot option" where
  "find_slot ser qs = List.find (\<lambda>q. sl_serial q = ser) qs"

text \<open>Phase A on one slot.\<close>

definition mark_seen :: "dev list \<Rightarrow> slot \<Rightarrow> slot" where
  "mark_seen devs q =
     (let seen = list_ex (\<lambda>d. sl_serial q = d_serial d) devs;
          q1 = (if seen \<and> \<not> sl_present q \<and> sl_ready q then q\<lparr>sl_reappeared := True\<rparr> else q)
      in q1\<lparr>sl_present := seen\<rparr>)"

text \<open>Phase B1: the first slot that reappeared, until there is none.\<close>

definition first_index :: "('a \<Rightarrow> bool) \<Rightarrow> 'a list \<Rightarrow> nat option" where
  "first_index P xs = (let n = length (takeWhile (\<lambda>x. \<not> P x) xs) in if n < length xs then Some n else None)"

partial_function (option) refresh_loop :: "env \<Rightarrow> agent_cfg \<Rightarrow> agent_sys \<Rightarrow> agent_sys option" where
  "refresh_loop E c s =
     (case first_index sl_reappeared (g_slots s) of
        None \<Rightarrow> Some s
      | Some i \<Rightarrow> do {
          (_, s) \<leftarrow> establish_forwards E c i (upd_slot i (\<lambda>q. q\<lparr>sl_reappeared := False\<rparr>) s);
          refresh_loop E c s
        })"

text \<open>Phase B2.\<close>

definition new_slot :: "agent_cfg \<Rightarrow> nat \<Rightarrow> dev \<Rightarrow> slot" where
  "new_slot c i d =
     (let ser = fit 128 (d_serial d) in
      \<lparr>sl_serial = ser, sl_model = fit 96 (d_model d), sl_kind = dev_kind ser, sl_adb_dst_host = [],
       sl_adb_dst_port = 0, sl_idx = i, sl_adb_port = g_adb_base c + int i,
       sl_stream_base = (if g_no_stream c then 0 else STREAM_BASE + int i * int STREAM_COUNT),
       sl_present = True, sl_ready = False, sl_reappeared = False\<rparr>)"

fun add_devices :: "env \<Rightarrow> agent_cfg \<Rightarrow> dev list \<Rightarrow> agent_sys \<Rightarrow> agent_sys option" where
  "add_devices E c [] s = Some s"
| "add_devices E c (d # ds) s =
     (if find_slot (d_serial d) (g_slots s) \<noteq> None then add_devices E c ds s
      else if MAX_SLOTS \<le> length (g_slots s) then add_devices E c ds (s\<lparr>g_slots_full_warned := True\<rparr>)
      else do {
        let i = length (g_slots s);
        s \<leftarrow> slot_setup_new E c i (s\<lparr>g_slots := g_slots s @ [new_slot c i d]\<rparr>);
        add_devices E c ds s
      })"

definition rescan_devs :: "env \<Rightarrow> agent_cfg \<Rightarrow> dev list \<Rightarrow> agent_sys \<Rightarrow> agent_sys option" where
  "rescan_devs E c devs s = do {
     s \<leftarrow> refresh_loop E c (s\<lparr>g_slots := map (mark_seen devs) (g_slots s)\<rparr>);
     add_devices E c devs s
   }"

definition rescan_once :: "env \<Rightarrow> agent_cfg \<Rightarrow> agent_sys \<Rightarrow> agent_sys option" where
  "rescan_once E c s = do {
     (ds, s) \<leftarrow> list_devices E 64 s;
     (case ds of None \<Rightarrow> Some s | Some devs \<Rightarrow> rescan_devs E c devs s)
   }"

text \<open>The sleep between two scans, cut into pieces of 100 ms by the stop flag.\<close>

function nap :: "env \<Rightarrow> nat \<Rightarrow> agent_sys \<Rightarrow> agent_sys" where
  "nap E slept s =
     (if slept < RESCAN_INTERVAL_MS \<and> \<not> e_abort E (tick s) then nap E (slept + 100) (sleep_ms E 100 s)
      else s)"
  by pat_completeness auto
termination
  by (relation "measure (\<lambda>(E, slept, s). RESCAN_INTERVAL_MS - slept)") auto

declare nap.simps [simp del]

partial_function (option) rescan_thread :: "env \<Rightarrow> agent_cfg \<Rightarrow> agent_sys \<Rightarrow> agent_sys option" where
  "rescan_thread E c s =
     (if e_abort E (tick s) then Some s
      else
        let s1 = nap E 0 s in
        if e_abort E (tick s1) then Some s1
        else do { s2 \<leftarrow> rescan_once E c s1; rescan_thread E c s2 })"

end
