(* ===== verification/Agent_Slots_Inv.thy ===== *)
theory Agent_Slots_Inv
  imports Agent_Slots
begin

text \<open>
  The invariant of the agent's tables and what one scan does to them: slots and listeners are only
  appended, an entry keeps its owner and its ports, every listed device has a listener, and nothing is
  left open besides the listeners.
\<close>

section \<open>The invariant\<close>

text \<open>Where the adb port of a slot is relayed to: a forwarded local port, or the address in the serial of
  a wireless device.\<close>

definition adb_dst :: "slot \<Rightarrow> string \<times> int" where
  "adb_dst q =
     (if sl_kind q \<noteq> ''wireless'' then (''127.0.0.1'', sl_adb_port q + LOC_OFFSET)
      else (case strrchr (sl_serial q) (CHR '':'') of
              None \<Rightarrow> ([], 0)
            | Some n \<Rightarrow> (take n (sl_serial q), atoi (drop (n + 1) (sl_serial q)))))"

lemma adb_dst_flags [simp]:
  "adb_dst (q\<lparr>sl_ready := r\<rparr>) = adb_dst q" "adb_dst (q\<lparr>sl_present := r\<rparr>) = adb_dst q"
  "adb_dst (q\<lparr>sl_reappeared := r\<rparr>) = adb_dst q"
  by (simp_all add: adb_dst_def cong: option.case_cong)

definition dst_ok :: "slot \<Rightarrow> bool" where
  "dst_ok q \<longleftrightarrow> (sl_adb_dst_host q, sl_adb_dst_port q) = adb_dst q \<and> length (sl_adb_dst_host q) < 64"

definition stream_port :: "nat \<Rightarrow> nat \<Rightarrow> int" where
  "stream_port i k = STREAM_BASE + int (i * STREAM_COUNT) + int k"

definition slot_ok :: "agent_cfg \<Rightarrow> nat \<Rightarrow> slot \<Rightarrow> bool" where
  "slot_ok c i q \<longleftrightarrow> sl_idx q = i \<and> sl_adb_port q = g_adb_base c + int i \<and>
     sl_kind q = dev_kind (sl_serial q) \<and> sl_stream_base q \<in> {0, stream_port i 0} \<and>
     word_ok 127 (sl_serial q) \<and> (sl_model q = [] \<or> word_ok 95 (sl_model q)) \<and> (sl_ready q \<longrightarrow> dst_ok q)"

definition fwd_ok :: "agent_cfg \<Rightarrow> string list \<Rightarrow> fwd \<Rightarrow> bool" where
  "fwd_ok c sers f \<longleftrightarrow> (\<exists>i < length sers. f_serial f = sers ! i \<and>
     (f_loc_port f = g_adb_base c + int i + LOC_OFFSET \<or>
      (\<exists>k < STREAM_COUNT. f_loc_port f = stream_port i k + LOC_OFFSET)))"

definition adb_listener :: "slot \<Rightarrow> listener \<Rightarrow> bool" where
  "adb_listener q l \<longleftrightarrow> \<not> l_is_discovery l \<and> l_group l = None \<and> l_pub_port l = sl_adb_port q \<and>
     (l_dst_host l, l_dst_port l) = adb_dst q"

definition stream_listener :: "nat \<Rightarrow> listener \<Rightarrow> bool" where
  "stream_listener i l \<longleftrightarrow> \<not> l_is_discovery l \<and> (\<exists>k < STREAM_COUNT. l_group l = Some (Group i k) \<and>
     l_pub_port l = stream_port i k \<and> l_dst_host l = ''127.0.0.1'' \<and>
     l_dst_port l = stream_port i k + LOC_OFFSET)"

definition listener_ok :: "agent_cfg \<Rightarrow> slot list \<Rightarrow> listener \<Rightarrow> bool" where
  "listener_ok c qs l \<longleftrightarrow>
     (l_is_discovery l \<and> l_pub_port l = g_discovery_port c \<and> l_group l = None) \<or>
     (\<exists>i < length qs. adb_listener (qs ! i) l \<or> stream_listener i l)"

definition agent_inv :: "agent_cfg \<Rightarrow> agent_sys \<Rightarrow> bool" where
  "agent_inv c s \<longleftrightarrow>
     length (g_slots s) \<le> MAX_SLOTS \<and> distinct (map sl_serial (g_slots s)) \<and>
     (\<forall>i < length (g_slots s). slot_ok c i (g_slots s ! i)) \<and>
     distinct (g_fwds s) \<and> (\<forall>f \<in> set (g_fwds s). fwd_ok c (map sl_serial (g_slots s)) f) \<and>
     length (g_ls s) \<le> MAX_LISTENERS \<and> (\<forall>l \<in> set (g_ls s). listener_ok c (g_slots s) l) \<and>
     (\<forall>q \<in> set (g_slots s). sl_ready q \<longrightarrow> (\<exists>l \<in> set (g_ls s). adb_listener q l))"

text \<open>The forwards a slot's clients use: to \<^verbatim>\<open>adbd\<close> unless the device is reached over the network, and
  one per stream port.  \<open>fwds_kept\<close>: those of the ready slots are in the table.\<close>

definition slot_fwds :: "slot \<Rightarrow> fwd set" where
  "slot_fwds q =
     (if sl_kind q \<noteq> ''wireless'' then {\<lparr>f_serial = sl_serial q, f_loc_port = sl_adb_port q + LOC_OFFSET\<rparr>} else {}) \<union>
     (if sl_stream_base q \<noteq> 0
      then (\<lambda>k. \<lparr>f_serial = sl_serial q, f_loc_port = sl_stream_base q + int k + LOC_OFFSET\<rparr>) ` {..< STREAM_COUNT}
      else {})"

definition fwds_kept :: "agent_sys \<Rightarrow> bool" where
  "fwds_kept s \<longleftrightarrow> (\<forall>q \<in> set (g_slots s). sl_ready q \<longrightarrow> slot_fwds q \<subseteq> set (g_fwds s))"

lemma slot_fwds_upd [simp]:
  "slot_fwds (q\<lparr>sl_reappeared := b\<rparr>) = slot_fwds q" "slot_fwds (q\<lparr>sl_ready := b\<rparr>) = slot_fwds q"
  "slot_fwds (q\<lparr>sl_present := b\<rparr>) = slot_fwds q"
  "slot_fwds (q\<lparr>sl_adb_dst_host := h, sl_adb_dst_port := p\<rparr>) = slot_fwds q"
  by (simp_all add: slot_fwds_def)

text \<open>What identifies a slot for its clients.\<close>

definition slot_key :: "slot \<Rightarrow> string \<times> string \<times> nat \<times> int" where
  "slot_key q = (sl_serial q, sl_kind q, sl_idx q, sl_adb_port q)"

text \<open>The tables only grow, the new descriptors are those of the new listeners, children are reaped, and
  the forwards of ready slots stay in the table.\<close>

definition grows :: "env \<Rightarrow> agent_sys \<Rightarrow> agent_sys \<Rightarrow> bool" where
  "grows E s s' \<longleftrightarrow>
     (\<exists>new. g_ls s' = g_ls s @ new \<and> set (open_fds s') = set (open_fds s) \<union> l_fd ` set new) \<and>
     (\<exists>more. map slot_key (g_slots s') = map slot_key (g_slots s) @ more) \<and>
     (waits_ok E \<longrightarrow> set (children s') = set (children s)) \<and> g_conns s' = g_conns s \<and>
     set (g_fwds s) \<subseteq> set (g_fwds s') \<and> (fwds_kept s \<longrightarrow> fwds_kept s')"

definition evolves :: "env \<Rightarrow> agent_cfg \<Rightarrow> agent_sys \<Rightarrow> agent_sys \<Rightarrow> bool" where
  "evolves E c s s' \<longleftrightarrow> (agent_inv c s \<longrightarrow> agent_inv c s' \<and> grows E s s')"

lemma grows_refl [simp]: "grows E s s"
  by (simp add: grows_def)

lemma grows_same:
  "map slot_key (g_slots s') = map slot_key (g_slots s) \<Longrightarrow> g_ls s' = g_ls s \<Longrightarrow> open_fds s' = open_fds s \<Longrightarrow>
   children s' = children s \<Longrightarrow> g_conns s' = g_conns s \<Longrightarrow> g_fwds s' = g_fwds s \<Longrightarrow>
   (\<And>q'. q' \<in> set (g_slots s') \<Longrightarrow> \<exists>q \<in> set (g_slots s). sl_ready q' = sl_ready q \<and> slot_fwds q' = slot_fwds q) \<Longrightarrow>
   grows E s s'"
  by (fastforce simp: grows_def fwds_kept_def)

lemma grows_trans:
  assumes "grows E s t" and "grows E t u"
  shows "grows E s u"
proof -
  from assms obtain n1 n2 m1 m2 where
    "g_ls t = g_ls s @ n1" "set (open_fds t) = set (open_fds s) \<union> l_fd ` set n1"
    "g_ls u = g_ls t @ n2" "set (open_fds u) = set (open_fds t) \<union> l_fd ` set n2"
    "map slot_key (g_slots t) = map slot_key (g_slots s) @ m1"
    "map slot_key (g_slots u) = map slot_key (g_slots t) @ m2"
    by (auto simp: grows_def)
  then have "g_ls u = g_ls s @ (n1 @ n2)" "set (open_fds u) = set (open_fds s) \<union> l_fd ` set (n1 @ n2)"
    "map slot_key (g_slots u) = map slot_key (g_slots s) @ (m1 @ m2)" by auto
  moreover have "waits_ok E \<longrightarrow> set (children u) = set (children s)" "g_conns u = g_conns s"
    "set (g_fwds s) \<subseteq> set (g_fwds u)" "fwds_kept s \<longrightarrow> fwds_kept u"
    using assms by (auto simp: grows_def)
  ultimately show ?thesis unfolding grows_def by blast
qed

lemma evolves_refl [simp]: "evolves E c s s"
  by (simp add: evolves_def)

lemma evolves_trans: "evolves E c s t \<Longrightarrow> evolves E c t u \<Longrightarrow> evolves E c s u"
  by (auto simp: evolves_def intro: grows_trans)

section \<open>Operations that keep the tables\<close>

lemma more_agent:
  fixes s s' :: agent_sys
  assumes "os.more s' = os.more s"
  shows "g_fwds s' = g_fwds s" "g_slots s' = g_slots s" "g_ls s' = g_ls s" "g_conns s' = g_conns s"
    "g_slots_full_warned s' = g_slots_full_warned s"
  using assms by (cases s; cases s'; simp)+

lemma agent_inv_cong:
  "g_slots s' = g_slots s \<Longrightarrow> g_ls s' = g_ls s \<Longrightarrow> g_fwds s' = g_fwds s \<Longrightarrow> agent_inv c s' = agent_inv c s"
  by (simp add: agent_inv_def)

lemma cmd_evolves: "cmd_frame E s s' \<Longrightarrow> evolves E c s s'"
proof -
  assume f: "cmd_frame E s s'"
  then have m: "os.more s' = os.more s" by (simp add: cmd_frame_def)
  note more_agent [OF m]
  with f agent_inv_cong [of s' s] show ?thesis by (auto simp: evolves_def grows_def cmd_frame_def fwds_kept_def)
qed

lemma run_cmd_total: "\<exists>r s'. run_cmd E argv t None s = Some (r, [], s') \<and> cmd_frame E s s'"
  using run_cmd_returns [of None E 0 argv t s] run_cmd_plain_frame by blast

lemma verify_guest_total: "\<exists>ok s'. verify_guest_adb E loc s = Some (ok, s') \<and> cmd_frame E s s'"
proof -
  let ?addr = "fit 32 (''127.0.0.1:'' @ show_int loc)"
  obtain r1 s1 where 1: "run_cmd E [''adb'', ''connect'', ?addr] 10000 None s = Some (r1, [], s1)"
    "cmd_frame E s s1" using run_cmd_total by blast
  obtain r2 s2 where 2: "run_cmd E [''adb'', ''-s'', ?addr, ''get-state''] 5000 None s1 = Some (r2, [], s2)"
    "cmd_frame E s1 s2" using run_cmd_total by blast
  obtain r3 s3 where 3: "run_cmd E [''adb'', ''disconnect'', ?addr] 5000 None s1 = Some (r3, [], s3)"
    "cmd_frame E s1 s3" using run_cmd_total by blast
  obtain r4 s4 where 4: "run_cmd E [''adb'', ''disconnect'', ?addr] 5000 None s2 = Some (r4, [], s4)"
    "cmd_frame E s2 s4" using run_cmd_total by blast
  show ?thesis
  proof (cases "r1 = 0")
    case True
    with 1 2 4 show ?thesis
      by (auto simp: verify_guest_adb_def Let_def intro: cmd_frame_trans)
  next
    case False
    with 1 3 show ?thesis by (auto simp: verify_guest_adb_def Let_def intro: cmd_frame_trans)
  qed
qed

section \<open>Forwards\<close>

text \<open>Commands and forwards leave the slots and the listeners alone.\<close>

definition tables_kept :: "env \<Rightarrow> agent_sys \<Rightarrow> agent_sys \<Rightarrow> bool" where
  "tables_kept E s s' \<longleftrightarrow> g_slots s' = g_slots s \<and> g_ls s' = g_ls s \<and> g_conns s' = g_conns s \<and>
     set (open_fds s') = set (open_fds s) \<and> (waits_ok E \<longrightarrow> set (children s') = set (children s)) \<and>
     set (g_fwds s) \<subseteq> set (g_fwds s')"

lemma tables_kept_trans: "tables_kept E s t \<Longrightarrow> tables_kept E t u \<Longrightarrow> tables_kept E s u"
  by (auto simp: tables_kept_def)

lemma tables_kept_refl [simp]: "tables_kept E s s"
  by (simp add: tables_kept_def)

lemma tables_kept_grows: "tables_kept E s s' \<Longrightarrow> grows E s s'"
  by (auto simp: tables_kept_def grows_def fwds_kept_def)

lemma cmd_tables_kept:
  assumes "cmd_frame E s s'"
  shows "tables_kept E s s'" and "g_fwds s' = g_fwds s" and "agent_inv c s' = agent_inv c s"
proof -
  from assms have m: "os.more s' = os.more s" by (simp add: cmd_frame_def)
  note a = more_agent [OF m]
  show "g_fwds s' = g_fwds s" by (rule a)
  show "tables_kept E s s'" using assms a by (simp add: tables_kept_def cmd_frame_def)
  show "agent_inv c s' = agent_inv c s" by (rule agent_inv_cong) (rule a)+
qed

lemma remember_fwd_ok:
  assumes "distinct fs" and "\<forall>f \<in> set fs. fwd_ok c sers f" and "length ser \<le> 127"
    and "fwd_ok c sers \<lparr>f_serial = ser, f_loc_port = loc\<rparr>"
  shows "distinct (remember_fwd ser loc fs)" and "\<forall>f \<in> set (remember_fwd ser loc fs). fwd_ok c sers f"
proof -
  have "fit 128 ser = ser" using assms(3) by (simp add: fit_def)
  with assms show "distinct (remember_fwd ser loc fs)" "\<forall>f \<in> set (remember_fwd ser loc fs). fwd_ok c sers f"
    by (auto simp: remember_fwd_def list_ex_iff)
qed

text \<open>The table of forwards never fills.\<close>

definition fwd_of :: "agent_cfg \<Rightarrow> string list \<Rightarrow> nat \<times> nat \<Rightarrow> fwd" where
  "fwd_of c sers = (\<lambda>(i, k). \<lparr>f_serial = sers ! i, f_loc_port =
     (if k = STREAM_COUNT then g_adb_base c + int i else stream_port i k) + LOC_OFFSET\<rparr>)"

lemma fwds_bound:
  assumes "agent_inv c s"
  shows "length (g_fwds s) \<le> MAX_SLOTS * Suc STREAM_COUNT"
proof -
  let ?sers = "map sl_serial (g_slots s)" and ?D = "{..< MAX_SLOTS} \<times> {..< Suc STREAM_COUNT}"
  have "f \<in> fwd_of c ?sers ` ?D" if "f \<in> set (g_fwds s)" for f
  proof -
    from assms that have "fwd_ok c ?sers f" by (simp add: agent_inv_def)
    then obtain i where i: "i < length ?sers" "f_serial f = ?sers ! i" and
      p: "f_loc_port f = g_adb_base c + int i + LOC_OFFSET \<or>
          (\<exists>k < STREAM_COUNT. f_loc_port f = stream_port i k + LOC_OFFSET)"
      unfolding fwd_ok_def by blast
    have im: "i < MAX_SLOTS" using i(1) assms by (simp add: agent_inv_def)
    from p show ?thesis
    proof
      assume "f_loc_port f = g_adb_base c + int i + LOC_OFFSET"
      with i(2) have "f = fwd_of c ?sers (i, STREAM_COUNT)" by (simp add: fwd_of_def)
      with im show ?thesis by blast
    next
      assume "\<exists>k < STREAM_COUNT. f_loc_port f = stream_port i k + LOC_OFFSET"
      then obtain k where k: "k < STREAM_COUNT" "f_loc_port f = stream_port i k + LOC_OFFSET" by blast
      with i(2) have "f = fwd_of c ?sers (i, k)" by (simp add: fwd_of_def)
      with im k(1) show ?thesis by (intro image_eqI [of _ _ "(i, k)"]) auto
    qed
  qed
  then have "set (g_fwds s) \<subseteq> fwd_of c ?sers ` ?D" by blast
  then have "card (set (g_fwds s)) \<le> card ?D"
    by (rule le_trans [OF card_mono card_image_le, rotated]) auto
  with assms show ?thesis by (simp add: agent_inv_def distinct_card card_cartesian_product)
qed

lemma fwd_eta [simp]: "\<lparr>f_serial = f_serial f, f_loc_port = f_loc_port f\<rparr> = (f :: fwd)"
  by (cases f) simp

lemma remember_fwd_set:
  assumes "agent_inv c s" and "length ser \<le> 127"
  shows "set (remember_fwd ser loc (g_fwds s)) = insert \<lparr>f_serial = ser, f_loc_port = loc\<rparr> (set (g_fwds s))"
proof -
  have "length (g_fwds s) < FWD_CAP"
    using fwds_bound [OF assms(1)] by (simp add: MAX_SLOTS_def STREAM_COUNT_def FWD_CAP_def)
  with assms(2) show ?thesis by (auto simp: remember_fwd_def list_ex_iff fit_def insert_absorb)
qed

lemma adb_forward_total:
  assumes "agent_inv c s" and "length ser \<le> 127"
    and "fwd_ok c (map sl_serial (g_slots s)) \<lparr>f_serial = ser, f_loc_port = loc\<rparr>"
  shows "\<exists>r s'. adb_forward E ser loc dev_port s = Some (r, s') \<and> tables_kept E s s' \<and> agent_inv c s' \<and>
     (r = 0 \<longrightarrow> \<lparr>f_serial = ser, f_loc_port = loc\<rparr> \<in> set (g_fwds s'))"
proof -
  obtain r s1 where 1: "run_cmd E (forward_argv ser loc dev_port) 10000 None s = Some (r, [], s1)"
    "cmd_frame E s s1" using run_cmd_total by blast
  note k = cmd_tables_kept [OF 1(2)]
  show ?thesis
  proof (cases "r = 0")
    case False
    with 1 k assms(1) show ?thesis by (simp add: adb_forward_def)
  next
    case True
    let ?s2 = "s1\<lparr>g_fwds := remember_fwd ser loc (g_fwds s1)\<rparr>"
    have i1: "agent_inv c s1" using assms(1) k(3) by simp
    note f = remember_fwd_set [OF i1 assms(2), of loc]
    have "tables_kept E s ?s2" using k(1) f by (auto simp: tables_kept_def)
    moreover note i1
    moreover have "g_slots s1 = g_slots s" using k(1) by (simp add: tables_kept_def)
    ultimately have "tables_kept E s ?s2 \<and> agent_inv c ?s2"
      using assms(2,3) remember_fwd_ok [of "g_fwds s1" c "map sl_serial (g_slots s)" ser loc]
      by (simp add: agent_inv_def)
    with 1 True f show ?thesis by (simp add: adb_forward_def)
  qed
qed

text \<open>What \<^verbatim>\<open>adb_forward\<close> does to the table: exactly one entry more when it succeeds.\<close>

lemma adb_forward_table:
  assumes "agent_inv c s" and "length ser \<le> 127" and "adb_forward E ser loc dev s = Some (r, s')"
  shows "set (g_fwds s') = set (g_fwds s) \<union> (if r = 0 then {\<lparr>f_serial = ser, f_loc_port = loc\<rparr>} else {})"
proof -
  obtain r1 s1 where 1: "run_cmd E (forward_argv ser loc dev) 10000 None s = Some (r1, [], s1)"
    "cmd_frame E s s1" using run_cmd_total by blast
  note k = cmd_tables_kept [OF 1(2)]
  have "agent_inv c s1" using assms(1) k(3) by simp
  note f = remember_fwd_set [OF this assms(2), of loc]
  show ?thesis
  proof (cases "r1 = 0")
    case True
    with assms(3) 1(1) have "r = 0" "s' = s1\<lparr>g_fwds := remember_fwd ser loc (g_fwds s1)\<rparr>"
      by (simp_all add: adb_forward_def)
    with f k(2) show ?thesis by simp
  next
    case False
    with assms(3) 1(1) have "r \<noteq> 0" "s' = s1" by (auto simp: adb_forward_def)
    with k(2) show ?thesis by simp
  qed
qed

lemma forward_guest_total:
  assumes "agent_inv c s" and "length ser \<le> 127"
    and "fwd_ok c (map sl_serial (g_slots s)) \<lparr>f_serial = ser, f_loc_port = loc\<rparr>"
  shows "\<exists>ok s'. forward_guest E c ser loc s = Some (ok, s') \<and> tables_kept E s s' \<and> agent_inv c s' \<and>
     (ok \<longrightarrow> \<lparr>f_serial = ser, f_loc_port = loc\<rparr> \<in> set (g_fwds s'))"
proof -
  obtain r s1 where 1: "adb_forward E ser loc (g_tcpip_port c) s = Some (r, s1)"
    "tables_kept E s s1" "agent_inv c s1"
    "r = 0 \<longrightarrow> \<lparr>f_serial = ser, f_loc_port = loc\<rparr> \<in> set (g_fwds s1)"
    using adb_forward_total [OF assms] by blast
  obtain ok s2 where 2: "verify_guest_adb E loc s1 = Some (ok, s2)" "cmd_frame E s1 s2"
    using verify_guest_total by blast
  note k = cmd_tables_kept [OF 2(2)]
  show ?thesis
  proof (cases "r = 0")
    case True
    with 1 2 k tables_kept_trans [OF 1(2) k(1)] show ?thesis by (simp add: forward_guest_def)
  qed (use 1 in \<open>auto simp: forward_guest_def\<close>)
qed

text \<open>Updates of one slot that keep what identifies it.\<close>

lemma upd_slot_fields [simp]:
  "g_ls (upd_slot i f s) = g_ls s" "g_conns (upd_slot i f s) = g_conns s"
  "g_fwds (upd_slot i f s) = g_fwds s" "open_fds (upd_slot i f s) = open_fds s"
  "children (upd_slot i f s) = children s" "g_slots (upd_slot i f s) = (g_slots s)[i := f (g_slots s ! i)]"
  "tick (upd_slot i f s) = tick s"
  by (simp_all add: upd_slot_def)

lemma agent_inv_slot:
  assumes inv: "agent_inv c s" and i: "i < length (g_slots s)"
    and ok: "slot_ok c i q" and ser: "sl_serial q = sl_serial (g_slots s ! i)"
    and rdy: "sl_ready q \<Longrightarrow> \<exists>l \<in> set (g_ls s). adb_listener q l"
    and fwd: "fwds_kept s \<Longrightarrow> sl_ready q \<Longrightarrow> slot_fwds q \<subseteq> set (g_fwds s)"
  shows "agent_inv c (upd_slot i (\<lambda>_. q) s)" and "grows E s (upd_slot i (\<lambda>_. q) s)"
proof -
  let ?qs = "g_slots s" and ?qs' = "(g_slots s)[i := q]"
  from inv i have old: "slot_ok c i (?qs ! i)" by (simp add: agent_inv_def)
  have sers: "map sl_serial ?qs' = map sl_serial ?qs"
    using ser by (simp add: map_update list_update_same_conv i)
  have dst: "adb_dst q = adb_dst (?qs ! i)" "sl_adb_port q = sl_adb_port (?qs ! i)"
    using ok old unfolding adb_dst_def slot_ok_def ser by simp_all
  have lis: "listener_ok c ?qs' l = listener_ok c ?qs l" for l
  proof -
    have "adb_listener (?qs' ! j) l = adb_listener (?qs ! j) l" if "j < length ?qs" for j
      using dst that by (cases "j = i") (simp_all add: adb_listener_def)
    then show ?thesis by (auto simp: listener_ok_def)
  qed
  have "slot_ok c j (?qs' ! j)" if "j < length ?qs" for j
    using inv ok that by (cases "j = i") (auto simp: agent_inv_def)
  moreover have "\<exists>l \<in> set (g_ls s). adb_listener p l" if "p \<in> set ?qs'" "sl_ready p" for p
    using set_update_subset_insert [of ?qs i q] that inv rdy by (auto simp: agent_inv_def)
  ultimately show "agent_inv c (upd_slot i (\<lambda>_. q) s)"
    using inv sers lis by (simp add: agent_inv_def)
  have "slot_key q = slot_key (?qs ! i)"
    using ok old ser by (simp add: slot_key_def slot_ok_def)
  then have "map slot_key ?qs' = map slot_key ?qs" by (simp add: map_update list_update_same_conv i)
  moreover have "fwds_kept s \<longrightarrow> fwds_kept (upd_slot i (\<lambda>_. q) s)"
    using fwd set_update_subset_insert [of ?qs i q] by (auto simp: fwds_kept_def)
  ultimately show "grows E s (upd_slot i (\<lambda>_. q) s)" by (auto simp: grows_def)
qed

section \<open>Setting up a slot\<close>

lemma slot_serial_fwd:
  assumes "i < length qs"
  shows "fwd_ok c (map sl_serial qs) \<lparr>f_serial = sl_serial (qs ! i), f_loc_port = g_adb_base c + int i + LOC_OFFSET\<rparr>"
    and "k < STREAM_COUNT \<Longrightarrow>
      fwd_ok c (map sl_serial qs) \<lparr>f_serial = sl_serial (qs ! i), f_loc_port = stream_port i k + LOC_OFFSET\<rparr>"
  using assms by (auto simp: fwd_ok_def)

text \<open>Updates of the relay target and the stream range only.\<close>

definition retarget :: "string \<Rightarrow> int \<Rightarrow> int \<Rightarrow> slot \<Rightarrow> slot" where
  "retarget h p b q = q\<lparr>sl_adb_dst_host := h, sl_adb_dst_port := p, sl_stream_base := b\<rparr>"

lemma retarget_fields [simp]:
  "sl_serial (retarget h p b q) = sl_serial q" "sl_model (retarget h p b q) = sl_model q"
  "sl_kind (retarget h p b q) = sl_kind q" "sl_idx (retarget h p b q) = sl_idx q"
  "sl_adb_port (retarget h p b q) = sl_adb_port q" "sl_present (retarget h p b q) = sl_present q"
  "sl_ready (retarget h p b q) = sl_ready q" "sl_reappeared (retarget h p b q) = sl_reappeared q"
  "sl_adb_dst_host (retarget h p b q) = h" "sl_adb_dst_port (retarget h p b q) = p"
  "sl_stream_base (retarget h p b q) = b"
  by (simp_all add: retarget_def)

lemma adb_dst_retarget [simp]: "adb_dst (retarget h p b q) = adb_dst q"
  unfolding adb_dst_def retarget_fields ..

lemma adb_listener_retarget [simp]: "adb_listener (retarget h p b q) = adb_listener q"
  by (simp add: adb_listener_def fun_eq_iff)

text \<open>The state of the slots after setting up forwards of slot \<open>i\<close>.\<close>

definition retargeted :: "env \<Rightarrow> agent_cfg \<Rightarrow> nat \<Rightarrow> agent_sys \<Rightarrow> agent_sys \<Rightarrow> bool" where
  "retargeted E c i s s' \<longleftrightarrow> agent_inv c s' \<and> grows E s s' \<and> g_ls s' = g_ls s \<and>
     set (open_fds s') = set (open_fds s) \<and>
     (\<exists>h p b. g_slots s' = (g_slots s)[i := retarget h p b (g_slots s ! i)])"

lemma retargeted_trans:
  assumes "retargeted E c i s t" and "retargeted E c i t u" and "i < length (g_slots s)"
  shows "retargeted E c i s u"
proof -
  from assms obtain h p b h' p' b' where g: "g_slots t = (g_slots s)[i := retarget h p b (g_slots s ! i)]"
    "g_slots u = (g_slots t)[i := retarget h' p' b' (g_slots t ! i)]" by (auto simp: retargeted_def)
  then have "g_slots u = (g_slots s)[i := retarget h' p' b' (g_slots s ! i)]"
    using assms(3) by (simp add: retarget_def)
  with assms(1,2) show ?thesis by (auto simp: retargeted_def intro: grows_trans)
qed

lemma retarget_same: "retarget (sl_adb_dst_host q) (sl_adb_dst_port q) (sl_stream_base q) q = q"
  by (simp add: retarget_def)

lemma kept_retargeted: "tables_kept E s s' \<Longrightarrow> agent_inv c s' \<Longrightarrow> retargeted E c i s s'"
proof -
  assume k: "tables_kept E s s'" and "agent_inv c s'"
  have "g_slots s' = (g_slots s)[i := retarget (sl_adb_dst_host (g_slots s ! i))
      (sl_adb_dst_port (g_slots s ! i)) (sl_stream_base (g_slots s ! i)) (g_slots s ! i)]"
    using k by (simp add: retarget_same tables_kept_def)
  with k \<open>agent_inv c s'\<close> show ?thesis
    unfolding retargeted_def by (auto simp: tables_kept_grows) (simp_all add: tables_kept_def)
qed

lemma upd_retargeted:
  assumes inv: "agent_inv c s" and i: "i < length (g_slots s)"
    and dst: "sl_ready (g_slots s ! i) \<Longrightarrow> dst_ok (retarget h p b (g_slots s ! i))"
    and b: "b \<in> {0, sl_stream_base (g_slots s ! i)}"
  shows "retargeted E c i s (upd_slot i (\<lambda>_. retarget h p b (g_slots s ! i)) s)"
proof -
  let ?q = "g_slots s ! i"
  from inv i have "slot_ok c i ?q" by (simp add: agent_inv_def)
  with dst b have ok: "slot_ok c i (retarget h p b ?q)" unfolding slot_ok_def by auto
  have "\<exists>l \<in> set (g_ls s). adb_listener (retarget h p b ?q) l" if "sl_ready (retarget h p b ?q)"
    using inv i that by (simp add: agent_inv_def)
  note s = agent_inv_slot [OF inv i ok _ this]
  have "slot_fwds (retarget h p b ?q) \<subseteq> slot_fwds ?q" using b by (auto simp: slot_fwds_def)
  then have "fwds_kept s \<Longrightarrow> sl_ready (retarget h p b ?q) \<Longrightarrow> slot_fwds (retarget h p b ?q) \<subseteq> set (g_fwds s)"
    using i unfolding fwds_kept_def retarget_fields by (metis nth_mem subset_trans)
  note s = s [OF _ _ this]
  show ?thesis unfolding retargeted_def by (auto intro: s)
qed

lemma establish_adb_total:
  assumes inv: "agent_inv c s" and i: "i < length (g_slots s)"
  shows "\<exists>r s'. establish_adb E c i s = Some (r, s') \<and> retargeted E c i s s' \<and>
     (r = 0 \<longrightarrow> dst_ok (g_slots s' ! i) \<and> (sl_kind (g_slots s ! i) \<noteq> ''wireless'' \<longrightarrow>
        \<lparr>f_serial = sl_serial (g_slots s ! i), f_loc_port = sl_adb_port (g_slots s ! i) + LOC_OFFSET\<rparr> \<in> set (g_fwds s')))"
proof -
  let ?q = "g_slots s ! i"
  from inv i have ok: "slot_ok c i ?q" by (simp add: agent_inv_def)
  then have ser: "length (sl_serial ?q) \<le> 127" and port: "sl_adb_port ?q = g_adb_base c + int i"
    and base: "sl_stream_base ?q \<in> {0, sl_stream_base ?q}"
    by (auto simp: slot_ok_def word_ok_def)
  define loc where "loc = sl_adb_port ?q + LOC_OFFSET"
  have fw: "fwd_ok c (map sl_serial (g_slots u)) \<lparr>f_serial = sl_serial ?q, f_loc_port = loc\<rparr>"
    if "g_slots u = g_slots s" for u :: agent_sys
    using slot_serial_fwd(1) [OF i, of c] that port by (simp add: loc_def)
  show ?thesis
  proof (cases "sl_kind ?q = ''wireless''")
    case wifi: True
    show ?thesis
    proof (cases "strrchr (sl_serial ?q) (CHR '':'')")
      case None
      with wifi have "establish_adb E c i s = Some (-1, s)"
        by (simp add: establish_adb_def Let_def del: strrchr_None)
      with kept_retargeted [OF tables_kept_refl inv] show ?thesis by simp
    next
      case (Some n)
      show ?thesis
      proof (cases "n = 0 \<or> 64 \<le> n")
        case True
        with wifi Some kept_retargeted [OF tables_kept_refl inv] show ?thesis
          by (simp add: establish_adb_def)
      next
        case False
        let ?h = "take n (sl_serial ?q)" and ?p = "atoi (drop (n + 1) (sl_serial ?q))"
        let ?r = "retarget ?h ?p (sl_stream_base ?q) ?q"
        have d: "dst_ok ?r"
          using wifi Some False by (simp add: dst_ok_def adb_dst_def [of ?q] min_less_iff_disj)
        have u: "upd_slot i (\<lambda>q. q\<lparr>sl_adb_dst_host := ?h, sl_adb_dst_port := ?p\<rparr>) s = upd_slot i (\<lambda>_. ?r) s"
          by (simp add: upd_slot_def retarget_def)
        have "establish_adb E c i s = Some (0, upd_slot i (\<lambda>_. ?r) s)"
          using wifi Some False unfolding u [symmetric] by (simp add: establish_adb_def Let_def)
        with upd_retargeted [OF inv i d base] d i wifi show ?thesis by simp
      qed
    qed
  next
    case local: False
    let ?f = "\<lparr>f_serial = sl_serial ?q, f_loc_port = loc\<rparr>"
    obtain ok1 s1 where 1: "forward_guest E c (sl_serial ?q) loc s = Some (ok1, s1)"
      "tables_kept E s s1" "agent_inv c s1" "ok1 \<longrightarrow> ?f \<in> set (g_fwds s1)" using forward_guest_total [OF inv ser fw] by blast
    define argv where "argv = [''adb'', ''-s'', sl_serial ?q, ''tcpip'', fit 8 (show_int (g_tcpip_port c))]"
    obtain r2 s2 where 2: "run_cmd E argv 15000 None s1 = Some (r2, [], s2)" "cmd_frame E s1 s2"
      using run_cmd_total by blast
    let ?s3 = "sleep_ms E 2000 s2"
    have f3: "cmd_frame E s1 ?s3" by (rule cmd_frame_trans [OF 2(2)]) simp
    have k3: "tables_kept E s ?s3" "agent_inv c ?s3"
      using tables_kept_trans [OF 1(2) cmd_tables_kept(1) [OF f3]] 1(3) cmd_tables_kept(3) [OF f3] by auto
    have "g_slots ?s3 = g_slots s" using k3(1) by (simp add: tables_kept_def)
    then obtain ok4 s4 where 4: "forward_guest E c (sl_serial ?q) loc ?s3 = Some (ok4, s4)"
      "tables_kept E ?s3 s4" "agent_inv c s4" "ok4 \<longrightarrow> ?f \<in> set (g_fwds s4)"
      using forward_guest_total [OF k3(2) ser fw] by blast
    have k4: "tables_kept E s s4" by (rule tables_kept_trans [OF k3(1) 4(2)])
    let ?r = "retarget ''127.0.0.1'' loc (sl_stream_base ?q) ?q"
    have fin: "retargeted E c i s (upd_slot i (\<lambda>q. q\<lparr>sl_adb_dst_host := ''127.0.0.1'', sl_adb_dst_port := loc\<rparr>) t) \<and>
        dst_ok (g_slots (upd_slot i (\<lambda>q. q\<lparr>sl_adb_dst_host := ''127.0.0.1'', sl_adb_dst_port := loc\<rparr>) t) ! i)"
      if "tables_kept E s t" "agent_inv c t" for t
    proof -
      from that have q: "g_slots t = g_slots s" by (simp add: tables_kept_def)
      have d: "dst_ok ?r" using local by (simp add: dst_ok_def adb_dst_def [of ?q] loc_def)
      have u: "upd_slot i (\<lambda>q. q\<lparr>sl_adb_dst_host := ''127.0.0.1'', sl_adb_dst_port := loc\<rparr>) t = upd_slot i (\<lambda>_. ?r) t"
        by (simp add: upd_slot_def retarget_def q)
      have "retargeted E c i t (upd_slot i (\<lambda>_. ?r) t)"
        using upd_retargeted [OF that(2), of i "''127.0.0.1''" loc "sl_stream_base ?q"] i d base
        by (simp add: q)
      from retargeted_trans [OF kept_retargeted [OF that] this i] d i show ?thesis by (simp add: u q)
    qed
    show ?thesis
    proof (cases ok1)
      case True
      with local 1 fin [OF 1(2,3)] show ?thesis by (simp add: establish_adb_def Let_def loc_def)
    next
      case False
      show ?thesis
      proof (cases ok4)
        case True
        with local False 1 2 4 fin [OF k4 4(3)] show ?thesis
          by (simp add: establish_adb_def Let_def loc_def argv_def)
      next
        case no: False
        with local False 1 2 4 kept_retargeted [OF k4 4(3)] show ?thesis
          by (simp add: establish_adb_def Let_def loc_def argv_def)
      qed
    qed
  qed
qed

lemma stream_forwards_total:
  assumes "agent_inv c s" and "i < length (g_slots s)" and "set ks \<subseteq> {..< STREAM_COUNT}"
    and "sl_stream_base (g_slots s ! i) \<noteq> 0" and "dst_ok (g_slots s ! i)"
  shows "\<exists>s'. stream_forwards E i ks s = Some s' \<and> retargeted E c i s s' \<and> dst_ok (g_slots s' ! i) \<and>
     (sl_stream_base (g_slots s' ! i) \<noteq> 0 \<longrightarrow> sl_stream_base (g_slots s' ! i) = sl_stream_base (g_slots s ! i) \<and>
        (\<forall>k \<in> set ks. \<lparr>f_serial = sl_serial (g_slots s ! i),
           f_loc_port = sl_stream_base (g_slots s ! i) + int k + LOC_OFFSET\<rparr> \<in> set (g_fwds s')))"
  using assms
proof (induction ks arbitrary: s)
  case Nil
  then show ?case by (simp add: kept_retargeted)
next
  case (Cons k ks)
  let ?q = "g_slots s ! i"
  from Cons.prems have ok: "slot_ok c i ?q" by (simp add: agent_inv_def)
  then have ser: "length (sl_serial ?q) \<le> 127" and base: "sl_stream_base ?q + int k = stream_port i k"
    using Cons.prems(4) by (auto simp: slot_ok_def word_ok_def stream_port_def)
  have "k < STREAM_COUNT" using Cons.prems(3) by simp
  from adb_forward_total [OF Cons.prems(1) ser slot_serial_fwd(2) [OF Cons.prems(2) this], of E "STREAM_BASE + int k"]
  obtain r s1 where 1: "adb_forward E (sl_serial ?q) (sl_stream_base ?q + int k + LOC_OFFSET) (STREAM_BASE + int k) s
      = Some (r, s1)" "tables_kept E s s1" "agent_inv c s1"
    "r = 0 \<longrightarrow> \<lparr>f_serial = sl_serial ?q, f_loc_port = sl_stream_base ?q + int k + LOC_OFFSET\<rparr> \<in> set (g_fwds s1)"
    by (auto simp: base)
  have q: "g_slots s1 = g_slots s" using 1(2) by (simp add: tables_kept_def)
  note r1 = kept_retargeted [OF 1(2,3)]
  show ?case
  proof (cases "r = 0")
    case True
    have "\<exists>s2. stream_forwards E i ks s1 = Some s2 \<and> retargeted E c i s1 s2 \<and> dst_ok (g_slots s2 ! i) \<and>
       (sl_stream_base (g_slots s2 ! i) \<noteq> 0 \<longrightarrow> sl_stream_base (g_slots s2 ! i) = sl_stream_base ?q \<and>
          (\<forall>k \<in> set ks. \<lparr>f_serial = sl_serial ?q, f_loc_port = sl_stream_base ?q + int k + LOC_OFFSET\<rparr> \<in> set (g_fwds s2)))"
      using Cons.IH [OF 1(3)] Cons.prems q by simp
    then obtain s2 where 2: "stream_forwards E i ks s1 = Some s2" "retargeted E c i s1 s2" "dst_ok (g_slots s2 ! i)"
       "sl_stream_base (g_slots s2 ! i) \<noteq> 0 \<longrightarrow> sl_stream_base (g_slots s2 ! i) = sl_stream_base ?q \<and>
          (\<forall>k \<in> set ks. \<lparr>f_serial = sl_serial ?q, f_loc_port = sl_stream_base ?q + int k + LOC_OFFSET\<rparr> \<in> set (g_fwds s2))"
      by blast
    have "set (g_fwds s1) \<subseteq> set (g_fwds s2)" using 2(2) by (simp add: retargeted_def grows_def)
    with True 1 2 retargeted_trans [OF r1 2(2) Cons.prems(2)] show ?thesis by (auto simp: Let_def)
  next
    case False
    let ?r = "retarget (sl_adb_dst_host ?q) (sl_adb_dst_port ?q) 0 ?q"
    have u: "upd_slot i (\<lambda>q. q\<lparr>sl_stream_base := 0\<rparr>) s1 = upd_slot i (\<lambda>_. ?r) s1"
      by (simp add: upd_slot_def retarget_def q)
    have d: "dst_ok ?r" using Cons.prems(5) by (simp add: dst_ok_def)
    have "retargeted E c i s1 (upd_slot i (\<lambda>_. ?r) s1)"
      using upd_retargeted [OF 1(3), of i _ _ 0] Cons.prems(2) d by (simp add: q)
    from retargeted_trans [OF r1 this Cons.prems(2)] False 1 d Cons.prems(2) show ?thesis
      by (simp add: Let_def u q)
  qed
qed

lemma establish_forwards_total:
  assumes "agent_inv c s" and "i < length (g_slots s)"
  shows "\<exists>r s'. establish_forwards E c i s = Some (r, s') \<and> retargeted E c i s s' \<and>
     (r = 0 \<longrightarrow> dst_ok (g_slots s' ! i) \<and> slot_fwds (g_slots s' ! i) \<subseteq> set (g_fwds s'))"
proof -
  let ?q = "g_slots s ! i"
  obtain r s1 where 1: "establish_adb E c i s = Some (r, s1)" "retargeted E c i s s1"
    "r = 0 \<longrightarrow> dst_ok (g_slots s1 ! i) \<and> (sl_kind ?q \<noteq> ''wireless'' \<longrightarrow>
       \<lparr>f_serial = sl_serial ?q, f_loc_port = sl_adb_port ?q + LOC_OFFSET\<rparr> \<in> set (g_fwds s1))"
    using establish_adb_total [OF assms] by blast
  from 1(2) obtain h p b where "g_slots s1 = (g_slots s)[i := retarget h p b ?q]" by (auto simp: retargeted_def)
  with assms(2) have q1: "g_slots s1 ! i = retarget h p b ?q" by simp
  have l: "i < length (g_slots s1)" and inv: "agent_inv c s1" using 1(2) assms(2) by (auto simp: retargeted_def)
  show ?thesis
  proof (cases "r = 0 \<and> sl_stream_base (g_slots s1 ! i) \<noteq> 0")
    case True
    have "set [0 ..< STREAM_COUNT] \<subseteq> {..< STREAM_COUNT}" by (simp add: atLeast0LessThan)
    from stream_forwards_total [OF inv l this, of E] 1(3) True obtain s2 where
      2: "stream_forwards E i [0 ..< STREAM_COUNT] s1 = Some s2" "retargeted E c i s1 s2" "dst_ok (g_slots s2 ! i)"
      "sl_stream_base (g_slots s2 ! i) \<noteq> 0 \<longrightarrow> sl_stream_base (g_slots s2 ! i) = sl_stream_base (g_slots s1 ! i) \<and>
        (\<forall>k \<in> set [0 ..< STREAM_COUNT]. \<lparr>f_serial = sl_serial (g_slots s1 ! i),
           f_loc_port = sl_stream_base (g_slots s1 ! i) + int k + LOC_OFFSET\<rparr> \<in> set (g_fwds s2))"
      by blast
    from 2(2) obtain h2 p2 b2 where q2: "g_slots s2 ! i = retarget h2 p2 b2 (g_slots s1 ! i)"
      using l by (auto simp: retargeted_def)
    have "set (g_fwds s1) \<subseteq> set (g_fwds s2)" using 2(2) by (simp add: retargeted_def grows_def)
    with 1(3) True 2(4) have "slot_fwds (g_slots s2 ! i) \<subseteq> set (g_fwds s2)"
      by (auto simp: slot_fwds_def q2 q1)
    with 1 2 True retargeted_trans [OF 1(2) 2(2) assms(2)] show ?thesis by (simp add: establish_forwards_def)
  next
    case False
    with 1(3) have "r = 0 \<Longrightarrow> slot_fwds (g_slots s1 ! i) \<subseteq> set (g_fwds s1)" by (auto simp: slot_fwds_def q1)
    with 1 False show ?thesis by (auto simp: establish_forwards_def)
  qed
qed

section \<open>Listeners\<close>

text \<open>What \<^verbatim>\<open>add_listener\<close> does: it appends entries for this port, one per bound address, and nothing else.\<close>

definition listens :: "int \<Rightarrow> string \<Rightarrow> int \<Rightarrow> group_id option \<Rightarrow> bool \<Rightarrow> listener \<Rightarrow> bool" where
  "listens pub host dst grp disc l \<longleftrightarrow> l_pub_port l = pub \<and> l_dst_host l = host \<and> l_dst_port l = dst \<and>
     l_group l = grp \<and> l_is_discovery l = disc"

definition appended :: "(listener \<Rightarrow> bool) \<Rightarrow> nat \<Rightarrow> agent_sys \<Rightarrow> agent_sys \<Rightarrow> bool" where
  "appended P n s s' \<longleftrightarrow> g_slots s' = g_slots s \<and> g_fwds s' = g_fwds s \<and> g_conns s' = g_conns s \<and>
     children s' = children s \<and> (length (g_ls s) \<le> MAX_LISTENERS \<longrightarrow> length (g_ls s') \<le> MAX_LISTENERS) \<and>
     (\<exists>new. g_ls s' = g_ls s @ new \<and> length new = n \<and> list_all P new \<and>
        set (open_fds s') = set (open_fds s) \<union> l_fd ` set new)"

lemma appended_trans:
  assumes "appended P n s t" and "appended P m t u"
  shows "appended P (n + m) s u"
proof -
  from assms obtain a b where "g_ls t = g_ls s @ a" "length a = n" "list_all P a"
    "set (open_fds t) = set (open_fds s) \<union> l_fd ` set a"
    "g_ls u = g_ls t @ b" "length b = m" "list_all P b" "set (open_fds u) = set (open_fds t) \<union> l_fd ` set b"
    by (auto simp: appended_def)
  then have "g_ls u = g_ls s @ (a @ b)" "length (a @ b) = n + m" "list_all P (a @ b)"
    "set (open_fds u) = set (open_fds s) \<union> l_fd ` set (a @ b)" by auto
  moreover have "g_slots u = g_slots s" "g_fwds u = g_fwds s" "g_conns u = g_conns s"
    "children u = children s" "length (g_ls s) \<le> MAX_LISTENERS \<longrightarrow> length (g_ls u) \<le> MAX_LISTENERS"
    using assms by (simp_all add: appended_def)
  ultimately show ?thesis unfolding appended_def by blast
qed

lemma listen_failed: "tcp_listen_addr E ip port s = (fd, s') \<Longrightarrow> fd < 0 \<Longrightarrow> appended P 0 s s'"
  using agent_listen.fail [of E ip port s fd s'] agent_listen.frame [of E ip port s fd s'] more_agent [of s' s]
  by (simp add: appended_def)

lemma listen_bound:
  assumes "tcp_listen_addr E ip port s = (fd, s')" and "0 \<le> fd"
  shows "length (g_ls s') < MAX_LISTENERS \<Longrightarrow> P l \<Longrightarrow> l_fd l = fd \<Longrightarrow>
      appended P 1 s (s'\<lparr>g_ls := g_ls s' @ [l]\<rparr>)"
    and "\<not> length (g_ls s') < MAX_LISTENERS \<Longrightarrow> appended P 0 s (sys_close E fd s')"
proof -
  note f = agent_listen.frame [OF assms(1)] agent_listen.ok [OF assms]
  then have "os.more s' = os.more s" by simp
  note a = more_agent [OF this]
  show "appended P 1 s (s'\<lparr>g_ls := g_ls s' @ [l]\<rparr>)"
    if "length (g_ls s') < MAX_LISTENERS" "P l" "l_fd l = fd"
    using f a that by (auto simp: appended_def)
  have "os.more (sys_close E fd s') = os.more s'" by simp
  note b = more_agent [OF this]
  have "set (open_fds (sys_close E fd s')) = set (open_fds s)" using f(2) by auto
  then show "appended P 0 s (sys_close E fd s')"
    using f(1) a b unfolding appended_def by simp
qed

lemma add_listener_ips_spec:
  "add_listener_ips E ips pub dh dp grp disc made s = (m, s') \<Longrightarrow> made \<le> m \<and>
     appended (listens pub (fit 64 (case dh of Some h \<Rightarrow> h | None \<Rightarrow> ''127.0.0.1'')) dp grp disc) (m - made) s s'"
proof (induction ips arbitrary: made s)
  case Nil
  then show ?case by (simp add: appended_def)
next
  case (Cons ip ips)
  let ?P = "listens pub (fit 64 (case dh of Some h \<Rightarrow> h | None \<Rightarrow> ''127.0.0.1'')) dp grp disc"
  obtain fd s1 where l: "tcp_listen_addr E ip pub s = (fd, s1)" by fastforce
  show ?case
  proof (cases "fd < 0")
    case True
    with Cons l have "made \<le> m" "appended ?P (m - made) s1 s'" by auto
    with appended_trans [OF listen_failed [OF l True, of ?P]] show ?thesis by simp
  next
    case False
    then have fd: "0 \<le> fd" by simp
    show ?thesis
    proof (cases "length (g_ls s1) < MAX_LISTENERS")
      case True
      let ?L = "\<lparr>l_fd = fd, l_pub_port = pub,
          l_dst_host = fit 64 (case dh of Some h \<Rightarrow> h | None \<Rightarrow> ''127.0.0.1''),
          l_dst_port = dp, l_group = grp, l_is_discovery = disc\<rparr>"
      let ?s2 = "s1\<lparr>g_ls := g_ls s1 @ [?L]\<rparr>"
      have a: "appended ?P 1 s ?s2" by (rule listen_bound(1) [OF l fd True]) (simp_all add: listens_def)
      from Cons.prems l False True have rec: "add_listener_ips E ips pub dh dp grp disc (made + 1) ?s2 = (m, s')"
        by (simp add: Let_def)
      from Cons.IH [OF rec] have "made + 1 \<le> m" "appended ?P (m - (made + 1)) ?s2 s'" by auto
      moreover from this have "1 + (m - (made + 1)) = m - made" by simp
      ultimately show ?thesis using appended_trans [OF a, of "m - (made + 1)" s'] by auto
    next
      case full: False
      with Cons l False have "made \<le> m" "appended ?P (m - made) (sys_close E fd s1) s'" by auto
      with appended_trans [OF listen_bound(2) [OF l fd full, of ?P]] show ?thesis by simp
    qed
  qed
qed

lemma add_listener_spec:
  assumes "add_listener E c pub dh dp grp disc s = (r, s')"
  shows "\<exists>n. appended (listens pub (fit 64 (case dh of Some h \<Rightarrow> h | None \<Rightarrow> ''127.0.0.1'')) dp grp disc) n s s' \<and>
     (r = 0 \<longleftrightarrow> 0 < n)"
proof -
  obtain m where m: "add_listener_ips E (g_bind_ips c) pub dh dp grp disc 0 s = (m, s')" "r = (if 0 < m then 0 else -1)"
    using assms by (auto simp: add_listener_def split: prod.splits)
  from add_listener_ips_spec [OF m(1)] m(2) show ?thesis by (intro exI [of _ m]) simp
qed

lemma appended_inv:
  assumes inv: "agent_inv c s" and a: "appended P n s s'" and P: "\<And>l. P l \<Longrightarrow> listener_ok c (g_slots s) l"
  shows "agent_inv c s'" and "grows E s s'"
proof -
  from a obtain new where new: "g_ls s' = g_ls s @ new" "list_all P new"
    "set (open_fds s') = set (open_fds s) \<union> l_fd ` set new"
    and same: "g_slots s' = g_slots s" "g_fwds s' = g_fwds s" "g_conns s' = g_conns s" "children s' = children s"
    and len: "length (g_ls s) \<le> MAX_LISTENERS \<longrightarrow> length (g_ls s') \<le> MAX_LISTENERS"
    by (auto simp: appended_def)
  have "length (g_ls s') \<le> MAX_LISTENERS" using inv len by (simp add: agent_inv_def)
  moreover have "\<forall>l \<in> set (g_ls s'). listener_ok c (g_slots s) l"
    using inv new P by (auto simp: agent_inv_def list_all_iff)
  moreover have "\<forall>q \<in> set (g_slots s). sl_ready q \<longrightarrow> (\<exists>l \<in> set (g_ls s'). adb_listener q l)"
    using inv new by (auto simp: agent_inv_def)
  ultimately show "agent_inv c s'" using inv same unfolding agent_inv_def by simp
  show "grows E s s'" using new same by (auto simp: grows_def fwds_kept_def)
qed

lemma add_listener_inv:
  assumes "agent_inv c s" and "add_listener E c pub (Some h) dp grp disc s = (r, s')" and "length h < 64"
    and "\<And>l. listens pub h dp grp disc l \<Longrightarrow> listener_ok c (g_slots s) l"
  shows "agent_inv c s'" and "grows E s s'" and "g_slots s' = g_slots s"
    and "r = 0 \<Longrightarrow> \<exists>l \<in> set (g_ls s'). listens pub h dp grp disc l"
proof -
  have h: "fit 64 h = h" using assms(3) by (simp add: fit_def)
  from add_listener_spec [OF assms(2)] obtain n where
    a: "appended (listens pub h dp grp disc) n s s'" "r = 0 \<longleftrightarrow> 0 < n" by (auto simp: h)
  show "agent_inv c s'" "grows E s s'" using appended_inv [OF assms(1) a(1) assms(4)] by auto
  show "g_slots s' = g_slots s" using a(1) by (simp add: appended_def)
  show "\<exists>l \<in> set (g_ls s'). listens pub h dp grp disc l" if "r = 0"
  proof -
    from a(1) obtain new where "g_ls s' = g_ls s @ new" "length new = n" "list_all (listens pub h dp grp disc) new"
      by (auto simp: appended_def)
    with a(2) that show ?thesis by (cases new) auto
  qed
qed

lemma stream_listener_ok:
  "i < length qs \<Longrightarrow> k < STREAM_COUNT \<Longrightarrow>
   listens (stream_port i k) ''127.0.0.1'' (stream_port i k + LOC_OFFSET) (Some (Group i k)) False l \<Longrightarrow>
   listener_ok c qs l"
  unfolding listener_ok_def stream_listener_def listens_def by blast

lemma bind_streams_inv:
  assumes "agent_inv c s" and "i < length (g_slots s)" and "sl_stream_base (g_slots s ! i) = stream_port i 0"
    and "set ks \<subseteq> {..< STREAM_COUNT}"
  shows "agent_inv c (bind_streams E c i ks s) \<and> grows E s (bind_streams E c i ks s) \<and>
     g_slots (bind_streams E c i ks s) = g_slots s"
  using assms
proof (induction ks arbitrary: s)
  case Nil
  then show ?case by simp
next
  case (Cons k ks)
  have p: "sl_stream_base (g_slots s ! i) + int k = stream_port i k"
    using Cons.prems(3) by (simp add: stream_port_def)
  obtain r s1 where a: "add_listener E c (stream_port i k) (Some ''127.0.0.1'') (stream_port i k + LOC_OFFSET)
      (Some (Group i k)) False s = (r, s1)" by fastforce
  have k: "k < STREAM_COUNT" using Cons.prems(4) by simp
  have len: "length ''127.0.0.1'' < 64" by simp
  note s1 = add_listener_inv [OF Cons.prems(1) a len stream_listener_ok [OF Cons.prems(2) k]]
  have b: "bind_streams E c i (k # ks) s = bind_streams E c i ks s1" using p a by (simp add: Let_def)
  from Cons.IH [OF s1(1)] s1(3) Cons.prems grows_trans [OF s1(2)] show ?case unfolding b by auto
qed

lemma bind_listeners_inv:
  assumes inv: "agent_inv c s" and i: "i < length (g_slots s)" and d: "dst_ok (g_slots s ! i)"
    and b: "bind_listeners E c i s = (r, s')"
  shows "agent_inv c s'" and "grows E s s'" and "g_slots s' = g_slots s"
    and "r = 0 \<Longrightarrow> \<exists>l \<in> set (g_ls s'). adb_listener (g_slots s ! i) l"
proof -
  let ?q = "g_slots s ! i"
  obtain r1 s1 where a: "add_listener E c (sl_adb_port ?q) (Some (sl_adb_dst_host ?q)) (sl_adb_dst_port ?q) None False s
      = (r1, s1)" by fastforce
  have ok: "listens (sl_adb_port ?q) (sl_adb_dst_host ?q) (sl_adb_dst_port ?q) None False l \<Longrightarrow> adb_listener ?q l" for l
    using d by (simp add: listens_def adb_listener_def dst_ok_def)
  have len: "length (sl_adb_dst_host ?q) < 64" using d by (simp add: dst_ok_def)
  note s1 = add_listener_inv [OF inv a len]
  have lok: "listener_ok c (g_slots s) l"
    if "listens (sl_adb_port ?q) (sl_adb_dst_host ?q) (sl_adb_dst_port ?q) None False l" for l
    using ok [OF that] i by (auto simp: listener_ok_def)
  note s1 = s1 [OF lok, simplified]
  have base: "sl_stream_base ?q = stream_port i 0" if "sl_stream_base ?q \<noteq> 0"
    using inv i that by (auto simp: agent_inv_def slot_ok_def)
  let ?s2 = "bind_streams E c i [0 ..< STREAM_COUNT] s1"
  have s2: "agent_inv c ?s2 \<and> grows E s1 ?s2 \<and> g_slots ?s2 = g_slots s1" if "sl_stream_base ?q \<noteq> 0"
    by (rule bind_streams_inv) (use s1 i base [OF that] in \<open>auto simp: atLeast0LessThan\<close>)
  have res: "s' = s1 \<or> (r1 = 0 \<and> sl_stream_base ?q \<noteq> 0 \<and> s' = ?s2)" "r = 0 \<longleftrightarrow> r1 = 0"
    using b a s1(3) by (auto simp: bind_listeners_def Let_def split: if_splits)
  show "agent_inv c s'" "g_slots s' = g_slots s" using res(1) s1 s2 by auto
  show g: "grows E s s'" using res(1) s1 s2 grows_trans by blast
  show "\<exists>l \<in> set (g_ls s'). adb_listener ?q l" if "r = 0"
  proof -
    from that res(2) s1(4) ok obtain l where l: "l \<in> set (g_ls s1)" "adb_listener ?q l" by auto
    have "set (g_ls s1) \<subseteq> set (g_ls s')" using res(1) s2 by (auto simp: grows_def)
    with l show ?thesis by blast
  qed
qed

text \<open>Setting up a slot changes that slot only: its relay target, its stream range, its ready flag.\<close>

lemma slot_setup_total:
  assumes inv: "agent_inv c s" and i: "i < length (g_slots s)"
  shows "\<exists>s' h p b r. slot_setup_new E c i s = Some s' \<and> agent_inv c s' \<and> grows E s s' \<and>
     g_slots s' = (g_slots s)[i := (retarget h p b (g_slots s ! i))\<lparr>sl_ready := r\<rparr>]"
proof -
  obtain r s1 where 1: "establish_forwards E c i s = Some (r, s1)" "retargeted E c i s s1"
    "r = 0 \<longrightarrow> dst_ok (g_slots s1 ! i) \<and> slot_fwds (g_slots s1 ! i) \<subseteq> set (g_fwds s1)"
    using establish_forwards_total [OF inv i] by blast
  from 1(2) obtain h p b where g1: "g_slots s1 = (g_slots s)[i := retarget h p b (g_slots s ! i)]"
    and inv1: "agent_inv c s1" and gr1: "grows E s s1" by (auto simp: retargeted_def)
  have i1: "i < length (g_slots s1)" using g1 i by simp
  have keep: "g_slots s1 = (g_slots s)[i := (retarget h p b (g_slots s ! i))\<lparr>sl_ready := sl_ready (g_slots s ! i)\<rparr>]"
    using g1 by (simp add: retarget_def)
  show ?thesis
  proof (cases "r = 0")
    case False
    with 1 inv1 gr1 keep show ?thesis unfolding slot_setup_new_def by auto
  next
    case True
    obtain b2 s2 where bl: "bind_listeners E c i s1 = (b2, s2)" by fastforce
    note s2 = bind_listeners_inv [OF inv1 i1 _ bl] 
    have d1: "dst_ok (g_slots s1 ! i)" using 1(3) True by simp
    note s2 = s2 [OF d1]
    show ?thesis
    proof (cases "b2 = 0")
      case False
      with 1 True bl s2 keep grows_trans [OF gr1 s2(2)] show ?thesis
        unfolding slot_setup_new_def by auto
    next
      case ok: True
      let ?q = "(g_slots s1 ! i)\<lparr>sl_ready := True\<rparr>"
      have qok: "slot_ok c i ?q"
        using inv1 i1 d1 by (simp add: agent_inv_def slot_ok_def dst_ok_def)
      have "\<exists>l \<in> set (g_ls s2). adb_listener ?q l"
        using s2(4) [OF ok] by (simp add: adb_listener_def)
      note u = agent_inv_slot [OF s2(1), of i ?q] 
      have q2: "g_slots s2 = g_slots s1" by (rule s2(3))
      have f2: "slot_fwds ?q \<subseteq> set (g_fwds s2)"
        using 1(3) True s2(2) unfolding grows_def slot_fwds_upd by blast
      have "upd_slot i (\<lambda>q. q\<lparr>sl_ready := True\<rparr>) s2 = upd_slot i (\<lambda>_. ?q) s2"
        by (simp add: upd_slot_def q2)
      moreover have "agent_inv c (upd_slot i (\<lambda>_. ?q) s2)" "grows E s2 (upd_slot i (\<lambda>_. ?q) s2)"
        using u i1 qok q2 f2 \<open>\<exists>l \<in> set (g_ls s2). adb_listener ?q l\<close> by auto
      moreover have "g_slots (upd_slot i (\<lambda>_. ?q) s2) = (g_slots s)[i := (retarget h p b (g_slots s ! i))\<lparr>sl_ready := True\<rparr>]"
        using g1 q2 i by simp
      ultimately have "slot_setup_new E c i s = Some (upd_slot i (\<lambda>_. ?q) s2) \<and>
          agent_inv c (upd_slot i (\<lambda>_. ?q) s2) \<and> grows E s (upd_slot i (\<lambda>_. ?q) s2) \<and>
          g_slots (upd_slot i (\<lambda>_. ?q) s2) = (g_slots s)[i := (retarget h p b (g_slots s ! i))\<lparr>sl_ready := True\<rparr>]"
        using 1 True bl ok grows_trans [OF gr1 s2(2)] grows_trans by (auto simp: slot_setup_new_def)
      then show ?thesis by blast
    qed
  qed
qed

section \<open>A scan\<close>

lemma first_index_Some: "first_index P xs = Some i \<Longrightarrow> i < length xs \<and> P (xs ! i)"
  using nth_length_takeWhile [of "\<lambda>x. \<not> P x" xs] by (auto simp: first_index_def Let_def split: if_splits)

lemma first_index_None: "first_index P xs = None \<Longrightarrow> \<forall>x \<in> set xs. \<not> P x"
proof -
  assume "first_index P xs = None"
  then have "length (takeWhile (\<lambda>x. \<not> P x) xs) = length xs"
    using length_takeWhile_le [of "\<lambda>x. \<not> P x" xs] by (simp add: first_index_def Let_def split: if_splits)
  then have "takeWhile (\<lambda>x. \<not> P x) xs = xs" using takeWhile_eq_take [of "\<lambda>x. \<not> P x" xs] by simp
  then show ?thesis by (simp add: takeWhile_eq_all_conv)
qed

lemma filter_update_less:
  assumes "i < length xs" and "P (xs ! i)" and "\<not> P y"
  shows "length (filter P (xs[i := y])) < length (filter P xs)"
proof -
  have "xs[i := y] = take i xs @ y # drop (Suc i) xs" using assms(1) by (rule upd_conv_take_nth_drop)
  moreover have "xs = take i xs @ xs ! i # drop (Suc i) xs" using assms(1) by (rule id_take_nth_drop)
  then have "length (filter P xs) = length (filter P (take i xs @ xs ! i # drop (Suc i) xs))" by simp
  ultimately show ?thesis using assms(2,3) by simp
qed

text \<open>What the listing depends on.\<close>

definition face :: "slot \<Rightarrow> string \<times> bool \<times> bool" where
  "face q = (sl_serial q, sl_present q, sl_reappeared q)"

lemma refresh_total:
  assumes "agent_inv c s"
  shows "\<exists>s'. refresh_loop E c s = Some s' \<and> agent_inv c s' \<and> grows E s s' \<and> g_ls s' = g_ls s \<and>
     map (\<lambda>q. (sl_serial q, sl_present q, sl_ready q)) (g_slots s') =
     map (\<lambda>q. (sl_serial q, sl_present q, sl_ready q)) (g_slots s) \<and>
     (\<forall>q \<in> set (g_slots s'). \<not> sl_reappeared q)"
  using assms
proof (induction "length (filter sl_reappeared (g_slots s))" arbitrary: s rule: less_induct)
  case less
  let ?m = "map (\<lambda>q. (sl_serial q, sl_present q, sl_ready q))"
  show ?case
  proof (cases "first_index sl_reappeared (g_slots s)")
    case None
    with less.prems first_index_None [OF None] show ?thesis by (subst refresh_loop.simps) simp
  next
    case (Some i)
    from first_index_Some [OF Some] have i: "i < length (g_slots s)" "sl_reappeared (g_slots s ! i)" by auto
    let ?q = "(g_slots s ! i)\<lparr>sl_reappeared := False\<rparr>" and ?qs = "g_slots s"
    let ?s1 = "upd_slot i (\<lambda>q. q\<lparr>sl_reappeared := False\<rparr>) s"
    have u: "?s1 = upd_slot i (\<lambda>_. ?q) s" by (simp add: upd_slot_def)
    have qok: "slot_ok c i ?q" using less.prems i by (simp add: agent_inv_def slot_ok_def dst_ok_def)
    have "sl_ready ?q \<Longrightarrow> \<exists>l \<in> set (g_ls s). adb_listener ?q l"
      using less.prems i by (simp add: agent_inv_def adb_listener_def)
    note s1 = agent_inv_slot [OF less.prems i(1) qok _ this]
    have "fwds_kept s \<Longrightarrow> sl_ready ?q \<Longrightarrow> slot_fwds ?q \<subseteq> set (g_fwds s)" using i by (simp add: fwds_kept_def)
    from s1 [OF _ _ this] have s1: "agent_inv c ?s1" "grows E s ?s1" unfolding u by auto
    have i1: "i < length (g_slots ?s1)" using i by simp
    obtain r s2 where e: "establish_forwards E c i ?s1 = Some (r, s2)" "retargeted E c i ?s1 s2"
      using establish_forwards_total [OF s1(1) i1] by blast
    then obtain h p b where g2: "g_slots s2 = ?qs[i := retarget h p b ?q]"
      and inv2: "agent_inv c s2" "grows E ?s1 s2" "g_ls s2 = g_ls ?s1"
      using i by (auto simp: retargeted_def)
    have "length (filter sl_reappeared (g_slots s2)) < length (filter sl_reappeared (g_slots s))"
      unfolding g2 by (rule filter_update_less) (use i in auto)
    from less.hyps [OF this inv2(1)] obtain s' where s': "refresh_loop E c s2 = Some s'" "agent_inv c s'"
      "grows E s2 s'" "g_ls s' = g_ls s2" "?m (g_slots s') = ?m (g_slots s2)"
      "\<forall>q \<in> set (g_slots s'). \<not> sl_reappeared q" by blast
    have "refresh_loop E c s = Some s'" using Some e(1) s'(1) by (subst refresh_loop.simps) simp
    moreover have "?m (g_slots s2) = ?m (g_slots s)"
      unfolding g2 by (simp add: map_update list_update_same_conv i)
    moreover have "grows E s s'" using grows_trans [OF s1(2) grows_trans [OF inv2(2) s'(3)]] .
    ultimately show ?thesis using s' inv2(3) by auto
  qed
qed

definition dev_ok :: "dev \<Rightarrow> bool" where
  "dev_ok d \<longleftrightarrow> word_ok 127 (d_serial d) \<and> (d_model d = [] \<or> word_ok 95 (d_model d))"

lemma new_slot_ok: "dev_ok d \<Longrightarrow> slot_ok c i (new_slot c i d) \<and> sl_serial (new_slot c i d) = d_serial d"
  by (auto simp: slot_ok_def new_slot_def Let_def dev_ok_def word_ok_def fit_def stream_port_def)

lemma fwd_ok_more: "fwd_ok c sers f \<Longrightarrow> fwd_ok c (sers @ ext) f"
  unfolding fwd_ok_def by (metis length_append nth_append trans_less_add1)

lemma listener_ok_more: "listener_ok c qs l \<Longrightarrow> listener_ok c (qs @ ext) l"
  unfolding listener_ok_def by (metis length_append nth_append trans_less_add1)

lemma new_slot_inv:
  assumes inv: "agent_inv c s" and d: "dev_ok d" and new: "d_serial d \<notin> sl_serial ` set (g_slots s)"
    and room: "length (g_slots s) < MAX_SLOTS"
  defines "s1 \<equiv> s\<lparr>g_slots := g_slots s @ [new_slot c (length (g_slots s)) d]\<rparr>"
  shows "agent_inv c s1" and "grows E s s1"
proof -
  let ?n = "length (g_slots s)" and ?q = "new_slot c (length (g_slots s)) d"
  note q = new_slot_ok [OF d, of c ?n]
  have "slot_ok c i (g_slots s1 ! i)" if "i < length (g_slots s1)" for i
    using inv q that by (cases "i = ?n") (auto simp: s1_def nth_append agent_inv_def)
  moreover have "\<not> sl_ready ?q" by (simp add: new_slot_def Let_def)
  moreover have "distinct (map sl_serial (g_slots s1))"
    using inv q new by (auto simp: s1_def agent_inv_def)
  moreover have "fwd_ok c (map sl_serial (g_slots s1)) f" if "f \<in> set (g_fwds s)" for f
    using inv that fwd_ok_more by (auto simp: s1_def agent_inv_def)
  moreover have "listener_ok c (g_slots s1) l" if "l \<in> set (g_ls s)" for l
    using inv that listener_ok_more by (auto simp: s1_def agent_inv_def)
  ultimately show "agent_inv c s1" using inv room by (auto simp: agent_inv_def s1_def)
  have "\<not> sl_ready ?q" by (simp add: new_slot_def Let_def)
  then show "grows E s s1" by (auto simp: grows_def s1_def fwds_kept_def)
qed

lemma find_slot_None: "find_slot ser qs = None \<longleftrightarrow> ser \<notin> sl_serial ` set qs"
  by (auto simp: find_slot_def find_None_iff image_iff)

text \<open>The part of a device's promise that the second phase keeps: a slot, unless all are taken.\<close>

definition served :: "agent_sys \<Rightarrow> dev \<Rightarrow> bool" where
  "served s d \<longleftrightarrow> d_serial d \<in> sl_serial ` set (g_slots s) \<or> length (g_slots s) = MAX_SLOTS"

lemma add_devices_total:
  assumes "agent_inv c s" and "list_all dev_ok ds"
  shows "\<exists>s' more. add_devices E c ds s = Some s' \<and> agent_inv c s' \<and> grows E s s' \<and>
     map face (g_slots s') = map face (g_slots s) @ more \<and>
     (\<forall>x \<in> set more. \<exists>d \<in> set ds. x = (d_serial d, True, False)) \<and> (\<forall>d \<in> set ds. served s' d)"
  using assms
proof (induction ds arbitrary: s)
  case Nil
  then show ?case by simp
next
  case (Cons d ds)
  have mono: "served s' d'" if "served t d'" "map face (g_slots s') = map face (g_slots t) @ more" "agent_inv c s'"
    for t s' d' more
  proof -
    have "map fst (map face (g_slots s')) = map fst (map face (g_slots t)) @ map fst more"
      using that(2) by simp
    then have "map sl_serial (g_slots s') = map sl_serial (g_slots t) @ map fst more"
      by (simp add: face_def comp_def)
    moreover from this have "length (g_slots t) \<le> length (g_slots s')"
      by (metis length_append length_map le_add1)
    ultimately show ?thesis using that(1,3) unfolding served_def agent_inv_def
      by (metis Un_iff list.set_map set_append le_antisym)
  qed
  consider (known) "d_serial d \<in> sl_serial ` set (g_slots s)"
    | (full) "d_serial d \<notin> sl_serial ` set (g_slots s)" "MAX_SLOTS \<le> length (g_slots s)"
    | (new) "d_serial d \<notin> sl_serial ` set (g_slots s)" "length (g_slots s) < MAX_SLOTS" by linarith
  then show ?case
  proof cases
    case known
    from Cons.IH [OF Cons.prems(1)] Cons.prems(2) obtain s' more where
      s': "add_devices E c ds s = Some s'" "agent_inv c s'" "grows E s s'"
      "map face (g_slots s') = map face (g_slots s) @ more"
      "\<forall>x \<in> set more. \<exists>d \<in> set ds. x = (d_serial d, True, False)" "\<forall>d \<in> set ds. served s' d" by auto
    have "served s' d" by (rule mono [OF _ s'(4) s'(2)]) (use known in \<open>simp add: served_def\<close>)
    with s' known show ?thesis by (auto simp: find_slot_None)
  next
    case full
    let ?s1 = "s\<lparr>g_slots_full_warned := True\<rparr>"
    have "agent_inv c ?s1" "grows E s ?s1" using Cons.prems(1) by (simp_all add: agent_inv_def grows_def fwds_kept_def)
    from Cons.IH [OF this(1)] Cons.prems(2) obtain s' more where
      s': "add_devices E c ds ?s1 = Some s'" "agent_inv c s'" "grows E ?s1 s'"
      "map face (g_slots s') = map face (g_slots s) @ more"
      "\<forall>x \<in> set more. \<exists>d \<in> set ds. x = (d_serial d, True, False)" "\<forall>d \<in> set ds. served s' d" by auto
    have "length (g_slots s) = MAX_SLOTS" using full(2) Cons.prems(1) by (simp add: agent_inv_def)
    then have "served s' d" by (intro mono [OF _ s'(4) s'(2)]) (simp add: served_def)
    with s' full grows_trans [OF \<open>grows E s ?s1\<close> s'(3)] show ?thesis by (auto simp: find_slot_None)
  next
    case new
    let ?n = "length (g_slots s)"
    let ?s1 = "s\<lparr>g_slots := g_slots s @ [new_slot c ?n d]\<rparr>"
    have dok: "dev_ok d" using Cons.prems(2) by simp
    note s1 = new_slot_inv [OF Cons.prems(1) dok new]
    obtain s2 h p b r where s2: "slot_setup_new E c ?n ?s1 = Some s2" "agent_inv c s2" "grows E ?s1 s2"
      "g_slots s2 = (g_slots ?s1)[?n := (retarget h p b (g_slots ?s1 ! ?n))\<lparr>sl_ready := r\<rparr>]"
      using slot_setup_total [OF s1(1), of ?n E] by auto
    then have q2: "g_slots s2 = g_slots s @ [(retarget h p b (new_slot c ?n d))\<lparr>sl_ready := r\<rparr>]" by simp
    have face2: "map face (g_slots s2) = map face (g_slots s) @ [(d_serial d, True, False)]"
      unfolding q2 using new_slot_ok [OF dok, of c ?n] by (simp add: face_def) (simp add: new_slot_def Let_def)
    from Cons.IH [OF s2(2)] Cons.prems(2) obtain s' more where
      s': "add_devices E c ds s2 = Some s'" "agent_inv c s'" "grows E s2 s'"
      "map face (g_slots s') = map face (g_slots s2) @ more"
      "\<forall>x \<in> set more. \<exists>d \<in> set ds. x = (d_serial d, True, False)" "\<forall>d \<in> set ds. served s' d" by auto
    have "served s2 d" unfolding served_def q2 using new_slot_ok [OF dok, of c ?n] by simp
    then have "served s' d" by (rule mono [OF _ s'(4) s'(2)])
    moreover have "add_devices E c (d # ds) s = Some s'"
      using new s2(1) s'(1) by (simp add: find_slot_None)
    moreover have "grows E s s'" using grows_trans [OF s1(2) grows_trans [OF s2(3) s'(3)]] .
    moreover have "map face (g_slots s') = map face (g_slots s) @ ((d_serial d, True, False) # more)"
      using s'(4) face2 by simp
    ultimately show ?thesis using s'
      by (intro exI [of _ s'] exI [of _ "(d_serial d, True, False) # more"]) auto
  qed
qed

lemma mark_seen_fields [simp]:
  "sl_serial (mark_seen devs q) = sl_serial q" "sl_model (mark_seen devs q) = sl_model q"
  "sl_kind (mark_seen devs q) = sl_kind q" "sl_idx (mark_seen devs q) = sl_idx q"
  "sl_adb_port (mark_seen devs q) = sl_adb_port q" "sl_ready (mark_seen devs q) = sl_ready q"
  "sl_adb_dst_host (mark_seen devs q) = sl_adb_dst_host q" "sl_adb_dst_port (mark_seen devs q) = sl_adb_dst_port q"
  "sl_stream_base (mark_seen devs q) = sl_stream_base q" "adb_dst (mark_seen devs q) = adb_dst q"
  "sl_present (mark_seen devs q) \<longleftrightarrow> sl_serial q \<in> d_serial ` set devs"
  by (auto simp: mark_seen_def Let_def list_ex_iff)

lemma mark_seen_inv:
  fixes s devs
  defines "s1 \<equiv> s\<lparr>g_slots := map (mark_seen devs) (g_slots s)\<rparr>"
  assumes "agent_inv c s"
  shows "agent_inv c s1" and "grows E s s1"
proof -
  have "slot_ok c i (mark_seen devs q) = slot_ok c i q" for i q
    by (simp add: slot_ok_def dst_ok_def)
  moreover have "adb_listener (mark_seen devs q) = adb_listener q" for q
    by (simp add: adb_listener_def fun_eq_iff)
  moreover from this have "listener_ok c (map (mark_seen devs) (g_slots s)) = listener_ok c (g_slots s)"
    by (auto simp: listener_ok_def fun_eq_iff)
  moreover have "map sl_serial (map (mark_seen devs) (g_slots s)) = map sl_serial (g_slots s)" by simp
  ultimately show "agent_inv c s1" using assms(2) by (simp add: agent_inv_def s1_def comp_def)
  have "map slot_key (g_slots s1) = map slot_key (g_slots s)" by (simp add: s1_def slot_key_def)
  moreover have "slot_fwds (mark_seen devs q) = slot_fwds q" for q by (simp add: slot_fwds_def)
  ultimately show "grows E s s1" by (intro grows_same) (auto simp: s1_def)
qed

lemma rescan_devs_total:
  assumes "agent_inv c s" and "list_all dev_ok devs"
  shows "\<exists>s'. rescan_devs E c devs s = Some s' \<and> agent_inv c s' \<and> grows E s s' \<and>
     (\<forall>q \<in> set (g_slots s'). sl_present q \<longleftrightarrow> sl_serial q \<in> d_serial ` set devs) \<and>
     (\<forall>q \<in> set (g_slots s'). \<not> sl_reappeared q) \<and> (\<forall>d \<in> set devs. served s' d)"
proof -
  let ?s1 = "s\<lparr>g_slots := map (mark_seen devs) (g_slots s)\<rparr>"
  note s1 = mark_seen_inv [where devs = devs, OF assms(1)]
  obtain s2 where s2: "refresh_loop E c ?s1 = Some s2" "agent_inv c s2" "grows E ?s1 s2"
    "map (\<lambda>q. (sl_serial q, sl_present q, sl_ready q)) (g_slots s2) =
     map (\<lambda>q. (sl_serial q, sl_present q, sl_ready q)) (g_slots ?s1)"
    "\<forall>q \<in> set (g_slots s2). \<not> sl_reappeared q"
    using refresh_total [OF s1(1)] by blast
  obtain s3 new where s3: "add_devices E c devs s2 = Some s3" "agent_inv c s3" "grows E s2 s3"
    "map face (g_slots s3) = map face (g_slots s2) @ new"
    "\<forall>x \<in> set new. \<exists>d \<in> set devs. x = (d_serial d, True, False)" "\<forall>d \<in> set devs. served s3 d"
    using add_devices_total [OF s2(2) assms(2)] by blast
  have p2: "sl_present q \<longleftrightarrow> sl_serial q \<in> d_serial ` set devs" if "q \<in> set (g_slots s2)" for q
  proof -
    from that have "(sl_serial q, sl_present q, sl_ready q) \<in>
        set (map (\<lambda>q. (sl_serial q, sl_present q, sl_ready q)) (g_slots s2))" by force
    with s2(4) have "(sl_serial q, sl_present q, sl_ready q) \<in>
        set (map (\<lambda>q. (sl_serial q, sl_present q, sl_ready q)) (g_slots ?s1))" by simp
    then obtain q' where "q' \<in> set (g_slots s)" "sl_serial q = sl_serial q'"
      "sl_present q = sl_present (mark_seen devs q')" by auto
    then show ?thesis by simp
  qed
  have "(sl_present q \<longleftrightarrow> sl_serial q \<in> d_serial ` set devs) \<and> \<not> sl_reappeared q" if "q \<in> set (g_slots s3)" for q
  proof -
    from that have "face q \<in> set (map face (g_slots s3))" by simp
    with s3(4) have "face q \<in> set (map face (g_slots s2)) \<or> face q \<in> set new" by simp
    then show ?thesis
    proof
      assume "face q \<in> set (map face (g_slots s2))"
      then obtain q' where "q' \<in> set (g_slots s2)" "face q = face q'" by auto
      with p2 [of q'] s2(5) show ?thesis by (simp add: face_def)
    next
      assume "face q \<in> set new"
      with s3(5) show ?thesis by (auto simp: face_def)
    qed
  qed
  moreover have "grows E s s3" using grows_trans [OF s1(2) grows_trans [OF s2(3) s3(3)]] .
  ultimately show ?thesis using s2 s3 by (auto simp: rescan_devs_def)
qed

section \<open>From the output of adb to the tables\<close>

lemma scan_word_word: "scan_word n s = Some (w, r) \<Longrightarrow> CHR 0x00 \<notin> set s \<Longrightarrow> word_ok n w"
  by (auto simp: scan_word_def word_ok_def Let_def list_all_iff split: if_splits
      dest!: in_set_takeD set_takeWhileD set_dropWhileD)

lemma scan_word_rest: "scan_word n s = Some (w, r) \<Longrightarrow> set r \<subseteq> set s"
  by (auto simp: scan_word_def Let_def split: if_splits dest!: in_set_dropD set_dropWhileD)

lemma after_sub_subset: "after_sub pat s = Some r \<Longrightarrow> set r \<subseteq> set s"
  by (induction pat s rule: after_sub.induct) (auto split: if_splits dest: in_set_dropD)

lemma parse_dev_ok:
  assumes "parse_dev l = Some d" and "CHR 0x00 \<notin> set l"
  shows "dev_ok d"
proof -
  from assms(1) obtain ser rest where ser: "scan_word 127 l = Some (ser, rest)"
    and d: "d_serial d = fit 128 ser"
      "d_model d = (case after_sub ''model:'' l of None \<Rightarrow> []
         | Some m \<Rightarrow> (case scan_word 95 m of None \<Rightarrow> [] | Some (w, _) \<Rightarrow> w))"
    by (auto simp: parse_dev_def split: option.splits if_splits)
  have s: "word_ok 127 ser" by (rule scan_word_word [OF ser assms(2)])
  then have "fit 128 ser = ser" by (simp add: fit_def word_ok_def)
  moreover have "d_model d = [] \<or> word_ok 95 (d_model d)"
    using assms(2)
    by (auto simp: d(2) split: option.splits dest!: after_sub_subset dest: scan_word_word [of 95])
  ultimately show ?thesis using s d(1) by (simp add: dev_ok_def)
qed

lemma parse_devices_ok:
  "\<forall>l \<in> set ls. CHR 0x00 \<notin> set l \<Longrightarrow> list_all dev_ok (parse_devices cap ls)"
  by (induction ls arbitrary: cap) (auto split: option.splits intro: parse_dev_ok)

lemma split_on_subset: "l \<in> set (split_on c s) \<Longrightarrow> set l \<subseteq> set s"
  by (induction s arbitrary: l) (auto split: if_splits list.splits, blast+)

lemma cstr_no_NUL: "CHR 0x00 \<notin> set (cstr bs)"
proof
  assume "CHR 0x00 \<in> set (cstr bs)"
  then obtain b where b: "b \<in> set (takeWhile (\<lambda>b. b \<noteq> 0) bs)" "char_of (unat b) = CHR 0x00"
    by (auto simp: cstr_def)
  then have "(of_char (char_of (unat b)) :: nat) = 0" by simp
  then have "unat b mod 256 = 0" by (simp only: of_char_of)
  moreover have "unat b < 256" using unsigned_less [of b, where 'a = nat] by simp
  ultimately have "b = 0" by (simp add: unat_eq_zero)
  with b(1) show False by (auto dest: set_takeWhileD)
qed

lemma lines_of_no_NUL: "l \<in> set (lines_of (cstr bs)) \<Longrightarrow> CHR 0x00 \<notin> set l"
  using split_on_subset cstr_no_NUL by (fastforce simp: lines_of_def)

lemma list_devices_spec:
  assumes "list_devices E cap s = Some (ds, s')"
  shows "cmd_frame E s s'" and "ds = Some devs \<Longrightarrow> list_all dev_ok devs"
proof -
  from assms obtain r out where "run_cmd E [''adb'', ''devices'', ''-l''] 10000 (Some 16384) s = Some (r, out, s')"
    "ds = (if r \<noteq> 0 then None else Some (parse_devices cap (lines_of (cstr out))))"
    by (auto simp: list_devices_def bind_eq_Some_conv)
  moreover have "list_all dev_ok (parse_devices cap (lines_of (cstr out)))"
    by (rule parse_devices_ok) (blast dest: lines_of_no_NUL)
  ultimately show "cmd_frame E s s'" "ds = Some devs \<Longrightarrow> list_all dev_ok devs"
    using run_cmd_capture_frame(1) [of E _ _ 16384] by (auto split: if_splits)
qed

lemma rescan_once_evolves:
  assumes "rescan_once E c s = Some s'" and inv: "agent_inv c s"
  shows "agent_inv c s' \<and> grows E s s'"
proof -
  from assms(1) obtain ds s1 where l: "list_devices E 64 s = Some (ds, s1)"
    and r: "(case ds of None \<Rightarrow> Some s1 | Some devs \<Rightarrow> rescan_devs E c devs s1) = Some s'"
    by (auto simp: rescan_once_def bind_eq_Some_conv)
  note f = list_devices_spec [OF l]
  have s1: "agent_inv c s1" "grows E s s1"
    using cmd_tables_kept [OF f(1)] tables_kept_grows inv by auto
  show ?thesis
  proof (cases ds)
    case None
    with r s1 show ?thesis by simp
  next
    case (Some devs)
    from rescan_devs_total [OF s1(1) f(2) [OF Some], of E] Some r grows_trans [OF s1(2)]
    show ?thesis by auto
  qed
qed

section \<open>What a scan guarantees\<close>

text \<open>
  C27: a scan brings the table up to date.  For any list of devices \<^verbatim>\<open>adb\<close> reports, the scan ends; after
  it a slot is present exactly when its serial is in the list, every reported device has a slot unless
  all \<^const>\<open>MAX_SLOTS\<close> are taken, no reappeared device is left waiting for its forwards, and all earlier
  slots and listeners are where they were.
\<close>

theorem scan_correct:
  assumes "agent_inv c s" and "list_all dev_ok devs"
  shows "\<exists>s'. rescan_devs E c devs s = Some s' \<and> agent_inv c s' \<and>
     (\<forall>q \<in> set (g_slots s'). (sl_present q \<longleftrightarrow> sl_serial q \<in> d_serial ` set devs) \<and> \<not> sl_reappeared q) \<and>
     (\<forall>d \<in> set devs. d_serial d \<in> sl_serial ` set (g_slots s') \<or> length (g_slots s') = MAX_SLOTS) \<and>
     take (length (g_slots s)) (map slot_key (g_slots s')) = map slot_key (g_slots s) \<and>
     take (length (g_ls s)) (g_ls s') = g_ls s"
proof -
  obtain s' where s': "rescan_devs E c devs s = Some s'" "agent_inv c s'" "grows E s s'"
    "\<forall>q \<in> set (g_slots s'). sl_present q \<longleftrightarrow> sl_serial q \<in> d_serial ` set devs"
    "\<forall>q \<in> set (g_slots s'). \<not> sl_reappeared q" "\<forall>d \<in> set devs. served s' d"
    using rescan_devs_total [OF assms] by blast
  from s'(3) have "take (length (g_ls s)) (g_ls s') = g_ls s"
    "take (length (map slot_key (g_slots s))) (map slot_key (g_slots s')) = map slot_key (g_slots s)"
    unfolding grows_def by (metis append_eq_conv_conj)+
  with s' show ?thesis by (auto simp: served_def)
qed

text \<open>An agent with one address to bind, no device yet.\<close>

definition demo_agent_cfg :: agent_cfg where
  "demo_agent_cfg = \<lparr>g_bind_ips = [''127.0.0.1''], g_tcpip_port = 5555, g_adb_base = 15553,
     g_no_stream = False, g_discovery_port = 8888\<rparr>"

definition demo_agent :: agent_sys where
  "demo_agent = \<lparr>tick = 0, clock = 0, open_fds = [0, 1, 2, 3], children = [], inq = (\<lambda>_. []),
     outq = (\<lambda>_. []), sent = (\<lambda>_. []), evlog = [], g_fwds = [], g_slots = [],
     g_ls = [\<lparr>l_fd = 3, l_pub_port = 8888, l_dst_host = ''127.0.0.1'', l_dst_port = 0, l_group = None,
              l_is_discovery = True\<rparr>],
     g_slots_full_warned = False, g_conns = []\<rparr>"

definition demo_devs :: "dev list" where
  "demo_devs = [\<lparr>d_serial = ''emulator-5554'', d_model = ''Pixel_7''\<rparr>,
     \<lparr>d_serial = ''10.0.0.5:5555'', d_model = []\<rparr>]"

lemma demo_agent_ok: "agent_inv demo_agent_cfg demo_agent" "list_all dev_ok demo_devs"
  by (simp_all add: agent_inv_def demo_agent_def demo_agent_cfg_def listener_ok_def MAX_LISTENERS_def
      demo_devs_def dev_ok_def word_ok_def is_space_def)

theorem scan_correct_witness:
  "agent_inv demo_agent_cfg demo_agent \<and> list_all dev_ok demo_devs \<and>
   (\<exists>s'. rescan_devs demo_env demo_agent_cfg demo_devs demo_agent = Some s' \<and>
      (\<forall>q \<in> set (g_slots s'). sl_present q \<longleftrightarrow> sl_serial q \<in> {''emulator-5554'', ''10.0.0.5:5555''}))"
  using scan_correct [OF demo_agent_ok, of demo_env] demo_agent_ok by (auto simp: demo_devs_def)

section \<open>The life of the agent\<close>

text \<open>One scan, whatever the outside world does during it.\<close>

definition agent_scan :: "agent_cfg \<Rightarrow> agent_sys \<Rightarrow> agent_sys \<Rightarrow> bool" where
  "agent_scan c s s' \<longleftrightarrow> (\<exists>E. rescan_once E c s = Some s')"

definition agent_start :: "agent_cfg \<Rightarrow> agent_sys \<Rightarrow> bool" where
  "agent_start c s \<longleftrightarrow> g_slots s = [] \<and> g_fwds s = [] \<and> length (g_ls s) \<le> MAX_LISTENERS \<and>
     (\<forall>l \<in> set (g_ls s). l_is_discovery l \<and> l_pub_port l = g_discovery_port c \<and> l_group l = None)"

lemma agent_start_inv: "agent_start c s \<Longrightarrow> agent_inv c s"
  by (simp add: agent_start_def agent_inv_def listener_ok_def)

lemma agent_scan_inv: "agent_inv c s \<Longrightarrow> agent_scan c s s' \<Longrightarrow> agent_inv c s'"
  using rescan_once_evolves by (auto simp: agent_scan_def)

interpretation agent_life: invariant_system "agent_start c" "agent_scan c" "agent_inv c" for c
  by unfold_locales (erule agent_start_inv, erule (1) agent_scan_inv)

text \<open>The forwards of ready slots are in the table in every reachable state.\<close>

interpretation agent_fwds: invariant_system "agent_start c" "agent_scan c" "\<lambda>s. agent_inv c s \<and> fwds_kept s" for c
proof unfold_locales
  fix s assume "agent_start c s"
  then show "agent_inv c s \<and> fwds_kept s" using agent_start_inv by (simp add: agent_start_def fwds_kept_def)
next
  fix s t assume "agent_inv c s \<and> fwds_kept s" "agent_scan c s t"
  then show "agent_inv c t \<and> fwds_kept t" using rescan_once_evolves by (fastforce simp: agent_scan_def grows_def)
qed

lemma agent_scans_prefix:
  assumes "(agent_scan c)\<^sup>*\<^sup>* s t" and "agent_inv c s"
  shows "agent_inv c t \<and> prefix (map slot_key (g_slots s)) (map slot_key (g_slots t)) \<and> prefix (g_ls s) (g_ls t)"
  using assms
proof (induction rule: rtranclp_induct)
  case base
  then show ?case by simp
next
  case (step t u)
  then obtain E where "rescan_once E c t = Some u" by (auto simp: agent_scan_def)
  with step rescan_once_evolves [of E c t u] have u: "agent_inv c u" "grows E t u" by auto
  from u(2) have p: "prefix (map slot_key (g_slots t)) (map slot_key (g_slots u))" "prefix (g_ls t) (g_ls u)"
    by (auto simp: grows_def)
  from step.IH [OF step.prems] have "prefix (map slot_key (g_slots s)) (map slot_key (g_slots t))"
    "prefix (g_ls s) (g_ls t)" by auto
  from prefix_order.trans [OF this(1) p(1)] prefix_order.trans [OF this(2) p(2)] u(1) show ?case by simp
qed

text \<open>
  C26: a slot never changes its owner.  From any reachable state on, whatever is plugged, unplugged and
  replugged, slot \<open>i\<close> keeps its serial and its adb port \<^verbatim>\<open>adb_base + i\<close>, two slots never have the same
  serial, there are never more than \<^const>\<open>MAX_SLOTS\<close>, and the listeners an accept loop has seen stay
  at their index unchanged.
\<close>

theorem slots_permanent:
  assumes "reach (agent_start c) (agent_scan c) s" and "(agent_scan c)\<^sup>*\<^sup>* s t"
    and "i < length (g_slots s)"
  shows "i < length (g_slots t) \<and> sl_serial (g_slots t ! i) = sl_serial (g_slots s ! i) \<and>
     sl_adb_port (g_slots t ! i) = g_adb_base c + int i \<and> distinct (map sl_serial (g_slots t)) \<and>
     length (g_slots t) \<le> MAX_SLOTS \<and> (\<forall>j < length (g_ls s). g_ls t ! j = g_ls s ! j)"
proof -
  have inv: "agent_inv c s" by (rule agent_life.reach_inv [OF assms(1)])
  from agent_scans_prefix [OF assms(2) inv] obtain xs ys where inv': "agent_inv c t"
    and xs: "map slot_key (g_slots t) = map slot_key (g_slots s) @ xs" and ys: "g_ls t = g_ls s @ ys"
    by (auto simp: prefix_def)
  have len: "i < length (g_slots t)" using arg_cong [OF xs, of length] assms(3) by simp
  have "map slot_key (g_slots t) ! i = map slot_key (g_slots s) ! i"
    unfolding xs using assms(3) by (simp add: nth_append)
  then have "slot_key (g_slots t ! i) = slot_key (g_slots s ! i)" using len assms(3) by simp
  moreover have "slot_ok c i (g_slots t ! i)" using inv' len by (simp add: agent_inv_def)
  ultimately show ?thesis using len inv' ys
    by (auto simp: slot_key_def slot_ok_def agent_inv_def nth_append)
qed

text \<open>A listing with one emulator.\<close>

definition demo_scan_env :: env where
  "demo_scan_env = demo_env\<lparr>e_ret := (\<lambda>n. if n = 1 then 0 else 1),
     e_stream := (\<lambda>_. [Chunk (map of_char (''emulator-5554 device'' @ [LF])), Eof]),
     e_wait := (\<lambda>_. Reaped (Exited 0))\<rparr>"

lemma demo_scan_devices:
  "\<exists>s'. list_devices demo_scan_env 64 demo_agent = Some (Some [\<lparr>d_serial = ''emulator-5554'', d_model = []\<rparr>], s')"
proof -
  let ?out = "map of_char (''emulator-5554 device'' @ [LF]) :: byte list"
  have "map_option (\<lambda>(r, out, s'). (r, out)) (run_cmd demo_scan_env [''adb'', ''devices'', ''-l''] 10000 (Some 16384) demo_agent)
      = Some (0, ?out)"
    by (simp add: run_cmd_def sys_pipe_def sys_spawn_def demo_scan_env_def demo_env_def demo_agent_def
        fresh_fd_def read_out.simps sys_poll_def sys_read_def Let_def step_os_def sys_close_def
        cmd_wait.simps sys_waitpid_nohang_def reap_def LF_def)
  then obtain s' where r: "run_cmd demo_scan_env [''adb'', ''devices'', ''-l''] 10000 (Some 16384) demo_agent =
      Some (0, ?out, s')" by (auto simp del: map_append)
  have "cstr ?out = ''emulator-5554 device'' @ [LF]" by (rule cstr_of_char) (simp add: LF_def)
  then have "parse_devices 64 (lines_of (cstr ?out)) = [\<lparr>d_serial = ''emulator-5554'', d_model = []\<rparr>]"
    by (simp add: lines_of_def LF_def parse_dev_def scan_word_def is_space_def fit_def)
  with r show ?thesis by (simp add: list_devices_def del: map_append)
qed

lemma demo_scan: "\<exists>s'. rescan_once demo_scan_env demo_agent_cfg demo_agent = Some s' \<and> 0 < length (g_slots s')"
proof -
  let ?d = "\<lparr>d_serial = ''emulator-5554'', d_model = []\<rparr>"
  obtain s1 where l: "list_devices demo_scan_env 64 demo_agent = Some (Some [?d], s1)"
    using demo_scan_devices by blast
  note f = list_devices_spec [OF l]
  have "agent_inv demo_agent_cfg s1" using cmd_tables_kept [OF f(1)] demo_agent_ok(1) by simp
  from rescan_devs_total [OF this f(2) [OF refl], of demo_scan_env] obtain s' where
    s': "rescan_devs demo_scan_env demo_agent_cfg [?d] s1 = Some s'" "served s' ?d" by auto
  then have "0 < length (g_slots s')" by (auto simp: served_def MAX_SLOTS_def)
  with l s' show ?thesis by (simp add: rescan_once_def)
qed

theorem slots_permanent_witness:
  "\<exists>s. reach (agent_start demo_agent_cfg) (agent_scan demo_agent_cfg) s \<and> 0 < length (g_slots s) \<and>
     sl_adb_port (g_slots s ! 0) = 15553"
proof -
  obtain s where s: "rescan_once demo_scan_env demo_agent_cfg demo_agent = Some s" "0 < length (g_slots s)"
    using demo_scan by blast
  have "reach (agent_start demo_agent_cfg) (agent_scan demo_agent_cfg) demo_agent"
    by (rule reach_start) (simp add: agent_start_def demo_agent_def demo_agent_cfg_def MAX_LISTENERS_def)
  then have r: "reach (agent_start demo_agent_cfg) (agent_scan demo_agent_cfg) s"
    by (rule reach_step) (use s in \<open>auto simp: agent_scan_def\<close>)
  from slots_permanent [OF r rtranclp.rtrancl_refl s(2)] r s(2) show ?thesis
    by (auto simp: demo_agent_cfg_def)
qed

end
