(* ===== verification/Agent_Main.thy ===== *)
theory Agent_Main
  imports Agent_Slots_Inv
begin

text \<open>
  \<^verbatim>\<open>frontends/agent/main.c\<close>: the command line, the addresses to bind, start-up, the accept loop and the
  clean-up of forwards at exit; and the length of the discovery answer.  Relay threads that the accept
  loop starts are recorded in \<^const>\<open>g_conns\<close>; what one of them does is \<^const>\<open>conn_thread\<close>.
\<close>

section \<open>Start-up\<close>

definition default_cfg :: agent_cfg where
  "default_cfg = \<lparr>g_bind_ips = [], g_tcpip_port = 5555, g_adb_base = 15553, g_no_stream = False,
     g_discovery_port = 8888\<rparr>"

text \<open>\<^term>\<open>None\<close> is the usage message with exit code 2.\<close>

fun parse_flags :: "string list \<Rightarrow> agent_cfg \<Rightarrow> agent_cfg option" where
  "parse_flags [] c = Some c"
| "parse_flags (a # as) c =
     (if a = ''--port'' \<and> as \<noteq> [] then parse_flags (tl as) (c\<lparr>g_discovery_port := atoi (hd as)\<rparr>)
      else if a = ''--tcpip-port'' \<and> as \<noteq> [] then parse_flags (tl as) (c\<lparr>g_tcpip_port := atoi (hd as)\<rparr>)
      else if a = ''--adb-base'' \<and> as \<noteq> [] then parse_flags (tl as) (c\<lparr>g_adb_base := atoi (hd as)\<rparr>)
      else if a = ''--no-stream'' then parse_flags as (c\<lparr>g_no_stream := True\<rparr>)
      else None)"

definition bind_addresses :: "ifaddr list option \<Rightarrow> string list" where
  "bind_addresses ifs = map (\<lambda>(ip, name). fit 64 ip) (host_ips 15 ifs) @ [''127.0.0.1'']"

section \<open>The accept loop\<close>

text \<open>One ready listener: accept, then answer on the discovery port or start a relay thread.  An
  \<^verbatim>\<open>accept\<close> or allocation that fails is skipped.  \<open>peer\<close> is the printed address of the client.\<close>

definition new_conn :: "listener \<Rightarrow> int \<Rightarrow> string \<Rightarrow> conn" where
  "new_conn L cl peer = \<lparr>c_client = cl, c_dst_host = fit 64 (l_dst_host L), c_dst_port = l_dst_port L,
     c_group = l_group L, c_pub_port = l_pub_port L, c_peer = fit 46 peer\<rparr>"

definition accept_one :: "env \<Rightarrow> string \<Rightarrow> nat \<Rightarrow> agent_sys \<Rightarrow> agent_sys option" where
  "accept_one E peer i s =
     (let (cl, s) = sys_open_fd E s in
      if cl < 0 then Some s
      else
        let s = step_os E s; L = g_ls s ! i in \<comment> \<open>\<^verbatim>\<open>setsockopt(TCP_NODELAY)\<close>\<close>
        if l_is_discovery L then do {
          s \<leftarrow> discovery_write E cl s;
          Some (sys_close E cl s)
        }
        else
          let (m, s) = sys_ret E s in \<comment> \<open>\<^verbatim>\<open>malloc\<close>\<close>
          if m < 0 then Some (sys_close E cl s)
          else
            let (t, s) = sys_ret E s in \<comment> \<open>\<^verbatim>\<open>pthread_create\<close>\<close>
            if t = 0 then Some (s\<lparr>g_conns := g_conns s @ [new_conn L cl peer]\<rparr>)
            else Some (sys_close E cl s))"

text \<open>The listeners with an event, in order: bit \<open>i\<close> of \<open>v\<close> is \<^verbatim>\<open>POLLIN\<close> of entry \<open>i\<close>.\<close>

fun accept_ready :: "env \<Rightarrow> string \<Rightarrow> int \<Rightarrow> nat list \<Rightarrow> agent_sys \<Rightarrow> agent_sys option" where
  "accept_ready E peer v [] s = Some s"
| "accept_ready E peer v (i # is) s =
     (if odd (v div 2 ^ i) then do { s \<leftarrow> accept_one E peer i s; accept_ready E peer v is s }
      else accept_ready E peer v is s)"

partial_function (option) agent_accept_loop :: "env \<Rightarrow> string \<Rightarrow> agent_sys \<Rightarrow> agent_sys option" where
  "agent_accept_loop E peer s =
     (if e_abort E (tick s) then Some s
      else
        let nls = length (g_ls s); en = e_errno E (tick s); v = e_val E (tick s);
            (r, s1) = sys_poll E 500 s in
        if r < 0 \<and> en \<noteq> EINTR then Some s1
        else if r \<le> 0 then agent_accept_loop E peer s1
        else do { s2 \<leftarrow> accept_ready E peer v [0 ..< nls] s1; agent_accept_loop E peer s2 })"

text \<open>\<^verbatim>\<open>main\<close> up to the accept loop (exit code, state), and as a whole.  The rescan thread runs beside the
  accept loop; its scans are \<^const>\<open>agent_scan\<close> steps.\<close>

definition agent_init ::
    "env \<Rightarrow> ifaddr list option \<Rightarrow> string list \<Rightarrow> agent_sys \<Rightarrow> (int \<times> agent_cfg \<times> agent_sys) option" where
  "agent_init E ifs args s =
     (case parse_flags args default_cfg of
        None \<Rightarrow> Some (2, default_cfg, s)
      | Some c \<Rightarrow>
          (let c = c\<lparr>g_bind_ips := bind_addresses ifs\<rparr>;
               (r, s) = add_listener E c (g_discovery_port c) None 0 None True s in
           if r \<noteq> 0 then Some (1, c, s)
           else do { s \<leftarrow> rescan_once E c s; Some (0, c, s) }))"

definition agent_main ::
    "env \<Rightarrow> ifaddr list option \<Rightarrow> string list \<Rightarrow> string \<Rightarrow> agent_sys \<Rightarrow> (int \<times> agent_sys) option" where
  "agent_main E ifs args peer s = do {
     (r, c, s) \<leftarrow> agent_init E ifs args s;
     if r \<noteq> 0 then Some (r, s)
     else do {
       s \<leftarrow> agent_accept_loop E peer s;
       s \<leftarrow> cleanup_forwards E s;
       Some (0, s)
     }
   }"

section \<open>The table of forwards is complete\<close>

lemma run_cmd_spawns:
  assumes "run_cmd E argv t None s = Some (r, out, s')" and "e_ret E (tick s) = 0"
  shows "\<exists>pid. Spawned argv pid \<in> set (evlog s')"
proof -
  obtain p s1 where sp: "sys_spawn E argv s = (p, s1)" by fastforce
  then obtain pid where p: "p = Some pid" "evlog s1 = evlog s @ [Spawned argv pid]"
    using assms(2) by (auto simp: sys_spawn_def Let_def)
  with sp assms(1) have "cmd_wait E pid (clock s1 + int t) s1 = (r, s')"
    by (auto simp: run_cmd_def split: prod.splits)
  from cmd_wait_spec [OF this] p(2) show ?thesis by auto
qed

lemma remove_all_total:
  shows "\<exists>s'. remove_all E fs s = Some s' \<and> cmd_frame E s s' \<and>
     ((\<forall>n. e_ret E n = 0) \<longrightarrow> (\<forall>f \<in> set fs. \<exists>pid. Spawned (remove_argv f) pid \<in> set (evlog s')))"
proof (induction fs arbitrary: s)
  case Nil
  then show ?case by simp
next
  case (Cons f fs)
  obtain r s1 where 1: "run_cmd E (remove_argv f) 5000 None s = Some (r, [], s1)" "cmd_frame E s s1"
    using run_cmd_total by blast
  obtain s2 where 2: "remove_all E fs s1 = Some s2" "cmd_frame E s1 s2"
    "(\<forall>n. e_ret E n = 0) \<longrightarrow> (\<forall>f \<in> set fs. \<exists>pid. Spawned (remove_argv f) pid \<in> set (evlog s2))"
    using Cons by blast
  have "\<exists>pid. Spawned (remove_argv f) pid \<in> set (evlog s2)" if "\<forall>n. e_ret E n = 0"
    using run_cmd_spawns [OF 1(1)] that 2(2) by (auto simp: cmd_frame_def)
  with 1 2 cmd_frame_trans [OF 1(2) 2(2)] show ?case by auto
qed

text \<open>
  C30: the agent remembers the forwards it makes and removes them.  Wherever \<^verbatim>\<open>adb_forward\<close> is called in a
  state that satisfies the invariant of the agent (every reachable state, and every state within a scan),
  the table afterwards has what it had, plus this forward when the call succeeded: it never fills.  In
  every reachable state the table has at most 40 entries and holds every forward a ready slot's
  clients use, and no scan drops an entry.  At exit \<^verbatim>\<open>cleanup_forwards\<close> returns with an empty table and no
  descriptor more or less, and if every one of its processes can be started it has run
  \<^verbatim>\<open>adb forward --remove\<close> for every entry.
\<close>

theorem forwards_cleaned:
  assumes "reach (agent_start c) (agent_scan c) s"
  shows "(\<forall>t ser loc dev r t'. agent_inv c t \<and> length ser \<le> 127 \<and> adb_forward E ser loc dev t = Some (r, t') \<longrightarrow>
        set (g_fwds t') = set (g_fwds t) \<union> (if r = 0 then {\<lparr>f_serial = ser, f_loc_port = loc\<rparr>} else {})) \<and>
     agent_inv c s \<and> length (g_fwds s) \<le> 40 \<and>
     (\<forall>q \<in> set (g_slots s). sl_ready q \<longrightarrow> slot_fwds q \<subseteq> set (g_fwds s)) \<and>
     (\<forall>s'. agent_scan c s s' \<longrightarrow> set (g_fwds s) \<subseteq> set (g_fwds s')) \<and>
     (\<exists>s'. cleanup_forwards E s = Some s' \<and> g_fwds s' = [] \<and> set (open_fds s') = set (open_fds s) \<and>
        ((\<forall>n. e_ret E n = 0) \<longrightarrow> (\<forall>f \<in> set (g_fwds s). \<exists>pid. Spawned (remove_argv f) pid \<in> set (evlog s'))))"
proof -
  have inv: "agent_inv c s" and kept: "fwds_kept s" using agent_fwds.reach_inv [OF assms] by auto
  have "set (g_fwds t') = set (g_fwds t) \<union> (if r = 0 then {\<lparr>f_serial = ser, f_loc_port = loc\<rparr>} else {})"
    if "agent_inv c t" "length ser \<le> 127" "adb_forward E ser loc dev t = Some (r, t')" for t t' r ser loc dev
    using adb_forward_table [OF that] .
  moreover have "length (g_fwds s) \<le> 40" using fwds_bound [OF inv] by (simp add: MAX_SLOTS_def STREAM_COUNT_def)
  moreover have "set (g_fwds s) \<subseteq> set (g_fwds s')" if "agent_scan c s s'" for s'
    using that rescan_once_evolves [OF _ inv] by (auto simp: agent_scan_def grows_def)
  moreover obtain s' where s': "remove_all E (g_fwds s) s = Some s'" "cmd_frame E s s'"
    "(\<forall>n. e_ret E n = 0) \<longrightarrow> (\<forall>f \<in> set (g_fwds s). \<exists>pid. Spawned (remove_argv f) pid \<in> set (evlog s'))"
    using remove_all_total by blast
  ultimately show ?thesis using inv kept unfolding fwds_kept_def
    by (auto simp: cleanup_forwards_def cmd_frame_def)
qed

text \<open>A scan that finds an emulator and sets up its forwards.\<close>

definition demo_forward_env :: env where
  "demo_forward_env = demo_scan_env\<lparr>e_ret := (\<lambda>n. if n = 1 \<or> 6 \<le> n then 0 else 1)\<rparr>"

lemma demo_forward_run:
  assumes "6 \<le> tick s"
  shows "\<exists>s'. run_cmd demo_forward_env argv t None s = Some (0, [], s') \<and> cmd_frame demo_forward_env s s' \<and> 6 \<le> tick s'"
proof -
  have "\<exists>s'. run_cmd demo_forward_env argv t None s = Some (0, [], s') \<and> 6 \<le> tick s'"
    using assms by (simp add: run_cmd_def sys_spawn_def demo_forward_env_def demo_scan_env_def Let_def step_os_def
        cmd_wait.simps sys_waitpid_nohang_def reap_def)
  then obtain s' where r: "run_cmd demo_forward_env argv t None s = Some (0, [], s')" "6 \<le> tick s'" by blast
  from run_cmd_plain_frame [OF r(1)] r show ?thesis by blast
qed

lemma demo_forward_adb:
  fixes s :: agent_sys
  assumes "6 \<le> tick s" and "sl_kind (g_slots s ! i) \<noteq> ''wireless''"
  shows "\<exists>s'. establish_adb demo_forward_env c i s = Some (0, s')"
proof -
  let ?q = "g_slots s ! i" and ?E = demo_forward_env
  let ?loc = "sl_adb_port ?q + LOC_OFFSET"
  let ?addr = "fit 32 (''127.0.0.1:'' @ show_int ?loc)"
  obtain s1 where 1: "run_cmd ?E (forward_argv (sl_serial ?q) ?loc (g_tcpip_port c)) 10000 None s = Some (0, [], s1)" "6 \<le> tick s1"
    using demo_forward_run [OF assms(1)] by blast
  let ?s1 = "s1\<lparr>g_fwds := remember_fwd (sl_serial ?q) ?loc (g_fwds s1)\<rparr>"
  obtain s2 where 2: "run_cmd ?E [''adb'', ''connect'', ?addr] 10000 None ?s1 = Some (0, [], s2)" "6 \<le> tick s2"
    using demo_forward_run [of ?s1] 1(2) by auto
  obtain s3 where 3: "run_cmd ?E [''adb'', ''-s'', ?addr, ''get-state''] 5000 None s2 = Some (0, [], s3)" "6 \<le> tick s3"
    using demo_forward_run [OF 2(2)] by blast
  obtain s4 where 4: "run_cmd ?E [''adb'', ''disconnect'', ?addr] 5000 None s3 = Some (0, [], s4)" "6 \<le> tick s4"
    using demo_forward_run [OF 3(2)] by blast
  have "forward_guest ?E c (sl_serial ?q) ?loc s = Some (True, s4)"
    using 1 2 3 4 by (simp add: forward_guest_def adb_forward_def verify_guest_adb_def Let_def)
  with assms(2) show ?thesis by (simp add: establish_adb_def Let_def)
qed

lemma demo_forward_devices:
  "\<exists>s'. list_devices demo_forward_env 64 demo_agent = Some (Some [\<lparr>d_serial = ''emulator-5554'', d_model = []\<rparr>], s') \<and> 6 \<le> tick s'"
proof -
  let ?out = "map of_char (''emulator-5554 device'' @ [LF]) :: byte list"
  have "map_option (\<lambda>(r, out, s'). (r, out, 6 \<le> tick s')) (run_cmd demo_forward_env [''adb'', ''devices'', ''-l''] 10000 (Some 16384) demo_agent)
      = Some (0, ?out, True)"
    by (simp add: run_cmd_def sys_pipe_def sys_spawn_def demo_forward_env_def demo_scan_env_def demo_env_def demo_agent_def
        fresh_fd_def read_out.simps sys_poll_def sys_read_def Let_def step_os_def sys_close_def
        cmd_wait.simps sys_waitpid_nohang_def reap_def LF_def)
  then obtain s' where r: "run_cmd demo_forward_env [''adb'', ''devices'', ''-l''] 10000 (Some 16384) demo_agent =
      Some (0, ?out, s')" "6 \<le> tick s'" by (auto simp del: map_append)
  have "cstr ?out = ''emulator-5554 device'' @ [LF]" by (rule cstr_of_char) (simp add: LF_def)
  then have "parse_devices 64 (lines_of (cstr ?out)) = [\<lparr>d_serial = ''emulator-5554'', d_model = []\<rparr>]"
    by (simp add: lines_of_def LF_def parse_dev_def scan_word_def is_space_def fit_def)
  with r show ?thesis by (simp add: list_devices_def del: map_append)
qed

lemma demo_forward_scan:
  "\<exists>s. rescan_once demo_forward_env demo_agent_cfg demo_agent = Some s \<and>
     \<lparr>f_serial = ''emulator-5554'', f_loc_port = 25553\<rparr> \<in> set (g_fwds s)"
proof -
  let ?d = "\<lparr>d_serial = ''emulator-5554'', d_model = []\<rparr>" and ?E = demo_forward_env and ?c = demo_agent_cfg
  let ?q = "new_slot ?c 0 ?d" and ?f = "\<lparr>f_serial = ''emulator-5554'', f_loc_port = 25553\<rparr>"
  obtain s1 where l: "list_devices ?E 64 demo_agent = Some (Some [?d], s1)" "6 \<le> tick s1"
    using demo_forward_devices by blast
  note f = list_devices_spec [OF l(1)]
  note k = cmd_tables_kept [OF f(1)]
  have q1: "g_slots s1 = []" using k(1) by (simp add: tables_kept_def demo_agent_def)
  have i1: "agent_inv ?c s1" using k(3) demo_agent_ok(1) by simp
  let ?s2 = "s1\<lparr>g_slots := [?q]\<rparr>"
  have "dev_ok ?d" using f(2) [OF refl] by simp
  from new_slot_inv(1) [OF i1 this] have i2: "agent_inv ?c ?s2" by (simp add: q1 MAX_SLOTS_def)
  have q: "sl_kind ?q = ''emulator''" "sl_serial ?q = ''emulator-5554''" "sl_adb_port ?q = 15553"
    by (simp_all add: new_slot_def Let_def fit_def dev_kind_def demo_agent_cfg_def)
  obtain s2' where a: "establish_adb ?E ?c 0 ?s2 = Some (0, s2')"
    using demo_forward_adb [of ?s2 0 ?c] l(2) q(1) by auto
  obtain r s3 where e: "establish_forwards ?E ?c 0 ?s2 = Some (r, s3)" "retargeted ?E ?c 0 ?s2 s3"
    "r = 0 \<longrightarrow> dst_ok (g_slots s3 ! 0) \<and> slot_fwds (g_slots s3 ! 0) \<subseteq> set (g_fwds s3)"
    using establish_forwards_total [OF i2, of 0 ?E] by auto
  have r: "r = 0" using e(1) a by (auto simp: establish_forwards_def bind_eq_Some_conv split: if_splits)
  from e(2) obtain h p b where q3: "g_slots s3 = [retarget h p b ?q]" and i3: "agent_inv ?c s3"
    by (auto simp: retargeted_def)
  have fw: "?f \<in> set (g_fwds s3)" using e(3) r q by (auto simp: q3 slot_fwds_def LOC_OFFSET_def)
  obtain b s4 where bl: "bind_listeners ?E ?c 0 s3 = (b, s4)" by fastforce
  have "grows ?E s3 s4" by (rule bind_listeners_inv(2) [OF i3 _ _ bl]) (use e(3) r in \<open>simp_all add: q3\<close>)
  with fw have fw4: "?f \<in> set (g_fwds s4)" by (auto simp: grows_def)
  from e(1) r bl obtain s5 where s5: "slot_setup_new ?E ?c 0 ?s2 = Some s5" "g_fwds s5 = g_fwds s4"
    by (cases "b = 0") (auto simp: slot_setup_new_def)
  have "rescan_devs ?E ?c [?d] s1 = Some s5"
    using s5(1) by (simp add: rescan_devs_def q1 refresh_loop.simps first_index_def find_slot_def MAX_SLOTS_def)
  with l(1) s5(2) fw4 show ?thesis by (simp add: rescan_once_def)
qed

theorem forwards_cleaned_witness:
  "\<exists>s s' pid. reach (agent_start demo_agent_cfg) (agent_scan demo_agent_cfg) s \<and>
     \<lparr>f_serial = ''emulator-5554'', f_loc_port = 25553\<rparr> \<in> set (g_fwds s) \<and>
     cleanup_forwards demo_env s = Some s' \<and> g_fwds s' = [] \<and>
     Spawned [''adb'', ''-s'', ''emulator-5554'', ''forward'', ''--remove'', ''tcp:25553''] pid \<in> set (evlog s')"
proof -
  let ?f = "\<lparr>f_serial = ''emulator-5554'', f_loc_port = 25553\<rparr>"
  obtain s where s: "rescan_once demo_forward_env demo_agent_cfg demo_agent = Some s" "?f \<in> set (g_fwds s)"
    using demo_forward_scan by blast
  have "reach (agent_start demo_agent_cfg) (agent_scan demo_agent_cfg) demo_agent"
    by (rule reach_start) (simp add: agent_start_def demo_agent_def demo_agent_cfg_def MAX_LISTENERS_def)
  then have r: "reach (agent_start demo_agent_cfg) (agent_scan demo_agent_cfg) s"
    by (rule reach_step) (use s in \<open>auto simp: agent_scan_def\<close>)
  have "\<forall>n. e_ret demo_env n = 0" by (simp add: demo_env_def)
  with forwards_cleaned [OF r, of demo_env] obtain s' where
    s': "cleanup_forwards demo_env s = Some s'" "g_fwds s' = []"
    "\<forall>f \<in> set (g_fwds s). \<exists>pid. Spawned (remove_argv f) pid \<in> set (evlog s')" by blast
  have num: "show_int 25553 = ''25553''"
    by (simp add: show_int_def show_nat.simps digit_char_def char_of_def bit_0)
  have "remove_argv ?f = [''adb'', ''-s'', ''emulator-5554'', ''forward'', ''--remove'', ''tcp:25553'']"
    by (simp add: remove_argv_def fit_def num)
  with s'(3) s(2) obtain pid where
    "Spawned [''adb'', ''-s'', ''emulator-5554'', ''forward'', ''--remove'', ''tcp:25553''] pid \<in> set (evlog s')" by metis
  with r s s' show ?thesis by blast
qed

section \<open>The discovery answer is complete\<close>

definition listed :: "slot \<Rightarrow> bool" where
  "listed q \<longleftrightarrow> sl_present q \<and> sl_ready q"

lemma discovery_lines_fit:
  assumes "length buf + length (concat (map slot_line (filter listed qs))) < 4096"
  shows "discovery_lines qs (buf, length buf) =
     (buf @ concat (map slot_line (filter listed qs)), length buf + length (concat (map slot_line (filter listed qs))))"
  using assms
proof (induction qs arbitrary: buf)
  case Nil
  then show ?case by simp
next
  case (Cons q qs)
  show ?case
  proof (cases "listed q")
    case True
    with Cons.prems have fits: "emit (slot_line q) (buf, length buf) = (buf @ slot_line q, length (buf @ slot_line q))"
      by (simp add: emit_def fit_def)
    have "length (buf @ slot_line q) + length (concat (map slot_line (filter listed qs))) < 4096"
      using True Cons.prems by simp
    from Cons.IH [OF this] True Cons.prems show ?thesis by (simp add: listed_def fits)
  next
    case False
    with Cons show ?thesis by (auto simp: listed_def)
  qed
qed

lemma dev_kind_length: "length (dev_kind ser) \<le> 8"
  by (simp add: dev_kind_def)

lemma slot_line_length:
  assumes "slot_ok c i q" and "int32 (g_adb_base c + int i)" and "i < MAX_SLOTS"
  shows "length (slot_line q) \<le> 257"
proof -
  have "int32 (sl_stream_base q)"
    using assms(1,3) by (auto simp: slot_ok_def stream_port_def STREAM_BASE_def STREAM_COUNT_def MAX_SLOTS_def int32_def)
  moreover have "int32 (sl_adb_port q)" using assms(1,2) by (simp add: slot_ok_def)
  ultimately have "length (show_int (sl_stream_base q)) \<le> 11" "length (show_int (sl_adb_port q)) \<le> 11"
    by (simp_all add: show_int_length)
  moreover have "length (sl_kind q) \<le> 8" "length (sl_serial q) \<le> 127" "length (sl_model q) \<le> 95"
    using assms(1) dev_kind_length by (auto simp: slot_ok_def word_ok_def)
  ultimately show ?thesis by (simp add: slot_line_def)
qed

lemma concat_length_le: "\<forall>x \<in> set xs. length (f x) \<le> n \<Longrightarrow> length (concat (map f xs)) \<le> length xs * n"
  by (induction xs) auto

lemma discovery_text_complete:
  assumes inv: "agent_inv c s" and ports: "\<forall>i < MAX_SLOTS. int32 (g_adb_base c + int i)"
  shows "discovery_text (g_slots s) = discovery_banner @ concat (map slot_line (filter listed (g_slots s)))"
    and "length (discovery_text (g_slots s)) < 4096"
proof -
  let ?qs = "g_slots s" and ?ls = "concat (map slot_line (filter listed (g_slots s)))"
  have n: "length ?qs \<le> 8" using inv by (simp add: agent_inv_def MAX_SLOTS_def)
  have "length (slot_line q) \<le> 257" if "q \<in> set ?qs" for q
  proof -
    from that obtain i where i: "i < length ?qs" "q = ?qs ! i" by (auto simp: in_set_conv_nth)
    with inv n ports show ?thesis
      by (intro slot_line_length [of c i]) (auto simp: agent_inv_def MAX_SLOTS_def)
  qed
  then have "length ?ls \<le> length (filter listed ?qs) * 257" by (intro concat_length_le) simp
  also have "\<dots> \<le> 8 * 257" using n length_filter_le [of listed ?qs] by (intro mult_le_mono) linarith+
  finally have len: "length ?ls \<le> 2056" by simp
  have ban: "length discovery_banner = 10" "emit discovery_banner ([], 0) = (discovery_banner, length discovery_banner)"
    by (simp_all add: discovery_banner_def AGENT_PROTOCOL_VERSION_def show_int_def show_nat.simps emit_def fit_def)
  have "discovery_lines ?qs (discovery_banner, length discovery_banner) =
      (discovery_banner @ ?ls, length discovery_banner + length ?ls)"
    by (rule discovery_lines_fit) (use len ban in simp)
  then show "discovery_text ?qs = discovery_banner @ ?ls" "length (discovery_text ?qs) < 4096"
    using len ban by (simp_all add: discovery_text_def)
qed

section \<open>Accepting\<close>

lemma discovery_write_spec:
  assumes "discovery_write E cl s = Some s'"
  shows "open_fds s' = open_fds s" and "g_slots s' = g_slots s" and "g_ls s' = g_ls s" and "g_conns s' = g_conns s"
    and "g_fwds s' = g_fwds s"
    and "\<exists>out. sent s' cl = sent s cl @ out \<and> prefix out (map of_char (discovery_text (g_slots s)))"
proof -
  from assms obtain ok where w: "sys_write_full E cl (map of_char (discovery_text (g_slots s))) s = Some (ok, s')"
    by (auto simp: discovery_write_def bind_eq_Some_conv)
  have c: "calm s s'" using sys_write_full_spec(1) [OF w, of cl] by (simp add: duplex_def)
  then have m: "os.more s' = os.more s" by (simp add: calm_def)
  show "open_fds s' = open_fds s" using c by (simp add: calm_def)
  show "g_slots s' = g_slots s" "g_ls s' = g_ls s" "g_conns s' = g_conns s" "g_fwds s' = g_fwds s"
    using more_agent [OF m] by simp_all
  show "\<exists>out. sent s' cl = sent s cl @ out \<and> prefix out (map of_char (discovery_text (g_slots s)))"
    using sys_write_full_spec(4) [OF w] by blast
qed

text \<open>
  C31: no accepted connection is lost or leaked.  Accepting on listener \<open>i\<close> either leaves the descriptors and
  the relay threads as they were (nothing accepted, a discovery answer that was written and closed, no
  memory, no thread), or starts exactly one relay thread that owns the new descriptor and has the
  listener's destination and group; the tables are never touched.
\<close>

theorem accept_accounted:
  assumes "accept_one E peer i s = Some s'"
  shows "g_slots s' = g_slots s \<and> g_ls s' = g_ls s \<and> g_fwds s' = g_fwds s \<and>
     ((g_conns s' = g_conns s \<and> set (open_fds s') = set (open_fds s)) \<or>
      (\<exists>cl. \<not> l_is_discovery (g_ls s ! i) \<and> cl \<notin> set (open_fds s) \<and>
         g_conns s' = g_conns s @ [new_conn (g_ls s ! i) cl peer] \<and>
         set (open_fds s') = insert cl (set (open_fds s))))"
proof -
  obtain cl s1 where o: "sys_open_fd E s = (cl, s1)" by fastforce
  with sys_open_fd_gives [of s E] have g: "gives_fd s (cl, s1)" by simp
  then have "os.more s1 = os.more s" by (simp add: gives_fd_def)
  note m1 = more_agent [OF this]
  show ?thesis
  proof (cases "cl < 0")
    case True
    with assms o g m1 show ?thesis by (simp add: accept_one_def gives_fd_def)
  next
    case False
    let ?s2 = "step_os E s1"
    have "os.more ?s2 = os.more s1" by simp
    note m2 = more_agent [OF this]
    have cl: "cl \<notin> set (open_fds s)" "set (open_fds s1) = insert cl (set (open_fds s))"
      using g False by (auto simp: gives_fd_def)
    show ?thesis
    proof (cases "l_is_discovery (g_ls s ! i)")
      case True
      with assms o False m1 m2 obtain s3 where d: "discovery_write E cl ?s2 = Some s3"
        and s': "s' = sys_close E cl s3" by (auto simp: accept_one_def Let_def bind_eq_Some_conv)
      have "os.more s' = os.more s3" by (simp add: s')
      note m3 = more_agent [OF this] and f = discovery_write_spec [OF d]
      have "set (open_fds s') = set (open_fds s)" using cl f(1) by (simp add: s')
      with m1 m2 m3 f show ?thesis by simp
    next
      case relay: False
      obtain a s3 where a: "sys_ret E ?s2 = (a, s3)" by fastforce
      obtain b s4 where b: "sys_ret E s3 = (b, s4)" by fastforce
      have c3: "calm ?s2 s3" and c4: "calm s3 s4" using a b by simp_all
      have "os.more s3 = os.more ?s2" "os.more s4 = os.more s3" using c3 c4 by (simp_all add: calm_def)
      note m3 = more_agent [OF this(1)] and m4 = more_agent [OF this(2)]
      have "os.more (sys_close E cl s3) = os.more s3" "os.more (sys_close E cl s4) = os.more s4" by simp_all
      note m5 = more_agent [OF this(1)] more_agent [OF this(2)]
      have fd: "open_fds s3 = open_fds s1" "open_fds s4 = open_fds s1" using c3 c4 by (simp_all add: calm_def)
      consider (nomem) "a < 0" "s' = sys_close E cl s3"
        | (started) "s' = s4\<lparr>g_conns := g_conns s4 @ [new_conn (g_ls s ! i) cl peer]\<rparr>"
        | (nothread) "s' = sys_close E cl s4"
        using assms o False relay a b m1 m2 by (auto simp: accept_one_def Let_def split: if_splits)
      then show ?thesis
      proof cases
        case started
        with relay cl fd m1 m2 m3 m4 show ?thesis by auto
      qed (use cl fd m1 m2 m3 m4 m5 in simp_all)
    qed
  qed
qed

text \<open>The same agent with a relay port in place of the discovery port.\<close>

definition demo_relay_agent :: agent_sys where
  "demo_relay_agent = demo_agent\<lparr>g_ls := [\<lparr>l_fd = 3, l_pub_port = 15553, l_dst_host = ''127.0.0.1'',
     l_dst_port = 25553, l_group = None, l_is_discovery = False\<rparr>]\<rparr>"

theorem accept_accounted_witness:
  "\<exists>s'. accept_one demo_env ''10.0.0.7'' 0 demo_relay_agent = Some s' \<and>
     g_slots s' = [] \<and> map c_client (g_conns s') = [4] \<and> set (open_fds s') = {4, 0, 1, 2, 3}"
proof -
  let ?s = demo_relay_agent
  have "map_option (\<lambda>s'. map c_client (g_conns s')) (accept_one demo_env ''10.0.0.7'' 0 ?s) = Some [4]"
    by (simp add: accept_one_def sys_open_fd_def fresh_fd_def demo_relay_agent_def demo_agent_def Let_def
        sys_ret_def step_os_def new_conn_def)
  then obtain s' where s': "accept_one demo_env ''10.0.0.7'' 0 ?s = Some s'" "map c_client (g_conns s') = [4]"
    unfolding map_option_eq_Some by (elim exE conjE)
  have d: "g_conns ?s = []" "set (open_fds ?s) = {0, 1, 2, 3}" "g_slots ?s = []"
    by (simp_all add: demo_relay_agent_def demo_agent_def)
  from accept_accounted [OF s'(1)] have "g_slots s' = []" by (simp add: d)
  moreover have "set (open_fds s') = {4, 0, 1, 2, 3}"
    using accept_accounted [OF s'(1)] unfolding d
  proof (elim conjE disjE exE)
    assume "g_conns s' = []"
    with s'(2) show ?thesis by simp
  next
    fix cl
    assume c: "g_conns s' = [] @ [new_conn (g_ls ?s ! 0) cl ''10.0.0.7'']"
      and f: "set (open_fds s') = insert cl {0, 1, 2, 3}"
    have cl: "cl = 4" using s'(2) unfolding c by (simp add: new_conn_def)
    show ?thesis unfolding f cl ..
  qed
  ultimately show ?thesis using s' by (intro exI [of _ s'] conjI)
qed

end
