(* ===== verification/Relayed_Session.thy ===== *)
theory Relayed_Session
  imports RC_Video Agent_Net
begin

text \<open>
  The three programs and the server together: a session whose connections run through the agent.  A
  connection may be cut at any byte, by the network or by the agent, so the receiving end sees a prefix of
  what was written.  The core's readers never take a cut message for a whole one; with the relay's
  transparency the decoder at one end and the input receiver at the other get exactly an initial part
  of what was sent.
\<close>

section \<open>Reading a packet from a stream that may be cut\<close>

lemma prefix_longer: "prefix xs (ys @ zs) \<Longrightarrow> length ys \<le> length xs \<Longrightarrow> \<exists>us. xs = ys @ us \<and> prefix us zs"
  by (auto simp: prefix_def append_eq_append_conv2)

lemma read_packet_whole:
  assumes ok: "packet_ok p" and pre: "prefix (sock_bytes s) (writePacket p @ rest)"
    and r: "rc_demux_read_packet ra s pb out = Some (RC_OK, pb', out', s')"
  shows "\<exists>us. sock_bytes s = writePacket p @ us \<and> prefix us rest"
proof -
  from r obtain hdr s1 where h: "rc_net_read_full s 12 = Some (RC_OK, hdr, s1)"
    by (auto simp: rc_demux_read_packet_def bind_eq_Some_conv Let_def split: if_splits)
  note H = sock.rd_okD [OF h]
  have l12: "length (put_u64 (packet_flags p) @ put_u32 (of_nat (length (pk_data p)))) = 12" by simp
  from pre obtain zs where zs: "writePacket p @ rest = sock_bytes s @ zs" by (auto simp: prefix_def)
  have "take 12 (sock_bytes s) = take 12 (writePacket p @ rest)" unfolding zs using H(1) by simp
  then have hdr: "hdr = take 12 (writePacket p @ rest)" using H(2) by simp
  note F = hdr_fields(2) [of "writePacket p @ rest" p rest, OF refl] and W = packet_len_word [OF ok]
  from r h F W obtain pb1 bs s2 where b: "rc_net_read_full s1 (length (pk_data p)) = Some (RC_OK, bs, s2)"
    by (auto simp: rc_demux_read_packet_def bind_eq_Some_conv Let_def hdr split: if_splits option.splits)
  have "length (pk_data p) \<le> length (drop 12 (sock_bytes s))" using sock.rd_okD(1) [OF b] H(3) by simp
  then have "length (writePacket p) \<le> length (sock_bytes s)" using H(1) by (simp add: writePacket_def)
  with prefix_longer [OF pre] show ?thesis by blast
qed

lemma read_packet_end:
  assumes "sock_bytes s = []" and "rc_demux_read_packet ra s pb out = Some (r, pb', out', s')"
  shows "r \<noteq> RC_OK"
proof
  assume "r = RC_OK"
  with assms(2) obtain hdr s1 where "rc_net_read_full s 12 = Some (RC_OK, hdr, s1)"
    by (auto simp: rc_demux_read_packet_def bind_eq_Some_conv Let_def split: if_splits)
  from sock.rd_okD(1) [OF this] assms(1) show False by simp
qed

lemma read_meta_cut:
  assumes pre: "prefix (sock_bytes s) (writeDeviceMeta cid w h name @ rest)"
    and r: "rc_demux_read_meta s (Some m0) = Some (RC_OK, Some m, s')"
  shows "\<exists>us. sock_bytes s = writeDeviceMeta cid w h name @ us \<and> dm_version m = RC_PROTO_VERSION \<and>
     dm_codec_id m = cid \<and> dm_width m = w \<and> dm_height m = h \<and> sock_bytes s' = us"
proof -
  from r obtain hdr s1 where h: "rc_net_read_full s (4 + 2 + 4 + 2 + 2 + RC_DEVICE_NAME_LEN) = Some (RC_OK, hdr, s1)"
    by (auto simp: rc_demux_read_meta_def bind_eq_Some_conv Let_def split: if_splits)
  have "length (writeDeviceMeta cid w h name) = 4 + 2 + 4 + 2 + 2 + RC_DEVICE_NAME_LEN"
    by (simp add: writeDeviceMeta_def RC_DEVICE_NAME_LEN_def)
  with sock.rd_okD(1) [OF h] prefix_longer [OF pre] obtain us where us: "sock_bytes s = writeDeviceMeta cid w h name @ us"
    by auto
  from device_meta_roundtrip [OF us, of m0] r us show ?thesis by auto
qed

section \<open>The video loop on a cut stream\<close>

lemma v_step_stops:
  assumes "v_step V still v = Some (go, v')"
    and "\<And>pb out s. rc_demux_read_packet (ve_realloc V) (v_sock v) (v_buf v) pkt0 \<noteq> Some (RC_OK, pb, out, s)"
  shows "\<not> go \<and> v_decoder v' = v_decoder v"
  using assms by (auto simp: v_step_def bind_eq_Some_conv Let_def split: if_splits)

lemma net_loop_cut:
  assumes "memory_ok (ve_realloc V)"
  shows "list_all packet_ok ps \<Longrightarrow> prefix (sock_bytes (v_sock v)) (concat (map writePacket ps)) \<Longrightarrow>
     video_ok v \<Longrightarrow> v_decoder v = Some d \<Longrightarrow> \<not> rc_decoder_is_hw (Some d) \<Longrightarrow>
     net_loop V n still v = Some v' \<Longrightarrow>
     \<exists>k d'. k \<le> n \<and> k \<le> length ps \<and> v_decoder v' = Some d' \<and>
       inputs d' = inputs d @ fed (cached v) (v_need_cfg v) (take k ps) \<and>
       (sock_bytes (v_sock v) = concat (map writePacket ps) \<and> n \<le> length ps \<longrightarrow> k = n)"
proof (induction n arbitrary: v d ps)
  case 0
  then show ?case by (intro exI [of _ "0 :: nat"]) simp
next
  case (Suc n)
  let ?rd = "rc_demux_read_packet (ve_realloc V) (v_sock v) (v_buf v) pkt0"
  from Suc.prems(6) obtain go v1 where st: "v_step V still v = Some (go, v1)"
    and rest: "(if go then net_loop V n still v1 else Some v1) = Some v'" by (auto simp: bind_eq_Some_conv)
  show ?case
  proof (cases "\<exists>pb out s. ?rd = Some (RC_OK, pb, out, s)")
    case False
    have "\<not> (sock_bytes (v_sock v) = concat (map writePacket ps) \<and> Suc n \<le> length ps)"
    proof
      assume a: "sock_bytes (v_sock v) = concat (map writePacket ps) \<and> Suc n \<le> length ps"
      then obtain p qs where ps: "ps = p # qs" by (cases ps) auto
      have ra: "realloc_laws (ve_realloc V)" "\<And>old m. ve_realloc V old m \<noteq> None"
        using assms by (auto simp: memory_ok_def)
      have "packet_ok p" "pktbuf_ok (v_buf v)" "sock_bytes (v_sock v) = writePacket p @ concat (map writePacket qs)"
        using a ps Suc.prems(1,3) by (auto simp: video_ok_def)
      from read_packet_complete [OF ra this, of pkt0] False show False by blast
    qed
    with v_step_stops [OF st] rest Suc.prems(4) False show ?thesis
      by (intro exI [of _ "0 :: nat"]) auto
  next
    case True
    then obtain pb0 out0 s0 where rd: "?rd = Some (RC_OK, pb0, out0, s0)" by blast
    have "ps \<noteq> []"
    proof
      assume "ps = []"
      with Suc.prems(2) have "sock_bytes (v_sock v) = []" by simp
      from read_packet_end [OF this rd] show False by simp
    qed
    then obtain p qs where ps: "ps = p # qs" by (cases ps) auto
    have ok: "packet_ok p" "list_all packet_ok qs" using Suc.prems(1) ps by auto
    obtain us where us: "sock_bytes (v_sock v) = writePacket p @ us" "prefix us (concat (map writePacket qs))"
      using read_packet_whole [OF ok(1) _ rd, of "concat (map writePacket qs)"] Suc.prems(2) ps by auto
    obtain s pb where s: "sock_bytes s = us" "pktbuf_ok pb"
      and st': "v_step V still v = Some
         (let v = v\<lparr>v_sock := s, v_buf := pb\<rparr> in
          if pk_config p then (True, v_config V (pk_data p) v)
          else v_media V (pk_data p) (uint (pk_pts p AND RC_PKT_PTS_MASK)) v)"
      by (rule v_step_packet [OF assms Suc.prems(3) ok(1) us(1)])
    let ?v = "v\<lparr>v_sock := s, v_buf := pb\<rparr>" and ?t = "uint (pk_pts p AND RC_PKT_PTS_MASK)"
    have vok: "video_ok ?v" using Suc.prems(3) s(2) by (simp add: video_ok_def)
    have same: "cached ?v = cached v" "v_decoder ?v = Some d" using Suc.prems(4) by (simp_all add: cached_def)
    have ne: "pk_data p \<noteq> []" using ok(1) by (auto simp: packet_ok_def)
    have step: "\<exists>d1. go \<and> v_decoder v1 = Some d1 \<and> \<not> rc_decoder_is_hw (Some d1) \<and> video_ok v1 \<and>
        sock_bytes (v_sock v1) = us \<and>
        inputs d @ fed (cached v) (v_need_cfg v) (p # rs) = inputs d1 @ fed (cached v1) (v_need_cfg v1) rs" for rs
    proof (cases "pk_config p")
      case True
      note C = v_config_spec [OF assms vok, of "pk_data p"]
      with True st st' s(1) same Suc.prems(5) show ?thesis by (auto simp: Let_def)
    next
      case False
      obtain v2 d2 where m: "v_media V (pk_data p) ?t ?v = (True, v2)" "v_decoder v2 = Some d2"
        "\<not> rc_decoder_is_hw (Some d2)"
        "inputs d2 = inputs d @ [((if v_need_cfg ?v then cached ?v else []) @ pk_data p, ?t)]"
        "video_ok v2" "cached v2 = cached ?v" "\<not> v_need_cfg v2" "v_sock v2 = v_sock ?v"
        using v_media_software [OF assms vok ne same(2) Suc.prems(5)] by blast
      from st st' m(1) False have "go" "v1 = v2" by (auto simp: Let_def)
      with m s(1) same(1) False show ?thesis by (intro exI [of _ d2]) auto
    qed
    from step obtain d1 where d1: "go" "v_decoder v1 = Some d1" "\<not> rc_decoder_is_hw (Some d1)" "video_ok v1"
      "sock_bytes (v_sock v1) = us" by blast
    with rest obtain k d' where k: "k \<le> n" "k \<le> length qs" "v_decoder v' = Some d'"
      "inputs d' = inputs d1 @ fed (cached v1) (v_need_cfg v1) (take k qs)"
      "us = concat (map writePacket qs) \<and> n \<le> length qs \<longrightarrow> k = n"
      using Suc.IH [OF ok(2) _ d1(4,2,3)] us(2) by auto
    from step [of "take k qs"] d1(2) k ps us(1) show ?thesis by (intro exI [of _ "Suc k"]) auto
  qed
qed


text \<open>
  C5: the picture through the agent.  Let the server write its \<^verbatim>\<open>device_meta\<close> and packets, of which each
  connection of the agent gets at least an initial part; let a relay thread run, and let the core receive
  an initial part of what the agent wrote to it, however cut.  If the core then reads a \<^verbatim>\<open>device_meta\<close>,
  it is the server's, and after \<open>n\<close> rounds of the video loop a software decoder has been given exactly
  what the first \<open>k\<close> packets of the server require, never a damaged one; and \<open>k = n\<close> when the whole stream
  arrived.
\<close>

theorem relayed_video:
  assumes "conn_thread E c s = Some (up, s')" and "0 \<le> up" and "c_client c \<in> set (open_fds s)"
    and "sent s (c_client c) = []"
    and "\<And>i. prefix (sock_bytes (e_stream E i)) (writeDeviceMeta cid w h name @ concat (map writePacket ps))"
    and "list_all packet_ok ps" and "prefix (sock_bytes q) (sent s' (c_client c))"
    and "rc_demux_read_meta q (Some m0) = Some (RC_OK, Some m, q1)"
    and "memory_ok (ve_realloc V)" and "\<not> rc_decoder_is_hw (Some d)"
    and "net_thread_fn V n still q1 (Some d) desc = Some v'"
  shows "dm_version m = RC_PROTO_VERSION \<and> dm_codec_id m = cid \<and> dm_width m = w \<and> dm_height m = h \<and>
     (\<exists>k d'. k \<le> n \<and> k \<le> length ps \<and> v_decoder v' = Some d' \<and> inputs d' = inputs d @ fed [] True (take k ps) \<and>
        (sock_bytes q = writeDeviceMeta cid w h name @ concat (map writePacket ps) \<and> n \<le> length ps \<longrightarrow> k = n))"
proof -
  let ?W = "writeDeviceMeta cid w h name" and ?P = "concat (map writePacket ps)"
  obtain i ys where ys: "sent s' (c_client c) = ys" "prefix ys (sock_bytes (e_stream E i))"
    using conn_thread_carries [OF assms(1,3)] assms(2,4) by auto
  with assms(5) [of i] assms(7) have pre: "prefix (sock_bytes q) (?W @ ?P)"
    by (meson prefix_order.trans)
  from read_meta_cut [OF pre assms(8)] obtain us where us: "sock_bytes q = ?W @ us"
    and m: "dm_version m = RC_PROTO_VERSION" "dm_codec_id m = cid" "dm_width m = w" "dm_height m = h"
    and q1: "sock_bytes q1 = us" by blast
  let ?v = "\<lparr>v_sock = q1, v_buf = empty_buf, v_cfg = empty_buf, v_cfg_len = 0, v_merged = empty_buf,
        v_need_cfg = True, v_err_emitted = False, v_decoder = Some d, v_desc = desc,
        v_statuses = [], v_frames = []\<rparr>"
  have "video_ok ?v" "cached ?v = []" by (simp_all add: video_ok_def pktbuf_ok_def empty_buf_def cached_def)
  moreover have "prefix us ?P" using pre us by simp
  ultimately show ?thesis
    using net_loop_cut [OF assms(9,6), of ?v d n still v'] assms(10,11) m us q1
    by (simp add: net_thread_fn_def)
qed

text \<open>A run with three packets and nothing cut.\<close>

definition demo_wire :: "byte list" where
  "demo_wire = writeDeviceMeta RC_CODEC_ID_H264 1080 2400 [80, 105] @ concat (map writePacket demo_stream_packets)"

definition demo_video_relay_env :: env where
  "demo_video_relay_env = demo_relay_env\<lparr>e_stream := (\<lambda>_. [Chunk demo_wire, Eof])\<rparr>"

lemma demo_video_relay_env_sel [simp]:
  "e_ret demo_video_relay_env n = (if 6 \<le> n then 1 else 0)" "e_val demo_video_relay_env n = (if n = 9 then 2 else 1)"
  "e_stream demo_video_relay_env n = [Chunk demo_wire, Eof]"
  "e_sink demo_video_relay_env n = Accept 2 # Accept 4096 # replicate 4094 (Accept 4096)"
  "e_addrs demo_video_relay_env h q = Some 1" "e_delay demo_video_relay_env n = 1"
  "e_errno demo_video_relay_env n = EOther" "e_abort demo_video_relay_env n = False"
  by (simp_all add: demo_video_relay_env_def)

lemma demo_wire_length: "length demo_wire = 118" "demo_wire \<noteq> []"
proof -
  show "length demo_wire = 118" by code_simp
  then show "demo_wire \<noteq> []" by auto
qed

theorem relayed_video_witness:
  "\<exists>s' m q1 v' d'. conn_thread demo_video_relay_env (demo_conn\<lparr>c_group := None\<rparr>) demo_conn_os = Some (4, s') \<and>
     sent s' 3 = demo_wire \<and> rc_demux_read_meta [Chunk demo_wire] (Some zero_meta) = Some (RC_OK, Some m, q1) \<and>
     net_thread_fn (demo_video_env demo_ffmpeg) 3 True q1 (Some demo_decoder) None = Some v' \<and>
     dm_width m = 1080 \<and> dm_height m = 2400 \<and> v_decoder v' = Some d' \<and> inputs d' = [([7, 8, 65], 10), ([66], 20)]"
proof -
  let ?c = "demo_conn\<lparr>c_group := None\<rparr>" and ?P = "concat (map writePacket demo_stream_packets)"
  have "map_option (\<lambda>(u, s). (u, sent s 3)) (conn_thread demo_video_relay_env ?c demo_conn_os) = Some (4, demo_wire)"
    apply (simp add: conn_thread_def conn_open_def agent_net_eval)
    apply (subst pump.simps, simp add: pump_dir_def agent_net_eval)
    apply (subst pump.simps, simp add: pump_dir_def agent_net_eval demo_wire_length)
    apply (subst pump.simps, simp add: pump_dir_def agent_net_eval)
    done
  then obtain s' where s': "conn_thread demo_video_relay_env ?c demo_conn_os = Some (4, s')" "sent s' 3 = demo_wire"
    by (cases "conn_thread demo_video_relay_env ?c demo_conn_os") auto
  have q: "sock_bytes [Chunk demo_wire] = writeDeviceMeta RC_CODEC_ID_H264 1080 2400 [80, 105] @ ?P"
    using demo_wire_length(2) by (simp add: demo_wire_def)
  obtain m q1 where m: "rc_demux_read_meta [Chunk demo_wire] (Some zero_meta) = Some (RC_OK, Some m, q1)"
    "sock_bytes q1 = ?P" using device_meta_roundtrip [OF q, of zero_meta] by blast
  have ok: "list_all packet_ok demo_stream_packets" by (simp add: demo_stream_packets_def packet_ok_def)
  have sw: "\<not> rc_decoder_is_hw (Some demo_decoder)" by (simp add: rc_decoder_is_hw_def demo_decoder_def)
  have n: "length demo_stream_packets = 3" by (simp add: demo_stream_packets_def)
  let ?v = "\<lparr>v_sock = q1, v_buf = empty_buf, v_cfg = empty_buf, v_cfg_len = 0, v_merged = empty_buf,
        v_need_cfg = True, v_err_emitted = False, v_decoder = Some demo_decoder, v_desc = None,
        v_statuses = [], v_frames = []\<rparr>"
  have "video_ok ?v" by (simp add: video_ok_def pktbuf_ok_def empty_buf_def)
  with net_loop_software [OF demo_memory ok, of ?v "[]" demo_decoder demo_ffmpeg True] m(2) sw
  obtain v' where v': "net_thread_fn (demo_video_env demo_ffmpeg) 3 True q1 (Some demo_decoder) None = Some v'"
    by (auto simp: net_thread_fn_def n)
  have c: "c_client ?c = 3" "3 \<in> set (open_fds demo_conn_os)" "sent demo_conn_os 3 = []"
    by (simp_all add: demo_conn_def demo_conn_os_def demo_os_def)
  have pre: "prefix (sock_bytes (e_stream demo_video_relay_env i))
      (writeDeviceMeta RC_CODEC_ID_H264 1080 2400 [80, 105] @ ?P)" for i
    using q demo_wire_length(2) by simp
  have "dm_width m = 1080 \<and> dm_height m = 2400 \<and> (\<exists>d'. v_decoder v' = Some d' \<and>
      inputs d' = inputs demo_decoder @ fed [] True demo_stream_packets)"
    using relayed_video [OF s'(1) _ _ _ pre ok _ m(1) demo_memory sw v'] c s'(2) q n by (auto simp: demo_wire_def)
  moreover have "inputs demo_decoder @ fed [] True demo_stream_packets = [([7, 8, 65], 10), ([66], 20)]" by code_simp
  ultimately show ?thesis using s' m(1) v' by auto
qed

section \<open>Input that may be cut\<close>

text \<open>A message that was decoded is decoded the same way when more bytes follow.\<close>

definition extends :: "(byte list \<Rightarrow> ('a \<times> byte list) option) \<Rightarrow> bool" where
  "extends f \<longleftrightarrow> (\<forall>bs xs v r. f bs = Some (v, r) \<longrightarrow> f (bs @ xs) = Some (v, r @ xs))"

named_theorems extends_intros \<open>readers that ignore what follows\<close>

lemma extendsD: "extends f \<Longrightarrow> f bs = Some (v, r) \<Longrightarrow> f (bs @ xs) = Some (v, r @ xs)"
  by (simp add: extends_def)

lemma extends_readInt [extends_intros]: "extends readInt"
  by (auto simp: extends_def readInt_def be32_def nth_append split: if_splits)

lemma extends_readUnsignedByte [extends_intros]: "extends readUnsignedByte"
  unfolding extends_def
proof (intro allI impI)
  show "readUnsignedByte (bs @ xs) = Some (v, r @ xs)" if "readUnsignedByte bs = Some (v, r)" for bs xs v r
    using that by (cases bs) auto
qed

lemma extends_readFully [extends_intros]: "extends (readFully n)"
  by (auto simp: extends_def readFully_def split: if_splits)

lemma extends_bind [extends_intros]:
  "extends f \<Longrightarrow> (\<And>a. extends (g a)) \<Longrightarrow> extends (\<lambda>bs. Option.bind (f bs) (\<lambda>(a, bs). g a bs))"
  by (fastforce simp: extends_def bind_eq_Some_conv)

lemma extends_trivial [extends_intros]: "extends (\<lambda>bs. Some (v, bs))" "extends (\<lambda>bs. None)"
  by (simp_all add: extends_def)

lemma extends_if [extends_intros]: "extends f \<Longrightarrow> extends g \<Longrightarrow> extends (\<lambda>bs. if c then f bs else g bs)"
  by (simp add: extends_def)

lemma extends_dispatch: "extends (dispatch t)"
  unfolding dispatch_def by (intro extends_intros)

lemma receive_all_more: "prefix (receive_all n bs) (receive_all (n + m) (bs @ xs))"
proof (induction n arbitrary: bs)
  case (Suc n)
  show ?case
  proof (cases bs)
    case (Cons t ts)
    show ?thesis
    proof (cases "dispatch t ts")
      case (Some er)
      then obtain e r where "dispatch t ts = Some (e, r)" by (cases er) auto
      from this extendsD [OF extends_dispatch this, of xs] Suc [of r] show ?thesis by (simp add: Cons)
    qed (simp add: Cons)
  qed simp
qed simp

text \<open>
  C7: input through the agent.  Let the core send a sequence of input events on its control connection,
  after the \<open>tok\<close> that opens the connection, and let the agent get an initial part of these bytes and relay
  them, and the device an initial part of what the agent wrote, however cut.  Then the server finds the
  token or a part of it, and from what follows it decodes an initial part of exactly these events, in
  order, and all of them when all bytes arrive.
\<close>

theorem relayed_input:
  assumes "do_calls cs sc = Some (RC_OK, sc')" and "sent sc (control_fd (client sc)) = tok"
    and "conn_thread E c s = Some (up, s')" and "0 \<le> up" and "c_client c \<in> set (open_fds s)"
    and "prefix (sock_bytes (inq s (c_client c))) (sent sc' (control_fd (client sc)))"
    and "prefix bs (sent s' up)"
  shows "prefix (take (length tok) bs) tok \<and>
     prefix (receive_all (length (drop (length tok) bs)) (drop (length tok) bs)) (map event_of cs) \<and>
     (bs = sent sc' (control_fd (client sc)) \<longrightarrow>
        take (length tok) bs = tok \<and> receive_all (length (drop (length tok) bs)) (drop (length tok) bs) = map event_of cs)"
proof -
  let ?w = "concat (map wire_of cs)"
  have ok: "list_all call_ok cs" and w: "sent sc' (control_fd (client sc)) = tok @ ?w"
    using do_calls_ok [OF assms(1)] assms(2) by auto
  have "prefix (sent s' up) (sock_bytes (inq s (c_client c)))"
    using conn_thread_carries [OF assms(3,5)] assms(4) by auto
  with assms(6,7) w have "prefix bs (tok @ ?w)" by (metis prefix_order.trans)
  then obtain zs where zs: "tok @ ?w = bs @ zs" by (auto simp: prefix_def)
  have "prefix (take (length tok) bs) tok"
  proof -
    have "take (length tok) bs = take (length bs) tok"
      using arg_cong [OF zs, of "take (length tok)"] arg_cong [OF zs, of "take (length bs)"]
      by (cases "length tok \<le> length bs") auto
    then show ?thesis by (simp add: take_is_prefix)
  qed
  moreover have "drop (length tok) bs @ drop (length tok - length bs) zs = ?w"
    using arg_cong [OF zs, of "drop (length tok)"] by simp
  then obtain xs where xs: "drop (length tok) bs @ xs = ?w" by blast
  have "prefix (receive_all (length (drop (length tok) bs)) (drop (length tok) bs)) (map event_of cs)"
    using receive_all_more [of "length (drop (length tok) bs)" "drop (length tok) bs" "length xs" xs]
      receive_all_wire [OF ok wire_length] xs by (metis length_append)
  moreover have "receive_all (length ?w) ?w = map event_of cs" by (rule receive_all_wire [OF ok wire_length])
  ultimately show ?thesis by (simp add: w)
qed

theorem relayed_input_witness:
  "\<exists>sc' s'. do_calls [CallKey 1 66 0 0] demo_sys = Some (RC_OK, sc') \<and>
     conn_thread demo_relay_env (demo_conn\<lparr>c_group := None\<rparr>) (demo_conn_os\<lparr>inq := (inq demo_conn_os)(3 := [Chunk (sent sc' 7), Eof])\<rparr>)
       = Some (4, s') \<and> sent s' 4 = sent sc' 7 \<and>
     receive_all (length (sent s' 4)) (sent s' 4) = [Key 1 66 0 0] \<and>
     prefix (receive_all 9 (take 9 (sent s' 4))) [Key 1 66 0 0]"
proof -
  let ?c = "demo_conn\<lparr>c_group := None\<rparr>"
  have fd: "control_fd (client demo_sys) = 7" "sent demo_sys 7 = []" by (simp_all add: demo_sys_def)
  obtain sc' where sc': "do_calls [CallKey 1 66 0 0] demo_sys = Some (RC_OK, sc')"
    by (simp add: do_call_send rc_control_send_def fd_write_def write_full_Accept put_u32_def
        act_byte_def demo_sys_def demo_client_def rc_client_create_def dup_or_null_def demo_config_def numeral_nat)
  have w: "sent sc' 7 = [3, 1] @ put_u32 66 @ put_u32 0 @ put_u32 0"
    using do_calls_ok [OF sc'] fd by (simp add: act_byte_def)
  define b where "b = sent sc' 7"
  have b: "length b = 14" "b \<noteq> []" using w by (auto simp: b_def put_u32_def)
  let ?s = "demo_conn_os\<lparr>inq := (inq demo_conn_os)(3 := [Chunk b, Eof])\<rparr>"
  have "map_option (\<lambda>(u, s). (u, sent s 4)) (conn_thread demo_relay_env ?c ?s) = Some (4, b)"
    apply (simp add: conn_thread_def conn_open_def agent_net_eval)
    apply (subst pump.simps, simp add: pump_dir_def agent_net_eval b)
    apply (subst pump.simps, simp add: pump_dir_def agent_net_eval)
    apply (subst pump.simps, simp add: pump_dir_def agent_net_eval)
    done
  then obtain s' where s': "conn_thread demo_relay_env ?c ?s = Some (4, s')" "sent s' 4 = b"
    by (cases "conn_thread demo_relay_env ?c ?s") auto
  have c: "c_client ?c = 3" "3 \<in> set (open_fds ?s)" "sock_bytes (inq ?s 3) = b"
    using b by (simp_all add: demo_conn_def demo_conn_os_def)
  have "receive_all (length b) b = [Key 1 66 0 0]" "prefix (receive_all 9 (take 9 b)) [Key 1 66 0 0]"
    using relayed_input [OF sc' refl s'(1), of b] relayed_input [OF sc' refl s'(1), of "take 9 b"] c s'(2) fd b
    by (auto simp: b_def [symmetric] act_byte_def take_is_prefix)
  with sc' s' show ?thesis unfolding b_def by (intro exI [of _ sc'] exI [of _ s']) simp
qed

end
