(* ===== verification/Gtk_Agent.thy ===== *)
theory Gtk_Agent
  imports Agent_Main
begin

text \<open>
  The client of the agent's discovery port, \<^verbatim>\<open>frontends/gtk/agent.c\<close>: connecting, reading the answer up
  to the end of file under one deadline, checking the banner and taking the device lines apart.  The
  theory ends with the round trip through both programs: what the agent writes about its slots is what
  the front end gets, whatever the network does in between.
\<close>

section \<open>Connecting and reading\<close>

definition connect_timeout ::
    "env \<Rightarrow> string \<Rightarrow> int \<Rightarrow> nat \<Rightarrow> 'a os_scheme \<Rightarrow> int \<times> 'a os_scheme" where
  "connect_timeout E ip port timeout_ms s =
     (let portstr = fit 8 (show_int port);
          res = e_addrs E ip portstr;
          s = step_os E s in
      case res of None \<Rightarrow> (-1, s) | Some n \<Rightarrow> connect_ais E n timeout_ms s)"

text \<open>The loop of \<^verbatim>\<open>read_to_eof\<close>.  The inner \<^term>\<open>None\<close> is the return value \<open>-1\<close>; time is counted in
  milliseconds, as the poll does.\<close>

partial_function (option) read_eof_loop ::
    "env \<Rightarrow> int \<Rightarrow> nat \<Rightarrow> int \<Rightarrow> byte list \<Rightarrow> 'a os_scheme \<Rightarrow> (byte list option \<times> 'a os_scheme) option" where
  "read_eof_loop E fd cap deadline got s =
     (if cap - 1 \<le> length got then Some (Some got, s)
      else if deadline - clock s \<le> 0 then Some (None, s)
      else
        let en = e_errno E (tick s);
            (r, s1) = sys_poll E (nat (deadline - clock s)) s in
        if r < 0 \<and> en = EINTR then read_eof_loop E fd cap deadline got s1
        else if r \<le> 0 then Some (None, s1)
        else do {
          (rr, s2) \<leftarrow> sys_read E fd (cap - 1 - length got) s1;
          (case rr of
             Got bs \<Rightarrow>
               if bs = [] then Some (Some got, s2)
               else read_eof_loop E fd cap deadline (got @ bs) s2
           | ReadIntr \<Rightarrow> read_eof_loop E fd cap deadline got s2
           | _ \<Rightarrow> Some (None, s2))
        })"

definition read_to_eof ::
    "env \<Rightarrow> int \<Rightarrow> nat \<Rightarrow> nat \<Rightarrow> 'a os_scheme \<Rightarrow> (byte list option \<times> 'a os_scheme) option" where
  "read_to_eof E fd cap timeout_ms s = read_eof_loop E fd cap (clock s + int timeout_ms) [] s"

section \<open>Parsing\<close>

record agent_dev =
  ad_host :: string
  ad_serial :: string
  ad_model :: string
  ad_kind :: string
  ad_adb_port :: int
  ad_stream_base :: int

definition parse_dev_line :: "string \<Rightarrow> string \<Rightarrow> agent_dev option" where
  "parse_dev_line ip line =
     (let f = g_strsplit line TAB in
      if 5 \<le> length f then
        (let adb_port = atoi (f ! 0) in
         if 0 < adb_port then
           Some \<lparr>ad_host = fit 64 ip, ad_serial = fit 128 (ip @ '':'' @ show_int adb_port),
             ad_model = fit 96 (f ! 3), ad_kind = fit 16 (f ! 1), ad_adb_port = adb_port,
             ad_stream_base = atoi (f ! 4)\<rparr>
         else None)
      else None)"

text \<open>The four ways a scan fails, by the code in the \<^verbatim>\<open>GError\<close>.\<close>

datatype scan_error = CannotConnect | NoReply | BadBanner | BadVersion int

definition RC_AGENT_PROTOCOL_VERSION :: int where "RC_AGENT_PROTOCOL_VERSION = 1"

fun parse_dev_lines :: "string \<Rightarrow> string list \<Rightarrow> agent_dev list" where
  "parse_dev_lines ip [] = []"
| "parse_dev_lines ip (l # ls) =
     (if l = [] then parse_dev_lines ip ls
      else (case parse_dev_line ip l of
              None \<Rightarrow> parse_dev_lines ip ls
            | Some d \<Rightarrow> d # parse_dev_lines ip ls))"

definition parse_reply :: "string \<Rightarrow> string \<Rightarrow> scan_error + agent_dev list" where
  "parse_reply ip buf =
     (let lines = g_strsplit buf LF in
      if lines = [] \<or> take 8 (lines ! 0) \<noteq> ''RCAGENT '' then Inl BadBanner
      else
        let version = atoi (drop 8 (lines ! 0)) in
        if version \<noteq> RC_AGENT_PROTOCOL_VERSION then Inl (BadVersion version)
        else Inr (parse_dev_lines ip (drop 1 lines)))"

definition agent_scan_port ::
    "env \<Rightarrow> string \<Rightarrow> int \<Rightarrow> 'a os_scheme \<Rightarrow> ((scan_error + agent_dev list) \<times> 'a os_scheme) option" where
  "agent_scan_port E ip port s =
     (let (fd, s) = connect_timeout E ip port 2000 s in
      if fd < 0 then Some (Inl CannotConnect, s)
      else do {
        (r, s) \<leftarrow> read_to_eof E fd 65536 3000 s;
        let s = sys_close E fd s;
        (case r of
           None \<Rightarrow> Some (Inl NoReply, s)
         | Some got \<Rightarrow>
             if got = [] then Some (Inl NoReply, s) else Some (parse_reply ip (cstr got), s))
      })"

section \<open>Reading returns the whole stream\<close>

lemma sys_read_cases:
  assumes "sys_read E fd n s = Some (r, s')" and "0 < n"
  shows "(\<exists>bs. r = Got bs \<and> bs \<noteq> [] \<and> sock_bytes (inq s fd) = bs @ sock_bytes (inq s' fd)) \<or>
     (r = Got [] \<and> sock_bytes (inq s fd) = []) \<or>
     (r = ReadIntr \<and> sock_bytes (inq s' fd) = sock_bytes (inq s fd)) \<or> r = ReadErr"
  using assms
  by (cases "(inq s fd, n)" rule: sock_read.cases) (auto simp: sys_read_def split: if_splits)

lemma read_eof_spec:
  assumes "read_eof_loop E fd cap deadline got s = Some (r, s')"
    and "length got + length (sock_bytes (inq s fd)) < cap - 1"
  shows "read_frame fd s s' \<and> (r = None \<or> r = Some (got @ sock_bytes (inq s fd)))"
proof -
  define P where "P = (\<lambda>(E :: env) fd cap (deadline :: int) (got :: byte list) (s :: 'a os_scheme)
      (y :: byte list option \<times> 'a os_scheme). length got + length (sock_bytes (inq s fd)) < cap - 1 \<longrightarrow>
      read_frame fd s (snd y) \<and> (fst y = None \<or> fst y = Some (got @ sock_bytes (inq s fd))))"
  have "P E fd cap deadline got s (r, s')"
  proof (rule read_eof_loop.raw_induct [OF _ assms(1)], goal_cases)
    case (1 rec E fd cap deadline got s y)
    show ?case unfolding P_def
    proof
      assume len: "length got + length (sock_bytes (inq s fd)) < cap - 1"
      obtain r s1 where p: "sys_poll E (nat (deadline - clock s)) s = (r, s1)" by fastforce
      note f1 = read_frame_poll [OF p, of fd]
      show "read_frame fd s (snd y) \<and> (fst y = None \<or> fst y = Some (got @ sock_bytes (inq s fd)))"
      proof (cases "deadline \<le> clock s \<or> r \<le> 0")
        case True
        with 1(2) p f1 len show ?thesis
          by (auto simp: P_def Let_def split: if_splits dest!: 1(1) intro: read_frame_trans)
      next
        case False
        then obtain rr s2 where rd: "sys_read E fd (cap - 1 - length got) s1 = Some (rr, s2)"
          using 1(2) p len by (auto simp: Let_def bind_eq_Some_conv split: if_splits)
        have f2: "read_frame fd s s2" using f1 read_frame_read [OF rd] read_frame_trans by blast
        have "0 < cap - 1 - length got" using len by simp
        from sys_read_cases [OF rd this] 1(2) p f1 f2 rd len False show ?thesis
          by (auto simp: P_def Let_def read_frame_trans [OF f2] dest!: 1(1) split: read_res.splits)
      qed
    qed
  qed
  with assms(2) show ?thesis by (simp add: P_def)
qed

section \<open>The answer of the agent\<close>

text \<open>What the front end should know about a slot.\<close>

definition dev_of :: "string \<Rightarrow> slot \<Rightarrow> agent_dev" where
  "dev_of ip q = \<lparr>ad_host = ip, ad_serial = ip @ '':'' @ show_int (sl_adb_port q),
     ad_model = (if sl_model q = [] then ''-'' else sl_model q), ad_kind = sl_kind q,
     ad_adb_port = sl_adb_port q, ad_stream_base = sl_stream_base q\<rparr>"

definition slot_body :: "slot \<Rightarrow> string" where
  "slot_body q = show_int (sl_adb_port q) @ TAB # sl_kind q @ TAB # sl_serial q @ TAB #
     (if sl_model q = [] then ''-'' else sl_model q) @ TAB # show_int (sl_stream_base q)"

lemma slot_line_body: "slot_line q = slot_body q @ [LF]"
  by (simp add: slot_line_def slot_body_def)

lemma dev_kind_chars: "TAB \<notin> set (dev_kind ser)" "LF \<notin> set (dev_kind ser)" "CHR 0x00 \<notin> set (dev_kind ser)"
  by (simp_all add: dev_kind_def TAB_def LF_def)

lemma show_int_no_NUL: "CHR 0x00 \<notin> set (show_int i)"
  by (auto dest!: show_int_chars simp: is_digit_def)

lemma slot_chars:
  assumes "slot_ok c i q" and "ch = TAB \<or> ch = LF \<or> ch = CHR 0x00"
  shows "ch \<notin> set (sl_kind q)" and "ch \<notin> set (sl_serial q)"
    and "ch \<notin> set (if sl_model q = [] then ''-'' else sl_model q)" and "ch \<notin> set (show_int p)"
proof -
  have w: "ch \<notin> set w" if "word_ok n w" for n w
    using word_ok_space [OF that, of TAB] word_ok_LF [OF that] word_ok_NUL [OF that] assms(2)
    by (auto simp: is_space_def TAB_def)
  from assms(1) have s: "word_ok 127 (sl_serial q)" "sl_model q = [] \<or> word_ok 95 (sl_model q)"
    "sl_kind q = dev_kind (sl_serial q)" by (simp_all add: slot_ok_def)
  show "ch \<notin> set (sl_serial q)" by (rule w [OF s(1)])
  show "ch \<notin> set (if sl_model q = [] then ''-'' else sl_model q)"
    using w s(2) assms(2) by (auto simp: TAB_def LF_def)
  show "ch \<notin> set (sl_kind q)" using dev_kind_chars assms(2) s(3) by auto
  show "ch \<notin> set (show_int p)" using assms(2) show_int_no_special show_int_no_NUL by blast
qed

lemma parse_slot_body:
  assumes "slot_ok c i q" and "0 < sl_adb_port q" and "int32 (sl_adb_port q)" and "length ip < 64"
  shows "parse_dev_line ip (slot_body q) = Some (dev_of ip q)"
proof -
  note ch = slot_chars [OF assms(1), of TAB]
  have "slot_body q \<noteq> []" by (simp add: slot_body_def)
  then have f: "g_strsplit (slot_body q) TAB = [show_int (sl_adb_port q), sl_kind q, sl_serial q,
      if sl_model q = [] then ''-'' else sl_model q, show_int (sl_stream_base q)]"
    by (simp add: g_strsplit_def slot_body_def split_on_append split_on_none ch del: split_on.simps)
  have "0 \<le> sl_stream_base q"
    using assms(1) by (auto simp: slot_ok_def stream_port_def STREAM_BASE_def)
  moreover have "length (show_int (sl_adb_port q)) \<le> 11" by (rule show_int_length [OF assms(3)])
  moreover have "length (sl_kind q) \<le> 8" "length (sl_model q) \<le> 95"
    using assms(1) dev_kind_length by (auto simp: slot_ok_def word_ok_def)
  ultimately show ?thesis
    using assms(2,4) by (simp add: parse_dev_line_def f dev_of_def fit_id Let_def)
qed

lemma split_slot_lines:
  assumes "\<forall>q \<in> set qs. LF \<notin> set (slot_body q)"
  shows "split_on LF (concat (map slot_line qs)) = map slot_body qs @ [[]]"
  using assms
proof (induction qs)
  case (Cons q qs)
  then show ?case using split_on_append [of LF "slot_body q" "concat (map slot_line qs)"]
    by (simp add: slot_line_body [of q])
qed simp

lemma parse_slot_bodies:
  assumes "\<forall>q \<in> set qs. parse_dev_line ip (slot_body q) = Some (dev_of ip q)"
  shows "parse_dev_lines ip (map slot_body qs @ [[]]) = map (dev_of ip) qs"
  using assms by (induction qs) (auto simp: slot_body_def)

definition ports_ok :: "agent_cfg \<Rightarrow> bool" where
  "ports_ok c \<longleftrightarrow> 0 < g_adb_base c \<and> int32 (g_adb_base c + int MAX_SLOTS)"

lemma reply_parsed:
  assumes inv: "agent_inv c s" and p: "ports_ok c" and ip: "length ip < 64"
  shows "parse_reply ip (discovery_text (g_slots s)) = Inr (map (dev_of ip) (filter listed (g_slots s)))"
    and "CHR 0x00 \<notin> set (discovery_text (g_slots s))"
proof -
  let ?qs = "filter listed (g_slots s)"
  have ports: "\<forall>i < MAX_SLOTS. int32 (g_adb_base c + int i)"
    using p by (auto simp: ports_ok_def int32_def)
  have ok: "\<exists>i. slot_ok c i q \<and> 0 < sl_adb_port q \<and> int32 (sl_adb_port q)" if "q \<in> set ?qs" for q
  proof -
    from that obtain i where i: "i < length (g_slots s)" "q = g_slots s ! i" by (auto simp: in_set_conv_nth)
    with inv p ports have "slot_ok c i q" "int32 (g_adb_base c + int i)" "0 < g_adb_base c"
      by (auto simp: agent_inv_def ports_ok_def)
    then show ?thesis by (intro exI [of _ i]) (simp add: slot_ok_def)
  qed
  have body: "ch \<notin> set (slot_body q)" if "q \<in> set ?qs" "ch = LF \<or> ch = CHR 0x00" for q ch
  proof -
    from ok [OF that(1)] obtain i where "slot_ok c i q" by blast
    note slot_chars [OF this, of ch]
    with that(2) show ?thesis by (auto simp: slot_body_def TAB_def LF_def)
  qed
  have t: "discovery_text (g_slots s) = ''RCAGENT 1'' @ LF # concat (map slot_line ?qs)"
    using discovery_text_complete(1) [OF inv ports]
    by (simp add: discovery_banner_def AGENT_PROTOCOL_VERSION_def show_int_def show_nat.simps digit_char_def char_of_def bit_0)
  have b: "LF \<notin> set ''RCAGENT 1''" by (simp add: LF_def)
  have "split_on LF (concat (map slot_line ?qs)) = map slot_body ?qs @ [[]]"
    by (rule split_slot_lines) (use body in blast)
  then have l: "g_strsplit (discovery_text (g_slots s)) LF = ''RCAGENT 1'' # map slot_body ?qs @ [[]]"
    unfolding t g_strsplit_def split_on_append [OF b] by simp
  have "parse_dev_lines ip (map slot_body ?qs @ [[]]) = map (dev_of ip) ?qs"
    by (rule parse_slot_bodies) (use ok parse_slot_body ip in blast)
  then show "parse_reply ip (discovery_text (g_slots s)) = Inr (map (dev_of ip) ?qs)"
    unfolding parse_reply_def l
    by (simp add: atoi_def RC_AGENT_PROTOCOL_VERSION_def is_digit_def is_space_def)
  show "CHR 0x00 \<notin> set (discovery_text (g_slots s))"
    unfolding t using body [of _ "CHR 0x00"] by (auto simp: slot_line_body LF_def)
qed

section \<open>The scan returns\<close>

text \<open>From call \<open>n\<close> on every call succeeds at once.\<close>

definition prompt :: "env \<Rightarrow> nat \<Rightarrow> bool" where
  "prompt E n \<longleftrightarrow> (\<forall>m\<ge>n. 0 < e_ret E m \<and> e_delay E m = 0)"

lemma sys_read_step:
  assumes "Eof \<in> set (inq s fd)" and "0 < n"
  shows "\<exists>r s'. sys_read E fd n s = Some (r, s') \<and> Eof \<in> set (inq s' fd) \<and> tick s' = Suc (tick s) \<and>
     clock s' = clock s + int (e_delay E (tick s)) \<and> set (inq s' fd) \<inter> {SockErr} \<subseteq> set (inq s fd) \<and>
     (r = ReadIntr \<longrightarrow> length (inq s' fd) < length (inq s fd)) \<and> r \<noteq> ReadBlock \<and>
     (r = ReadErr \<longrightarrow> SockErr \<in> set (inq s fd))"
  using assms
  by (cases "(inq s fd, n)" rule: sock_read.cases) (auto simp: sys_read_def step_os_def)

lemma read_eof_returns:
  assumes "signals_end E N" and "Eof \<in> set (inq s fd)"
  shows "\<exists>r s'. read_eof_loop E fd cap deadline got s = Some (r, s') \<and>
     (prompt E (tick s) \<and> clock s < deadline \<and> SockErr \<notin> set (inq s fd) \<longrightarrow> r \<noteq> None)"
  using assms(2)
proof (induction "(N - tick s, (cap - length got, length (inq s fd)))" arbitrary: got s
    rule: wf_induct [OF wf_lex_prod [OF wf_less_than wf_lex_prod [OF wf_less_than wf_less_than]]])
  case (1 got s)
  note IH = 1(1) [rule_format, OF _ refl]
  obtain r s1 where p: "sys_poll E (nat (deadline - clock s)) s = (r, s1)" by fastforce
  note f1 = read_frame_poll [OF p, of fd] and t1 = sys_poll_tick [OF p]
  have in1: "inq s1 fd = inq s fd" using f1 by simp
  have pr: "0 < r \<and> clock s1 = clock s" if "prompt E (tick s)"
    using p that [unfolded prompt_def, rule_format, of "tick s"]
    by (auto simp: sys_poll_def Let_def step_os_def)
  have later: "prompt E (tick s) \<Longrightarrow> prompt E (tick s')" if "tick s \<le> tick s'" for s' :: "'a os_scheme"
    using that by (simp add: prompt_def)
  show ?case
  proof (cases "cap - 1 \<le> length got \<or> deadline \<le> clock s \<or> (r \<le> 0 \<and> \<not> (r < 0 \<and> e_errno E (tick s) = EINTR))")
    case True
    then show ?thesis using p pr by (subst read_eof_loop.simps) auto
  next
    case go: False
    show ?thesis
    proof (cases "r < 0")
      case True
      with go have "e_errno E (tick s) = EINTR" by auto
      then have "tick s < N" using assms(1) by (fastforce simp: signals_end_def not_le)
      then have "\<exists>r s'. read_eof_loop E fd cap deadline got s1 = Some (r, s')"
        using IH [of s1 got] t1 in1 1(2) diff_less_mono2 [of "tick s" "Suc (tick s)" N] by auto
      moreover have "\<not> prompt E (tick s)" using pr True by auto
      ultimately show ?thesis using go True p by (subst read_eof_loop.simps) auto
    next
      case False
      with go have room: "0 < cap - 1 - length got" by auto
      from sys_read_step [of s1 fd, OF _ this] 1(2) in1 obtain rr s2
        where rd: "sys_read E fd (cap - 1 - length got) s1 = Some (rr, s2)" "Eof \<in> set (inq s2 fd)"
          "tick s2 = Suc (tick s1)" "clock s2 = clock s1 + int (e_delay E (tick s1))"
          "set (inq s2 fd) \<inter> {SockErr} \<subseteq> set (inq s fd)"
          "rr = ReadIntr \<longrightarrow> length (inq s2 fd) < length (inq s fd)" "rr \<noteq> ReadBlock"
          "rr = ReadErr \<longrightarrow> SockErr \<in> set (inq s fd)"
        by metis
      have cl: "clock s2 = clock s" if "prompt E (tick s)"
        using pr [OF that] rd(4) t1 that by (simp add: prompt_def)
      have rec: "\<exists>r s'. read_eof_loop E fd cap deadline got' s2 = Some (r, s') \<and>
          (prompt E (tick s) \<and> clock s < deadline \<and> SockErr \<notin> set (inq s fd) \<longrightarrow> r \<noteq> None)"
        if "cap - length got' < cap - length got \<or> got' = got \<and> length (inq s2 fd) < length (inq s fd)" for got'
      proof -
        have "tick s \<le> tick s2" using rd(3) t1 by simp
        with IH [of s2 got'] that rd(2,5) cl later show ?thesis by fastforce
      qed
      show ?thesis
      proof (cases rr)
        case (Got bs)
        show ?thesis
        proof (cases "bs = []")
          case True
          with Got go False p rd(1) show ?thesis by (subst read_eof_loop.simps) auto
        next
          case ne: False
          then have "cap - length (got @ bs) < cap - length got" using room by (cases bs) auto
          with rec [of "got @ bs"] Got ne go False p rd(1) show ?thesis
            by (subst read_eof_loop.simps) auto
        qed
      next
        case ReadIntr
        with rec [of got] rd(1,6) go False p show ?thesis by (subst read_eof_loop.simps) auto
      next
        case ReadErr
        with rd(1,8) go False p show ?thesis by (subst read_eof_loop.simps) auto
      qed (use rd(7) in simp)
    qed
  qed
qed

section \<open>Round trip through both programs\<close>

lemma connect_timeout_opens: "opens E s (connect_timeout E ip port ms s)"
proof (rule calm_opens [of s "step_os E s"])
  show "opens E (step_os E s) (connect_timeout E ip port ms s)"
  proof (cases "e_addrs E ip (fit 8 (show_int port))")
    case None
    then show ?thesis by (simp add: connect_timeout_def Let_def opens_def gives_fd_def same_streams_def)
  qed (simp add: connect_timeout_def Let_def connect_ais_opens)
qed simp

interpretation gtk_connect: fd_provider "connect_timeout E ip port ms" for E ip port ms
  by unfold_locales (rule opens_gives [OF connect_timeout_opens])

text \<open>
  C35: discovery is exact.  When the front end is connected to the discovery port of an agent, however
  the network cuts the agent's answer and however slow it is, the scan returns and closes its
  connection, and the result is either the error \<^const>\<open>NoReply\<close> or exactly the slots that are present and
  ready, in order, each with the address, adb port, kind, model and stream ports the agent has for it.
  When nothing is delayed and no read fails it is the list.
\<close>

theorem discovery_roundtrip:
  assumes "agent_inv c a" and "ports_ok c" and "length ip < 64"
    and "connect_timeout E ip port 2000 s = (fd, s1)" and "0 \<le> fd"
    and "sock_bytes (inq s1 fd) = map of_char (discovery_text (g_slots a))"
    and "Eof \<in> set (inq s1 fd)" and "signals_end E N"
  shows "\<exists>r s'. agent_scan_port E ip port s = Some (r, s') \<and> set (open_fds s') = set (open_fds s) \<and>
     (r = Inl NoReply \<or> r = Inr (map (dev_of ip) (filter listed (g_slots a)))) \<and>
     (prompt E (tick s1) \<and> SockErr \<notin> set (inq s1 fd) \<longrightarrow>
        r = Inr (map (dev_of ip) (filter listed (g_slots a))))"
proof -
  let ?T = "discovery_text (g_slots a)"
  note rp = reply_parsed [OF assms(1-3)]
  have ports: "\<forall>i < MAX_SLOTS. int32 (g_adb_base c + int i)"
    using assms(2) by (auto simp: ports_ok_def int32_def)
  have T: "?T \<noteq> []" "length ?T < 4096"
    using discovery_text_complete [OF assms(1) ports] by (simp_all add: discovery_banner_def)
  obtain got s2 where rd: "read_to_eof E fd 65536 3000 s1 = Some (got, s2)"
    and ok: "prompt E (tick s1) \<and> SockErr \<notin> set (inq s1 fd) \<longrightarrow> got \<noteq> None"
    using read_eof_returns [OF assms(8,7), of 65536 "clock s1 + int 3000" "[]"]
    by (auto simp: read_to_eof_def)
  have fr: "read_frame fd s1 s2" "got = None \<or> got = Some (map of_char ?T)"
    using read_eof_spec [OF rd [unfolded read_to_eof_def]] T(2) assms(6) by simp_all
  have "set (open_fds (sys_close E fd s2)) = set (open_fds s)"
    using gtk_connect.ok [OF assms(4,5)] fr(1) by (auto simp: read_frame_def sys_close_def)
  with assms(4,5) rd fr(2) ok T(1) show ?thesis
    by (auto simp: agent_scan_port_def cstr_of_char [OF rp(2)] rp(1))
qed

text \<open>An agent with one emulator, asked by a front end whose read is interrupted once.\<close>

definition demo_slot :: slot where
  "demo_slot = \<lparr>sl_serial = ''emulator-5554'', sl_model = ''Pixel_8'', sl_kind = ''emulator'',
     sl_adb_dst_host = ''127.0.0.1'', sl_adb_dst_port = 25553, sl_idx = 0, sl_adb_port = 15553,
     sl_stream_base = 27183, sl_present = True, sl_ready = True, sl_reappeared = False\<rparr>"

definition demo_slot_agent :: agent_sys where
  "demo_slot_agent = demo_relay_agent\<lparr>g_slots := [demo_slot]\<rparr>"

definition demo_reply_env :: env where
  "demo_reply_env = demo_env\<lparr>e_ret := (\<lambda>_. 1), e_delay := (\<lambda>_. 0),
     e_stream := (\<lambda>_. [Eintr, Chunk (map of_char (discovery_text (g_slots demo_slot_agent))), Eof])\<rparr>"

lemma demo_reply_env_sel [simp]:
  "e_ret demo_reply_env n = 1" "e_delay demo_reply_env n = 0" "e_errno demo_reply_env n = EOther"
  "e_addrs demo_reply_env h p = Some 1"
  "e_stream demo_reply_env n = [Eintr, Chunk (map of_char (discovery_text (g_slots demo_slot_agent))), Eof]"
  by (simp_all add: demo_reply_env_def demo_env_def)

lemma demo_slot_agent_inv: "agent_inv demo_agent_cfg demo_slot_agent"
  by (simp add: agent_inv_def demo_slot_agent_def demo_relay_agent_def demo_agent_def demo_slot_def
      demo_agent_cfg_def slot_ok_def dev_kind_def stream_port_def STREAM_BASE_def STREAM_COUNT_def
      MAX_SLOTS_def MAX_LISTENERS_def word_ok_def is_space_def dst_ok_def adb_dst_def LOC_OFFSET_def
      listener_ok_def adb_listener_def)

theorem discovery_roundtrip_witness:
  "agent_inv demo_agent_cfg demo_slot_agent \<and>
   (\<exists>s'. agent_scan_port demo_reply_env ''10.0.0.2'' 8888 demo_os = Some (Inr [dev_of ''10.0.0.2'' demo_slot], s'))"
proof -
  let ?B = "map of_char (discovery_text (g_slots demo_slot_agent)) :: byte list"
  have p: "ports_ok demo_agent_cfg" by (simp add: ports_ok_def demo_agent_cfg_def int32_def MAX_SLOTS_def)
  let ?r = "connect_timeout demo_reply_env ''10.0.0.2'' 8888 2000 demo_os"
  have "fst ?r = 3 \<and> inq (snd ?r) 3 = [Eintr, Chunk ?B, Eof]"
    by (simp add: connect_timeout_def connect_ai_def sys_open_fd_def fresh_fd_def sys_ret_def step_os_def
        Let_def demo_os_def One_nat_def)
  then obtain s1 where c: "?r = (3, s1)" "inq s1 3 = [Eintr, Chunk ?B, Eof]" by (cases ?r) simp
  have "sock_bytes (inq s1 3) = ?B" "Eof \<in> set (inq s1 3)" "SockErr \<notin> set (inq s1 3)"
    by (simp_all add: c(2))
  moreover have "signals_end demo_reply_env 0" "prompt demo_reply_env (tick s1)"
    by (simp_all add: signals_end_def prompt_def)
  moreover have "filter listed (g_slots demo_slot_agent) = [demo_slot]"
    by (simp add: demo_slot_agent_def demo_slot_def listed_def)
  ultimately show ?thesis
    using discovery_roundtrip [OF demo_slot_agent_inv p _ c(1), of 0] demo_slot_agent_inv by auto
qed

end
