(* ===== verification/Gtk_State.thy ===== *)
theory Gtk_State
  imports RC_Client Gtk_Agent
begin

text \<open>
  \<^verbatim>\<open>frontends/gtk/rcgtk.h\<close>: the state of a mirror session (\<^verbatim>\<open>Session\<close>) and of the application
  (\<^verbatim>\<open>App\<close>), and how the front end calls the core.  Widgets are present or absent; what they report
  (sizes, selections, key values) is an argument of the operations that read it.  Timers are armed or
  not.  The kernel state is passed next to the session, because all sessions of the process share it.
\<close>

section \<open>Sessions\<close>

text \<open>The thread that runs \<^verbatim>\<open>rc_client_start\<close>: not created, created and not yet finished, finished and not
  yet joined.\<close>

datatype start_thread = NoThread | Starting | Finished

datatype gl_ifmt = NoFmt | GL_R8 | GL_RG8

record session =
  s_client :: "rc_client option"
  s_cfg :: rc_config
  serial_owned :: "string option"
  tcp_owned :: "string option"
  lan_port :: int
  stream_k :: int
  torn :: bool
  start_thread :: start_thread
  has_bar :: bool
  has_gl :: bool
  prog :: nat
  vao :: nat
  vbo :: nat
  tex :: "nat list"
  u_tex :: "int list"
  u_cmat :: int
  u_yoff :: int
  u_nv12 :: int
  tex_w :: "int list"
  tex_h :: "int list"
  tex_ifmt :: "gl_ifmt list"
  have_pending :: bool
  vw :: int
  vh :: int
  pixfmt :: rc_pixfmt
  full_range :: bool
  bt709 :: bool
  plane :: "byte list option list"
  pstride :: "int list"
  pcap :: "nat list"
  render_scheduled :: bool
  alive :: bool
  logged_first :: bool
  fb_w :: int
  fb_h :: int
  show_fps :: bool
  frame_count :: int
  fps_timer :: bool
  pend_recv_ms :: int
  pend_pts_us :: int
  lat_sum_ms :: int
  lag_sum_ms :: int
  lat_n :: int
  lag_base_us :: int
  title_timer :: bool
  title_base :: string
  mouse_buttons :: u32
  dev_x :: f32
  dev_y :: f32
  keys_down :: "byte list"

definition G_MAXINT64 :: int where "G_MAXINT64 = 2 ^ 63 - 1"

text \<open>\<^verbatim>\<open>g_new0(Session, 1)\<close> followed by the atomics and the fields \<^verbatim>\<open>session_new\<close> sets to constants.\<close>

definition new_session :: "rc_config \<Rightarrow> session" where
  "new_session cf = \<lparr>s_client = None, s_cfg = cf, serial_owned = None, tcp_owned = None, lan_port = 0,
     stream_k = -1, torn = False, start_thread = NoThread, has_bar = False, has_gl = False, prog = 0, vao = 0, vbo = 0,
     tex = [0, 0, 0], u_tex = [0, 0, 0], u_cmat = 0, u_yoff = 0, u_nv12 = 0,
     tex_w = [0, 0, 0], tex_h = [0, 0, 0], tex_ifmt = [NoFmt, NoFmt, NoFmt], have_pending = False,
     vw = 0, vh = 0, pixfmt = RC_PIX_I420, full_range = False, bt709 = False,
     plane = [None, None, None], pstride = [0, 0, 0], pcap = [0, 0, 0], render_scheduled = False,
     alive = True, logged_first = False, fb_w = 0, fb_h = 0, show_fps = False, frame_count = 0,
     fps_timer = False, pend_recv_ms = 0, pend_pts_us = 0, lat_sum_ms = 0, lag_sum_ms = 0, lat_n = 0,
     lag_base_us = G_MAXINT64, title_timer = False, title_base = [], mouse_buttons = 0, dev_x = 0,
     dev_y = 0, keys_down = replicate 32 0\<rparr>"

section \<open>The application\<close>

text \<open>A drop-down or check button is \<^term>\<open>None\<close> before the chooser is shown, else the address of its object.\<close>

record app =
  base :: rc_config
  sel_max_size :: int
  sel_bit_rate :: int
  sel_audio :: bool
  sel_control :: bool
  sel_show_fps :: bool
  dd_size :: "nat option"
  dd_bitrate :: "nat option"
  cb_audio :: "nat option"
  cb_control :: "nat option"
  cb_fps :: "nat option"
  sessions :: "session list"
  agent_devs :: "string \<rightharpoonup> agent_dev"
  probed_hosts :: "string set"

section \<open>Calling the core\<close>

text \<open>The state a core function runs on: the kernel and one client.  The status callback of the front
  end only logs.\<close>

definition core :: "rc_client \<Rightarrow> os \<Rightarrow> sys" where
  "core c w = os.extend w \<lparr>client = c, statuses = []\<rparr>"

definition run_core ::
    "(sys \<Rightarrow> ('r \<times> sys) option) \<Rightarrow> rc_client \<Rightarrow> session \<Rightarrow> os \<Rightarrow> ('r \<times> session \<times> os) option" where
  "run_core f c st w = do {
     (r, s) \<leftarrow> f (core c w);
     Some (r, st\<lparr>s_client := Some (client s)\<rparr>, os.truncate s)
   }"

lemma core_sel [simp]:
  "client (core c w) = c" "open_fds (core c w) = open_fds w" "children (core c w) = children w"
  "clock (core c w) = clock w" "tick (core c w) = tick w" "inq (core c w) = inq w"
  "outq (core c w) = outq w" "sent (core c w) = sent w"
  by (simp_all add: core_def os.defs)

lemma truncate_sel [simp]:
  "open_fds (os.truncate s) = open_fds s" "children (os.truncate s) = children s"
  "clock (os.truncate s) = clock s" "tick (os.truncate s) = tick s" "inq (os.truncate s) = inq s"
  "outq (os.truncate s) = outq s" "sent (os.truncate s) = sent s"
  by (simp_all add: os.defs)

lemma run_core_Some:
  "run_core f c st w = Some (r, st', w') \<longleftrightarrow>
     (\<exists>s. f (core c w) = Some (r, s) \<and> st' = st\<lparr>s_client := Some (client s)\<rparr> \<and> w' = os.truncate s)"
  by (auto simp: run_core_def bind_eq_Some_conv)

end
