(* ===== verification/Gtk_Session.thy ===== *)
theory Gtk_Session
  imports Gtk_State "HOL-Library.Signed_Division"
begin

text \<open>
  \<^verbatim>\<open>frontends/gtk/session.c\<close>: choosing the ports of a new session, opening it, the thread that starts
  the core, the two timers, and tearing a session down.  The application is a transition system over
  its list of sessions and the kernel; its invariant accounts for every descriptor and child process
  the sessions hold and keeps the ports of live sessions apart.
\<close>

section \<open>Ports\<close>

definition RC_LAN_BASE_PORT :: int where "RC_LAN_BASE_PORT = 27183"

definition lan_used :: "app \<Rightarrow> int \<Rightarrow> bool" where
  "lan_used a port \<longleftrightarrow> list_ex (\<lambda>s. \<not> torn s \<and> lan_port s = port) (sessions a)"

function lan_port_from :: "app \<Rightarrow> int \<Rightarrow> int" where
  "lan_port_from a port = (if lan_used a port then lan_port_from a (port + 1) else port)"
  by pat_completeness auto
termination
proof (relation "measure (\<lambda>(a, port). length (filter (\<lambda>s. port \<le> lan_port s) (sessions a)))", goal_cases)
  case (2 a port)
  then obtain s where s: "s \<in> set (sessions a)" "lan_port s = port" by (auto simp: lan_used_def list_ex_iff)
  let ?l = "filter (\<lambda>s. port \<le> lan_port s) (sessions a)"
  have "filter (\<lambda>s. port + 1 \<le> lan_port s) (sessions a) = filter (\<lambda>s. lan_port s \<noteq> port) ?l"
    by (auto intro!: filter_cong)
  moreover have "length (filter (\<lambda>s. lan_port s \<noteq> port) ?l) < length ?l"
    by (rule length_filter_less [of s]) (use s in auto)
  ultimately show ?case by simp
qed simp

declare lan_port_from.simps [simp del]

definition alloc_lan_port :: "app \<Rightarrow> int" where
  "alloc_lan_port a = lan_port_from a RC_LAN_BASE_PORT"

definition k_used :: "app \<Rightarrow> string option \<Rightarrow> int \<Rightarrow> bool" where
  "k_used a ser k \<longleftrightarrow> list_ex (\<lambda>s. \<not> torn s \<and> stream_k s = k \<and> serial_owned s \<noteq> None \<and> ser \<noteq> None \<and>
     serial_owned s = ser) (sessions a)"

fun first_free_k :: "app \<Rightarrow> string option \<Rightarrow> int list \<Rightarrow> int" where
  "first_free_k a ser [] = -1"
| "first_free_k a ser (k # ks) = (if k_used a ser k then first_free_k a ser ks else k)"

definition alloc_stream_k :: "app \<Rightarrow> string option \<Rightarrow> int" where
  "alloc_stream_k a ser = first_free_k a ser (map int [0 ..< STREAM_COUNT])"

section \<open>Titles\<close>

text \<open>The texts are the UTF-8 bytes of the literals in the source.\<close>

definition MIDDOT :: string where "MIDDOT = [CHR '' '', CHR 0xC2, CHR 0xB7, CHR '' '']"

definition TITLE :: string where
  "TITLE = ''RigControlNative '' @ [CHR 0xE2, CHR 0x80, CHR 0x94, CHR '' '']"

definition CONNECTING :: string where
  "CONNECTING = [CHR 0xC4, CHR 0x91] @ ''ang k'' @ [CHR 0xE1, CHR 0xBA, CHR 0xBF] @ ''t n'' @
     [CHR 0xE1, CHR 0xBB, CHR 0x91] @ ''i'' @ [CHR 0xE2, CHR 0x80, CHR 0xA6]"

fun desc_text :: "transport_desc \<Rightarrow> string" where
  "desc_text LanDirect = ''LAN tr'' @ [CHR 0xE1, CHR 0xBB, CHR 0xB1] @ ''c ti'' @ [CHR 0xE1, CHR 0xBA, CHR 0xBF] @ ''p''"
| "desc_text LanViaAdb = ''LAN qua adb''"
| "desc_text AdbEmulator = ''adb (m'' @ [CHR 0xC3, CHR 0xA1] @ ''y '' @ [CHR 0xE1, CHR 0xBA, CHR 0xA3] @ ''o)''"
| "desc_text UsbCable = ''USB''"

definition title_text :: "string \<Rightarrow> string \<Rightarrow> string" where
  "title_text tag what = fit 160 (TITLE @ tag @ '' ('' @ what @ '')'')"

definition session_tag :: "string option \<Rightarrow> string option \<Rightarrow> string" where
  "session_tag ser tcp =
     (case ser of Some t \<Rightarrow> t | None \<Rightarrow> (case tcp of Some t \<Rightarrow> t | None \<Rightarrow> ''default''))"

text \<open>The callbacks return whether the timer goes on, and the title they set.  \<^verbatim>\<open>int64 / int\<close> truncates.\<close>

definition fps_tick :: "session \<Rightarrow> bool \<times> string option \<times> session" where
  "fps_tick st =
     (if \<not> alive st then (False, None, st)
      else
        let dec = rc_client_get_decoder_desc (s_client st);
            fps = frame_count st;
            lat = (if 0 < lat_n st then
                     fit 48 (MIDDOT @ ''pipe '' @ show_int (lat_sum_ms st sdiv lat_n st) @ ''ms'' @ MIDDOT @
                       ''lag +'' @ show_int (lag_sum_ms st sdiv lat_n st) @ ''ms'')
                   else []);
            st = st\<lparr>frame_count := 0\<rparr>;
            st = (if 0 < lat_n st then st\<lparr>lat_sum_ms := 0, lag_sum_ms := 0, lat_n := 0\<rparr> else st);
            buf = fit 256 (title_base st @ MIDDOT @ show_int fps @ '' FPS'' @ lat @
                    (case dec of Some d \<Rightarrow> MIDDOT @ d | None \<Rightarrow> []))
        in (True, Some buf, st))"

definition title_tick :: "session \<Rightarrow> bool \<times> string option \<times> session" where
  "title_tick st =
     (if \<not> alive st then (False, None, st\<lparr>title_timer := False\<rparr>)
      else (case rc_client_get_transport_desc (s_client st) of
              None \<Rightarrow> (True, None, st)
            | Some t \<Rightarrow>
                let st = st\<lparr>title_base := title_text (session_tag (serial_owned st) (tcp_owned st)) (desc_text t)\<rparr>
                in (False, Some (title_base st), st\<lparr>title_timer := False\<rparr>)))"

section \<open>Opening a session\<close>

text \<open>The address and the ports of a new session: \<open>s\<close> has its serial and \<^verbatim>\<open>tcp_owned\<close> set.\<close>

definition choose_ports :: "app \<Rightarrow> string option \<Rightarrow> session \<Rightarrow> session" where
  "choose_ports a ser s =
     (case tcp_owned s of
        None \<Rightarrow> s
      | Some addr \<Rightarrow>
          let s = s\<lparr>s_cfg := (s_cfg s)\<lparr>transport := RC_TRANSPORT_TCP\<rparr>\<rparr>;
              ad = (case ser of None \<Rightarrow> None | Some x \<Rightarrow> agent_devs a x) in
          if CHR '':'' \<in> set addr then s\<lparr>s_cfg := (s_cfg s)\<lparr>tcp_addr := Some addr\<rparr>\<rparr>
          else (case ad of
             Some d \<Rightarrow>
               if 0 < ad_stream_base d then
                 (let k = alloc_stream_k a ser in
                  if 0 \<le> k then
                    let withport = addr @ '':'' @ show_int (ad_stream_base d + k) in
                    s\<lparr>stream_k := k, tcp_owned := Some withport,
                      s_cfg := (s_cfg s)\<lparr>tcp_addr := Some withport, tcp_device_port := RC_LAN_BASE_PORT + k\<rparr>\<rparr>
                  else
                    s\<lparr>tcp_owned := None, s_cfg := (s_cfg s)\<lparr>transport := RC_TRANSPORT_USB, tcp_addr := None\<rparr>\<rparr>)
               else
                 (let p = alloc_lan_port a; withport = addr @ '':'' @ show_int p in
                  s\<lparr>lan_port := p, tcp_owned := Some withport, s_cfg := (s_cfg s)\<lparr>tcp_addr := Some withport\<rparr>\<rparr>)
           | None \<Rightarrow>
               (let p = alloc_lan_port a; withport = addr @ '':'' @ show_int p in
                s\<lparr>lan_port := p, tcp_owned := Some withport, s_cfg := (s_cfg s)\<lparr>tcp_addr := Some withport\<rparr>\<rparr>)))"

definition session_config :: "app \<Rightarrow> string option \<Rightarrow> string option \<Rightarrow> session" where
  "session_config a ser tcp =
     (let cf = (base a)\<lparr>max_size := sel_max_size a, bit_rate := sel_bit_rate a, audio := sel_audio a,
                 control := sel_control a, serial := ser\<rparr>
      in (new_session cf)\<lparr>show_fps := sel_show_fps a, serial_owned := ser, tcp_owned := tcp\<rparr>)"

text \<open>\<^verbatim>\<open>build_view\<close>: the navigation bar only with control, the video area always.\<close>

definition build_view :: "session \<Rightarrow> session" where
  "build_view st =
     (let st = (if control (s_cfg st) then st\<lparr>has_bar := True\<rparr> else st);
          st = st\<lparr>has_gl := True\<rparr>
      in if show_fps st then st\<lparr>fps_timer := True\<rparr> else st)"

text \<open>\<open>mem\<close>, \<open>pid\<close> and \<open>scid\<close> are the parameters of \<^const>\<open>rc_client_create\<close>.\<close>

definition session_new ::
    "(nat \<Rightarrow> bool) \<Rightarrow> int \<Rightarrow> int \<Rightarrow> string option \<Rightarrow> string option \<Rightarrow> app \<Rightarrow> app \<times> int" where
  "session_new mem pid scid ser tcp a =
     (let s = choose_ports a ser (session_config a ser tcp);
          (c, scid) = rc_client_create mem pid scid (Some (s_cfg s)) in
      case c of
        None \<Rightarrow> (a, scid)
      | Some c \<Rightarrow>
          let c = rc_client_set_status_callback True (rc_client_set_frame_callback True c);
              s = s\<lparr>s_client := Some c\<rparr>;
              s = s\<lparr>title_base := title_text (session_tag ser (tcp_owned s)) CONNECTING, title_timer := True\<rparr>;
              s = build_view s
          in (a\<lparr>sessions := s\<lparr>start_thread := Starting\<rparr> # sessions a\<rparr>, scid))"

section \<open>Starting and tearing down\<close>

text \<open>The body of the start thread.  Its effect is taken at the moment it finishes; what other threads
  do meanwhile reaches it through the environment.\<close>

definition run_start_thread ::
    "env \<Rightarrow> ffmpeg \<Rightarrow> bool \<Rightarrow> session \<Rightarrow> os \<Rightarrow> (session \<times> os) option" where
  "run_start_thread E FF apple st w =
     (case s_client st of
        None \<Rightarrow> Some (st\<lparr>start_thread := Finished\<rparr>, w)
      | Some c \<Rightarrow> do {
          (r, st, w) \<leftarrow> run_core (rc_client_start E FF apple) c st w;
          Some (st\<lparr>start_thread := Finished\<rparr>, w)
        })"

definition render_free_planes :: "session \<Rightarrow> session" where
  "render_free_planes st = st\<lparr>plane := map (\<lambda>_. None) (plane st)\<rparr>"

text \<open>\<^verbatim>\<open>g_thread_join\<close> returns when the thread has finished; one that is still starting finishes then.\<close>

definition join_start ::
    "env \<Rightarrow> ffmpeg \<Rightarrow> bool \<Rightarrow> session \<Rightarrow> os \<Rightarrow> (session \<times> os) option" where
  "join_start E FF apple st w = do {
     (st, w) \<leftarrow> (if start_thread st = Starting then run_start_thread E FF apple st w else Some (st, w));
     Some (st\<lparr>start_thread := NoThread\<rparr>, w)
   }"

definition stop_client :: "env \<Rightarrow> session \<Rightarrow> os \<Rightarrow> (session \<times> os) option" where
  "stop_client E st w =
     (case s_client st of
        None \<Rightarrow> Some (st, w)
      | Some c \<Rightarrow> do {
          s \<leftarrow> rc_client_stop E (core c w);
          (c, s) \<leftarrow> rc_client_destroy E s;
          Some (st\<lparr>s_client := c\<rparr>, os.truncate s)
        })"

definition session_teardown ::
    "env \<Rightarrow> ffmpeg \<Rightarrow> bool \<Rightarrow> session \<Rightarrow> os \<Rightarrow> (session \<times> os) option" where
  "session_teardown E FF apple st w =
     (if torn st then Some (st, w)
      else do {
        let st = st\<lparr>torn := True, alive := False, has_gl := False\<rparr>;
        let st = (if fps_timer st then st\<lparr>fps_timer := False\<rparr> else st);
        let st = (if title_timer st then st\<lparr>title_timer := False\<rparr> else st);
        let st = (case s_client st of
                    None \<Rightarrow> st
                  | Some c \<Rightarrow> st\<lparr>s_client := Some (client (rc_client_abort (core c w)))\<rparr>);
        (st, w) \<leftarrow> join_start E FF apple st w;
        (st, w) \<leftarrow> stop_client E st w;
        Some (render_free_planes st, w)
      })"

text \<open>\<^verbatim>\<open>session_free\<close>: the session itself is gone afterwards.\<close>

definition session_free :: "env \<Rightarrow> ffmpeg \<Rightarrow> bool \<Rightarrow> session \<Rightarrow> os \<Rightarrow> os option" where
  "session_free E FF apple st w = do { (_, w) \<leftarrow> session_teardown E FF apple st w; Some w }"

text \<open>\<^verbatim>\<open>g_list_free_full(app.sessions, session_free)\<close>.\<close>

fun free_sessions ::
    "env \<Rightarrow> ffmpeg \<Rightarrow> bool \<Rightarrow> session list \<Rightarrow> os \<Rightarrow> os option" where
  "free_sessions E FF apple [] w = Some w"
| "free_sessions E FF apple (st # sts) w = do {
     w \<leftarrow> session_free E FF apple st w;
     free_sessions E FF apple sts w
   }"

section \<open>Allocating the lowest free number\<close>

text \<open>The contract both allocators share: a number from \<open>lo\<close> on is free when it is handed out, and all
  smaller ones are in use.\<close>

locale lowest_free =
  fixes alloc :: "'a \<Rightarrow> int" and used :: "'a \<Rightarrow> int \<Rightarrow> bool" and lo :: int
  assumes free: "lo \<le> alloc a \<Longrightarrow> \<not> used a (alloc a)"
    and least: "lo \<le> k \<Longrightarrow> k < alloc a \<Longrightarrow> used a k"
begin

lemma fresh: "lo \<le> alloc a \<Longrightarrow> used a k \<Longrightarrow> k \<noteq> alloc a"
  using free by auto

lemma alloc_le: "lo \<le> k \<Longrightarrow> \<not> used a k \<Longrightarrow> alloc a \<le> k"
  using least [of k a] by linarith

end

lemma lan_port_from_spec:
  "\<not> lan_used a (lan_port_from a p) \<and> p \<le> lan_port_from a p \<and>
     (\<forall>k. p \<le> k \<and> k < lan_port_from a p \<longrightarrow> lan_used a k)"
proof (induction a p rule: lan_port_from.induct)
  case (1 a p)
  show ?case
  proof (cases "lan_used a p")
    case True
    then have e: "lan_port_from a p = lan_port_from a (p + 1)" by (subst lan_port_from.simps) simp
    have "p + 1 \<le> k" if "p \<le> k" "\<not> lan_used a p \<or> k \<noteq> p" for k using that True by auto
    with 1 [OF True] True show ?thesis unfolding e by (metis add1_zle_eq order.strict_iff_order order_trans zle_add1_eq_le)
  next
    case False
    then have "lan_port_from a p = p" by (subst lan_port_from.simps) simp
    with False show ?thesis by auto
  qed
qed

lemma lan_port_ge: "RC_LAN_BASE_PORT \<le> alloc_lan_port a"
  using lan_port_from_spec by (simp add: alloc_lan_port_def)

interpretation lan: lowest_free alloc_lan_port lan_used RC_LAN_BASE_PORT
  by unfold_locales (use lan_port_from_spec in \<open>auto simp: alloc_lan_port_def\<close>)

lemma alloc_stream_k_cases:
  "(alloc_stream_k a ser = -1 \<and> (\<forall>k. 0 \<le> k \<and> k < int STREAM_COUNT \<longrightarrow> k_used a ser k)) \<or>
   (0 \<le> alloc_stream_k a ser \<and> alloc_stream_k a ser < int STREAM_COUNT \<and> \<not> k_used a ser (alloc_stream_k a ser) \<and>
      (\<forall>k. 0 \<le> k \<and> k < alloc_stream_k a ser \<longrightarrow> k_used a ser k))"
proof -
  have n: "map int [0 ..< STREAM_COUNT] = [0, 1, 2, 3]"
    by (simp add: STREAM_COUNT_def upt_rec numeral_nat)
  have k: "0 \<le> k \<and> k < 4 \<longleftrightarrow> k = 0 \<or> k = 1 \<or> k = 2 \<or> k = 3" "0 \<le> k \<and> k < 3 \<longleftrightarrow> k = 0 \<or> k = 1 \<or> k = 2"
    "0 \<le> k \<and> k < 2 \<longleftrightarrow> k = 0 \<or> k = 1" "0 \<le> k \<and> k < 1 \<longleftrightarrow> k = 0" for k :: int by linarith+
  have c: "int STREAM_COUNT = 4" by (simp add: STREAM_COUNT_def)
  show ?thesis unfolding alloc_stream_k_def n c by (auto simp: k)
qed

interpretation stream: lowest_free "\<lambda>a. alloc_stream_k a ser" "\<lambda>a. k_used a ser" 0 for ser
  by unfold_locales (use alloc_stream_k_cases in \<open>force+\<close>)

section \<open>The application as a transition system\<close>

text \<open>What the threads of the core do to a client on their own.\<close>

inductive thread_step :: "rc_client \<Rightarrow> rc_client \<Rightarrow> bool" where
  "net_thread c \<Longrightarrow> running c \<Longrightarrow> thread_step c (c\<lparr>decoder := dd, decoder_desc := ds\<rparr>)"
| "net_thread c \<Longrightarrow> thread_step c (c\<lparr>running := False\<rparr>)"
| "audio_thread c \<Longrightarrow> thread_step c (c\<lparr>audio_player := pl\<rparr>)"

definition set_session :: "nat \<Rightarrow> session \<Rightarrow> app \<Rightarrow> app" where
  "set_session i st a = a\<lparr>sessions := (sessions a)[i := st]\<rparr>"

text \<open>The fields of a session that its life cycle depends on; input, rendering and the timers leave them
  alone.\<close>

definition life :: "session \<Rightarrow> rc_client option \<times> bool \<times> start_thread \<times> int \<times> int \<times> string option" where
  "life st = (s_client st, torn st, start_thread st, lan_port st, stream_k st, serial_owned st)"

definition same_tables :: "os \<Rightarrow> os \<Rightarrow> bool" where
  "same_tables w w' \<longleftrightarrow> set (open_fds w') = set (open_fds w) \<and> set (children w') = set (children w)"

inductive app_step :: "app \<times> os \<Rightarrow> app \<times> os \<Rightarrow> bool" where
  new: "session_new mem pid scid ser tcp a = (a', scid') \<Longrightarrow> app_step (a, w) (a', w)"
| started: "i < length (sessions a) \<Longrightarrow> start_thread (sessions a ! i) = Starting \<Longrightarrow> waits_ok E \<Longrightarrow>
     run_start_thread E FF apple (sessions a ! i) w = Some (st, w') \<Longrightarrow>
     app_step (a, w) (set_session i st a, w')"
| threads: "i < length (sessions a) \<Longrightarrow> s_client (sessions a ! i) = Some c \<Longrightarrow> thread_step c c' \<Longrightarrow>
     app_step (a, w) (set_session i ((sessions a ! i)\<lparr>s_client := Some c'\<rparr>) a, w)"
| closed: "i < length (sessions a) \<Longrightarrow> waits_ok E \<Longrightarrow>
     session_teardown E FF apple (sessions a ! i) w = Some (st, w') \<Longrightarrow>
     app_step (a, w) (set_session i st a, w')"
| handler: "i < length (sessions a) \<Longrightarrow> life st = life (sessions a ! i) \<Longrightarrow> same_tables w w' \<Longrightarrow>
     app_step (a, w) (set_session i st a, w')"
| settings: "sessions a' = sessions a \<Longrightarrow> app_step (a, w) (a', w)"

inductive_cases app_stepE: "app_step (a, w) y"

definition app_start :: "int set \<Rightarrow> int set \<Rightarrow> app \<times> os \<Rightarrow> bool" where
  "app_start B C = (\<lambda>(a, w). sessions a = [] \<and> set (open_fds w) = B \<and> set (children w) = C)"

section \<open>What the sessions hold\<close>

definition fds_of :: "session \<Rightarrow> int set" where
  "fds_of st = (case s_client st of None \<Rightarrow> {} | Some c \<Rightarrow> client_fds c)"

definition pids_of :: "session \<Rightarrow> int set" where
  "pids_of st = (case s_client st of None \<Rightarrow> {} | Some c \<Rightarrow> client_pids c)"

text \<open>\<open>S\<close> is split into \<open>B\<close> and the parts of the sessions, which are disjoint.\<close>

definition split_of :: "int set \<Rightarrow> ('a \<Rightarrow> int set) \<Rightarrow> 'a list \<Rightarrow> int set \<Rightarrow> bool" where
  "split_of B f xs S \<longleftrightarrow> S = B \<union> \<Union> (f ` set xs) \<and> (\<forall>x \<in> set xs. B \<inter> f x = {}) \<and>
     (\<forall>i < length xs. \<forall>j < length xs. i \<noteq> j \<longrightarrow> f (xs ! i) \<inter> f (xs ! j) = {})"

lemma split_of_sub: "split_of B f xs S \<Longrightarrow> i < length xs \<Longrightarrow> f (xs ! i) \<subseteq> S"
  by (auto simp: split_of_def)

lemma split_of_rest:
  assumes "split_of B f xs S" and "i < length xs"
  shows "S - f (xs ! i) = B \<union> \<Union> (f ` {xs ! j | j. j < length xs \<and> j \<noteq> i})"
proof -
  have 1: "S = B \<union> \<Union> (f ` set xs)" and 2: "B \<inter> f (xs ! i) = {}"
    and 3: "\<And>j. j < length xs \<Longrightarrow> j \<noteq> i \<Longrightarrow> f (xs ! j) \<inter> f (xs ! i) = {}"
    using assms by (auto simp: split_of_def)
  show ?thesis
  proof (intro set_eqI iffI)
    fix x assume "x \<in> S - f (xs ! i)"
    then show "x \<in> B \<union> \<Union> (f ` {xs ! j | j. j < length xs \<and> j \<noteq> i})"
      unfolding 1 by (auto simp: in_set_conv_nth) metis
  next
    fix x assume "x \<in> B \<union> \<Union> (f ` {xs ! j | j. j < length xs \<and> j \<noteq> i})"
    then show "x \<in> S - f (xs ! i)" unfolding 1 using 2 3 by fastforce
  qed
qed

lemma split_of_update:
  assumes s: "split_of B f xs S" and i: "i < length xs"
    and S': "S' = (S - f (xs ! i)) \<union> f y" "(S - f (xs ! i)) \<inter> f y = {}"
  shows "split_of B f (xs[i := y]) S'"
proof -
  note r = split_of_rest [OF s i]
  have other: "f (xs ! j) \<subseteq> S - f (xs ! i)" if "j < length xs" "j \<noteq> i" for j using that unfolding r by auto
  have B: "B \<subseteq> S - f (xs ! i)" unfolding r by auto
  have nth: "xs[i := y] ! j = (if j = i then y else xs ! j)" for j using i by simp
  have un: "S' = B \<union> \<Union> (f ` set (xs[i := y]))"
  proof -
    have "set (xs[i := y]) = insert y {xs ! j | j. j < length xs \<and> j \<noteq> i}"
      using i by (auto simp: set_conv_nth nth)
    then show ?thesis unfolding S'(1) r by auto
  qed
  moreover have "B \<inter> f x = {}" if "x \<in> set (xs[i := y])" for x
    using that s S'(2) B by (auto simp: split_of_def dest!: set_update_subset_insert [THEN subsetD])
  moreover have "f (xs[i := y] ! j) \<inter> f (xs[i := y] ! k) = {}"
    if "j < length xs" "k < length xs" "j \<noteq> k" for j k
    using that other [of j] other [of k] S'(2) s unfolding nth split_of_def by auto
  ultimately show ?thesis by (simp add: split_of_def)
qed

lemma split_of_Cons_empty: "split_of B f xs S \<Longrightarrow> f x = {} \<Longrightarrow> split_of B f (x # xs) S"
  by (auto simp: split_of_def nth_Cons split: nat.splits)

section \<open>The invariant\<close>

definition client_good :: "rc_client \<Rightarrow> bool" where
  "client_good c \<longleftrightarrow> session_inv c \<and> distinct (client_fd_list c)"

definition session_good :: "session \<Rightarrow> bool" where
  "session_good st \<longleftrightarrow>
     (torn st \<longleftrightarrow> s_client st = None) \<and> (torn st \<longrightarrow> start_thread st = NoThread) \<and>
     (\<forall>c. s_client st = Some c \<longrightarrow> client_good c \<and> (start_thread st = Starting \<longrightarrow> \<not> net_thread c)) \<and>
     (lan_port st = 0 \<or> RC_LAN_BASE_PORT \<le> lan_port st) \<and>
     (stream_k st = -1 \<or> (0 \<le> stream_k st \<and> stream_k st < int STREAM_COUNT \<and> serial_owned st \<noteq> None))"

text \<open>Two live sessions do not share a port on a device.\<close>

definition apart :: "session \<Rightarrow> session \<Rightarrow> bool" where
  "apart s t \<longleftrightarrow> torn s \<or> torn t \<or>
     ((lan_port s = lan_port t \<longrightarrow> lan_port s = 0) \<and>
      (stream_k s = stream_k t \<and> serial_owned s = serial_owned t \<longrightarrow> stream_k s = -1))"

definition app_inv :: "int set \<Rightarrow> int set \<Rightarrow> app \<times> os \<Rightarrow> bool" where
  "app_inv B C = (\<lambda>(a, w). list_all session_good (sessions a) \<and>
     split_of B fds_of (sessions a) (set (open_fds w)) \<and> split_of C pids_of (sessions a) (set (children w)) \<and>
     (\<forall>i < length (sessions a). \<forall>j < length (sessions a). i \<noteq> j \<longrightarrow> apart (sessions a ! i) (sessions a ! j)))"

lemma app_invD:
  assumes "app_inv B C (a, w)"
  shows "list_all session_good (sessions a)" and "split_of B fds_of (sessions a) (set (open_fds w))"
    and "split_of C pids_of (sessions a) (set (children w))"
    and "i < length (sessions a) \<Longrightarrow> session_good (sessions a ! i)"
    and "i < length (sessions a) \<Longrightarrow> j < length (sessions a) \<Longrightarrow> i \<noteq> j \<Longrightarrow> apart (sessions a ! i) (sessions a ! j)"
  using assms by (auto simp: app_inv_def list_all_length)

text \<open>The account of one session against the rest of the process.\<close>

definition rest_fds :: "session \<Rightarrow> os \<Rightarrow> int set" where
  "rest_fds st w = set (open_fds w) - fds_of st"

definition rest_pids :: "session \<Rightarrow> os \<Rightarrow> int set" where
  "rest_pids st w = set (children w) - pids_of st"

definition holds_own :: "session \<Rightarrow> os \<Rightarrow> bool" where
  "holds_own st w \<longleftrightarrow> fds_of st \<subseteq> set (open_fds w) \<and> pids_of st \<subseteq> set (children w)"

text \<open>An operation on one session: what the others and the process hold stays, and the session accounts
  for the difference.\<close>

definition accounted :: "session \<Rightarrow> os \<Rightarrow> session \<Rightarrow> os \<Rightarrow> bool" where
  "accounted st w st' w' \<longleftrightarrow> holds_own st' w' \<and> rest_fds st' w' = rest_fds st w \<and> rest_pids st' w' = rest_pids st w"

lemma accounted_refl: "holds_own st w \<Longrightarrow> accounted st w st w"
  by (simp add: accounted_def)

lemma accounted_trans: "accounted st w st' w' \<Longrightarrow> accounted st' w' st'' w'' \<Longrightarrow> accounted st w st'' w''"
  by (simp add: accounted_def)

lemma session_ok_core:
  assumes "s_client st = Some c" and "client_good c" and "holds_own st w"
  shows "session_ok (rest_fds st w) (rest_pids st w) (core c w)"
  using assms
  by (auto simp: session_ok_def owns_def client_good_def holds_own_def rest_fds_def rest_pids_def fds_of_def pids_of_def)

lemma session_ok_accounted:
  assumes "session_ok (rest_fds st w) (rest_pids st w) s" and "s_client st' = Some (client s)"
  shows "accounted st w st' (os.truncate s)" and "client_good (client s)"
  using assms
  by (auto simp: session_ok_def owns_def client_good_def accounted_def holds_own_def rest_fds_def rest_pids_def
      fds_of_def pids_of_def)

lemma app_inv_update:
  assumes inv: "app_inv B C (a, w)" and i: "i < length (sessions a)"
    and acc: "accounted (sessions a ! i) w st w'" and good: "session_good st"
    and keep: "torn (sessions a ! i) \<longrightarrow> torn st" "lan_port st = lan_port (sessions a ! i)"
      "stream_k st = stream_k (sessions a ! i)" "serial_owned st = serial_owned (sessions a ! i)"
  shows "app_inv B C (set_session i st a, w')"
proof -
  let ?ss = "sessions a"
  note D = app_invD [OF inv]
  have f: "set (open_fds w') = (set (open_fds w) - fds_of (?ss ! i)) \<union> fds_of st"
    "(set (open_fds w) - fds_of (?ss ! i)) \<inter> fds_of st = {}"
    and p: "set (children w') = (set (children w) - pids_of (?ss ! i)) \<union> pids_of st"
    "(set (children w) - pids_of (?ss ! i)) \<inter> pids_of st = {}"
    using acc by (auto simp: accounted_def holds_own_def rest_fds_def rest_pids_def)
  have ap: "apart st (?ss ! j) \<and> apart (?ss ! j) st" if "j < length ?ss" "j \<noteq> i" for j
    using D(5) [OF i that(1)] D(5) [OF that(1) i] that(2) keep unfolding apart_def by auto
  have "list_all session_good (?ss[i := st])"
    using D(1) good by (auto simp: list_all_iff dest!: set_update_subset_insert [THEN subsetD])
  moreover have "apart (?ss[i := st] ! j) (?ss[i := st] ! k)"
    if "j < length ?ss" "k < length ?ss" "j \<noteq> k" for j k
    using that ap [of j] ap [of k] D(5) [OF that(1,2)] by (cases "j = i"; cases "k = i") auto
  ultimately show ?thesis
    using split_of_update [OF D(2) i f] split_of_update [OF D(3) i p]
    by (simp add: app_inv_def set_session_def)
qed

section \<open>Every step keeps the invariant\<close>

text \<open>What an operation leaves as it was.\<close>

definition same_ports :: "session \<Rightarrow> session \<Rightarrow> bool" where
  "same_ports st st' \<longleftrightarrow> lan_port st' = lan_port st \<and> stream_k st' = stream_k st \<and> serial_owned st' = serial_owned st"

lemma run_start_thread_spec:
  assumes r: "run_start_thread E FF apple st w = Some (st', w')" and E: "waits_ok E"
    and st: "s_client st = Some c" "client_good c" "\<not> net_thread c" "holds_own st w"
  shows "accounted st w st' w'" and "\<exists>c'. st' = st\<lparr>s_client := Some c', start_thread := Finished\<rparr> \<and> client_good c'"
proof -
  from r st(1) obtain res s where s: "rc_client_start E FF apple (core c w) = Some (res, s)"
    and st': "st' = st\<lparr>s_client := Some (client s), start_thread := Finished\<rparr>" and w': "w' = os.truncate s"
    by (auto simp: run_start_thread_def run_core_Some bind_eq_Some_conv)
  have "session_ok (rest_fds st w) (rest_pids st w) s"
    by (rule start_session [OF s E session_ok_core [OF st(1,2,4)]]) (simp add: st(3))
  from session_ok_accounted [OF this, of st'] st' w'
  show "accounted st w st' w'" "\<exists>c'. st' = st\<lparr>s_client := Some c', start_thread := Finished\<rparr> \<and> client_good c'"
    by auto
qed

lemma thread_step_spec:
  assumes "thread_step c c'" and "client_good c"
  shows "client_good c'" and "client_fds c' = client_fds c" and "client_pids c' = client_pids c"
    and "\<not> net_thread c \<longrightarrow> \<not> net_thread c'"
  using assms(1)
  by (cases; use assms(2) in \<open>auto simp: client_good_def session_inv_def idle_def client_fds_def client_pids_def
      client_fd_list_def\<close>)+

lemma join_start_spec:
  assumes j: "join_start E FF apple st w = Some (st', w')" and E: "waits_ok E"
    and st: "s_client st = Some c" "client_good c" "start_thread st = Starting \<longrightarrow> \<not> net_thread c" "holds_own st w"
  shows "accounted st w st' w'" and "\<exists>c'. st' = st\<lparr>s_client := Some c', start_thread := NoThread\<rparr> \<and> client_good c'"
proof -
  have *: "accounted st w st' w' \<and> (\<exists>c'. st' = st\<lparr>s_client := Some c', start_thread := NoThread\<rparr> \<and> client_good c')"
  proof (cases "start_thread st = Starting")
    case True
    with j obtain s1 w1 where r: "run_start_thread E FF apple st w = Some (s1, w1)"
      and e: "st' = s1\<lparr>start_thread := NoThread\<rparr>" "w' = w1"
      by (auto simp: join_start_def bind_eq_Some_conv)
    from st(3) True have "\<not> net_thread c" by simp
    note R = run_start_thread_spec [OF r E st(1,2) this st(4)]
    from R(2) obtain c' where "s1 = st\<lparr>s_client := Some c', start_thread := Finished\<rparr>" "client_good c'" by blast
    moreover from R(1) have "accounted st w st' w'"
      by (simp add: e accounted_def holds_own_def rest_fds_def rest_pids_def fds_of_def pids_of_def)
    ultimately show ?thesis using e by auto
  next
    case False
    with j have e: "st' = st\<lparr>start_thread := NoThread\<rparr>" "w' = w" by (auto simp: join_start_def)
    with st(4) have "accounted st w st' w'"
      by (simp add: accounted_def holds_own_def rest_fds_def rest_pids_def fds_of_def pids_of_def)
    moreover have "st' = st\<lparr>s_client := Some c, start_thread := NoThread\<rparr>" using st(1) e(1) by (cases st) simp
    ultimately show ?thesis using st(2) by blast
  qed
  then show "accounted st w st' w'" "\<exists>c'. st' = st\<lparr>s_client := Some c', start_thread := NoThread\<rparr> \<and> client_good c'"
    by blast+
qed

lemma stop_client_spec:
  assumes s: "stop_client E st w = Some (st', w')" and E: "waits_ok E"
    and st: "s_client st = Some c" "client_good c" "holds_own st w"
  shows "accounted st w st' w'" and "st' = st\<lparr>s_client := None\<rparr>"
proof -
  let ?B = "rest_fds st w" and ?C = "rest_pids st w"
  from s st(1) obtain s1 c2 s2 where s1: "rc_client_stop E (core c w) = Some s1"
    and s2: "rc_client_destroy E s1 = Some (c2, s2)" and e: "st' = st\<lparr>s_client := c2\<rparr>" "w' = os.truncate s2"
    by (auto simp: stop_client_def bind_eq_Some_conv)
  from s2 have s2': "rc_client_stop E s1 = Some s2" "c2 = None" by (auto simp: rc_client_destroy_def bind_eq_Some_conv)
  show "st' = st\<lparr>s_client := None\<rparr>" by (simp add: e s2')
  have o: "owns ?B ?C (threads c) (core c w)"
    using session_ok_core [OF st(1-3)] by (simp add: session_ok_def)
  note S1 = stop_session [OF s1 E o]
  have o1: "owns ?B ?C (threads (client s1)) s1" using S1(1) by (simp add: session_ok_def)
  note S2 = stop_session [OF s2'(1) E o1]
  have "set (open_fds s2) = ?B" "set (children s2) = ?C"
    using S2(1) owns_idle [OF S2(2)] by (simp_all add: session_ok_def)
  then show "accounted st w st' w'"
    by (simp add: e s2' accounted_def holds_own_def rest_fds_def rest_pids_def fds_of_def pids_of_def)
qed

lemma session_teardown_spec:
  assumes t: "session_teardown E FF apple st w = Some (st', w')" and E: "waits_ok E"
    and good: "session_good st" and own: "holds_own st w"
  shows "accounted st w st' w'" and "session_good st'" and "torn st'" and "same_ports st st'"
proof -
  have *: "accounted st w st' w' \<and> session_good st' \<and> torn st' \<and> same_ports st st'"
  proof (cases "torn st")
    case True
    with t good own show ?thesis by (auto simp: session_teardown_def same_ports_def accounted_refl)
  next
    case False
    with good obtain c where c: "s_client st = Some c" "client_good c" "start_thread st = Starting \<longrightarrow> \<not> net_thread c"
      by (cases "s_client st") (auto simp: session_good_def)
    let ?c = "c\<lparr>abort_requested := True\<rparr>"
    let ?s0 = "st\<lparr>torn := True, alive := False, has_gl := False\<rparr>"
    let ?s1 = "if fps_timer ?s0 then ?s0\<lparr>fps_timer := False\<rparr> else ?s0"
    let ?s2 = "if title_timer ?s1 then ?s1\<lparr>title_timer := False\<rparr> else ?s1"
    define s3 where "s3 = ?s2\<lparr>s_client := Some ?c\<rparr>"
    have f: "s_client s3 = Some ?c" "start_thread s3 = start_thread st" "torn s3" "same_ports st s3"
      "s_client ?s2 = Some c" using c(1) by (simp_all add: s3_def same_ports_def)
    obtain s4 w4 s5 where j: "join_start E FF apple s3 w = Some (s4, w4)"
      and sc: "stop_client E s4 w4 = Some (s5, w')" and st': "st' = render_free_planes s5"
      using t False c(1)
      by (auto simp: session_teardown_def Let_def bind_eq_Some_conv rc_client_abort_def s3_def split: if_splits)
    have gc: "client_good ?c" using c(2) by (simp add: client_good_def session_inv_def idle_def client_fd_list_def)
    have a3: "accounted st w s3 w"
      using own c(1) f(1) by (simp add: accounted_def holds_own_def rest_fds_def rest_pids_def fds_of_def pids_of_def
          client_fds_def client_pids_def)
    then have o3: "holds_own s3 w" by (simp add: accounted_def)
    have "start_thread s3 = Starting \<longrightarrow> \<not> net_thread ?c" using c(3) f(2) by simp
    note J = join_start_spec [OF j E f(1) gc this o3]
    from J(2) obtain c' where s4: "s4 = s3\<lparr>s_client := Some c', start_thread := NoThread\<rparr>" "client_good c'" by blast
    have c4: "s_client s4 = Some c'" unfolding s4(1) by simp
    have o4: "holds_own s4 w4" using J(1) by (simp add: accounted_def)
    note S = stop_client_spec [OF sc E c4 s4(2) o4]
    have "accounted st w s5 w'" using accounted_trans [OF a3 accounted_trans [OF J(1) S(1)]] .
    then have "accounted st w st' w'"
      by (simp add: st' render_free_planes_def accounted_def holds_own_def rest_fds_def rest_pids_def fds_of_def pids_of_def)
    moreover have n: "s_client st' = None" "start_thread st' = NoThread" "torn st'" "same_ports st st'"
      using f(3,4) unfolding st' S(2) s4(1) by (simp_all add: render_free_planes_def same_ports_def)
    moreover have "session_good st'"
      using n good by (auto simp: session_good_def same_ports_def)
    ultimately show ?thesis by blast
  qed
  then show "accounted st w st' w'" "session_good st'" "torn st'" "same_ports st st'" by blast+
qed

lemma choose_ports_spec:
  fixes a :: app and ser tcp :: "string option"
  defines "s \<equiv> choose_ports a ser (session_config a ser tcp)"
  shows "torn s = False" and "serial_owned s = ser" and "s_client s = None"
    and "(lan_port s = 0 \<and> stream_k s = -1) \<or> (lan_port s = alloc_lan_port a \<and> stream_k s = -1) \<or>
      (lan_port s = 0 \<and> stream_k s = alloc_stream_k a ser \<and> 0 \<le> alloc_stream_k a ser \<and> ser \<noteq> None)"
  unfolding s_def
  by (auto simp: choose_ports_def session_config_def new_session_def Let_def split: option.splits)

lemma build_view_spec:
  "life (build_view st) = life st"
  by (simp add: build_view_def life_def Let_def)

lemma session_new_spec:
  assumes "session_new mem pid scid ser tcp a = (a', scid')"
  shows "sessions a' = sessions a \<or> (\<exists>s c. sessions a' = s # sessions a \<and>
     life s = (Some c, False, Starting, lan_port (choose_ports a ser (session_config a ser tcp)),
       stream_k (choose_ports a ser (session_config a ser tcp)), ser) \<and>
     s_cfg s = s_cfg (choose_ports a ser (session_config a ser tcp)) \<and>
     idle c \<and> client_good c \<and> \<not> net_thread c)"
proof -
  let ?s = "choose_ports a ser (session_config a ser tcp)"
  obtain co scid2 where cr: "rc_client_create mem pid scid (Some (s_cfg ?s)) = (co, scid2)" by fastforce
  show ?thesis
  proof (cases co)
    case None
    with assms cr show ?thesis by (simp add: session_new_def Let_def)
  next
    case (Some c0)
    let ?c = "rc_client_set_status_callback True (rc_client_set_frame_callback True c0)"
    let ?n = "build_view (?s\<lparr>s_client := Some ?c, title_base := title_text (session_tag ser (tcp_owned ?s)) CONNECTING,
        title_timer := True\<rparr>)\<lparr>start_thread := Starting\<rparr>"
    have "sessions a' = ?n # sessions a" using assms cr Some by (auto simp: session_new_def Let_def)
    moreover have "life ?n = (Some ?c, False, Starting, lan_port ?s, stream_k ?s, ser)" "s_cfg ?n = s_cfg ?s"
      using choose_ports_spec(1,2) [of a ser tcp] by (simp_all add: life_def build_view_def Let_def)
    moreover have "idle ?c \<and> client_good ?c \<and> \<not> net_thread ?c"
      using cr Some
      by (auto simp: rc_client_create_def idle_def client_good_def session_inv_def client_fd_list_def
          rc_client_set_status_callback_def rc_client_set_frame_callback_def split: if_splits)
    ultimately show ?thesis by blast
  qed
qed

lemma idle_holds_nothing: "idle c \<Longrightarrow> client_fds c = {} \<and> client_pids c = {}"
  by (auto simp: idle_def client_fds_def client_pids_def)

lemma app_inv_new:
  assumes inv: "app_inv B C (a, w)" and new: "session_new mem pid scid ser tcp a = (a', scid')"
  shows "app_inv B C (a', w)"
proof -
  let ?p = "choose_ports a ser (session_config a ser tcp)"
  note D = app_invD [OF inv]
  from session_new_spec [OF new] show ?thesis
  proof (elim disjE exE conjE)
    assume "sessions a' = sessions a"
    with inv show ?thesis by (simp add: app_inv_def)
  next
    fix s c
    assume s: "sessions a' = s # sessions a" "life s = (Some c, False, Starting, lan_port ?p, stream_k ?p, ser)"
      and c: "idle c" "client_good c" "\<not> net_thread c"
    have l: "s_client s = Some c" "\<not> torn s" "start_thread s = Starting" "lan_port s = lan_port ?p"
      "stream_k s = stream_k ?p" "serial_owned s = ser" using s(2) by (simp_all add: life_def)
    have "fds_of s = {}" "pids_of s = {}"
      using l(1) idle_holds_nothing [OF c(1)] by (simp_all add: fds_of_def pids_of_def)
    with D(2,3) have sp: "split_of B fds_of (s # sessions a) (set (open_fds w))"
      "split_of C pids_of (s # sessions a) (set (children w))" by (simp_all add: split_of_Cons_empty)
    have "stream_k s = -1 \<or> (0 \<le> stream_k s \<and> stream_k s < int STREAM_COUNT \<and> serial_owned s \<noteq> None)"
      using choose_ports_spec(4) [of a ser tcp] alloc_stream_k_cases [of a ser] l by auto
    moreover have "lan_port s = 0 \<or> RC_LAN_BASE_PORT \<le> lan_port s"
      using choose_ports_spec(4) [of a ser tcp] lan_port_ge [of a] l by auto
    ultimately have good: "session_good s" using l c by (simp add: session_good_def)
    have ap: "apart s t \<and> apart t s" if t: "t \<in> set (sessions a)" for t
    proof (cases "torn t")
      case False
      have "lan_port t \<noteq> alloc_lan_port a"
        using lan.fresh [OF lan_port_ge, of a "lan_port t"] t False by (auto simp: lan_used_def list_ex_iff)
      moreover have "stream_k t \<noteq> alloc_stream_k a ser" if "serial_owned t = ser" "0 \<le> alloc_stream_k a ser" "ser \<noteq> None"
        using stream.fresh [of a ser "stream_k t"] t False that by (auto simp: k_used_def list_ex_iff)
      ultimately show ?thesis
        using choose_ports_spec(4) [of a ser tcp] l lan_port_ge [of a]
        unfolding apart_def RC_LAN_BASE_PORT_def by auto
    qed (simp add: apart_def)
    have "apart ((s # sessions a) ! i) ((s # sessions a) ! j)"
      if "i < length (s # sessions a)" "j < length (s # sessions a)" "i \<noteq> j" for i j
      using that ap D(5) by (cases i; cases j) auto
    with s(1) good D(1) sp show ?thesis by (simp add: app_inv_def)
  qed
qed

lemma app_step_inv:
  assumes "app_step y z" and "app_inv B C y"
  shows "app_inv B C z"
  using assms(1)
proof cases
  case (new mem pid scid ser tcp a a' scid' w)
  then show ?thesis using app_inv_new assms(2) by simp
next
  case (started i a E FF apple w st w')
  let ?s = "sessions a ! i"
  have inv: "app_inv B C (a, w)" using assms(2) started(1) by simp
  have good: "session_good ?s" using app_invD(4) [OF inv started(3)] .
  then obtain c where c: "s_client ?s = Some c" "client_good c" "\<not> net_thread c"
    using started(4) by (cases "s_client ?s") (auto simp: session_good_def)
  have own: "holds_own ?s w"
    using split_of_sub [OF app_invD(2) [OF inv] started(3)] split_of_sub [OF app_invD(3) [OF inv] started(3)]
    by (simp add: holds_own_def)
  note R = run_start_thread_spec [OF started(6,5) c own]
  from R(2) obtain c' where st: "st = ?s\<lparr>s_client := Some c', start_thread := Finished\<rparr>" "client_good c'" by blast
  have "session_good st" using good c st by (simp add: session_good_def)
  from app_inv_update [OF inv started(3) R(1) this] show ?thesis
    using st(1) started(2) by simp
next
  case (threads i a c c' w)
  let ?s = "sessions a ! i"
  have inv: "app_inv B C (a, w)" using assms(2) threads(1) by simp
  have good: "session_good ?s" using app_invD(4) [OF inv threads(3)] .
  then have c: "client_good c" "start_thread ?s = Starting \<longrightarrow> \<not> net_thread c" "\<not> torn ?s"
    using threads(4) by (auto simp: session_good_def)
  note T = thread_step_spec [OF threads(5) c(1)]
  let ?t = "?s\<lparr>s_client := Some c'\<rparr>"
  have e: "fds_of ?t = fds_of ?s" "pids_of ?t = pids_of ?s"
    using threads(4) T(2,3) by (simp_all add: fds_of_def pids_of_def)
  have "accounted ?s w ?t w"
    using split_of_sub [OF app_invD(2) [OF inv] threads(3)] split_of_sub [OF app_invD(3) [OF inv] threads(3)]
    by (simp add: accounted_def holds_own_def rest_fds_def rest_pids_def e)
  moreover have "session_good ?t" using good c T threads(4) by (auto simp: session_good_def)
  ultimately show ?thesis using app_inv_update [OF inv threads(3), of ?t w] threads(2) by simp
next
  case (closed i a E FF apple w st w')
  have inv: "app_inv B C (a, w)" using assms(2) closed(1) by simp
  have "holds_own (sessions a ! i) w"
    using split_of_sub [OF app_invD(2) [OF inv] closed(3)] split_of_sub [OF app_invD(3) [OF inv] closed(3)]
    by (simp add: holds_own_def)
  note T = session_teardown_spec [OF closed(5,4) app_invD(4) [OF inv closed(3)] this]
  show ?thesis using app_inv_update [OF inv closed(3) T(1,2)] T(3,4) closed(2) by (simp add: same_ports_def)
next
  case (handler i a st w w')
  let ?s = "sessions a ! i"
  have inv: "app_inv B C (a, w)" using assms(2) handler(1) by simp
  have l: "s_client st = s_client ?s" "torn st = torn ?s" "start_thread st = start_thread ?s"
    "lan_port st = lan_port ?s" "stream_k st = stream_k ?s" "serial_owned st = serial_owned ?s"
    using handler(4) by (simp_all add: life_def)
  have "fds_of st = fds_of ?s" "pids_of st = pids_of ?s" using l by (simp_all add: fds_of_def pids_of_def)
  then have "accounted ?s w st w'"
    using split_of_sub [OF app_invD(2) [OF inv] handler(3)] split_of_sub [OF app_invD(3) [OF inv] handler(3)] handler(5)
    by (simp add: accounted_def holds_own_def rest_fds_def rest_pids_def same_tables_def)
  moreover have "session_good st" using app_invD(4) [OF inv handler(3)] l by (simp add: session_good_def)
  ultimately show ?thesis using app_inv_update [OF inv handler(3), of st w'] l handler(2) by simp
next
  case (settings a' a w)
  with assms(2) show ?thesis by (simp add: app_inv_def)
qed

lemma app_start_inv: "app_start B C y \<Longrightarrow> app_inv B C y"
  by (auto simp: app_start_def app_inv_def split_of_def)

interpretation gtk_app: invariant_system "app_start B C" app_step "app_inv B C" for B C
  by unfold_locales (erule app_start_inv, erule (1) app_step_inv [rotated])

section \<open>Ports of live sessions\<close>

text \<open>
  C37: live sessions never share a port.  In every reachable state of the application two different
  sessions that are not torn down have different LAN ports, unless they have none, and if they are on
  the same device through an agent their stream indices differ; every port is in its range.  The
  allocator of LAN ports gives a free port from 27183 on with no free port below it; that of stream
  indices gives -1 exactly when all four indices of the device are taken, and otherwise one of the four
  that is free, with no free index below it.
\<close>

theorem session_ports_apart:
  assumes "reach (app_start B C) app_step (a, w)"
  shows "(\<forall>i j. i < length (sessions a) \<and> j < length (sessions a) \<and> i \<noteq> j \<and>
        \<not> torn (sessions a ! i) \<and> \<not> torn (sessions a ! j) \<longrightarrow>
        (lan_port (sessions a ! i) \<noteq> 0 \<longrightarrow> lan_port (sessions a ! i) \<noteq> lan_port (sessions a ! j)) \<and>
        (stream_k (sessions a ! i) \<noteq> -1 \<and> serial_owned (sessions a ! i) = serial_owned (sessions a ! j) \<longrightarrow>
           stream_k (sessions a ! i) \<noteq> stream_k (sessions a ! j))) \<and>
     (\<forall>i < length (sessions a). (lan_port (sessions a ! i) = 0 \<or> 27183 \<le> lan_port (sessions a ! i)) \<and>
        stream_k (sessions a ! i) \<in> {-1, 0, 1, 2, 3}) \<and>
     \<not> lan_used a (alloc_lan_port a) \<and> (\<forall>p. 27183 \<le> p \<and> p < alloc_lan_port a \<longrightarrow> lan_used a p) \<and>
     27183 \<le> alloc_lan_port a \<and>
     (\<forall>ser. (alloc_stream_k a ser = -1 \<longleftrightarrow> (\<forall>k. 0 \<le> k \<and> k < 4 \<longrightarrow> k_used a ser k)) \<and>
        (alloc_stream_k a ser \<noteq> -1 \<longrightarrow>
           alloc_stream_k a ser \<in> {0, 1, 2, 3} \<and> \<not> k_used a ser (alloc_stream_k a ser) \<and>
           (\<forall>k. 0 \<le> k \<and> k < alloc_stream_k a ser \<longrightarrow> k_used a ser k)))"
proof -
  note inv = gtk_app.reach_inv [OF assms]
  have ap: "apart (sessions a ! i) (sessions a ! j)"
    if "i < length (sessions a)" "j < length (sessions a)" "i \<noteq> j" for i j by (rule app_invD(5) [OF inv that])
  have good: "session_good (sessions a ! i)" if "i < length (sessions a)" for i by (rule app_invD(4) [OF inv that])
  have alloc: "(alloc_stream_k a ser = -1 \<longleftrightarrow> (\<forall>k. 0 \<le> k \<and> k < 4 \<longrightarrow> k_used a ser k)) \<and>
      (alloc_stream_k a ser \<noteq> -1 \<longrightarrow> alloc_stream_k a ser \<in> {0, 1, 2, 3} \<and>
         \<not> k_used a ser (alloc_stream_k a ser) \<and>
         (\<forall>k. 0 \<le> k \<and> k < alloc_stream_k a ser \<longrightarrow> k_used a ser k))" for ser
    using alloc_stream_k_cases [of a ser] stream.least [of _ a ser] by (auto simp: STREAM_COUNT_def)
  have least: "27183 \<le> p \<and> p < alloc_lan_port a \<longrightarrow> lan_used a p" for p
    using lan.least [of p a] by (simp add: RC_LAN_BASE_PORT_def)
  have "27183 \<le> alloc_lan_port a" "\<not> lan_used a (alloc_lan_port a)"
    using lan.free [OF lan_port_ge] lan_port_ge by (simp_all add: RC_LAN_BASE_PORT_def)
  moreover have "(lan_port (sessions a ! i) = 0 \<or> 27183 \<le> lan_port (sessions a ! i)) \<and>
      stream_k (sessions a ! i) \<in> {-1, 0, 1, 2, 3}" if "i < length (sessions a)" for i
    using good [OF that] by (auto simp: session_good_def RC_LAN_BASE_PORT_def STREAM_COUNT_def)
  moreover have "(lan_port (sessions a ! i) \<noteq> 0 \<longrightarrow> lan_port (sessions a ! i) \<noteq> lan_port (sessions a ! j)) \<and>
      (stream_k (sessions a ! i) \<noteq> -1 \<and> serial_owned (sessions a ! i) = serial_owned (sessions a ! j) \<longrightarrow>
         stream_k (sessions a ! i) \<noteq> stream_k (sessions a ! j))"
    if "i < length (sessions a) \<and> j < length (sessions a) \<and> i \<noteq> j \<and> \<not> torn (sessions a ! i) \<and> \<not> torn (sessions a ! j)" for i j
    using ap [of i j] good [of i] that by (auto simp: apart_def session_good_def)
  ultimately show ?thesis using alloc least by blast
qed

text \<open>Two sessions on the same wireless device.\<close>

definition demo_app :: app where
  "demo_app = \<lparr>base = demo_config, sel_max_size = 0, sel_bit_rate = 8000000, sel_audio = False,
     sel_control = True, sel_show_fps = True, dd_size = None, dd_bitrate = None, cb_audio = None,
     cb_control = None, cb_fps = None, sessions = [], agent_devs = (\<lambda>_. None), probed_hosts = {}\<rparr>"

lemma demo_app_start: "app_start {0, 1, 2} {} (demo_app, demo_os)"
  by (auto simp: app_start_def demo_app_def demo_os_def)

definition demo_open :: "app \<Rightarrow> app" where
  "demo_open a = fst (session_new (\<lambda>_. True) 4242 0 (Some ''10.0.0.9:5555'') (Some ''10.0.0.9'') a)"

lemma demo_open_step: "app_step (a, w) (demo_open a, w)"
  unfolding demo_open_def by (rule new) (rule prod.collapse [symmetric])

lemma demo_open_sessions:
  assumes "agent_devs a = (\<lambda>_. None)"
  shows "\<exists>s. sessions (demo_open a) = s # sessions a \<and> lan_port s = alloc_lan_port a \<and> \<not> torn s"
    and "agent_devs (demo_open a) = (\<lambda>_. None)"
  using assms
  by (auto simp: demo_open_def session_new_def choose_ports_def session_config_def new_session_def Let_def
      rc_client_create_def build_view_def)

theorem session_ports_apart_witness:
  "reach (app_start {0, 1, 2} {}) app_step (demo_open (demo_open demo_app), demo_os) \<and>
   map lan_port (sessions (demo_open (demo_open demo_app))) = [27184, 27183] \<and>
   alloc_lan_port (demo_open (demo_open demo_app)) \<notin> {27183, 27184}"
proof -
  let ?a1 = "demo_open demo_app" and ?a2 = "demo_open (demo_open demo_app)"
  have "reach (app_start {0, 1, 2} {}) app_step (demo_app, demo_os)"
    by (rule reach_start) (rule demo_app_start)
  then have r: "reach (app_start {0, 1, 2} {}) app_step (?a2, demo_os)"
    by (rule reach_step [of _ _ "(?a1, demo_os)", OF reach_step [of _ _ "(demo_app, demo_os)"]]) (rule demo_open_step)+
  have d: "agent_devs demo_app = (\<lambda>_. None)" "sessions demo_app = []" by (simp_all add: demo_app_def)
  obtain s1 where s1: "sessions ?a1 = [s1]" "lan_port s1 = alloc_lan_port demo_app" "\<not> torn s1"
    using demo_open_sessions(1) [OF d(1)] d(2) by auto
  have p1: "alloc_lan_port demo_app = 27183"
    by (simp add: alloc_lan_port_def RC_LAN_BASE_PORT_def lan_port_from.simps lan_used_def d(2))
  obtain s2 where s2: "sessions ?a2 = [s2, s1]" "lan_port s2 = alloc_lan_port ?a1" "\<not> torn s2"
    using demo_open_sessions(1) [OF demo_open_sessions(2) [OF d(1)]] s1(1) by auto
  have "\<not> lan_used ?a1 27184" "lan_used ?a1 27183" using s1 p1 by (simp_all add: lan_used_def)
  then have p2: "alloc_lan_port ?a1 = 27184"
    by (simp add: alloc_lan_port_def RC_LAN_BASE_PORT_def lan_port_from.simps)
  from session_ports_apart [OF r] have "\<not> lan_used ?a2 (alloc_lan_port ?a2)" by simp
  moreover have "lan_used ?a2 27183" "lan_used ?a2 27184" using s1 s2 p1 p2 by (simp_all add: lan_used_def)
  moreover have "map lan_port (sessions ?a2) = [27184, 27183]" using s1 s2 p1 p2 by simp
  ultimately show ?thesis using r by auto
qed

section \<open>Leaving the application\<close>

lemma accounted_split:
  assumes "accounted st w st' w'" and "split_of B fds_of (st # sts) (set (open_fds w))"
    and "split_of C pids_of (st # sts) (set (children w))"
  shows "split_of B fds_of (st' # sts) (set (open_fds w'))" and "split_of C pids_of (st' # sts) (set (children w'))"
proof -
  have f: "set (open_fds w') = (set (open_fds w) - fds_of ((st # sts) ! 0)) \<union> fds_of st'"
    "(set (open_fds w) - fds_of ((st # sts) ! 0)) \<inter> fds_of st' = {}"
    and p: "set (children w') = (set (children w) - pids_of ((st # sts) ! 0)) \<union> pids_of st'"
    "(set (children w) - pids_of ((st # sts) ! 0)) \<inter> pids_of st' = {}"
    using assms(1) by (auto simp: accounted_def holds_own_def rest_fds_def rest_pids_def)
  show "split_of B fds_of (st' # sts) (set (open_fds w'))"
    using split_of_update [OF assms(2) _ f] by simp
  show "split_of C pids_of (st' # sts) (set (children w'))"
    using split_of_update [OF assms(3) _ p] by simp
qed

lemma split_of_tl:
  assumes "split_of B f (x # xs) S" and "f x = {}"
  shows "split_of B f xs S"
proof -
  have "f (xs ! i) \<inter> f (xs ! j) = {}" if "i < length xs" "j < length xs" "i \<noteq> j" for i j
  proof -
    have "\<forall>i < length (x # xs). \<forall>j < length (x # xs). i \<noteq> j \<longrightarrow> f ((x # xs) ! i) \<inter> f ((x # xs) ! j) = {}"
      using assms(1) unfolding split_of_def by blast
    from this [rule_format, of "Suc i" "Suc j"] that show ?thesis by simp
  qed
  with assms show ?thesis by (simp add: split_of_def)
qed

lemma good_torn_holds_nothing: "session_good st \<Longrightarrow> torn st \<Longrightarrow> fds_of st = {} \<and> pids_of st = {}"
  by (simp add: session_good_def fds_of_def pids_of_def)

lemma free_sessions_spec:
  assumes "free_sessions E FF apple sts w = Some w'" and "waits_ok E" and "list_all session_good sts"
    and "split_of B fds_of sts (set (open_fds w))" and "split_of C pids_of sts (set (children w))"
  shows "set (open_fds w') = B \<and> set (children w') = C"
  using assms
proof (induction sts arbitrary: w)
  case Nil
  then show ?case by (simp add: split_of_def)
next
  case (Cons st sts)
  then obtain st1 w1 where t: "session_teardown E FF apple st w = Some (st1, w1)"
    and f: "free_sessions E FF apple sts w1 = Some w'" by (auto simp: session_free_def bind_eq_Some_conv)
  have "holds_own st w" using Cons.prems(4,5) by (auto simp: holds_own_def split_of_def)
  with Cons.prems(3) have T: "accounted st w st1 w1" "session_good st1" "torn st1"
    using session_teardown_spec [OF t assms(2)] by auto
  note e = good_torn_holds_nothing [OF T(2,3)]
  note A = accounted_split [OF T(1) Cons.prems(4,5)]
  show ?case
    by (rule Cons.IH [OF f assms(2) _ split_of_tl [OF A(1)] split_of_tl [OF A(2)]])
      (use e Cons.prems(3) in auto)
qed

lemma stop_client_returns:
  assumes "children_end E"
  shows "\<exists>y. stop_client E st w = Some y"
proof (cases "s_client st")
  case (Some c)
  obtain s1 where 1: "rc_client_stop E (core c w) = Some s1"
    using teardown_returns [OF assms] unfolding rc_client_stop_eq by blast
  obtain s2 where "rc_client_stop E s1 = Some s2"
    using teardown_returns [OF assms] unfolding rc_client_stop_eq by blast
  with 1 Some show ?thesis by (simp add: stop_client_def rc_client_destroy_def)
qed (simp add: stop_client_def)

lemma session_teardown_returns:
  assumes "children_end E" and "start_thread st \<noteq> Starting"
  shows "\<exists>y. session_teardown E FF apple st w = Some y"
proof (cases "torn st")
  case False
  let ?s0 = "st\<lparr>torn := True, alive := False, has_gl := False\<rparr>"
  let ?s1 = "if fps_timer ?s0 then ?s0\<lparr>fps_timer := False\<rparr> else ?s0"
  let ?s2 = "if title_timer ?s1 then ?s1\<lparr>title_timer := False\<rparr> else ?s1"
  define s3 where "s3 = (case s_client ?s2 of None \<Rightarrow> ?s2
    | Some c \<Rightarrow> ?s2\<lparr>s_client := Some (client (rc_client_abort (core c w)))\<rparr>)"
  have "start_thread s3 \<noteq> Starting" using assms(2) by (simp add: s3_def split: option.splits)
  then have j: "join_start E FF apple s3 w = Some (s3\<lparr>start_thread := NoThread\<rparr>, w)" by (simp add: join_start_def)
  obtain s5 w5 where "stop_client E (s3\<lparr>start_thread := NoThread\<rparr>) w = Some (s5, w5)"
    using stop_client_returns [OF assms(1)] by fastforce
  with j have "session_teardown E FF apple st w = Some (render_free_planes s5, w5)"
    unfolding session_teardown_def Let_def s3_def [symmetric] using False by simp
  then show ?thesis by blast
qed (simp add: session_teardown_def)

lemma free_sessions_returns:
  assumes "children_end E" and "\<forall>st \<in> set sts. start_thread st \<noteq> Starting"
  shows "\<exists>w'. free_sessions E FF apple sts w = Some w'"
  using assms(2)
proof (induction sts arbitrary: w)
  case (Cons st sts)
  then obtain st1 w1 where "session_teardown E FF apple st w = Some (st1, w1)"
    using session_teardown_returns [OF assms(1)] by fastforce
  with Cons show ?case by (simp add: session_free_def)
qed simp

text \<open>
  C36: leaving the application releases everything.  Whatever happened before (sessions opened, started,
  failed, closed while still connecting, in any number and order, with their threads at any point), and
  if waiting for a child of the process never fails: when \<^verbatim>\<open>main\<close> has freed the list of sessions, exactly
  the descriptors and child processes from before the first session are left.  Freeing returns when no
  start is under way and every child a blocking \<^verbatim>\<open>waitpid\<close> waits for ends (\<^verbatim>\<open>adb.c:35\<close>,
  \<^verbatim>\<open>server_deploy.c:427\<close>).
\<close>

theorem app_exit_releases:
  assumes "reach (app_start B C) app_step (a, w)" and "waits_ok E"
  shows "(free_sessions E FF apple (sessions a) w = Some w' \<longrightarrow>
       set (open_fds w') = B \<and> set (children w') = C) \<and>
     (children_end E \<and> (\<forall>st \<in> set (sessions a). start_thread st \<noteq> Starting) \<longrightarrow>
       (\<exists>w''. free_sessions E FF apple (sessions a) w = Some w''))"
proof -
  note D = app_invD [OF gtk_app.reach_inv [OF assms(1)]]
  show ?thesis using free_sessions_spec [OF _ assms(2) D(1-3)] free_sessions_returns by blast
qed

text \<open>An emulator session, opened and started.\<close>

definition demo_usb_app :: app where
  "demo_usb_app = fst (session_new (\<lambda>_. True) 4242 0 (Some ''emulator-5554'') None demo_app)"

definition demo_cb_client :: rc_client where
  "demo_cb_client = demo_client\<lparr>has_frame_cb := True, has_status_cb := True\<rparr>"

lemma demo_usb_app_sessions:
  "\<exists>st. sessions demo_usb_app = [st] \<and> s_client st = Some demo_cb_client \<and> start_thread st = Starting \<and> \<not> torn st"
proof -
  have "(demo_config\<lparr>max_size := 0, bit_rate := 8000000, audio := False, control := True,
      serial := Some ''emulator-5554''\<rparr>) = demo_config" by (simp add: demo_config_def)
  then show ?thesis
    by (simp add: demo_usb_app_def session_new_def choose_ports_def session_config_def new_session_def
        demo_app_def Let_def rc_client_create_def dup_or_null_def demo_cb_client_def demo_client_eq
        rc_client_set_status_callback_def rc_client_set_frame_callback_def build_view_def)
      (simp add: demo_config_def)
qed

lemma demo_cb_deploy:
  "\<exists>s1. rc_server_deploy demo_usb_env (core demo_cb_client (os.truncate demo_idle_sys)) = Some (RC_OK, s1) \<and>
     open_fds s1 = [5, 4, 0, 1, 2] \<and> tick s1 = 18 \<and>
     cfg (client s1) = demo_config \<and> dm_version (meta (client s1)) = RC_PROTO_VERSION \<and>
     dm_codec_id (meta (client s1)) = RC_CODEC_ID_H264"
proof -
  obtain q m' where "rc_demux_read_meta demo_stream (Some zero_meta) = Some (RC_OK, Some m', q)"
    "dm_version m' = RC_PROTO_VERSION" "dm_codec_id m' = RC_CODEC_ID_H264"
    using demo_stream_meta by blast
  then show ?thesis
    by (simp add: deploy_eval os_eval demo_idle_sys_def demo_sys_def demo_cb_client_def demo_client_eq demo_config_def
        demo_usb_env_def demo_env_def core_def os.defs)
qed

theorem app_exit_releases_witness:
  "\<exists>a w w'. reach (app_start {0, 1, 2} {}) app_step (a, w) \<and> set (open_fds w) = {0, 1, 2, 4, 5} \<and>
     free_sessions demo_usb_env demo_ffmpeg False (sessions a) w = Some w' \<and>
     set (open_fds w') = {0, 1, 2} \<and> set (children w') = {}"
proof -
  let ?w = "os.truncate demo_idle_sys"
  have st0: "app_start {0, 1, 2} {} (demo_app, ?w)"
    using demo_deploy_env(3,4) by (auto simp: app_start_def demo_app_def)
  have "app_step (demo_app, ?w) (demo_usb_app, ?w)"
    unfolding demo_usb_app_def by (rule new) (rule prod.collapse [symmetric])
  with st0 have r0: "reach (app_start {0, 1, 2} {}) app_step (demo_usb_app, ?w)"
    using reach_step [OF reach_start] by metis
  obtain st where st: "sessions demo_usb_app = [st]" "s_client st = Some demo_cb_client" "start_thread st = Starting"
    using demo_usb_app_sessions by blast
  obtain s0 where d: "rc_server_deploy demo_usb_env (core demo_cb_client ?w) = Some (RC_OK, s0)"
    "open_fds s0 = [5, 4, 0, 1, 2]" "tick s0 = 18" "cfg (client s0) = demo_config"
    "dm_version (meta (client s0)) = RC_PROTO_VERSION" "dm_codec_id (meta (client s0)) = RC_CODEC_ID_H264"
    using demo_cb_deploy by blast
  obtain s1 where s1: "start_decoder demo_usb_env demo_ffmpeg False s0 = Some (RC_OK, s1)" "open_fds s1 = open_fds s0"
    using demo_start_decoder [OF d(3-6)] by blast
  have "\<not> running demo_cb_client" by (simp add: demo_cb_client_def demo_client_eq)
  with d(1) s1(1) have "rc_client_start demo_usb_env demo_ffmpeg False (core demo_cb_client ?w) = Some (RC_OK, s1)"
    by (simp add: rc_client_start_def)
  with st(2) have run: "run_start_thread demo_usb_env demo_ffmpeg False st ?w =
      Some (st\<lparr>s_client := Some (client s1), start_thread := Finished\<rparr>, os.truncate s1)" (is "_ = Some (?st1, ?w1)")
    by (simp add: run_start_thread_def run_core_def)
  have "app_step (demo_usb_app, ?w) (set_session 0 ?st1 demo_usb_app, ?w1)"
    by (rule started [of 0]) (use st run demo_deploy_env(1) in simp_all)
  with r0 have r1: "reach (app_start {0, 1, 2} {}) app_step (set_session 0 ?st1 demo_usb_app, ?w1)"
    by (rule reach_step)
  have ss: "sessions (set_session 0 ?st1 demo_usb_app) = [?st1]" using st(1) by (simp add: set_session_def)
  have "children_end demo_usb_env" by (simp add: children_end_def demo_usb_env_def demo_env_def)
  moreover have "\<forall>st \<in> set (sessions (set_session 0 ?st1 demo_usb_app)). start_thread st \<noteq> Starting" by (simp add: ss)
  ultimately obtain w2 where f: "free_sessions demo_usb_env demo_ffmpeg False (sessions (set_session 0 ?st1 demo_usb_app)) ?w1 = Some w2"
    using app_exit_releases [OF r1 demo_deploy_env(1)] by blast
  then have "set (open_fds w2) = {0, 1, 2}" "set (children w2) = {}"
    using app_exit_releases [OF r1 demo_deploy_env(1)] by blast+
  moreover have "set (open_fds ?w1) = {0, 1, 2, 4, 5}" using d(2) s1(2) by auto
  ultimately show ?thesis using r1 f by blast
qed

end
