(* ===== verification/Gtk_GL.thy ===== *)
theory Gtk_GL
  imports Gtk_Session Complex_Main
begin

text \<open>
  The GL objects of a session: \<^verbatim>\<open>compile_shader\<close>, \<^verbatim>\<open>build_program\<close>, \<^verbatim>\<open>on_realize\<close> and \<^verbatim>\<open>on_unrealize\<close> of
  \<^verbatim>\<open>frontends/gtk/render.c\<close>.  A GL context is a table of live objects; which calls succeed is a
  parameter.  As GL documents, deleting the name 0 does nothing, and a shader that is deleted while a program
  has it attached lives on until that program is deleted.
\<close>

section \<open>The context\<close>

datatype shader_type = GL_VERTEX_SHADER | GL_FRAGMENT_SHADER

datatype gl_kind = Shader | Program | VertexArray | Buffer | Texture

text \<open>Live objects, the pairs of a program and a shader attached to it, and the shaders marked for deletion.\<close>

record glctx =
  gl_live :: "(gl_kind \<times> nat) list"
  gl_attached :: "(nat \<times> nat) list"
  gl_marked :: "nat list"

text \<open>Whether a shader object can be created, whether a source compiles, whether a program links, and the
  location of a uniform.\<close>

record gl_env =
  ge_create :: "shader_type \<Rightarrow> bool"
  ge_compile :: "shader_type \<Rightarrow> string \<Rightarrow> string \<Rightarrow> bool"
  ge_create_program :: bool
  ge_link :: bool
  ge_location :: "string \<Rightarrow> int"

text \<open>A new object gets a name that is not 0 and that no live object has.\<close>

definition gl_new :: "gl_kind \<Rightarrow> glctx \<Rightarrow> nat \<times> glctx" where
  "gl_new k g = (let n = Suc (foldr max (map snd (gl_live g)) 0) in (n, g\<lparr>gl_live := (k, n) # gl_live g\<rparr>))"

definition gl_free :: "gl_kind \<Rightarrow> nat \<Rightarrow> glctx \<Rightarrow> glctx" where
  "gl_free k n g = g\<lparr>gl_live := filter (\<lambda>x. x \<noteq> (k, n)) (gl_live g)\<rparr>"

definition glDeleteShader :: "nat \<Rightarrow> glctx \<Rightarrow> glctx" where
  "glDeleteShader sh g =
     (if sh = 0 then g
      else if sh \<in> snd ` set (gl_attached g) then g\<lparr>gl_marked := sh # gl_marked g\<rparr>
      else gl_free Shader sh g)"

text \<open>Deleting a program detaches its shaders; those that were marked go with it.\<close>

definition glDeleteProgram :: "nat \<Rightarrow> glctx \<Rightarrow> glctx" where
  "glDeleteProgram p g =
     (if p = 0 then g
      else
        let rest = filter (\<lambda>(q, s). q \<noteq> p) (gl_attached g);
            gone = filter (\<lambda>s. s \<notin> snd ` set rest) (gl_marked g)
        in g\<lparr>gl_live := filter (\<lambda>(k, n). \<not> (k = Program \<and> n = p) \<and> \<not> (k = Shader \<and> n \<in> set gone)) (gl_live g),
             gl_attached := rest, gl_marked := filter (\<lambda>s. s \<notin> set gone) (gl_marked g)\<rparr>)"

definition glAttachShader :: "nat \<Rightarrow> nat \<Rightarrow> glctx \<Rightarrow> glctx" where
  "glAttachShader p sh g = g\<lparr>gl_attached := (p, sh) # gl_attached g\<rparr>"

section \<open>The program\<close>

definition NL :: string where "NL = [LF]"

definition VERT_BODY :: string where
  "VERT_BODY = ''in vec2 pos;'' @ NL @ ''in vec2 tex;'' @ NL @ ''out vec2 v_uv;'' @ NL @
     ''void main() { v_uv = tex; gl_Position = vec4(pos, 0.0, 1.0); }'' @ NL"

definition FRAG_BODY :: string where
  "FRAG_BODY = ''uniform sampler2D y_tex;'' @ NL @ ''uniform sampler2D u_tex;'' @ NL @
     ''uniform sampler2D v_tex;'' @ NL @ ''uniform mat3 cmat;'' @ NL @ ''uniform float y_off;'' @ NL @
     ''uniform int nv12;'' @ NL @ ''in vec2 v_uv;'' @ NL @ ''out vec4 frag;'' @ NL @ ''void main() {'' @ NL @
     ''  vec3 yuv;'' @ NL @ ''  yuv.x = texture(y_tex, v_uv).r - y_off;'' @ NL @ ''  if (nv12 == 1) {'' @ NL @
     ''    yuv.yz = texture(u_tex, v_uv).rg - vec2(0.5);'' @ NL @ ''  } else {'' @ NL @
     ''    yuv.y = texture(u_tex, v_uv).r - 0.5;'' @ NL @ ''    yuv.z = texture(v_tex, v_uv).r - 0.5;'' @ NL @
     ''  }'' @ NL @ ''  frag = vec4(cmat * yuv, 1.0);'' @ NL @ ''}'' @ NL"

definition gl_header :: "bool \<Rightarrow> string" where
  "gl_header es = (if es then ''#version 300 es'' @ NL @ ''precision highp float;'' @ NL else ''#version 150'' @ NL)"

definition compile_shader :: "gl_env \<Rightarrow> shader_type \<Rightarrow> string \<Rightarrow> string \<Rightarrow> glctx \<Rightarrow> nat \<times> glctx" where
  "compile_shader GE type header body g =
     (let (sh, g) = (if ge_create GE type then gl_new Shader g else (0, g)); \<comment> \<open>\<^verbatim>\<open>glCreateShader\<close>\<close>
          ok = (sh \<noteq> 0 \<and> ge_compile GE type header body) in
      if \<not> ok then (0, glDeleteShader sh g) else (sh, g))"

definition build_program :: "gl_env \<Rightarrow> bool \<Rightarrow> glctx \<Rightarrow> nat \<times> glctx" where
  "build_program GE es g =
     (let header = gl_header es;
          (vs, g) = compile_shader GE GL_VERTEX_SHADER header VERT_BODY g;
          (fs, g) = compile_shader GE GL_FRAGMENT_SHADER header FRAG_BODY g in
      if vs = 0 \<or> fs = 0 then (0, g)
      else
        let (prog, g) = (if ge_create_program GE then gl_new Program g else (0, g)); \<comment> \<open>\<^verbatim>\<open>glCreateProgram\<close>\<close>
            g = (if prog = 0 then g else glAttachShader prog fs (glAttachShader prog vs g));
            g = glDeleteShader fs (glDeleteShader vs g);
            ok = (prog \<noteq> 0 \<and> ge_link GE) in
        if \<not> ok then (0, glDeleteProgram prog g) else (prog, g))"

section \<open>The life of the objects\<close>

text \<open>The quad: position and texture coordinate of each of the four corners of the triangle strip.\<close>

definition verts :: "((rat \<times> rat) \<times> (rat \<times> rat)) list" where
  "verts = [((-1, -1), (0, 1)), ((1, -1), (1, 1)), ((-1, 1), (0, 0)), ((1, 1), (1, 0))]"

fun gl_gen :: "gl_kind \<Rightarrow> nat \<Rightarrow> glctx \<Rightarrow> nat list \<times> glctx" where
  "gl_gen k 0 g = ([], g)"
| "gl_gen k (Suc n) g = (let (x, g) = gl_new k g; (xs, g) = gl_gen k n g in (x # xs, g))"

text \<open>\<open>err\<close> says that the area has no GL context, \<open>es\<close> that it is an OpenGL ES one.\<close>

definition on_realize :: "gl_env \<Rightarrow> bool \<Rightarrow> bool \<Rightarrow> session \<Rightarrow> glctx \<Rightarrow> session \<times> glctx" where
  "on_realize GE err es st g =
     (if err then (st, g)
      else
        let (p, g) = build_program GE es g; st = st\<lparr>prog := p\<rparr> in
        if p = 0 then (st, g)
        else
          let st = st\<lparr>u_tex := map (ge_location GE) [''y_tex'', ''u_tex'', ''v_tex''], u_cmat := ge_location GE ''cmat'',
                     u_yoff := ge_location GE ''y_off'', u_nv12 := ge_location GE ''nv12''\<rparr>;
              (va, g) = gl_new VertexArray g;
              (vb, g) = gl_new Buffer g;
              (ts, g) = gl_gen Texture 3 g
          in (st\<lparr>vao := va, vbo := vb, tex := ts, tex_w := [0, 0, 0], tex_h := [0, 0, 0],
                 tex_ifmt := [NoFmt, NoFmt, NoFmt]\<rparr>, g))"

text \<open>What \<^verbatim>\<open>on_realize\<close> sets up on the new objects, in the order of its calls; strides and offsets count floats.\<close>

datatype tex_param = TEXTURE_MIN_FILTER_LINEAR | TEXTURE_MAG_FILTER_LINEAR | TEXTURE_WRAP_S_CLAMP_TO_EDGE | TEXTURE_WRAP_T_CLAMP_TO_EDGE

datatype gl_setup =
    BindVertexArray nat
  | BindBuffer nat
  | BufferData "rat list"
  | VertexAttribPointer nat nat nat nat   \<comment> \<open>index, size, stride, offset\<close>
  | EnableVertexAttribArray nat
  | BindTexture nat
  | TexParameter tex_param
  | UnpackAlignment nat

definition vert_data :: "rat list" where
  "vert_data = concat (map (\<lambda>((x, y), (u, v)). [x, y, u, v]) verts)"

definition realize_calls :: "session \<Rightarrow> gl_setup list" where
  "realize_calls st =
     [BindVertexArray (vao st), BindBuffer (vbo st), BufferData vert_data,
      VertexAttribPointer 0 2 4 0, EnableVertexAttribArray 0, VertexAttribPointer 1 2 4 2, EnableVertexAttribArray 1] @
     concat (map (\<lambda>t. [BindTexture t, TexParameter TEXTURE_MIN_FILTER_LINEAR, TexParameter TEXTURE_MAG_FILTER_LINEAR,
        TexParameter TEXTURE_WRAP_S_CLAMP_TO_EDGE, TexParameter TEXTURE_WRAP_T_CLAMP_TO_EDGE]) (tex st)) @
     [UnpackAlignment 1]"

text \<open>The attribute of vertex \<open>i\<close> that an attribute pointer reads from the buffer: position and texture coordinate of corner
  \<open>i\<close>.\<close>

fun attribute :: "rat list \<Rightarrow> gl_setup \<Rightarrow> nat \<Rightarrow> rat list" where
  "attribute buf (VertexAttribPointer idx n stride off) i = take n (drop (i * stride + off) buf)"
| "attribute buf _ i = []"

lemma corner_attributes:
  "i < 4 \<Longrightarrow> attribute vert_data (realize_calls st ! 3) i = [fst (fst (verts ! i)), snd (fst (verts ! i))] \<and>
     attribute vert_data (realize_calls st ! 5) i = [fst (snd (verts ! i)), snd (snd (verts ! i))]"
  by (auto simp: less_Suc_eq eval_nat_numeral realize_calls_def vert_data_def verts_def)

definition on_unrealize :: "bool \<Rightarrow> session \<Rightarrow> glctx \<Rightarrow> session \<times> glctx" where
  "on_unrealize err st g =
     (if err then (st, g)
      else
        let g = (if tex st ! 0 \<noteq> 0 then fold (gl_free Texture) (tex st) g else g);
            g = (if vbo st \<noteq> 0 then gl_free Buffer (vbo st) g else g);
            g = (if vao st \<noteq> 0 then gl_free VertexArray (vao st) g else g);
            g = (if prog st \<noteq> 0 then glDeleteProgram (prog st) g else g)
        in (st\<lparr>prog := 0, vao := 0, vbo := 0, tex := [0, 0, 0]\<rparr>, g))"

section \<open>What the objects do to the context\<close>

text \<open>Only live objects are attached, and a marked shader is attached.\<close>

definition gl_wf :: "glctx \<Rightarrow> bool" where
  "gl_wf g \<longleftrightarrow> (\<forall>(p, s) \<in> set (gl_attached g). (Program, p) \<in> set (gl_live g) \<and> (Shader, s) \<in> set (gl_live g)) \<and>
     set (gl_marked g) \<subseteq> snd ` set (gl_attached g)"

definition gl_top :: "glctx \<Rightarrow> nat" where
  "gl_top g = foldr max (map snd (gl_live g)) 0"

lemma gl_new_eq: "gl_new k g = (Suc (gl_top g), g\<lparr>gl_live := (k, Suc (gl_top g)) # gl_live g\<rparr>)"
  by (simp add: gl_new_def gl_top_def)

lemma gl_top_sel [simp]:
  "gl_top (g\<lparr>gl_live := (k, n) # l\<rparr>) = max n (gl_top (g\<lparr>gl_live := l\<rparr>))"
  "gl_top (g\<lparr>gl_attached := a\<rparr>) = gl_top g" "gl_top (g\<lparr>gl_marked := m\<rparr>) = gl_top g"
  "gl_top (g\<lparr>gl_live := l, gl_attached := a\<rparr>) = gl_top (g\<lparr>gl_live := l\<rparr>)"
  "gl_top (g\<lparr>gl_live := l, gl_attached := a, gl_marked := m\<rparr>) = gl_top (g\<lparr>gl_live := l\<rparr>)"
  "gl_top (g\<lparr>gl_live := gl_live g\<rparr>) = gl_top g"
  by (simp_all add: gl_top_def)

lemma live_le_top: "(k, n) \<in> set (gl_live g) \<Longrightarrow> n \<le> gl_top g"
proof -
  have "(k, n) \<in> set xs \<Longrightarrow> n \<le> foldr max (map snd xs) 0" for xs :: "(gl_kind \<times> nat) list"
    by (induction xs) auto
  then show "(k, n) \<in> set (gl_live g) \<Longrightarrow> n \<le> gl_top g" by (simp add: gl_top_def)
qed

text \<open>Dropping names that no live object has changes nothing.\<close>

lemma above_top:
  assumes "gl_wf g" and "gl_top g < n"
  shows "filter (\<lambda>x. x \<noteq> (k, n)) (gl_live g) = gl_live g"
    and "n \<notin> snd ` set (gl_attached g)" and "n \<notin> fst ` set (gl_attached g)" and "n \<notin> set (gl_marked g)"
proof -
  show "filter (\<lambda>x. x \<noteq> (k, n)) (gl_live g) = gl_live g"
    by (rule filter_True) (use live_le_top [of _ _ g] assms(2) in fastforce)
  show s: "n \<notin> snd ` set (gl_attached g)"
    using assms live_le_top [of Shader n g] by (fastforce simp: gl_wf_def)
  show "n \<notin> fst ` set (gl_attached g)"
    using assms live_le_top [of Program n g] by (fastforce simp: gl_wf_def)
  show "n \<notin> set (gl_marked g)" using s assms(1) by (auto simp: gl_wf_def)
qed

text \<open>Both shaders compile, or neither.\<close>

definition compiles :: "gl_env \<Rightarrow> bool \<Rightarrow> shader_type \<Rightarrow> string \<Rightarrow> bool" where
  "compiles GE es type body \<longleftrightarrow> ge_create GE type \<and> ge_compile GE type (gl_header es) body"

definition shaders_agree :: "gl_env \<Rightarrow> bool \<Rightarrow> bool" where
  "shaders_agree GE es \<longleftrightarrow>
     compiles GE es GL_VERTEX_SHADER VERT_BODY = compiles GE es GL_FRAGMENT_SHADER FRAG_BODY"

definition built :: "gl_env \<Rightarrow> bool \<Rightarrow> bool" where
  "built GE es \<longleftrightarrow> compiles GE es GL_VERTEX_SHADER VERT_BODY \<and> ge_create_program GE \<and> ge_link GE"

lemma compile_shader_eq:
  assumes "gl_wf g"
  shows "compile_shader GE type (gl_header es) body g =
     (if compiles GE es type body
      then (Suc (gl_top g), g\<lparr>gl_live := (Shader, Suc (gl_top g)) # gl_live g\<rparr>) else (0, g))"
  using above_top [OF assms, of "Suc (gl_top g)"]
  by (auto simp: compile_shader_def compiles_def gl_new_eq glDeleteShader_def gl_free_def)

lemma gl_wf_new: "gl_wf g \<Longrightarrow> gl_wf (g\<lparr>gl_live := x # gl_live g\<rparr>)"
  by (auto simp: gl_wf_def)

text \<open>The context with a program of two shaders marked for deletion, its names starting with \<open>n\<close>.\<close>

definition with_program :: "nat \<Rightarrow> glctx \<Rightarrow> glctx" where
  "with_program n g = g\<lparr>gl_live := (Program, n + 2) # (Shader, n + 1) # (Shader, n) # gl_live g,
     gl_attached := (n + 2, n + 1) # (n + 2, n) # gl_attached g, gl_marked := (n + 1) # n # gl_marked g\<rparr>"

lemma delete_with_program:
  assumes "gl_wf g" and "gl_top g < n"
  shows "glDeleteProgram (n + 2) (with_program n g) = g"
proof -
  note A = above_top [OF assms(1), of n] above_top [OF assms(1), of "n + 1"] above_top [OF assms(1), of "n + 2"]
  have rest: "filter (\<lambda>(q, s). q \<noteq> n + 2) (gl_attached g) = gl_attached g"
    by (rule filter_True) (use above_top(3) [OF assms(1), of "n + 2"] assms(2) in force)
  have gone: "filter (\<lambda>s. s \<notin> snd ` set (gl_attached g)) (gl_marked g) = []"
    using assms(1) by (auto simp: gl_wf_def filter_empty_conv)
  have marked: "filter (\<lambda>s. s \<noteq> n + 1 \<and> s \<noteq> n) (gl_marked g) = gl_marked g"
    by (rule filter_True) (use A(4,8) assms(2) in auto)
  have live: "filter (\<lambda>(k, m). \<not> (k = Program \<and> m = n + 2) \<and> \<not> (k = Shader \<and> (m = n + 1 \<or> m = n))) (gl_live g) = gl_live g"
    by (rule filter_True) (use live_le_top [of _ _ g] assms(2) in fastforce)
  show ?thesis
    using A(2,6) assms(2) rest gone marked live by (simp add: glDeleteProgram_def with_program_def Let_def)
qed

lemma build_program_eq:
  assumes "gl_wf g" and "shaders_agree GE es"
  shows "build_program GE es g =
     (if built GE es then (Suc (gl_top g) + 2, with_program (Suc (gl_top g)) g)
      else (0, g))"
proof -
  let ?n = "Suc (gl_top g)"
  let ?g1 = "g\<lparr>gl_live := (Shader, ?n) # gl_live g\<rparr>"
  note C = compile_shader_eq [OF assms(1)] compile_shader_eq [OF gl_wf_new [OF assms(1)]]
  note A = above_top [OF assms(1), of ?n] above_top [OF assms(1), of "Suc ?n"]
  show ?thesis
  proof (cases "compiles GE es GL_VERTEX_SHADER VERT_BODY")
    case False
    then show ?thesis using assms(2) by (simp add: build_program_def built_def Let_def C shaders_agree_def)
  next
    case True
    with assms(2) have T: "compiles GE es GL_FRAGMENT_SHADER FRAG_BODY" by (simp add: shaders_agree_def)
    show ?thesis
    proof (cases "ge_create_program GE")
      case True
      have "build_program GE es g = (if ge_link GE then (?n + 2, with_program ?n g)
          else (0, glDeleteProgram (?n + 2) (with_program ?n g)))"
        using \<open>compiles GE es GL_VERTEX_SHADER VERT_BODY\<close> T True
        by (simp add: build_program_def Let_def C gl_new_eq glAttachShader_def glDeleteShader_def
            with_program_def)
      with \<open>compiles GE es GL_VERTEX_SHADER VERT_BODY\<close> True delete_with_program [OF assms(1), of ?n] show ?thesis by (auto simp: built_def)
    next
      case False
      have "glDeleteShader (Suc ?n) (glDeleteShader ?n (g\<lparr>gl_live := (Shader, Suc ?n) # (Shader, ?n) # gl_live g\<rparr>)) = g"
        using A by (simp add: glDeleteShader_def gl_free_def)
      with \<open>compiles GE es GL_VERTEX_SHADER VERT_BODY\<close> T False show ?thesis
        by (simp add: build_program_def built_def Let_def C glDeleteProgram_def)
    qed
  qed
qed

text \<open>The names a session keeps, and the context with all its objects.\<close>

definition gl_names :: "session \<Rightarrow> nat \<times> nat \<times> nat \<times> nat list" where
  "gl_names st = (prog st, vao st, vbo st, tex st)"

definition no_names :: "nat \<times> nat \<times> nat \<times> nat list" where
  "no_names = (0, 0, 0, [0, 0, 0])"

definition names_from :: "nat \<Rightarrow> nat \<times> nat \<times> nat \<times> nat list" where
  "names_from n = (n + 2, n + 3, n + 4, [n + 5, n + 6, n + 7])"

definition with_objects :: "nat \<Rightarrow> glctx \<Rightarrow> glctx" where
  "with_objects n g = (let g = with_program n g in
     g\<lparr>gl_live := (Texture, n + 7) # (Texture, n + 6) # (Texture, n + 5) # (Buffer, n + 4) # (VertexArray, n + 3) # gl_live g\<rparr>)"

lemma on_realize_names:
  assumes "gl_wf g" and "shaders_agree GE es" and "gl_names st = no_names" and "on_realize GE err es st g = (st', g')"
  shows "if err \<or> \<not> built GE es then gl_names st' = no_names \<and> g' = g
     else gl_names st' = names_from (Suc (gl_top g)) \<and> g' = with_objects (Suc (gl_top g)) g"
proof (cases "err \<or> \<not> built GE es")
  case True
  with assms(3,4) show ?thesis
    by (cases err) (auto simp: on_realize_def build_program_eq [OF assms(1,2)] gl_names_def no_names_def)
next
  case False
  let ?n = "Suc (gl_top g)"
  have top: "gl_top (with_program ?n g) = ?n + 2" by (simp add: with_program_def)
  have more: "gl_top (g\<lparr>gl_live := (k, Suc (gl_top g)) # gl_live g\<rparr>) = Suc (gl_top g)" for k g by simp
  have "gl_names st' = names_from ?n \<and> g' = with_objects ?n g"
    using assms(4) False top
    by (simp add: on_realize_def build_program_eq [OF assms(1,2)] gl_new_eq Let_def numeral_3_eq_3 more
        gl_names_def names_from_def with_objects_def) auto
  with False show ?thesis by simp
qed

lemma on_unrealize_names:
  assumes "gl_wf g" and "gl_top g < n" and "gl_names st = names_from n" and "on_unrealize False st (with_objects n g) = (st', g')"
  shows "gl_names st' = no_names \<and> g' = g"
proof -
  let ?p = "with_program n g"
  have l: "(k, m) \<in> set (gl_live ?p) \<Longrightarrow> m \<le> n + 2" for k m
    using live_le_top [of k m g] assms(2) by (auto simp: with_program_def)
  then have f: "filter (\<lambda>x. x \<noteq> (Texture, n + 5) \<and> x \<noteq> (Texture, n + 6) \<and> x \<noteq> (Texture, n + 7) \<and>
      x \<noteq> (Buffer, n + 4) \<and> x \<noteq> (VertexArray, n + 3)) (gl_live ?p) = gl_live ?p"
    by (intro filter_True) fastforce
  from assms(3) have s: "prog st = n + 2" "vao st = n + 3" "vbo st = n + 4" "tex st = [n + 5, n + 6, n + 7]"
    by (simp_all add: gl_names_def names_from_def)
  have "g' = glDeleteProgram (n + 2) ?p" "gl_names st' = no_names"
    using assms(4) f
    by (auto simp: on_unrealize_def s gl_free_def with_objects_def Let_def gl_names_def no_names_def add.assoc)
  then show ?thesis using delete_with_program [OF assms(1,2)] by simp
qed

text \<open>When only the vertex shader compiles, its object is left behind: \<^verbatim>\<open>build_program\<close> returns without deleting it.\<close>

lemma half_built_leaks:
  assumes "gl_wf g" and "compiles GE es GL_VERTEX_SHADER VERT_BODY" and "\<not> compiles GE es GL_FRAGMENT_SHADER FRAG_BODY"
  shows "build_program GE es g = (0, g\<lparr>gl_live := (Shader, Suc (gl_top g)) # gl_live g\<rparr>)"
  using assms(2,3) compile_shader_eq [OF assms(1)] compile_shader_eq [OF gl_wf_new [OF assms(1)]]
  by (simp add: build_program_def Let_def)

end
