(* ===== verification/Gtk_Render.thy ===== *)
theory Gtk_Render
  imports Gtk_GL
begin

text \<open>
  \<^verbatim>\<open>frontends/gtk/render.c\<close>: taking frames over from the decoder thread, handing them to the UI thread,
  uploading them to the textures, measuring delays, the colour matrix, and the geometry (letterbox,
  window size, and from a point of the widget to a pixel of the device).

  \<^verbatim>\<open>double\<close> and \<^verbatim>\<open>float\<close> arithmetic is exact rational arithmetic here, rounding is not modelled; where a
  \<^verbatim>\<open>float\<close> goes over the wire its bit pattern is given by the parameter \<open>rnd\<close>.  GL calls are recorded
  with their arguments; the shader program and the other GL objects are in \<^verbatim>\<open>Gtk_GL\<close> and \<^verbatim>\<open>Gtk_Shader\<close>.
\<close>

section \<open>Geometry\<close>

text \<open>\<^verbatim>\<open>(int)x\<close>.\<close>

definition trunc :: "rat \<Rightarrow> int" where
  "trunc x = (if 0 \<le> x then \<lfloor>x\<rfloor> else \<lceil>x\<rceil>)"

definition letterbox :: "int \<Rightarrow> int \<Rightarrow> int \<Rightarrow> int \<Rightarrow> int \<times> int \<times> int \<times> int" where
  "letterbox fbw fbh w h =
     (let win_a = of_int fbw / of_int fbh :: rat;
          vid_a = of_int w / of_int h;
          (vpw, vph) = (if vid_a < win_a then (trunc (of_int fbh * vid_a + 1 / 2), fbh)
                        else (fbw, trunc (of_int fbw / vid_a + 1 / 2)))
      in ((fbw - vpw) sdiv 2, (fbh - vph) sdiv 2, vpw, vph))"

definition widget_viewport :: "int \<Rightarrow> int \<Rightarrow> int \<Rightarrow> int \<Rightarrow> rat \<times> rat \<times> rat \<times> rat" where
  "widget_viewport ww wh w h =
     (let win_a = of_int ww / of_int wh;
          vid_a = of_int w / of_int h;
          (vpw, vph) = (if vid_a < win_a then (of_int wh * vid_a, of_int wh)
                        else (of_int ww, of_int ww / vid_a))
      in ((of_int ww - vpw) / 2, (of_int wh - vph) / 2, vpw, vph))"

definition widget_to_device :: "int \<Rightarrow> int \<Rightarrow> int \<Rightarrow> int \<Rightarrow> rat \<Rightarrow> rat \<Rightarrow> (rat \<times> rat) option" where
  "widget_to_device w h ww wh wx wy =
     (if w \<le> 0 \<or> h \<le> 0 then None
      else if ww \<le> 0 \<or> wh \<le> 0 then None
      else
        let (vpx, vpy, vpw, vph) = widget_viewport ww wh w h in
        if wx < vpx \<or> vpx + vpw < wx \<or> wy < vpy \<or> vpy + vph < wy then None
        else Some ((wx - vpx) / vpw * of_int w, (wy - vpy) / vph * of_int h))"

definition render_widget_to_device ::
    "(rat \<Rightarrow> f32) \<Rightarrow> session \<Rightarrow> int \<Rightarrow> int \<Rightarrow> rat \<Rightarrow> rat \<Rightarrow> (f32 \<times> f32) option" where
  "render_widget_to_device rnd st ww wh wx wy =
     map_option (map_prod rnd rnd) (widget_to_device (vw st) (vh st) ww wh wx wy)"

text \<open>The window size \<^verbatim>\<open>resize_to_video\<close> asks for: \<open>bar\<close> is the height of the navigation bar, \<open>mon\<close> the size of
  the monitor if it is known.\<close>

definition resize_to_video :: "session \<Rightarrow> int \<Rightarrow> (int \<times> int) option \<Rightarrow> (int \<times> int) option" where
  "resize_to_video st bar mon =
     (if \<not> alive st then None
      else if vw st \<le> 0 \<or> vh st \<le> 0 then None
      else
        let bar_h = (if has_bar st then bar else 0);
            bar_h = (if bar_h \<le> 0 then 48 else bar_h);
            (max_w, max_h) = (case mon of None \<Rightarrow> (vw st, vh st)
                              | Some (mw, mh) \<Rightarrow> (mw * 9 sdiv 10, mh * 9 sdiv 10 - bar_h));
            scale = 1 :: rat;
            scale = (if of_int (vw st) * scale > of_int max_w then of_int max_w / of_int (vw st) else scale);
            scale = (if of_int (vh st) * scale > of_int max_h then of_int max_h / of_int (vh st) else scale)
        in Some (trunc (of_int (vw st) * scale + 1 / 2), trunc (of_int (vh st) * scale + 1 / 2) + bar_h))"

section \<open>Colour\<close>

definition color_matrix :: "bool \<Rightarrow> bool \<Rightarrow> rat list \<times> rat" where
  "color_matrix b709 full =
     (let kr = (if b709 then 2126 / 10000 else 299 / 1000);
          kb = (if b709 then 722 / 10000 else 114 / 1000);
          kg = 1 - kr - kb;
          cr = 2 * (1 - kr);
          cb = 2 * (1 - kb);
          ys = (if full then 1 else 255 / 219);
          cs = (if full then 1 else 255 / 224);
          y_off = (if full then 0 else 16 / 255)
      in ([ys, ys, ys, 0, - cs * cb * kb / kg, cs * cb, cs * cr, - cs * cr * kr / kg, 0], y_off))"

section \<open>Taking a frame over\<close>

definition size_t :: "int \<Rightarrow> nat" where
  "size_t x = nat (x mod 2 ^ 64)"

text \<open>\<open>ra n\<close> says whether \<open>n\<close> bytes can be allocated; \<^verbatim>\<open>g_realloc\<close> ends the program when not (\<^term>\<open>None\<close>).\<close>

definition copy_plane ::
    "(nat \<Rightarrow> bool) \<Rightarrow> session \<Rightarrow> nat \<Rightarrow> byte list \<Rightarrow> int \<Rightarrow> int \<Rightarrow> int \<Rightarrow> session option" where
  "copy_plane ra st i src stride w h =
     (let need = size_t (stride * (h - 1) + w);
          old = (case plane st ! i of None \<Rightarrow> [] | Some b \<Rightarrow> b) in
      if pcap st ! i < need then
        (if ra need then
           Some (st\<lparr>plane := (plane st)[i := Some (take need src)], pcap := (pcap st)[i := need],
                    pstride := (pstride st)[i := stride]\<rparr>)
         else None)
      else Some (st\<lparr>plane := (plane st)[i := Some (take need src @ drop need old)],
                    pstride := (pstride st)[i := stride]\<rparr>))"

text \<open>The part of \<^verbatim>\<open>render_on_frame\<close> under the lock, and the part after it.  C divides the non-negative
  sizes like \<^const>\<open>divide\<close>.\<close>

definition frame_store :: "(nat \<Rightarrow> bool) \<Rightarrow> rc_frame \<Rightarrow> session \<Rightarrow> (bool \<times> session) option" where
  "frame_store ra f st =
     (let size_changed = (vw st \<noteq> f_width f \<or> vh st \<noteq> f_height f);
          st = st\<lparr>vw := f_width f, vh := f_height f, pixfmt := f_format f, full_range := f_full_range f,
                 bt709 := f_bt709 f\<rparr> in do {
      st \<leftarrow> copy_plane ra st 0 (f_planes f ! 0) (f_linesize f ! 0) (f_width f) (f_height f);
      st \<leftarrow> (if f_format f = RC_PIX_NV12 then
              copy_plane ra st 1 (f_planes f ! 1) (f_linesize f ! 1) (f_width f) (f_height f sdiv 2)
            else do {
              st \<leftarrow> copy_plane ra st 1 (f_planes f ! 1) (f_linesize f ! 1) (f_width f sdiv 2) (f_height f sdiv 2);
              copy_plane ra st 2 (f_planes f ! 2) (f_linesize f ! 2) (f_width f sdiv 2) (f_height f sdiv 2)
            });
      Some (size_changed, st\<lparr>have_pending := True, pend_recv_ms := f_recv_ms f, pend_pts_us := f_pts_us f\<rparr>)
    })"

datatype idle_source = ResizeToVideo | TriggerRender

definition frame_publish :: "bool \<Rightarrow> session \<Rightarrow> idle_source list \<times> session" where
  "frame_publish size_changed st =
     (let st = st\<lparr>frame_count := frame_count st + 1\<rparr>;
          st = (if \<not> logged_first st then st\<lparr>logged_first := True\<rparr> else st);
          scheduled = render_scheduled st;
          st = st\<lparr>render_scheduled := True\<rparr>
      in ((if size_changed then [ResizeToVideo] else []) @ (if \<not> scheduled then [TriggerRender] else []), st))"

definition render_on_frame :: "(nat \<Rightarrow> bool) \<Rightarrow> rc_frame \<Rightarrow> session \<Rightarrow> (idle_source list \<times> session) option" where
  "render_on_frame ra f st =
     (if f_format f \<noteq> RC_PIX_I420 \<and> f_format f \<noteq> RC_PIX_NV12 then Some ([], st)
      else do {
        (size_changed, st) \<leftarrow> frame_store ra f st;
        Some (frame_publish size_changed st)
      })"

text \<open>\<^verbatim>\<open>trigger_render\<close>: whether a redraw is queued.\<close>

definition trigger_clear :: "session \<Rightarrow> session" where
  "trigger_clear st = st\<lparr>render_scheduled := False\<rparr>"

definition trigger_queues :: "session \<Rightarrow> bool" where
  "trigger_queues st \<longleftrightarrow> alive st \<and> has_gl st"

definition trigger_render :: "session \<Rightarrow> bool \<times> session" where
  "trigger_render st = (let st = trigger_clear st in (trigger_queues st, st))"

section \<open>Drawing\<close>

text \<open>\<^verbatim>\<open>GlTexImage\<close> allocates storage, \<^verbatim>\<open>GlTexSubImage\<close> reuses it; both get the texture, the row length in
  pixels, the size, the format and the memory they read.\<close>

datatype gl_call =
    GlClear
  | GlTexImage nat int int int gl_ifmt "byte list"
  | GlTexSubImage nat int int int gl_ifmt "byte list"
  | GlViewport int int int int
  | GlUniforms "rat list" rat bool
  | GlDraw

definition upload_plane ::
    "session \<Rightarrow> nat \<Rightarrow> byte list option \<Rightarrow> int \<Rightarrow> int \<Rightarrow> int \<Rightarrow> gl_ifmt \<Rightarrow> gl_call \<times> session" where
  "upload_plane st i data stride_px w h ifmt =
     (let d = (case data of None \<Rightarrow> [] | Some b \<Rightarrow> b) in
      if tex_w st ! i \<noteq> w \<or> tex_h st ! i \<noteq> h \<or> tex_ifmt st ! i \<noteq> ifmt then
        (GlTexImage i stride_px w h ifmt d,
         st\<lparr>tex_w := (tex_w st)[i := w], tex_h := (tex_h st)[i := h], tex_ifmt := (tex_ifmt st)[i := ifmt]\<rparr>)
      else (GlTexSubImage i stride_px w h ifmt d, st))"

definition upload_frame :: "session \<Rightarrow> gl_call list \<times> session" where
  "upload_frame st =
     (let w = vw st; h = vh st;
          (c0, st) = upload_plane st 0 (plane st ! 0) (pstride st ! 0) w h GL_R8 in
      if pixfmt st = RC_PIX_NV12 then
        (let (c1, st) = upload_plane st 1 (plane st ! 1) (pstride st ! 1 sdiv 2) (w sdiv 2) (h sdiv 2) GL_RG8
         in ([c0, c1], st\<lparr>have_pending := False\<rparr>))
      else
        (let (c1, st) = upload_plane st 1 (plane st ! 1) (pstride st ! 1) (w sdiv 2) (h sdiv 2) GL_R8;
             (c2, st) = upload_plane st 2 (plane st ! 2) (pstride st ! 2) (w sdiv 2) (h sdiv 2) GL_R8
         in ([c0, c1, c2], st\<lparr>have_pending := False\<rparr>)))"

text \<open>The delay sample of an uploaded frame.\<close>

definition measure_delay :: "int \<Rightarrow> session \<Rightarrow> session" where
  "measure_delay now_us st =
     (let pipe = now_us sdiv 1000 - pend_recv_ms st; pts_us = pend_pts_us st in
      if 0 \<le> pipe \<and> pipe < 10000 then
        let st = st\<lparr>lat_sum_ms := lat_sum_ms st + pipe, lat_n := lat_n st + 1\<rparr> in
        if 0 < pts_us then
          let rel = now_us - pts_us;
              st = (if rel < lag_base_us st then st\<lparr>lag_base_us := rel\<rparr> else st)
          in st\<lparr>lag_sum_ms := lag_sum_ms st + (rel - lag_base_us st) sdiv 1000\<rparr>
        else st
      else st)"

text \<open>The return value, the GL calls and the session.  \<open>ww\<close> and \<open>wh\<close> is the size of the widget, used while
  no resize signal came.\<close>

definition on_render :: "int \<Rightarrow> int \<Rightarrow> int \<Rightarrow> session \<Rightarrow> bool \<times> gl_call list \<times> session" where
  "on_render now_us ww wh st =
     (if prog st = 0 then (False, [], st)
      else
        let nv12 = (pixfmt st = RC_PIX_NV12);
            (ups, st) = (if have_pending st \<and> 0 < vw st \<and> 0 < vh st
                         then (let (cs, st) = upload_frame st in (cs, measure_delay now_us st)) else ([], st)) in
        if tex_w st ! 0 = 0 then (True, GlClear # ups, st)
        else
          let fbw = (if 0 < fb_w st then fb_w st else ww);
              fbh = (if 0 < fb_h st then fb_h st else wh);
              (x, y, vpw, vph) = letterbox fbw fbh (vw st) (vh st);
              (cmat, y_off) = color_matrix (bt709 st) (full_range st)
          in (True, GlClear # ups @ [GlViewport x y vpw vph, GlUniforms cmat y_off nv12, GlDraw], st))"

definition on_resize :: "int \<Rightarrow> int \<Rightarrow> session \<Rightarrow> session" where
  "on_resize w h st = st\<lparr>fb_w := w, fb_h := h\<rparr>"

section \<open>The geometry is exact\<close>

lemma widget_viewport_spec:
  assumes "0 < w" "0 < h" "0 < ww" "0 < wh" and v: "widget_viewport ww wh w h = (vpx, vpy, vpw, vph)"
  shows "0 < vpw" and "0 < vph" and "vpw \<le> of_int ww" and "vph \<le> of_int wh"
    and "vpw * of_int h = vph * of_int w" and "vpw = of_int ww \<or> vph = of_int wh"
    and "vpx = (of_int ww - vpw) / 2" and "vpy = (of_int wh - vph) / 2"
proof -
  let ?W = "of_int w :: rat" and ?H = "of_int h :: rat" and ?A = "of_int ww :: rat" and ?B = "of_int wh :: rat"
  have p: "0 < ?W" "0 < ?H" "0 < ?A" "0 < ?B" using assms(1-4) by simp_all
  have *: "0 < vpw \<and> 0 < vph \<and> vpw \<le> ?A \<and> vph \<le> ?B \<and> vpw * ?H = vph * ?W \<and> (vpw = ?A \<or> vph = ?B) \<and>
      vpx = (?A - vpw) / 2 \<and> vpy = (?B - vph) / 2"
  proof (cases "?W / ?H < ?A / ?B")
    case True
    with v have "vpw = ?B * (?W / ?H)" "vph = ?B" "vpx = (?A - vpw) / 2" "vpy = (?B - vph) / 2"
      by (auto simp: widget_viewport_def Let_def)
    moreover have "?B * (?W / ?H) \<le> ?A" using True p by (simp add: field_simps)
    moreover have "0 < ?B * (?W / ?H)" using p by simp
    ultimately show ?thesis using p by simp
  next
    case False
    with v have "vpw = ?A" "vph = ?A / (?W / ?H)" "vpx = (?A - vpw) / 2" "vpy = (?B - vph) / 2"
      by (auto simp: widget_viewport_def Let_def)
    moreover have "?A / (?W / ?H) \<le> ?B" using False p by (simp add: field_simps)
    moreover have "0 < ?A / (?W / ?H)" using p by simp
    ultimately show ?thesis using p by simp
  qed
  then show "0 < vpw" "0 < vph" "vpw \<le> ?A" "vph \<le> ?B" "vpw * ?H = vph * ?W" "vpw = ?A \<or> vph = ?B"
    "vpx = (?A - vpw) / 2" "vpy = (?B - vph) / 2" by blast+
qed

lemma scale_inverse:
  fixes x p l s d :: rat
  assumes "0 < l" "0 < s"
  shows "p \<le> x \<and> x \<le> p + l \<and> (x - p) / l * s = d \<longleftrightarrow> 0 \<le> d \<and> d \<le> s \<and> x = p + d * l / s"
proof -
  have x: "(x - p) / l * s = d \<longleftrightarrow> x = p + d * l / s" using assms by (auto simp: field_simps)
  have "0 \<le> d * l / s \<longleftrightarrow> 0 \<le> d" using assms by (simp add: zero_le_divide_iff zero_le_mult_iff)
  moreover have "d * l / s \<le> l \<longleftrightarrow> d \<le> s" using assms by (simp add: pos_divide_le_eq mult.commute)
  ultimately show ?thesis unfolding x by auto
qed

text \<open>
  C40: a click goes to the pixel under it.  For positive sizes the video fills the widget in one
  direction, keeps its aspect ratio and is centred; and a point of the widget is mapped to device
  position \<open>(dx, dy)\<close> exactly when that position is inside the video and the point is where the video
  shows it.  Points outside the video are refused.
\<close>

theorem widget_to_device_exact:
  assumes "0 < w" "0 < h" "0 < ww" "0 < wh" and "widget_viewport ww wh w h = (vpx, vpy, vpw, vph)"
  shows "vpw * of_int h = vph * of_int w \<and> vpw \<le> of_int ww \<and> vph \<le> of_int wh \<and>
     (vpw = of_int ww \<or> vph = of_int wh) \<and> vpx + vpw + vpx = of_int ww \<and> vpy + vph + vpy = of_int wh \<and>
     (widget_to_device w h ww wh wx wy = Some (dx, dy) \<longleftrightarrow>
        0 \<le> dx \<and> dx \<le> of_int w \<and> 0 \<le> dy \<and> dy \<le> of_int h \<and>
        wx = vpx + dx * vpw / of_int w \<and> wy = vpy + dy * vph / of_int h)"
proof -
  note V = widget_viewport_spec [OF assms]
  have p: "0 < (of_int w :: rat)" "0 < (of_int h :: rat)" using assms(1,2) by simp_all
  have "widget_to_device w h ww wh wx wy = Some (dx, dy) \<longleftrightarrow>
      (vpx \<le> wx \<and> wx \<le> vpx + vpw \<and> (wx - vpx) / vpw * of_int w = dx) \<and>
      (vpy \<le> wy \<and> wy \<le> vpy + vph \<and> (wy - vpy) / vph * of_int h = dy)"
    using assms by (auto simp: widget_to_device_def Let_def not_less)
  then show ?thesis
    unfolding scale_inverse [OF V(1) p(1), of vpx wx dx] scale_inverse [OF V(2) p(2), of vpy wy dy]
    using V(3-6) by (simp add: V(7,8)) blast
qed

theorem widget_to_device_exact_witness:
  "widget_viewport 1200 600 400 800 = (450, 0, 300, 600) \<and>
   widget_to_device 400 800 1200 600 600 300 = Some (200, 400) \<and> widget_to_device 400 800 1200 600 100 300 = None"
proof -
  have v: "widget_viewport 1200 600 400 800 = (450, 0, 300, 600)"
    by (simp add: widget_viewport_def Let_def)
  from widget_to_device_exact [OF _ _ _ _ v, of 600 300 200 400]
  have "widget_to_device 400 800 1200 600 600 300 = Some (200, 400)" by simp
  with v show ?thesis by (simp add: widget_to_device_def)
qed

text \<open>The letterbox the frame is drawn in never exceeds the framebuffer.\<close>

lemma letterbox_inside:
  assumes "0 < w" "0 < h" "0 < fbw" "0 < fbh" and "letterbox fbw fbh w h = (x, y, vpw, vph)"
  shows "0 \<le> vpw \<and> vpw \<le> fbw \<and> 0 \<le> vph \<and> vph \<le> fbh \<and> (vpw = fbw \<or> vph = fbh)"
proof -
  have r: "0 \<le> trunc (q + 1 / 2) \<and> trunc (q + 1 / 2) \<le> n" if "0 \<le> q" "q \<le> of_int n" for q :: rat and n
  proof -
    have "\<lfloor>q + 1 / 2\<rfloor> \<le> \<lfloor>of_int n + 1 / 2 :: rat\<rfloor>" using that by (intro floor_mono) simp
    moreover have "\<lfloor>of_int n + 1 / 2 :: rat\<rfloor> = n" by (rule floor_unique) simp_all
    ultimately show ?thesis using that by (simp add: trunc_def)
  qed
  let ?W = "of_int w :: rat" and ?H = "of_int h :: rat" and ?A = "of_int fbw :: rat" and ?B = "of_int fbh :: rat"
  have p: "0 < ?W" "0 < ?H" "0 < ?A" "0 < ?B" using assms(1-4) by simp_all
  show ?thesis
  proof (cases "?W / ?H < ?A / ?B")
    case True
    then have "?B * (?W / ?H) \<le> ?A" "0 \<le> ?B * (?W / ?H)" using p by (simp_all add: field_simps)
    from r [OF this(2,1)] True assms(3-5) show ?thesis by (auto simp: letterbox_def Let_def)
  next
    case False
    then have "?A / (?W / ?H) \<le> ?B" "0 \<le> ?A / (?W / ?H)" using p by (simp_all add: field_simps)
    from r [OF this(2,1)] False assms(3-5) show ?thesis by (auto simp: letterbox_def Let_def)
  qed
qed

section \<open>The colours are exact\<close>

text \<open>What an encoder does with a colour, by BT.601 or BT.709: luma, the two colour differences, then the
  limited range if it is used.  Chroma is relative to its middle value, as after the subtraction in
  the shader.\<close>

definition encode_yuv :: "bool \<Rightarrow> bool \<Rightarrow> rat \<Rightarrow> rat \<Rightarrow> rat \<Rightarrow> rat \<times> rat \<times> rat" where
  "encode_yuv b709 full r g b =
     (let kr = (if b709 then 2126 / 10000 else 299 / 1000);
          kb = (if b709 then 722 / 10000 else 114 / 1000);
          y = kr * r + (1 - kr - kb) * g + kb * b;
          u = (b - y) / (2 * (1 - kb));
          v = (r - y) / (2 * (1 - kr))
      in if full then (y, u, v) else (y * (219 / 255) + 16 / 255, u * (224 / 255), v * (224 / 255)))"

text \<open>\<^verbatim>\<open>cmat * (y - y_off, u, v)\<close> with the matrix in column order.\<close>

definition shade :: "rat list \<times> rat \<Rightarrow> rat \<times> rat \<times> rat \<Rightarrow> rat \<times> rat \<times> rat" where
  "shade m c = (case m of (cm, y_off) \<Rightarrow> (case c of (y, u, v) \<Rightarrow>
     (cm ! 0 * (y - y_off) + cm ! 3 * u + cm ! 6 * v,
      cm ! 1 * (y - y_off) + cm ! 4 * u + cm ! 7 * v,
      cm ! 2 * (y - y_off) + cm ! 5 * u + cm ! 8 * v)))"

lemma color_matrix_inverts: "shade (color_matrix b709 full) (encode_yuv b709 full r g b) = (r, g, b)"
  by (cases b709; cases full) (simp_all add: shade_def color_matrix_def encode_yuv_def Let_def field_simps)

section \<open>Frames are shown exactly\<close>

definition plane_bytes :: "session \<Rightarrow> nat \<Rightarrow> byte list" where
  "plane_bytes st i = (case plane st ! i of None \<Rightarrow> [] | Some b \<Rightarrow> b)"

text \<open>The arrays of a session have three entries, and \<^verbatim>\<open>pcap\<close> is the size of each buffer.\<close>

definition render_wf :: "session \<Rightarrow> bool" where
  "render_wf st \<longleftrightarrow> length (plane st) = 3 \<and> length (pcap st) = 3 \<and> length (pstride st) = 3 \<and>
     length (tex_w st) = 3 \<and> length (tex_h st) = 3 \<and> length (tex_ifmt st) = 3 \<and>
     (\<forall>i < 3. length (plane_bytes st i) = pcap st ! i)"

lemma size_t_id: "0 \<le> x \<Longrightarrow> x < 2 ^ 64 \<Longrightarrow> size_t x = nat x"
  by (simp add: size_t_def)

text \<open>What \<^verbatim>\<open>copy_plane\<close> does, when the decoder's plane has the bytes it says.\<close>

definition plane_ok :: "byte list \<Rightarrow> int \<Rightarrow> int \<Rightarrow> int \<Rightarrow> bool" where
  "plane_ok src stride w h \<longleftrightarrow> 0 < w \<and> 0 < h \<and> w \<le> stride \<and> stride < 2 ^ 31 \<and> h < 2 ^ 31 \<and>
     stride * (h - 1) + w \<le> int (length src)"

lemma plane_need:
  assumes "plane_ok src stride w h"
  shows "size_t (stride * (h - 1) + w) = nat (stride * (h - 1) + w)" and "0 \<le> stride * (h - 1)"
proof -
  from assms have r: "0 \<le> stride" "0 \<le> h - 1" "w \<le> stride" "0 < w" "stride \<le> 2 ^ 31" "h - 1 \<le> 2 ^ 31"
    by (auto simp: plane_ok_def)
  then have m: "stride * (h - 1) \<le> 2 ^ 31 * 2 ^ 31" by (intro mult_mono) auto
  show "0 \<le> stride * (h - 1)" using r by simp
  then show "size_t (stride * (h - 1) + w) = nat (stride * (h - 1) + w)" using r m by (intro size_t_id) auto
qed

lemma copy_plane_spec:
  assumes c: "copy_plane ra st i src stride w h = Some st'" and wf: "render_wf st" and i: "i < 3"
    and ok: "plane_ok src stride w h"
  shows "render_wf st'" and "pstride st' ! i = stride"
    and "nat (stride * (h - 1) + w) \<le> length (plane_bytes st' i)"
    and "\<forall>k < nat (stride * (h - 1) + w). plane_bytes st' i ! k = src ! k"
    and "st' = st\<lparr>plane := plane st', pcap := pcap st', pstride := pstride st'\<rparr>"
    and "\<forall>j. j \<noteq> i \<longrightarrow> plane_bytes st' j = plane_bytes st j \<and> pstride st' ! j = pstride st ! j"
proof -
  let ?n = "nat (stride * (h - 1) + w)"
  note N = plane_need [OF ok]
  have len: "?n \<le> length src" using ok by (simp add: plane_ok_def nat_le_iff)
  from wf i have l: "i < length (plane st)" "i < length (pcap st)" "i < length (pstride st)"
    "length (plane_bytes st i) = pcap st ! i" by (auto simp: render_wf_def)
  define b where "b = (if pcap st ! i < ?n then take ?n src else take ?n src @ drop ?n (plane_bytes st i))"
  define cap where "cap = (if pcap st ! i < ?n then (pcap st)[i := ?n] else pcap st)"
  have st': "st' = st\<lparr>plane := (plane st)[i := Some b], pcap := cap, pstride := (pstride st)[i := stride]\<rparr>"
    using c by (auto simp: copy_plane_def N b_def cap_def Let_def plane_bytes_def split: if_splits)
  have pb: "plane_bytes st' j = (if j = i then b else plane_bytes st j)" for j
    using l(1) by (simp add: st' plane_bytes_def)
  have bl: "length b = cap ! i" "?n \<le> length b" using len l by (auto simp: b_def cap_def)
  have "cap ! j = pcap st ! j" if "j \<noteq> i" for j using that by (simp add: cap_def)
  then have "length (plane_bytes st' j) = pcap st' ! j" if "j < 3" for j
    using that wf bl(1) unfolding pb by (auto simp: st' render_wf_def)
  moreover have "length cap = length (pcap st)" by (simp add: cap_def)
  ultimately show "render_wf st'" using wf by (simp add: render_wf_def st')
  show "pstride st' ! i = stride" using l(3) by (simp add: st')
  show "?n \<le> length (plane_bytes st' i)" using bl(2) by (simp add: pb)
  show "\<forall>k < ?n. plane_bytes st' i ! k = src ! k" using len by (auto simp: pb b_def nth_append)
  show "st' = st\<lparr>plane := plane st', pcap := pcap st', pstride := pstride st'\<rparr>" by (simp add: st')
  show "\<forall>j. j \<noteq> i \<longrightarrow> plane_bytes st' j = plane_bytes st j \<and> pstride st' ! j = pstride st ! j"
    by (simp add: pb) (simp add: st')
qed

lemma sdiv_pos: "0 \<le> x \<Longrightarrow> 0 < y \<Longrightarrow> x sdiv y = x div y" for x y :: int
  by (cases "x = 0") (simp_all add: signed_divide_int_def)

fun bpp :: "gl_ifmt \<Rightarrow> int" where
  "bpp GL_R8 = 1"
| "bpp GL_RG8 = 2"
| "bpp NoFmt = 0"

text \<open>What GL reads for byte \<open>c\<close> of row \<open>r\<close>, with an unpack alignment of 1, and that it is the byte of
  the decoder's plane.\<close>

definition uploads :: "gl_call \<Rightarrow> nat \<Rightarrow> gl_ifmt \<Rightarrow> int \<Rightarrow> int \<Rightarrow> byte list \<Rightarrow> int \<Rightarrow> bool" where
  "uploads call i fmt w h src stride \<longleftrightarrow>
     (\<exists>rl data. (call = GlTexImage i rl w h fmt data \<or> call = GlTexSubImage i rl w h fmt data) \<and>
        (\<forall>r < nat h. \<forall>c < nat (w * bpp fmt).
           r * nat (rl * bpp fmt) + c < length data \<and>
           data ! (r * nat (rl * bpp fmt) + c) = src ! (r * nat stride + c)))"

text \<open>Buffer \<open>i\<close> holds the plane \<open>src\<close> of the decoder.\<close>

definition holds_plane :: "session \<Rightarrow> nat \<Rightarrow> byte list \<Rightarrow> int \<Rightarrow> int \<Rightarrow> int \<Rightarrow> bool" where
  "holds_plane st i src stride w h \<longleftrightarrow> pstride st ! i = stride \<and>
     nat (stride * (h - 1) + w) \<le> length (plane_bytes st i) \<and>
     (\<forall>k < nat (stride * (h - 1) + w). plane_bytes st i ! k = src ! k)"

lemma row_index:
  assumes "0 < w" "w \<le> stride" "r < nat h" "c < nat w"
  shows "r * nat stride + c < nat (stride * (h - 1) + w)"
proof -
  have h: "int r \<le> h - 1" "0 \<le> stride" "int c < w" using assms by auto
  then have "stride * int r \<le> stride * (h - 1)" by (intro mult_left_mono) auto
  moreover have "int (r * nat stride + c) = stride * int r + int c" using h(2) by simp
  ultimately show ?thesis using h(3) by linarith
qed

lemma upload_plane_spec:
  assumes u: "upload_plane st i (plane st ! i) rl w h fmt = (call, st')"
    and p: "holds_plane st i src stride wb hb" and ok: "plane_ok src stride wb hb"
    and d: "rl * bpp fmt = stride" "w * bpp fmt \<le> wb" "h \<le> hb"
  shows "uploads call i fmt w h src stride"
    and "st' = st\<lparr>tex_w := tex_w st', tex_h := tex_h st', tex_ifmt := tex_ifmt st'\<rparr>"
    and "length (tex_w st') = length (tex_w st)" and "length (tex_h st') = length (tex_h st)"
    and "length (tex_ifmt st') = length (tex_ifmt st)"
    and "j \<noteq> i \<Longrightarrow> tex_w st' ! j = tex_w st ! j" and "i < length (tex_w st) \<Longrightarrow> tex_w st' ! i = w"
proof -
  have call: "call = GlTexImage i rl w h fmt (plane_bytes st i) \<or> call = GlTexSubImage i rl w h fmt (plane_bytes st i)"
    using u by (auto simp: upload_plane_def plane_bytes_def Let_def split: if_splits)
  have "r * nat stride + c < length (plane_bytes st i) \<and>
      plane_bytes st i ! (r * nat stride + c) = src ! (r * nat stride + c)"
    if rc: "r < nat h" "c < nat (w * bpp fmt)" for r c
  proof -
    have "0 < wb" "wb \<le> stride" using ok by (simp_all add: plane_ok_def)
    moreover have "r < nat hb" "c < nat wb" using rc d(2,3) by linarith+
    ultimately have "r < nat hb" "c < nat wb" "0 < wb" "wb \<le> stride" by blast+
    from row_index [OF this(3,4,1,2)] p show ?thesis by (auto simp: holds_plane_def)
  qed
  then have "\<forall>r < nat h. \<forall>c < nat (w * bpp fmt). r * nat (rl * bpp fmt) + c < length (plane_bytes st i) \<and>
      plane_bytes st i ! (r * nat (rl * bpp fmt) + c) = src ! (r * nat stride + c)" unfolding d(1) by simp
  with call show "uploads call i fmt w h src stride"
    unfolding uploads_def by (intro exI [of _ rl] exI [of _ "plane_bytes st i"] conjI)
  show "st' = st\<lparr>tex_w := tex_w st', tex_h := tex_h st', tex_ifmt := tex_ifmt st'\<rparr>"
    "length (tex_w st') = length (tex_w st)" "length (tex_h st') = length (tex_h st)"
    "length (tex_ifmt st') = length (tex_ifmt st)"
    "j \<noteq> i \<Longrightarrow> tex_w st' ! j = tex_w st ! j" "i < length (tex_w st) \<Longrightarrow> tex_w st' ! i = w"
    using u by (auto simp: upload_plane_def Let_def split: if_splits)
qed

definition frame_ok :: "rc_frame \<Rightarrow> bool" where
  "frame_ok f \<longleftrightarrow> 2 \<le> f_width f \<and> 2 \<le> f_height f \<and>
     plane_ok (f_planes f ! 0) (f_linesize f ! 0) (f_width f) (f_height f) \<and>
     (if f_format f = RC_PIX_NV12 then
        plane_ok (f_planes f ! 1) (f_linesize f ! 1) (f_width f) (f_height f div 2) \<and> even (f_linesize f ! 1)
      else
        plane_ok (f_planes f ! 1) (f_linesize f ! 1) (f_width f div 2) (f_height f div 2) \<and>
        plane_ok (f_planes f ! 2) (f_linesize f ! 2) (f_width f div 2) (f_height f div 2))"

text \<open>The session holds frame \<open>f\<close> for the next redraw.\<close>

definition holds_frame :: "session \<Rightarrow> rc_frame \<Rightarrow> bool" where
  "holds_frame st f \<longleftrightarrow> have_pending st \<and> vw st = f_width f \<and> vh st = f_height f \<and> pixfmt st = f_format f \<and>
     full_range st = f_full_range f \<and> bt709 st = f_bt709 f \<and>
     pend_recv_ms st = f_recv_ms f \<and> pend_pts_us st = f_pts_us f \<and>
     holds_plane st 0 (f_planes f ! 0) (f_linesize f ! 0) (f_width f) (f_height f) \<and>
     (if f_format f = RC_PIX_NV12 then
        holds_plane st 1 (f_planes f ! 1) (f_linesize f ! 1) (f_width f) (f_height f div 2)
      else
        holds_plane st 1 (f_planes f ! 1) (f_linesize f ! 1) (f_width f div 2) (f_height f div 2) \<and>
        holds_plane st 2 (f_planes f ! 2) (f_linesize f ! 2) (f_width f div 2) (f_height f div 2))"

lemma copy_plane_holds:
  assumes "copy_plane ra st i src stride w h = Some st'" and "render_wf st" and "i < 3" and "plane_ok src stride w h"
  shows "render_wf st'" and "holds_plane st' i src stride w h"
    and "j \<noteq> i \<Longrightarrow> holds_plane st j s l a b \<Longrightarrow> holds_plane st' j s l a b"
  using copy_plane_spec [OF assms] by (auto simp: holds_plane_def)

lemma copy_plane_fields:
  assumes "copy_plane ra st i src stride w h = Some st'"
  shows "\<exists>pl pc ps. st' = st\<lparr>plane := pl, pcap := pc, pstride := ps\<rparr>"
proof -
  have "st' = st\<lparr>plane := plane st', pcap := pcap st', pstride := pstride st'\<rparr>"
    using assms by (auto simp: copy_plane_def Let_def split: if_splits)
  then show ?thesis by blast
qed


lemma holds_plane_cong:
  "pstride st' = pstride st \<Longrightarrow> plane st' = plane st \<Longrightarrow>
     holds_plane st' i src stride w h = holds_plane st i src stride w h"
  by (simp add: holds_plane_def plane_bytes_def)

lemma render_wf_cong:
  "plane st' = plane st \<Longrightarrow> pcap st' = pcap st \<Longrightarrow> pstride st' = pstride st \<Longrightarrow>
     length (tex_w st') = length (tex_w st) \<Longrightarrow> length (tex_h st') = length (tex_h st) \<Longrightarrow>
     length (tex_ifmt st') = length (tex_ifmt st) \<Longrightarrow> render_wf st' = render_wf st"
  by (simp add: render_wf_def plane_bytes_def)

text \<open>What stays as it is while a frame is taken over, apart from the planes.\<close>

definition frame_header :: "rc_frame \<Rightarrow> session \<Rightarrow> session" where
  "frame_header f st = st\<lparr>vw := f_width f, vh := f_height f, pixfmt := f_format f, full_range := f_full_range f,
     bt709 := f_bt709 f\<rparr>"

lemma frame_store_spec:
  assumes s: "frame_store ra f st = Some (ch, st')" and wf: "render_wf st" and ok: "frame_ok f"
  shows "render_wf st'" and "holds_frame st' f" and "ch \<longleftrightarrow> vw st \<noteq> f_width f \<or> vh st \<noteq> f_height f"
    and "\<exists>pl pc ps. st' = (frame_header f st)\<lparr>plane := pl, pcap := pc, pstride := ps, have_pending := True,
       pend_recv_ms := f_recv_ms f, pend_pts_us := f_pts_us f\<rparr>"
proof -
  let ?st0 = "frame_header f st"
  have wf0: "render_wf ?st0" using wf by (simp add: frame_header_def render_wf_def plane_bytes_def)
  have half: "f_width f sdiv 2 = f_width f div 2" "f_height f sdiv 2 = f_height f div 2"
    using ok by (simp_all add: frame_ok_def sdiv_pos)
  have ok0: "plane_ok (f_planes f ! 0) (f_linesize f ! 0) (f_width f) (f_height f)"
    using ok by (simp add: frame_ok_def)
  obtain st1 where c0: "copy_plane ra ?st0 0 (f_planes f ! 0) (f_linesize f ! 0) (f_width f) (f_height f) = Some st1"
    using s by (auto simp: frame_store_def frame_header_def Let_def bind_eq_Some_conv split: if_splits)
  note H0 = copy_plane_holds [OF c0 wf0 _ ok0, simplified]
  obtain pl0 pc0 ps0 where f0: "st1 = ?st0\<lparr>plane := pl0, pcap := pc0, pstride := ps0\<rparr>"
    using copy_plane_fields [OF c0] by blast
  have ch: "ch \<longleftrightarrow> vw st \<noteq> f_width f \<or> vh st \<noteq> f_height f"
    using s by (auto simp: frame_store_def Let_def bind_eq_Some_conv split: if_splits)
  have fin: "render_wf st' \<and> holds_frame st' f \<and> (\<exists>pl pc ps. st' = ?st0\<lparr>plane := pl, pcap := pc, pstride := ps,
       have_pending := True, pend_recv_ms := f_recv_ms f, pend_pts_us := f_pts_us f\<rparr>)"
    if st': "st' = sx\<lparr>have_pending := True, pend_recv_ms := f_recv_ms f, pend_pts_us := f_pts_us f\<rparr>"
      and w: "render_wf sx" and x: "sx = st1\<lparr>plane := pl, pcap := pc, pstride := ps\<rparr>"
      and h: "holds_plane sx 0 (f_planes f ! 0) (f_linesize f ! 0) (f_width f) (f_height f)"
        "if f_format f = RC_PIX_NV12 then
           holds_plane sx 1 (f_planes f ! 1) (f_linesize f ! 1) (f_width f) (f_height f div 2)
         else
           holds_plane sx 1 (f_planes f ! 1) (f_linesize f ! 1) (f_width f div 2) (f_height f div 2) \<and>
           holds_plane sx 2 (f_planes f ! 2) (f_linesize f ! 2) (f_width f div 2) (f_height f div 2)"
    for sx pl pc ps
  proof (intro conjI exI)
    show "render_wf st'" using w by (simp add: st' render_wf_def plane_bytes_def)
    have hp: "holds_plane st' i src stride a b = holds_plane sx i src stride a b" for i src stride a b
      by (rule holds_plane_cong) (simp_all add: st')
    have "have_pending st' \<and> vw st' = f_width f \<and> vh st' = f_height f \<and> pixfmt st' = f_format f \<and>
        full_range st' = f_full_range f \<and> bt709 st' = f_bt709 f \<and>
        pend_recv_ms st' = f_recv_ms f \<and> pend_pts_us st' = f_pts_us f"
      by (simp add: st' x f0 frame_header_def)
    with h show "holds_frame st' f" unfolding holds_frame_def hp by simp
    show "st' = ?st0\<lparr>plane := pl, pcap := pc, pstride := ps, have_pending := True,
        pend_recv_ms := f_recv_ms f, pend_pts_us := f_pts_us f\<rparr>" by (simp add: st' x f0)
  qed
  have "render_wf st' \<and> holds_frame st' f \<and> (\<exists>pl pc ps. st' = ?st0\<lparr>plane := pl, pcap := pc, pstride := ps,
       have_pending := True, pend_recv_ms := f_recv_ms f, pend_pts_us := f_pts_us f\<rparr>)"
  proof (cases "f_format f = RC_PIX_NV12")
    case True
    with s c0 obtain st2 where
        c1: "copy_plane ra st1 1 (f_planes f ! 1) (f_linesize f ! 1) (f_width f) (f_height f div 2) = Some st2"
      and st': "st' = st2\<lparr>have_pending := True, pend_recv_ms := f_recv_ms f, pend_pts_us := f_pts_us f\<rparr>"
      by (auto simp: frame_store_def frame_header_def Let_def bind_eq_Some_conv half)
    have ok1: "plane_ok (f_planes f ! 1) (f_linesize f ! 1) (f_width f) (f_height f div 2)"
      using ok True by (simp add: frame_ok_def)
    note H1 = copy_plane_holds [OF c1 H0(1) _ ok1, simplified]
    obtain pl pc ps where f1: "st2 = st1\<lparr>plane := pl, pcap := pc, pstride := ps\<rparr>"
      using copy_plane_fields [OF c1] by blast
    show ?thesis by (rule fin [OF st' H1(1) f1]) (use H0(2) H1(2,3) True in simp_all)
  next
    case False
    with s c0 obtain st2 st3 where
        c1: "copy_plane ra st1 1 (f_planes f ! 1) (f_linesize f ! 1) (f_width f div 2) (f_height f div 2) = Some st2"
      and c2: "copy_plane ra st2 2 (f_planes f ! 2) (f_linesize f ! 2) (f_width f div 2) (f_height f div 2) = Some st3"
      and st': "st' = st3\<lparr>have_pending := True, pend_recv_ms := f_recv_ms f, pend_pts_us := f_pts_us f\<rparr>"
      by (auto simp: frame_store_def frame_header_def Let_def bind_eq_Some_conv half)
    have ok1: "plane_ok (f_planes f ! 1) (f_linesize f ! 1) (f_width f div 2) (f_height f div 2)"
      and ok2: "plane_ok (f_planes f ! 2) (f_linesize f ! 2) (f_width f div 2) (f_height f div 2)"
      using ok False by (simp_all add: frame_ok_def)
    note H1 = copy_plane_holds [OF c1 H0(1) _ ok1, simplified]
    note H2 = copy_plane_holds [OF c2 H1(1) _ ok2, simplified]
    obtain pl pc ps where f1: "st2 = st1\<lparr>plane := pl, pcap := pc, pstride := ps\<rparr>"
      using copy_plane_fields [OF c1] by blast
    obtain pl' pc' ps' where f2: "st3 = st2\<lparr>plane := pl', pcap := pc', pstride := ps'\<rparr>"
      using copy_plane_fields [OF c2] by blast
    have f: "st3 = st1\<lparr>plane := pl', pcap := pc', pstride := ps'\<rparr>" by (simp add: f2 f1)
    show ?thesis by (rule fin [OF st' H2(1) f]) (use H0(2) H1(2,3) H2(2,3) False in simp_all)
  qed
  then show "render_wf st'" "holds_frame st' f" "\<exists>pl pc ps. st' = ?st0\<lparr>plane := pl, pcap := pc, pstride := ps,
       have_pending := True, pend_recv_ms := f_recv_ms f, pend_pts_us := f_pts_us f\<rparr>" by blast+
  show "ch \<longleftrightarrow> vw st \<noteq> f_width f \<or> vh st \<noteq> f_height f" by (rule ch)
qed


text \<open>The uploads of frame \<open>f\<close>: one per plane, each with exactly the decoder's pixels.\<close>

definition shows_frame :: "gl_call list \<Rightarrow> rc_frame \<Rightarrow> bool" where
  "shows_frame cs f \<longleftrightarrow>
     length cs = (if f_format f = RC_PIX_NV12 then 2 else 3) \<and>
     uploads (cs ! 0) 0 GL_R8 (f_width f) (f_height f) (f_planes f ! 0) (f_linesize f ! 0) \<and>
     (if f_format f = RC_PIX_NV12 then
        uploads (cs ! 1) 1 GL_RG8 (f_width f div 2) (f_height f div 2) (f_planes f ! 1) (f_linesize f ! 1)
      else
        uploads (cs ! 1) 1 GL_R8 (f_width f div 2) (f_height f div 2) (f_planes f ! 1) (f_linesize f ! 1) \<and>
        uploads (cs ! 2) 2 GL_R8 (f_width f div 2) (f_height f div 2) (f_planes f ! 2) (f_linesize f ! 2))"

text \<open>A session that differs only in the textures.\<close>

definition same_but_tex :: "session \<Rightarrow> session \<Rightarrow> bool" where
  "same_but_tex st st' \<longleftrightarrow> st' = st\<lparr>tex_w := tex_w st', tex_h := tex_h st', tex_ifmt := tex_ifmt st'\<rparr> \<and>
     length (tex_w st') = length (tex_w st) \<and> length (tex_h st') = length (tex_h st) \<and>
     length (tex_ifmt st') = length (tex_ifmt st)"

lemma same_but_tex_sel:
  assumes "same_but_tex st st'"
  shows "plane st' = plane st" "pstride st' = pstride st" "pcap st' = pcap st" "pixfmt st' = pixfmt st"
    "prog st' = prog st" "vw st' = vw st" "vh st' = vh st" "bt709 st' = bt709 st" "full_range st' = full_range st"
    "alive st' = alive st" "has_gl st' = has_gl st" "render_scheduled st' = render_scheduled st"
    "length (tex_w st') = length (tex_w st)" "length (tex_h st') = length (tex_h st)"
    "length (tex_ifmt st') = length (tex_ifmt st)" "keys_down st' = keys_down st"
    "have_pending st' = have_pending st"
proof -
  obtain a b c where "st' = st\<lparr>tex_w := a, tex_h := b, tex_ifmt := c\<rparr>" using assms by (auto simp: same_but_tex_def)
  then show "plane st' = plane st" "pstride st' = pstride st" "pcap st' = pcap st" "pixfmt st' = pixfmt st"
    "prog st' = prog st" "vw st' = vw st" "vh st' = vh st" "bt709 st' = bt709 st" "full_range st' = full_range st"
    "alive st' = alive st" "has_gl st' = has_gl st" "render_scheduled st' = render_scheduled st"
    "keys_down st' = keys_down st" "have_pending st' = have_pending st"
    by simp_all
  show "length (tex_w st') = length (tex_w st)" "length (tex_h st') = length (tex_h st)"
    "length (tex_ifmt st') = length (tex_ifmt st)" using assms by (simp_all add: same_but_tex_def)
qed

lemma upload_same: "upload_plane st i d rl w h fmt = (call, st') \<Longrightarrow> same_but_tex st st'"
  by (auto simp: same_but_tex_def upload_plane_def Let_def split: if_splits)

lemma same_but_tex_trans:
  assumes "same_but_tex a b" and "same_but_tex b c"
  shows "same_but_tex a c"
proof -
  obtain x y z where b: "b = a\<lparr>tex_w := x, tex_h := y, tex_ifmt := z\<rparr>" using assms(1) by (auto simp: same_but_tex_def)
  obtain x' y' z' where c: "c = b\<lparr>tex_w := x', tex_h := y', tex_ifmt := z'\<rparr>" using assms(2) by (auto simp: same_but_tex_def)
  have "c = a\<lparr>tex_w := tex_w c, tex_h := tex_h c, tex_ifmt := tex_ifmt c\<rparr>" by (simp add: b c)
  with assms show ?thesis by (simp add: same_but_tex_def)
qed

lemma upload_tex_w:
  assumes "upload_plane st i d rl w h fmt = (call, st')"
  shows "j \<noteq> i \<Longrightarrow> tex_w st' ! j = tex_w st ! j" and "i < length (tex_w st) \<Longrightarrow> tex_w st' ! i = w"
  using assms by (auto simp: upload_plane_def Let_def split: if_splits)

lemma upload_frame_spec:
  assumes u: "upload_frame st = (cs, st')" and h: "holds_frame st f" and ok: "frame_ok f" and wf: "render_wf st"
  shows "shows_frame cs f" and "tex_w st' ! 0 = vw st"
    and "\<exists>stx. same_but_tex st stx \<and> st' = stx\<lparr>have_pending := False\<rparr>"
proof -
  note hd = h [unfolded holds_frame_def]
  have v: "vw st = f_width f" "vh st = f_height f" "pixfmt st = f_format f" using hd by simp_all
  have half: "f_width f sdiv 2 = f_width f div 2" "f_height f sdiv 2 = f_height f div 2"
    using ok by (simp_all add: frame_ok_def sdiv_pos)
  have h0: "holds_plane st 0 (f_planes f ! 0) (f_linesize f ! 0) (f_width f) (f_height f)" using hd by simp
  have ok0: "plane_ok (f_planes f ! 0) (f_linesize f ! 0) (f_width f) (f_height f)" using ok by (simp add: frame_ok_def)
  obtain c0 st1 where u0: "upload_plane st 0 (plane st ! 0) (pstride st ! 0) (vw st) (vh st) GL_R8 = (c0, st1)"
    by (meson prod.exhaust)
  have s1: "same_but_tex st st1" by (rule upload_same [OF u0])
  note e1 = same_but_tex_sel [OF s1]
  have l: "0 < length (tex_w st)" using wf by (simp add: render_wf_def)
  have up0: "uploads c0 0 GL_R8 (f_width f) (f_height f) (f_planes f ! 0) (f_linesize f ! 0)"
    by (rule upload_plane_spec(1) [OF u0 [unfolded v] h0 ok0]) (use h0 in \<open>simp_all add: holds_plane_def\<close>)
  have w1: "tex_w st1 ! 0 = vw st" using upload_tex_w(2) [OF u0 l] .
  have "shows_frame cs f \<and> tex_w st' ! 0 = vw st \<and> (\<exists>stx. same_but_tex st stx \<and> st' = stx\<lparr>have_pending := False\<rparr>)"
  proof (cases "f_format f = RC_PIX_NV12")
    case True
    from hd True have h1: "holds_plane st 1 (f_planes f ! 1) (f_linesize f ! 1) (f_width f) (f_height f div 2)" by simp
    have ok1: "plane_ok (f_planes f ! 1) (f_linesize f ! 1) (f_width f) (f_height f div 2)"
      and ev: "even (f_linesize f ! 1)" using ok True by (simp_all add: frame_ok_def)
    have "0 \<le> f_linesize f ! 1" using ok1 by (simp add: plane_ok_def)
    then have rl: "pstride st ! 1 sdiv 2 * bpp GL_RG8 = f_linesize f ! 1"
      using h1 ev by (simp add: holds_plane_def sdiv_pos)
    have "(f_width f div 2) * 2 \<le> f_width f" by presburger
    then have wr: "f_width f div 2 * bpp GL_RG8 \<le> f_width f" by simp
    obtain c1 st2 where u1: "upload_plane st1 1 (plane st1 ! 1) (pstride st ! 1 sdiv 2) (f_width f div 2)
        (f_height f div 2) GL_RG8 = (c1, st2)" by (meson prod.exhaust)
    have h1': "holds_plane st1 1 (f_planes f ! 1) (f_linesize f ! 1) (f_width f) (f_height f div 2)"
      using h1 by (subst holds_plane_cong [OF e1(2,1)])
    have up1: "uploads c1 1 GL_RG8 (f_width f div 2) (f_height f div 2) (f_planes f ! 1) (f_linesize f ! 1)"
      by (rule upload_plane_spec(1) [OF u1 h1' ok1 rl wr order_refl])
    have r: "cs = [c0, c1]" "st' = st2\<lparr>have_pending := False\<rparr>"
      using u u0 u1 True by (auto simp: upload_frame_def Let_def v half e1)
    have "same_but_tex st st2" by (rule same_but_tex_trans [OF s1 upload_same [OF u1]])
    moreover have "tex_w st2 ! 0 = vw st" using upload_tex_w(1) [OF u1, of 0] w1 by simp
    ultimately show ?thesis using up0 up1 True unfolding r shows_frame_def by auto
  next
    case False
    from hd False have h1: "holds_plane st 1 (f_planes f ! 1) (f_linesize f ! 1) (f_width f div 2) (f_height f div 2)"
      and h2: "holds_plane st 2 (f_planes f ! 2) (f_linesize f ! 2) (f_width f div 2) (f_height f div 2)" by simp_all
    have ok1: "plane_ok (f_planes f ! 1) (f_linesize f ! 1) (f_width f div 2) (f_height f div 2)"
      and ok2: "plane_ok (f_planes f ! 2) (f_linesize f ! 2) (f_width f div 2) (f_height f div 2)"
      using ok False by (simp_all add: frame_ok_def)
    obtain c1 st2 where u1: "upload_plane st1 1 (plane st1 ! 1) (pstride st1 ! 1) (f_width f div 2)
        (f_height f div 2) GL_R8 = (c1, st2)" by (meson prod.exhaust)
    have s2: "same_but_tex st st2" by (rule same_but_tex_trans [OF s1 upload_same [OF u1]])
    note e2 = same_but_tex_sel [OF s2]
    obtain c2 st3 where u2: "upload_plane st2 2 (plane st2 ! 2) (pstride st2 ! 2) (f_width f div 2)
        (f_height f div 2) GL_R8 = (c2, st3)" by (meson prod.exhaust)
    have h1': "holds_plane st1 1 (f_planes f ! 1) (f_linesize f ! 1) (f_width f div 2) (f_height f div 2)"
      using h1 by (subst holds_plane_cong [OF e1(2,1)])
    have h2': "holds_plane st2 2 (f_planes f ! 2) (f_linesize f ! 2) (f_width f div 2) (f_height f div 2)"
      using h2 by (subst holds_plane_cong [OF e2(2,1)])
    have up1: "uploads c1 1 GL_R8 (f_width f div 2) (f_height f div 2) (f_planes f ! 1) (f_linesize f ! 1)"
      by (rule upload_plane_spec(1) [OF u1 h1' ok1]) (use h1' in \<open>simp_all add: holds_plane_def\<close>)
    have up2: "uploads c2 2 GL_R8 (f_width f div 2) (f_height f div 2) (f_planes f ! 2) (f_linesize f ! 2)"
      by (rule upload_plane_spec(1) [OF u2 h2' ok2]) (use h2' in \<open>simp_all add: holds_plane_def\<close>)
    have r: "cs = [c0, c1, c2]" "st' = st3\<lparr>have_pending := False\<rparr>"
      using u u0 u1 u2 False by (auto simp: upload_frame_def Let_def v half e1 e2)
    have "same_but_tex st st3" by (rule same_but_tex_trans [OF s2 upload_same [OF u2]])
    moreover have "tex_w st3 ! 0 = vw st" using upload_tex_w(1) [OF u1, of 0] upload_tex_w(1) [OF u2, of 0] w1 by simp
    ultimately show ?thesis using up0 up1 up2 False unfolding r shows_frame_def by auto
  qed
  then show "shows_frame cs f" "tex_w st' ! 0 = vw st"
    "\<exists>stx. same_but_tex st stx \<and> st' = stx\<lparr>have_pending := False\<rparr>" by blast+
qed


lemma measure_delay_sel [simp]:
  "tex_w (measure_delay t st) = tex_w st" "fb_w (measure_delay t st) = fb_w st" "fb_h (measure_delay t st) = fb_h st"
  "vw (measure_delay t st) = vw st" "vh (measure_delay t st) = vh st" "bt709 (measure_delay t st) = bt709 st"
  "full_range (measure_delay t st) = full_range st" "have_pending (measure_delay t st) = have_pending st"
  "render_wf (measure_delay t st) = render_wf st" "render_scheduled (measure_delay t st) = render_scheduled st"
  "alive (measure_delay t st) = alive st" "has_gl (measure_delay t st) = has_gl st" "prog (measure_delay t st) = prog st"
  "keys_down (measure_delay t st) = keys_down st"
  by (simp_all add: measure_delay_def render_wf_def plane_bytes_def Let_def)

lemma on_render_frame:
  assumes h: "holds_frame st f" and ok: "frame_ok f" and wf: "render_wf st" and p: "prog st \<noteq> 0"
    and r: "on_render now ww wh st = (ret, calls, st')"
  shows "ret \<and> \<not> have_pending st' \<and> render_wf st' \<and>
    (\<exists>ups x y vpw vph. shows_frame ups f \<and>
       calls = GlClear # ups @ [GlViewport x y vpw vph,
         GlUniforms (fst (color_matrix (f_bt709 f) (f_full_range f))) (snd (color_matrix (f_bt709 f) (f_full_range f)))
           (f_format f = RC_PIX_NV12), GlDraw])"
proof -
  obtain ups st1 where u: "upload_frame st = (ups, st1)" by (meson prod.exhaust)
  note U = upload_frame_spec [OF u h ok wf]
  obtain stx where s: "same_but_tex st stx" and st1: "st1 = stx\<lparr>have_pending := False\<rparr>" using U(3) by blast
  note e = same_but_tex_sel [OF s]
  have v: "have_pending st" "0 < vw st" "0 < vh st" "pixfmt st = f_format f" "bt709 st = f_bt709 f"
    "full_range st = f_full_range f"
    using h ok by (simp_all add: holds_frame_def frame_ok_def)
  have wf1: "render_wf st1"
    using wf by (subst render_wf_cong [of st1 st]) (simp_all add: st1 e)
  obtain x y vpw vph where l: "letterbox (if 0 < fb_w st1 then fb_w (measure_delay now st1) else ww)
      (if 0 < fb_h st1 then fb_h (measure_delay now st1) else wh) (vw st) (vh st) = (x, y, vpw, vph)"
    by (metis prod_cases4)
  have e1: "vw st1 = vw st" "vh st1 = vh st" "bt709 st1 = bt709 st" "full_range st1 = full_range st" "\<not> have_pending st1"
    by (simp_all add: st1 e)
  obtain m off where m: "color_matrix (f_bt709 f) (f_full_range f) = (m, off)" by (meson prod.exhaust)
  have "ret = True \<and> st' = measure_delay now st1 \<and>
      calls = GlClear # ups @ [GlViewport x y vpw vph, GlUniforms m off (f_format f = RC_PIX_NV12), GlDraw]"
    using r p v U(2) l m by (simp add: on_render_def u Let_def e1)
  with U(1) wf1 m e1(5) show ?thesis by auto
qed

lemma frame_publish_sel [simp]:
  fixes b st
  defines "st' \<equiv> snd (frame_publish b st)"
  shows "plane st' = plane st" "pstride st' = pstride st" "pcap st' = pcap st" "tex_w st' = tex_w st"
    "tex_h st' = tex_h st" "tex_ifmt st' = tex_ifmt st" "have_pending st' = have_pending st" "vw st' = vw st"
    "vh st' = vh st" "pixfmt st' = pixfmt st" "full_range st' = full_range st" "bt709 st' = bt709 st"
    "pend_recv_ms st' = pend_recv_ms st" "pend_pts_us st' = pend_pts_us st" "prog st' = prog st"
    "alive st' = alive st" "has_gl st' = has_gl st" "render_scheduled st'" "keys_down st' = keys_down st"
    "fst (frame_publish b st) = (if b then [ResizeToVideo] else []) @ (if render_scheduled st then [] else [TriggerRender])"
  by (simp_all add: st'_def frame_publish_def Let_def)

lemma frame_publish_render:
  assumes "holds_frame st f" and "render_wf st"
  shows "holds_frame (snd (frame_publish b st)) f" and "render_wf (snd (frame_publish b st))"
proof -
  let ?st' = "snd (frame_publish b st)"
  have "holds_plane ?st' i src stride w h = holds_plane st i src stride w h" for i src stride w h
    by (rule holds_plane_cong) simp_all
  then show "holds_frame ?st' f" using assms(1) unfolding holds_frame_def by (simp only: frame_publish_sel) blast
  show "render_wf ?st'" using assms(2) by (subst render_wf_cong [of _ st]) simp_all
qed

text \<open>
  C17: a frame is shown exactly.  From any well-formed session, after \<^verbatim>\<open>render_on_frame\<close> took a frame of the
  decoder over (whatever its sizes and strides were before, buffers reused or grown) and
  \<^verbatim>\<open>on_render\<close> ran with a shader program, every plane was uploaded with exactly the pixels of the
  decoder's rows, at the right size and format, and drawn; the uniforms describe the frame's format
  and a matrix under which every colour an encoder of that standard and range encodes comes out as it
  was; the frame is no longer pending and the buffers are still well-formed.
\<close>

theorem frame_shown_exact:
  assumes "render_on_frame ra f st = Some (idles, st1)" and "on_render now ww wh st1 = (ret, calls, st2)"
    and "render_wf st" and "frame_ok f" and "prog st \<noteq> 0"
  shows "ret \<and> \<not> have_pending st2 \<and> render_wf st2 \<and>
    (\<exists>ups x y vpw vph cmat y_off. shows_frame ups f \<and>
       calls = GlClear # ups @ [GlViewport x y vpw vph, GlUniforms cmat y_off (f_format f = RC_PIX_NV12), GlDraw] \<and>
       (\<forall>r g b. shade (cmat, y_off) (encode_yuv (f_bt709 f) (f_full_range f) r g b) = (r, g, b)))"
proof -
  obtain ch s1 where s: "frame_store ra f st = Some (ch, s1)" and st1: "st1 = snd (frame_publish ch s1)"
    using assms(1) by (cases "f_format f") (auto simp: render_on_frame_def bind_eq_Some_conv)
  note S = frame_store_spec [OF s assms(3,4)]
  obtain pl pc ps where "s1 = (frame_header f st)\<lparr>plane := pl, pcap := pc, pstride := ps, have_pending := True,
       pend_recv_ms := f_recv_ms f, pend_pts_us := f_pts_us f\<rparr>" using S(4) by blast
  then have p: "prog s1 \<noteq> 0" using assms(5) by (simp add: frame_header_def)
  note P = frame_publish_render [OF S(2,1), of ch, folded st1]
  from on_render_frame [OF P(1) assms(4) P(2) _ assms(2)] p
  have *: "ret \<and> \<not> have_pending st2 \<and> render_wf st2"
    and ex: "\<exists>ups x y vpw vph. shows_frame ups f \<and>
       calls = GlClear # ups @ [GlViewport x y vpw vph,
         GlUniforms (fst (color_matrix (f_bt709 f) (f_full_range f))) (snd (color_matrix (f_bt709 f) (f_full_range f)))
           (f_format f = RC_PIX_NV12), GlDraw]" by (simp_all add: st1)
  from ex obtain ups x y vpw vph where u: "shows_frame ups f" and c: "calls = GlClear # ups @ [GlViewport x y vpw vph,
         GlUniforms (fst (color_matrix (f_bt709 f) (f_full_range f))) (snd (color_matrix (f_bt709 f) (f_full_range f)))
           (f_format f = RC_PIX_NV12), GlDraw]" by blast
  have "shade (fst (color_matrix (f_bt709 f) (f_full_range f)), snd (color_matrix (f_bt709 f) (f_full_range f)))
      (encode_yuv (f_bt709 f) (f_full_range f) r g b) = (r, g, b)" for r g b
    using color_matrix_inverts by simp
  with * u c show ?thesis by blast
qed

text \<open>A frame of 2 by 2 pixels with padded rows.\<close>

definition demo_picture :: rc_frame where
  "demo_picture = \<lparr>f_width = 2, f_height = 2, f_format = RC_PIX_I420,
     f_planes = [[1, 2, 0, 3, 4], [5], [6]], f_linesize = [3, 1, 1],
     f_pts_us = 0, f_recv_ms = 0, f_full_range = True, f_bt709 = False\<rparr>"

definition demo_gl_session :: session where
  "demo_gl_session = (new_session demo_config)\<lparr>prog := 7, has_gl := True, fb_w := 4, fb_h := 4\<rparr>"

theorem frame_shown_exact_witness:
  "\<exists>idles st1 ret calls st2.
     render_on_frame (\<lambda>_. True) demo_picture demo_gl_session = Some (idles, st1) \<and>
     on_render 0 4 4 st1 = (ret, calls, st2) \<and> ret \<and> \<not> have_pending st2"
proof -
  have f: "\<exists>idles st1. render_on_frame (\<lambda>_. True) demo_picture demo_gl_session = Some (idles, st1)"
    by (simp add: render_on_frame_def frame_store_def copy_plane_def demo_picture_def demo_gl_session_def new_session_def
        Let_def)
  then obtain idles st1 where 1: "render_on_frame (\<lambda>_. True) demo_picture demo_gl_session = Some (idles, st1)" by blast
  obtain ret calls st2 where 2: "on_render 0 4 4 st1 = (ret, calls, st2)" by (metis prod_cases3)
  have w: "render_wf demo_gl_session"
    by (simp add: render_wf_def demo_gl_session_def new_session_def plane_bytes_def less_Suc_eq numeral_3_eq_3 all_conj_distrib)
  have ok: "frame_ok demo_picture" by (simp add: frame_ok_def demo_picture_def plane_ok_def)
  from frame_shown_exact [OF 1 2 w ok] have "ret \<and> \<not> have_pending st2" by (simp add: demo_gl_session_def)
  with 1 2 show ?thesis by blast
qed

end
