(* ===== verification/Gtk_Redraw.thy ===== *)
theory Gtk_Redraw
  imports Gtk_Render
begin

text \<open>
  How \<^verbatim>\<open>render_on_frame\<close>, \<^verbatim>\<open>trigger_render\<close> and \<^verbatim>\<open>on_render\<close> of \<^verbatim>\<open>frontends/gtk/render.c\<close> work together:
  a step relation of the frame thread and the UI thread of one session, its invariant, and the
  property that no redraw is lost.
\<close>

text \<open>
  The frame thread and the UI thread of one session.  The frame thread runs \<^verbatim>\<open>render_on_frame\<close>: the part
  under the lock, the exchange of \<^verbatim>\<open>render_scheduled\<close>, and adding the idle sources are separate steps.
  The UI thread runs \<^verbatim>\<open>trigger_render\<close> (clearing the flag and queueing the redraw are separate steps)
  and redraws when one is queued; the window system may queue one, and the window may be closed.
\<close>

datatype frame_pc = FrameIdle | Stored bool | Publishing "idle_source list"

record redraw =
  rd_st :: session
  fpc :: frame_pc
  idle_q :: "idle_source list"
  in_trigger :: bool
  queued :: bool

inductive frame_step :: "redraw \<Rightarrow> redraw \<Rightarrow> bool" where
  take_frame: "fpc m = FrameIdle \<Longrightarrow> 0 < f_width f \<Longrightarrow> 0 < f_height f \<Longrightarrow>
     frame_store ra f (rd_st m) = Some (ch, st') \<Longrightarrow> frame_step m (m\<lparr>rd_st := st', fpc := Stored ch\<rparr>)"
| publish: "fpc m = Stored ch \<Longrightarrow> frame_publish ch (rd_st m) = (srcs, st') \<Longrightarrow>
     frame_step m (m\<lparr>rd_st := st', fpc := Publishing srcs\<rparr>)"
| add_idles: "fpc m = Publishing srcs \<Longrightarrow>
     frame_step m (m\<lparr>fpc := FrameIdle, idle_q := idle_q m @ srcs\<rparr>)"

inductive ui_step :: "redraw \<Rightarrow> redraw \<Rightarrow> bool" where
  resize: "\<not> in_trigger m \<Longrightarrow> idle_q m = ResizeToVideo # q \<Longrightarrow> ui_step m (m\<lparr>idle_q := q\<rparr>)"
| clear: "\<not> in_trigger m \<Longrightarrow> idle_q m = TriggerRender # q \<Longrightarrow>
     ui_step m (m\<lparr>rd_st := trigger_clear (rd_st m), idle_q := q, in_trigger := True\<rparr>)"
| queue: "in_trigger m \<Longrightarrow>
     ui_step m (m\<lparr>in_trigger := False, queued := (queued m \<or> trigger_queues (rd_st m))\<rparr>)"
| draw: "\<not> in_trigger m \<Longrightarrow> queued m \<Longrightarrow> on_render now ww wh (rd_st m) = (ret, calls, st') \<Longrightarrow>
     ui_step m (m\<lparr>rd_st := st', queued := False\<rparr>)"

inductive window_step :: "redraw \<Rightarrow> redraw \<Rightarrow> bool" where
  expose: "window_step m (m\<lparr>queued := True\<rparr>)"
| resized: "window_step m (m\<lparr>rd_st := on_resize w h (rd_st m), queued := True\<rparr>)"
| closed: "window_step m (m\<lparr>rd_st := (rd_st m)\<lparr>alive := False\<rparr>\<rparr>)"

inductive_cases ui_stepE: "ui_step m m'"
inductive_cases window_stepE: "window_step m m'"

definition redraw_step :: "redraw \<Rightarrow> redraw \<Rightarrow> bool" where
  "redraw_step m m' \<longleftrightarrow> frame_step m m' \<or> ui_step m m' \<or> window_step m m'"

definition redraw_start :: "session \<Rightarrow> redraw" where
  "redraw_start st = \<lparr>rd_st = st, fpc = FrameIdle, idle_q = [], in_trigger = False, queued = False\<rparr>"

text \<open>The triggers that were asked for and have not run yet.\<close>

definition triggers :: "redraw \<Rightarrow> nat" where
  "triggers m = length [s \<leftarrow> idle_q m. s = TriggerRender] +
     (case fpc m of Publishing srcs \<Rightarrow> length [s \<leftarrow> srcs. s = TriggerRender] | _ \<Rightarrow> 0)"

definition redraw_inv :: "redraw \<Rightarrow> bool" where
  "redraw_inv m \<longleftrightarrow> prog (rd_st m) \<noteq> 0 \<and> has_gl (rd_st m) \<and>
     triggers m = (if render_scheduled (rd_st m) then 1 else 0) \<and>
     (have_pending (rd_st m) \<longrightarrow> 0 < vw (rd_st m) \<and> 0 < vh (rd_st m) \<and>
        (alive (rd_st m) \<longrightarrow> queued m \<or> in_trigger m \<or> 0 < triggers m \<or> (\<exists>ch. fpc m = Stored ch)))"

lemma copy_plane_sel:
  assumes "copy_plane ra st i src stride w h = Some st'"
  shows "prog st' = prog st" "has_gl st' = has_gl st" "alive st' = alive st" "render_scheduled st' = render_scheduled st"
    "vw st' = vw st" "vh st' = vh st"
  using copy_plane_fields [OF assms] by auto

lemma frame_store_sel:
  assumes "frame_store ra f st = Some (ch, st')"
  shows "prog st' = prog st" "has_gl st' = has_gl st" "alive st' = alive st" "render_scheduled st' = render_scheduled st"
    "vw st' = f_width f" "vh st' = f_height f" "have_pending st'"
  using assms
  by (auto simp: frame_store_def Let_def bind_eq_Some_conv copy_plane_sel split: if_splits)

lemma upload_frame_sel:
  assumes "upload_frame st = (cs, st')"
  shows "prog st' = prog st" "has_gl st' = has_gl st" "alive st' = alive st" "render_scheduled st' = render_scheduled st"
    "vw st' = vw st" "vh st' = vh st" "\<not> have_pending st'"
  using assms
  by (auto simp: upload_frame_def Let_def same_but_tex_sel [OF upload_same] split: prod.splits if_splits)

lemma on_render_sel:
  assumes "on_render now ww wh st = (ret, calls, st')"
  shows "prog st' = prog st" "has_gl st' = has_gl st" "alive st' = alive st" "render_scheduled st' = render_scheduled st"
    "vw st' = vw st" "vh st' = vh st"
    "prog st \<noteq> 0 \<Longrightarrow> 0 < vw st \<Longrightarrow> 0 < vh st \<Longrightarrow> \<not> have_pending st'"
    "have_pending st' \<Longrightarrow> have_pending st"
  using assms
  by (auto simp: on_render_def Let_def upload_frame_sel split: prod.splits if_splits)


lemma frame_step_inv: "frame_step m m' \<Longrightarrow> redraw_inv m \<Longrightarrow> redraw_inv m'"
proof (induction rule: frame_step.induct)
  case (take_frame m f ra ch st')
  with frame_store_sel [OF take_frame(4)] show ?case by (auto simp: redraw_inv_def triggers_def)
next
  case (publish m ch srcs st')
  then have "st' = snd (frame_publish ch (rd_st m))" "srcs = fst (frame_publish ch (rd_st m))" by simp_all
  with publish show ?case by (auto simp: redraw_inv_def triggers_def)
next
  case (add_idles m srcs)
  then show ?case by (auto simp: redraw_inv_def triggers_def)
qed

lemma ui_step_inv: "ui_step m m' \<Longrightarrow> redraw_inv m \<Longrightarrow> redraw_inv m'"
proof (induction rule: ui_step.induct)
  case (resize m q)
  then show ?case by (auto simp: redraw_inv_def triggers_def split: frame_pc.splits)
next
  case (clear m q)
  then show ?case by (auto simp: redraw_inv_def triggers_def trigger_clear_def split: if_splits frame_pc.splits)
next
  case (queue m)
  then show ?case by (auto simp: redraw_inv_def triggers_def trigger_queues_def)
next
  case (draw m now ww wh ret calls st')
  with on_render_sel [OF draw(3)] show ?case by (auto simp: redraw_inv_def triggers_def)
qed

lemma window_step_inv: "window_step m m' \<Longrightarrow> redraw_inv m \<Longrightarrow> redraw_inv m'"
  by (erule window_stepE) (auto simp: redraw_inv_def triggers_def on_resize_def)

lemma redraw_step_inv: "redraw_step m m' \<Longrightarrow> redraw_inv m \<Longrightarrow> redraw_inv m'"
  by (auto simp: redraw_step_def intro: frame_step_inv ui_step_inv window_step_inv)

text \<open>The state machine starts with nothing pending and a working shader program.\<close>

definition redraw_fresh :: "redraw \<Rightarrow> bool" where
  "redraw_fresh m \<longleftrightarrow> (\<exists>st. m = redraw_start st \<and> prog st \<noteq> 0 \<and> has_gl st \<and> \<not> have_pending st \<and> \<not> render_scheduled st)"

interpretation redraws: invariant_system redraw_fresh redraw_step redraw_inv
proof
  show "redraw_inv m" if "redraw_fresh m" for m
    using that by (auto simp: redraw_fresh_def redraw_inv_def redraw_start_def triggers_def)
qed (rule redraw_step_inv)

text \<open>How much the UI thread still has to do.\<close>

definition ui_work :: "redraw \<Rightarrow> nat" where
  "ui_work m = 3 * length (idle_q m) + (if in_trigger m then 2 else 0) + (if queued m then 1 else 0)"

lemma ui_step_work: "ui_step m m' \<Longrightarrow> ui_work m' < ui_work m \<and> fpc m' = fpc m"
  by (erule ui_stepE) (auto simp: ui_work_def)

lemma ui_steps_work: "(ui_step ^^ n) m m' \<Longrightarrow> n + ui_work m' \<le> ui_work m \<and> fpc m' = fpc m"
proof (induction n arbitrary: m')
  case (Suc n)
  then obtain mx where 1: "(ui_step ^^ n) m mx" and 2: "ui_step mx m'" by auto
  from Suc.IH [OF 1] ui_step_work [OF 2] show ?case by auto
qed simp

lemma ui_can_step:
  assumes "0 < ui_work m"
  shows "\<exists>m'. ui_step m m'"
proof (cases "in_trigger m")
  case True
  then show ?thesis by (blast intro: ui_step.queue)
next
  case False
  show ?thesis
  proof (cases "idle_q m")
    case Nil
    with assms False have "queued m" by (auto simp: ui_work_def split: if_splits)
    moreover obtain ret calls st' where "on_render 0 0 0 (rd_st m) = (ret, calls, st')" by (metis prod_cases3)
    ultimately show ?thesis using False ui_step.draw by blast
  next
    case (Cons s q)
    with False show ?thesis by (cases s) (blast intro: ui_step.resize ui_step.clear)+
  qed
qed

lemma ui_steps_redraw: "(ui_step ^^ n) m m' \<Longrightarrow> redraw_step\<^sup>*\<^sup>* m m'"
proof (induction n arbitrary: m')
  case (Suc n)
  then obtain mx where "redraw_step\<^sup>*\<^sup>* m mx" and "ui_step mx m'" by auto
  then show ?case by (meson redraw_step_def rtranclp.rtrancl_into_rtrancl)
qed simp

text \<open>
  C16: no redraw is lost.  Whatever happened before, with frames, redraws, resizes and closing
  interleaved in any way, at most one \<^verbatim>\<open>trigger_render\<close> is outstanding, so a slow UI thread does not
  collect sources.  And as soon as the frame thread is between two frames, the UI thread on its own
  settles within a bounded number of steps; once it cannot go on, no frame is waiting to be drawn,
  unless the window was closed.
\<close>

theorem redraw_never_lost:
  assumes "redraw_step\<^sup>*\<^sup>* (redraw_start st) m" and "prog st \<noteq> 0" and "has_gl st"
    and "\<not> have_pending st" and "\<not> render_scheduled st"
  shows "triggers m \<le> 1 \<and>
    (\<forall>n m'. (ui_step ^^ n) m m' \<longrightarrow> n \<le> ui_work m) \<and>
    (fpc m = FrameIdle \<longrightarrow>
       (\<forall>n m'. (ui_step ^^ n) m m' \<and> (\<nexists>m''. ui_step m' m'') \<longrightarrow> \<not> (alive (rd_st m') \<and> have_pending (rd_st m'))))"
proof (intro conjI impI allI)
  have "redraw_inv (redraw_start st)" using assms(2-5) by (intro redraws.inv_start) (auto simp: redraw_fresh_def)
  from redraws.steps_inv [OF assms(1) this] have inv: "redraw_inv m" .
  then show "triggers m \<le> 1" by (auto simp: redraw_inv_def)
  show "n \<le> ui_work m" if "(ui_step ^^ n) m m'" for n m' using ui_steps_work [OF that] by simp
  show "\<not> (alive (rd_st m') \<and> have_pending (rd_st m'))"
    if "fpc m = FrameIdle" and s: "(ui_step ^^ n) m m' \<and> (\<nexists>m''. ui_step m' m'')" for n m'
  proof -
    have "redraw_inv m'" using redraws.steps_inv [OF ui_steps_redraw inv] s by blast
    moreover have "fpc m' = FrameIdle" using ui_steps_work [of n m m'] that by simp
    moreover have "ui_work m' = 0" using ui_can_step [of m'] s by blast
    then have "idle_q m' = []" "\<not> in_trigger m'" "\<not> queued m'" by (auto simp: ui_work_def split: if_splits)
    ultimately show ?thesis by (auto simp: redraw_inv_def triggers_def)
  qed
qed

theorem redraw_never_lost_witness:
  "\<exists>m. redraw_step\<^sup>*\<^sup>* (redraw_start demo_gl_session) m \<and> have_pending (rd_st m) \<and> triggers m \<le> 1"
proof -
  have "\<exists>ch st1. frame_store (\<lambda>_. True) demo_picture demo_gl_session = Some (ch, st1)"
    by (simp add: frame_store_def copy_plane_def demo_picture_def demo_gl_session_def new_session_def Let_def ex_bool_eq)
  then obtain ch st1 where s: "frame_store (\<lambda>_. True) demo_picture demo_gl_session = Some (ch, st1)" by blast
  have p: "have_pending st1" by (rule frame_store_sel(7) [OF s])
  let ?m0 = "redraw_start demo_gl_session"
  have "frame_step ?m0 (?m0\<lparr>rd_st := st1, fpc := Stored ch\<rparr>)"
    by (rule frame_step.take_frame [where f = demo_picture and ra = "\<lambda>_. True"])
      (simp_all add: redraw_start_def s, simp_all add: demo_picture_def)
  then have r: "redraw_step\<^sup>*\<^sup>* ?m0 (?m0\<lparr>rd_st := st1, fpc := Stored ch\<rparr>)" by (auto simp: redraw_step_def)
  from redraw_never_lost [OF r] have "triggers (?m0\<lparr>rd_st := st1, fpc := Stored ch\<rparr>) \<le> 1"
    by (simp add: demo_gl_session_def new_session_def)
  with r p show ?thesis by (intro exI [of _ "?m0\<lparr>rd_st := st1, fpc := Stored ch\<rparr>"]) simp
qed

end
