(* ===== verification/Gtk_Input.thy ===== *)
theory Gtk_Input
  imports Gtk_Render
begin

text \<open>
  \<^verbatim>\<open>frontends/gtk/input.c\<close>: mouse, keyboard and the buttons of the navigation bar, turned into control
  messages.  Positions of the pointer arrive as exact numbers, together with the size of the widget;
  \<open>rnd\<close> is the bit pattern of a \<^verbatim>\<open>float\<close>.  The conversions of GDK and GLib are parameters, key symbols and
  modifier masks have the values their documentation gives.
\<close>

section \<open>What GDK and GLib provide\<close>

record gdk =
  gdk_keyval_to_lower :: "u32 \<Rightarrow> u32"
  gdk_keyval_to_unicode :: "u32 \<Rightarrow> u32"
  g_unichar_to_utf8 :: "u32 \<Rightarrow> byte list"

text \<open>A character has at most six bytes.\<close>

definition gdk_ok :: "gdk \<Rightarrow> bool" where
  "gdk_ok G \<longleftrightarrow> (\<forall>u. length (g_unichar_to_utf8 G u) \<le> 6)"

definition GDK_SHIFT_MASK :: u32 where "GDK_SHIFT_MASK = 1"
definition GDK_CONTROL_MASK :: u32 where "GDK_CONTROL_MASK = 4"
definition GDK_ALT_MASK :: u32 where "GDK_ALT_MASK = 8"
definition GDK_KEY_space :: u32 where "GDK_KEY_space = 0x20"
definition GDK_KEY_0 :: u32 where "GDK_KEY_0 = 0x30"
definition GDK_KEY_9 :: u32 where "GDK_KEY_9 = 0x39"
definition GDK_KEY_a :: u32 where "GDK_KEY_a = 0x61"
definition GDK_KEY_z :: u32 where "GDK_KEY_z = 0x7a"

definition RC_BUTTON_LEFT :: u32 where "RC_BUTTON_LEFT = 1"
definition RC_BUTTON_RIGHT :: u32 where "RC_BUTTON_RIGHT = 2"
definition RC_BUTTON_MIDDLE :: u32 where "RC_BUTTON_MIDDLE = 4"
definition RC_AKEYCODE_HOME :: int where "RC_AKEYCODE_HOME = 3"
definition RC_AKEYCODE_BACK :: int where "RC_AKEYCODE_BACK = 4"
definition RC_AKEYCODE_MENU :: int where "RC_AKEYCODE_MENU = 82"
definition RC_AKEYCODE_APP_SWITCH :: int where "RC_AKEYCODE_APP_SWITCH = 187"
definition RC_AKEYCODE_POWER :: int where "RC_AKEYCODE_POWER = 26"
definition RC_AKEYCODE_VOLUME_UP :: int where "RC_AKEYCODE_VOLUME_UP = 24"
definition RC_AKEYCODE_VOLUME_DOWN :: int where "RC_AKEYCODE_VOLUME_DOWN = 25"

lemmas akey_defs = RC_AKEYCODE_HOME_def RC_AKEYCODE_BACK_def RC_AKEYCODE_MENU_def RC_AKEYCODE_APP_SWITCH_def
  RC_AKEYCODE_POWER_def RC_AKEYCODE_VOLUME_UP_def RC_AKEYCODE_VOLUME_DOWN_def

lemmas gdk_defs = GDK_SHIFT_MASK_def GDK_CONTROL_MASK_def GDK_ALT_MASK_def GDK_KEY_space_def GDK_KEY_0_def
  GDK_KEY_9_def GDK_KEY_a_def GDK_KEY_z_def

section \<open>Translating buttons and keys\<close>

text \<open>\<^verbatim>\<open>GDK_BUTTON_PRIMARY\<close>, \<^verbatim>\<open>GDK_BUTTON_MIDDLE\<close> and \<^verbatim>\<open>GDK_BUTTON_SECONDARY\<close> are 1, 2 and 3.\<close>

definition gdk_button_to_rc :: "u32 \<Rightarrow> u32" where
  "gdk_button_to_rc button =
     (if button = 1 then RC_BUTTON_LEFT
      else if button = 3 then RC_BUTTON_RIGHT
      else if button = 2 then RC_BUTTON_MIDDLE
      else 0)"

definition gdk_state_to_ameta :: "u32 \<Rightarrow> u32" where
  "gdk_state_to_ameta state =
     (let meta = 0;
          meta = (if state AND GDK_SHIFT_MASK \<noteq> 0 then meta OR 0x1 OR 0x40 else meta);
          meta = (if state AND GDK_ALT_MASK \<noteq> 0 then meta OR 0x02 OR 0x10 else meta);
          meta = (if state AND GDK_CONTROL_MASK \<noteq> 0 then meta OR 0x1000 OR 0x2000 else meta)
      in meta)"

definition gdk_alnum_to_android_key :: "gdk \<Rightarrow> u32 \<Rightarrow> int" where
  "gdk_alnum_to_android_key G keyval =
     (let kv = gdk_keyval_to_lower G keyval in
      if GDK_KEY_a \<le> kv \<and> kv \<le> GDK_KEY_z then 29 + uint (kv - GDK_KEY_a)
      else if GDK_KEY_0 \<le> kv \<and> kv \<le> GDK_KEY_9 then 7 + uint (kv - GDK_KEY_0)
      else if kv = GDK_KEY_space then 62
      else -1)"

text \<open>The case labels are Return, KP_Enter, BackSpace, Delete, Tab, Escape, Left, Right, Up, Down, Home, End,
  Page_Up and Page_Down.\<close>

definition gdk_to_android_key :: "u32 \<Rightarrow> int" where
  "gdk_to_android_key keyval =
     (if keyval = 0xff0d \<or> keyval = 0xff8d then 66
      else if keyval = 0xff08 then 67
      else if keyval = 0xffff then 112
      else if keyval = 0xff09 then 61
      else if keyval = 0xff1b then RC_AKEYCODE_BACK
      else if keyval = 0xff51 then 21
      else if keyval = 0xff53 then 22
      else if keyval = 0xff52 then 19
      else if keyval = 0xff54 then 20
      else if keyval = 0xff50 then 122
      else if keyval = 0xff57 then 123
      else if keyval = 0xff55 then 92
      else if keyval = 0xff56 then 93
      else -1)"

section \<open>The keys that are down\<close>

definition key_mark :: "session \<Rightarrow> int \<Rightarrow> bool \<Rightarrow> session" where
  "key_mark st code down =
     (if code < 0 \<or> 256 \<le> code then st
      else
        let i = nat (code div 8); m = push_bit (nat (code mod 8)) 1 :: byte; b = keys_down st ! i in
        if down then st\<lparr>keys_down := (keys_down st)[i := b OR m]\<rparr>
        else st\<lparr>keys_down := (keys_down st)[i := b AND NOT m]\<rparr>)"

definition key_marked :: "session \<Rightarrow> int \<Rightarrow> bool" where
  "key_marked st code =
     (if code < 0 \<or> 256 \<le> code then False
      else drop_bit (nat (code mod 8)) (keys_down st ! nat (code div 8)) AND 1 \<noteq> 0)"

section \<open>The handlers\<close>

text \<open>The return value says whether the event was handled; the status of the core is ignored, as in the code.\<close>

definition on_pressed ::
    "(rat \<Rightarrow> f32) \<Rightarrow> int \<Rightarrow> int \<Rightarrow> u32 \<Rightarrow> rat \<Rightarrow> rat \<Rightarrow> session \<Rightarrow> os \<Rightarrow> (session \<times> os) option" where
  "on_pressed rnd ww wh button x y st w =
     (case s_client st of
        None \<Rightarrow> Some (st, w)
      | Some c \<Rightarrow>
          (case render_widget_to_device rnd st ww wh x y of
             None \<Rightarrow> Some (st, w)
           | Some (dx, dy) \<Rightarrow>
               let b = gdk_button_to_rc button;
                   st = st\<lparr>mouse_buttons := mouse_buttons st OR b, dev_x := dx, dev_y := dy\<rparr> in do {
               (r, st, w) \<leftarrow> run_core (rc_client_send_mouse_button 1 b (mouse_buttons st) dx dy) c st w;
               Some (st, w)
             }))"

definition on_released ::
    "(rat \<Rightarrow> f32) \<Rightarrow> int \<Rightarrow> int \<Rightarrow> u32 \<Rightarrow> rat \<Rightarrow> rat \<Rightarrow> session \<Rightarrow> os \<Rightarrow> (session \<times> os) option" where
  "on_released rnd ww wh button x y st w =
     (case s_client st of
        None \<Rightarrow> Some (st, w)
      | Some c \<Rightarrow>
          let (dx, dy) = (case render_widget_to_device rnd st ww wh x y of
                            None \<Rightarrow> (dev_x st, dev_y st) | Some p \<Rightarrow> p);
              b = gdk_button_to_rc button;
              st = st\<lparr>mouse_buttons := mouse_buttons st AND NOT b\<rparr> in do {
          (r, st, w) \<leftarrow> run_core (rc_client_send_mouse_button 0 b (mouse_buttons st) dx dy) c st w;
          Some (st, w)
        })"

definition on_motion ::
    "(rat \<Rightarrow> f32) \<Rightarrow> int \<Rightarrow> int \<Rightarrow> rat \<Rightarrow> rat \<Rightarrow> session \<Rightarrow> os \<Rightarrow> (session \<times> os) option" where
  "on_motion rnd ww wh x y st w =
     (case s_client st of
        None \<Rightarrow> Some (st, w)
      | Some c \<Rightarrow>
          (case render_widget_to_device rnd st ww wh x y of
             None \<Rightarrow> Some (st, w)
           | Some (dx, dy) \<Rightarrow>
               let st = st\<lparr>dev_x := dx, dev_y := dy\<rparr> in
               if mouse_buttons st \<noteq> 0 then do {
                 (r, st, w) \<leftarrow> run_core (rc_client_send_mouse_motion (mouse_buttons st) dx dy) c st w;
                 Some (st, w)
               } else Some (st, w)))"

definition on_scroll :: "(rat \<Rightarrow> f32) \<Rightarrow> rat \<Rightarrow> rat \<Rightarrow> session \<Rightarrow> os \<Rightarrow> (bool \<times> session \<times> os) option" where
  "on_scroll rnd dx dy st w =
     (case s_client st of
        None \<Rightarrow> Some (False, st, w)
      | Some c \<Rightarrow> do {
          (r, st, w) \<leftarrow> run_core (rc_client_send_scroll (dev_x st) (dev_y st) (rnd (- dx)) (rnd (- dy))) c st w;
          Some (True, st, w)
        })"

text \<open>\<^verbatim>\<open>buf\<close> is a C string: the bytes before the first NUL.\<close>

definition on_key_pressed :: "gdk \<Rightarrow> u32 \<Rightarrow> u32 \<Rightarrow> session \<Rightarrow> os \<Rightarrow> (bool \<times> session \<times> os) option" where
  "on_key_pressed G keyval state st w =
     (case s_client st of
        None \<Rightarrow> Some (False, st, w)
      | Some c \<Rightarrow>
          let meta = gdk_state_to_ameta state;
              ac = gdk_to_android_key keyval;
              ac = (if ac < 0 \<and> state AND (GDK_CONTROL_MASK OR GDK_ALT_MASK) \<noteq> 0
                    then gdk_alnum_to_android_key G keyval else ac) in
          if 0 \<le> ac then do {
            (r, st, w) \<leftarrow> run_core (rc_client_send_key 1 (word_of_int ac) meta 0) c st w;
            Some (True, key_mark st ac True, w)
          } else
            let uc = gdk_keyval_to_unicode G keyval in
            if 0x20 \<le> uc \<and> uc \<noteq> 0x7f then do {
              (r, st, w) \<leftarrow> run_core (rc_client_send_text True
                 (Some (takeWhile (\<lambda>b. b \<noteq> 0) (g_unichar_to_utf8 G uc)))) c st w;
              Some (True, st, w)
            } else Some (False, st, w))"

definition on_key_released :: "gdk \<Rightarrow> u32 \<Rightarrow> u32 \<Rightarrow> session \<Rightarrow> os \<Rightarrow> (session \<times> os) option" where
  "on_key_released G keyval state st w =
     (case s_client st of
        None \<Rightarrow> Some (st, w)
      | Some c \<Rightarrow>
          let ac = gdk_to_android_key keyval;
              ac = (if ac < 0 then gdk_alnum_to_android_key G keyval else ac) in
          if 0 \<le> ac \<and> key_marked st ac then do {
            (r, st, w) \<leftarrow> run_core (rc_client_send_key 0 (word_of_int ac) (gdk_state_to_ameta state) 0) c st w;
            Some (key_mark st ac False, w)
          } else Some (st, w))"

definition on_navbtn :: "int \<Rightarrow> session \<Rightarrow> os \<Rightarrow> (session \<times> os) option" where
  "on_navbtn code st w =
     (case s_client st of
        None \<Rightarrow> Some (st, w)
      | Some c \<Rightarrow> do { (r, st, w) \<leftarrow> run_core (rc_client_click_button (word_of_int code)) c st w; Some (st, w) })"

definition on_devbtn :: "rc_device_action \<Rightarrow> session \<Rightarrow> os \<Rightarrow> (session \<times> os) option" where
  "on_devbtn action st w =
     (case s_client st of
        None \<Rightarrow> Some (st, w)
      | Some c \<Rightarrow> do { (r, st, w) \<leftarrow> run_core (rc_client_send_device_action action) c st w; Some (st, w) })"

text \<open>The buttons of the bar, in order.\<close>

datatype nav_button = AddNav int | AddDev rc_device_action

definition input_create_navbar :: "session \<Rightarrow> nav_button list \<times> session" where
  "input_create_navbar st =
     ([AddNav RC_AKEYCODE_BACK, AddNav RC_AKEYCODE_HOME, AddNav RC_AKEYCODE_APP_SWITCH, AddNav RC_AKEYCODE_MENU,
       AddNav RC_AKEYCODE_POWER, AddNav RC_AKEYCODE_VOLUME_DOWN, AddNav RC_AKEYCODE_VOLUME_UP,
       AddDev RC_DEVICE_ROTATE, AddDev RC_DEVICE_EXPAND_NOTIF, AddDev RC_DEVICE_SCREEN_OFF,
       AddDev RC_DEVICE_SCREEN_ON], st\<lparr>has_bar := True\<rparr>)"

text \<open>The signals \<^verbatim>\<open>input_attach\<close> and \<^verbatim>\<open>input_create_navbar\<close> connect, with what GTK passes.\<close>

datatype input_event =
    Pressed u32 rat rat
  | Released u32 rat rat
  | Motion rat rat
  | Scrolled rat rat
  | KeyPressed u32 u32
  | KeyReleased u32 u32
  | Clicked nav_button

fun on_input ::
    "gdk \<Rightarrow> (rat \<Rightarrow> f32) \<Rightarrow> int \<Rightarrow> int \<Rightarrow> input_event \<Rightarrow> session \<Rightarrow> os \<Rightarrow> (session \<times> os) option" where
  "on_input G rnd ww wh (Pressed b x y) st w = on_pressed rnd ww wh b x y st w"
| "on_input G rnd ww wh (Released b x y) st w = on_released rnd ww wh b x y st w"
| "on_input G rnd ww wh (Motion x y) st w = on_motion rnd ww wh x y st w"
| "on_input G rnd ww wh (Scrolled dx dy) st w = map_option snd (on_scroll rnd dx dy st w)"
| "on_input G rnd ww wh (KeyPressed k s) st w = map_option snd (on_key_pressed G k s st w)"
| "on_input G rnd ww wh (KeyReleased k s) st w = on_key_released G k s st w"
| "on_input G rnd ww wh (Clicked (AddNav code)) st w = on_navbtn code st w"
| "on_input G rnd ww wh (Clicked (AddDev action)) st w = on_devbtn action st w"

fun on_inputs ::
    "gdk \<Rightarrow> (rat \<Rightarrow> f32) \<Rightarrow> int \<Rightarrow> int \<Rightarrow> input_event list \<Rightarrow> session \<Rightarrow> os \<Rightarrow> (session \<times> os) option" where
  "on_inputs G rnd ww wh [] st w = Some (st, w)"
| "on_inputs G rnd ww wh (e # es) st w = do {
     (st, w) \<leftarrow> on_input G rnd ww wh e st w;
     on_inputs G rnd ww wh es st w
   }"

section \<open>The bitmap is a set of key codes\<close>

lemma uint_code: "0 \<le> k \<Longrightarrow> k < 256 \<Longrightarrow> uint (word_of_int k :: u32) = k"
  by (simp add: take_bit_int_eq_self unsigned_of_int)

locale held_codes =
  fixes mark :: "'s \<Rightarrow> int \<Rightarrow> bool \<Rightarrow> 's"
    and marked :: "'s \<Rightarrow> int \<Rightarrow> bool"
    and inv :: "'s \<Rightarrow> bool"
  assumes inv_mark: "inv s \<Longrightarrow> inv (mark s k b)"
    and marked_mark: "inv s \<Longrightarrow> 0 \<le> k \<Longrightarrow> k < 256 \<Longrightarrow> marked (mark s k b) j = (if j = k then b else marked s j)"
begin

lemma held_down:
  "inv s \<Longrightarrow> 0 \<le> k \<Longrightarrow> k < 256 \<Longrightarrow>
     {c :: u32. marked (mark s k True) (uint c)} = insert (word_of_int k) {c. marked s (uint c)}"
  by (auto simp: marked_mark uint_code)

lemma held_up:
  "inv s \<Longrightarrow> 0 \<le> k \<Longrightarrow> k < 256 \<Longrightarrow>
     {c :: u32. marked (mark s k False) (uint c)} = {c. marked s (uint c)} - {word_of_int k}"
  by (auto simp: marked_mark uint_code split: if_splits)

end

lemma key_marked_bit:
  "0 \<le> code \<Longrightarrow> code < 256 \<Longrightarrow> key_marked st code = bit (keys_down st ! nat (code div 8)) (nat (code mod 8))"
  by (auto simp: key_marked_def bit_iff_odd_drop_bit and_one_eq odd_iff_mod_2_eq_one)

interpretation keys: held_codes key_mark key_marked "\<lambda>st. length (keys_down st) = 32"
proof
  show "length (keys_down (key_mark s k b)) = 32" if "length (keys_down s) = 32" for s :: session and k b
    using that by (simp add: key_mark_def Let_def)
next
  fix s :: session and k b j assume l: "length (keys_down s) = 32" and k: "0 \<le> k" "k < (256 :: int)"
  show "key_marked (key_mark s k b) j = (if j = k then b else key_marked s j)"
  proof (cases "j < 0 \<or> 256 \<le> j")
    case True
    with k show ?thesis by (auto simp: key_marked_def)
  next
    case False
    then have j: "0 \<le> j" "j < 256" by auto
    have i: "nat (k div 8) < 32" "nat (k mod 8) < 8" "nat (j mod 8) < 8" using k j by auto
    have "j = k" if "j div 8 = k div 8" "j mod 8 = k mod 8"
      by (metis that div_mult_mod_eq)
    then have eq: "j = k \<longleftrightarrow> nat (j div 8) = nat (k div 8) \<and> nat (j mod 8) = nat (k mod 8)"
      using j k by (auto simp: eq_nat_nat_iff)
    show ?thesis
      unfolding key_marked_bit [OF j] using k i l
      by (cases "nat (j div 8) = nat (k div 8)") (auto simp: key_mark_def Let_def eq bit_or_iff bit_and_iff bit_not_iff bit_exp_iff)
  qed
qed


section \<open>What the server sees\<close>

text \<open>The keys the server holds, and the buttons, after a list of events.\<close>

fun server_keys :: "ctrl_event \<Rightarrow> u32 set \<Rightarrow> u32 set" where
  "server_keys (Key a k m r) H = (if a = 1 then insert k H else H - {k})"
| "server_keys e H = H"

fun server_buttons :: "ctrl_event \<Rightarrow> u32 \<Rightarrow> u32" where
  "server_buttons (MouseMotion bs x y) B = bs"
| "server_buttons (MouseButton a b bs x y) B = bs"
| "server_buttons e B = B"

text \<open>Every message is taken by the kernel as a whole: the next \<open>n\<close> writes accept 32 bytes or more.\<close>

definition takes_whole :: "nat \<Rightarrow> wr_event list \<Rightarrow> bool" where
  "takes_whole n es \<longleftrightarrow> (\<exists>ks es'. es = map Accept ks @ es' \<and> n \<le> length ks \<and> (\<forall>k \<in> set ks. 32 \<le> k))"

lemma takes_whole_mono: "takes_whole n es \<Longrightarrow> m \<le> n \<Longrightarrow> takes_whole m es"
  unfolding takes_whole_def by (elim exE conjE, intro exI conjI) auto

text \<open>The connection the handlers write to: whose client it is, what it sent, and how much more it takes.\<close>

definition link :: "rc_client \<Rightarrow> byte list \<Rightarrow> nat \<Rightarrow> session \<Rightarrow> os \<Rightarrow> bool" where
  "link c out n st w \<longleftrightarrow> s_client st = Some c \<and> control (cfg c) \<and> 0 \<le> control_fd c \<and>
     sent w (control_fd c) = out \<and> takes_whole n (outq w (control_fd c))"


lemma takes_whole_write:
  assumes "takes_whole (Suc n) es" and "length buf \<le> 32" and "buf \<noteq> []"
  shows "\<exists>es'. rc_net_write_full es buf = Some (RC_OK, buf, es') \<and> takes_whole n es'"
proof -
  obtain ks es' where es: "es = map Accept ks @ es'" and k: "\<forall>k \<in> set ks. 32 \<le> k" "Suc n \<le> length ks"
    using assms(1) unfolding takes_whole_def by blast
  from k(2) obtain k0 ks' where ks: "ks = k0 # ks'" by (cases ks) auto
  have "rc_net_write_full es buf = Some (RC_OK, buf, map Accept ks' @ es')"
    using assms(2,3) k(1) by (simp add: es ks write_full_Accept write_full_simps)
  with k show ?thesis unfolding takes_whole_def ks by (intro exI conjI) auto
qed

text \<open>The same connection, from inside the core.\<close>

definition sys_link :: "rc_client \<Rightarrow> byte list \<Rightarrow> nat \<Rightarrow> sys \<Rightarrow> bool" where
  "sys_link c out n s \<longleftrightarrow> client s = c \<and> control (cfg c) \<and> 0 \<le> control_fd c \<and>
     sent s (control_fd c) = out \<and> takes_whole n (outq s (control_fd c))"

lemma sys_send:
  assumes l: "sys_link c out (Suc n) s" and cl: "call_ok cl" "length (wire_of cl) \<le> 32"
  shows "\<exists>s'. do_call cl s = Some (RC_OK, s') \<and> sys_link c (out @ wire_of cl) n s'"
proof -
  obtain es' where es: "rc_net_write_full (outq s (control_fd c)) (wire_of cl) = Some (RC_OK, wire_of cl, es')"
    "takes_whole n es'"
    using takes_whole_write [of n "outq s (control_fd c)" "wire_of cl"] l cl wire_of_nonempty [of cl]
    by (auto simp: sys_link_def)
  then show ?thesis
    using l cl by (simp add: do_call_send rc_control_send_def fd_write_def sys_link_def)
qed

lemma s_client_id: "s_client st = Some c \<Longrightarrow> st\<lparr>s_client := Some c\<rparr> = st"
  by (cases st) simp

lemma link_core: "link c out n st w \<Longrightarrow> sys_link c out n (core c w)"
  by (simp add: link_def sys_link_def)

lemma link_run:
  assumes "link c out n st w" and "f (core c w) = Some (r, s)" and "sys_link c out' m s"
  shows "run_core f c st w = Some (r, st, os.truncate s)" and "link c out' m st (os.truncate s)"
  using assms by (simp_all add: run_core_def link_def sys_link_def s_client_id)

lemma link_send:
  assumes "link c out (Suc n) st w" and "call_ok cl" "length (wire_of cl) \<le> 32"
  shows "\<exists>w'. run_core (do_call cl) c st w = Some (RC_OK, st, w') \<and> link c (out @ wire_of cl) n st w'"
proof -
  obtain s where s: "do_call cl (core c w) = Some (RC_OK, s)" "sys_link c (out @ wire_of cl) n s"
    using sys_send [OF link_core [OF assms(1)] assms(2,3)] by blast
  show ?thesis by (intro exI conjI, rule link_run(1) [where f = "do_call cl", OF assms(1) s], rule link_run(2) [where f = "do_call cl", OF assms(1) s])
qed

lemma link_click:
  assumes "link c out (Suc (Suc n)) st w"
  shows "\<exists>w'. run_core (rc_client_click_button k) c st w = Some (RC_OK, st, w') \<and>
     link c (out @ wire_of (CallKey 1 k 0 0) @ wire_of (CallKey 0 k 0 0)) n st w'"
proof -
  have ok: "call_ok (CallKey a k 0 0)" "length (wire_of (CallKey a k 0 0)) \<le> 32" for a by simp_all
  obtain s1 where 1: "rc_client_send_key 1 k 0 0 (core c w) = Some (RC_OK, s1)"
    "sys_link c (out @ wire_of (CallKey 1 k 0 0)) (Suc n) s1"
    using sys_send [OF link_core [OF assms] ok(1)] ok by fastforce
  obtain s2 where 2: "rc_client_send_key 0 k 0 0 s1 = Some (RC_OK, s2)"
    "sys_link c ((out @ wire_of (CallKey 1 k 0 0)) @ wire_of (CallKey 0 k 0 0)) n s2"
    using sys_send [OF 1(2) ok(1)] ok by fastforce
  have "rc_client_click_button k (core c w) = Some (RC_OK, s2)" by (simp add: rc_client_click_button_def 1 2)
  from link_run [where f = "rc_client_click_button k", OF assms this 2(2)] show ?thesis by auto
qed

lemma link_mono: "link c out n st w \<Longrightarrow> m \<le> n \<Longrightarrow> link c out m st w"
  by (auto simp: link_def intro: takes_whole_mono)

lemma link_session: "s_client st' = s_client st \<Longrightarrow> link c out n st' w = link c out n st w"
  by (simp add: link_def)

lemma call_funs:
  "rc_client_send_mouse_motion b x y = do_call (CallMotion b x y)"
  "rc_client_send_mouse_button a b bs x y = do_call (CallButton a b bs x y)"
  "rc_client_send_scroll x y h v = do_call (CallScroll x y h v)"
  "rc_client_send_key a k m r = do_call (CallKey a k m r)"
  "rc_client_send_text True (Some t) = do_call (CallText t)"
  "rc_client_send_device_action d = do_call (CallDevice d)"
  by (simp_all add: fun_eq_iff)

text \<open>The calls a handler makes, and the session it leaves, when the connection is up.\<close>

fun event_calls ::
    "gdk \<Rightarrow> (rat \<Rightarrow> f32) \<Rightarrow> int \<Rightarrow> int \<Rightarrow> input_event \<Rightarrow> session \<Rightarrow> api_call list \<times> session" where
  "event_calls G rnd ww wh (Pressed b x y) st =
     (case render_widget_to_device rnd st ww wh x y of
        None \<Rightarrow> ([], st)
      | Some (dx, dy) \<Rightarrow>
          let bs = mouse_buttons st OR gdk_button_to_rc b
          in ([CallButton 1 (gdk_button_to_rc b) bs dx dy], st\<lparr>mouse_buttons := bs, dev_x := dx, dev_y := dy\<rparr>))"
| "event_calls G rnd ww wh (Released b x y) st =
     (let (dx, dy) = (case render_widget_to_device rnd st ww wh x y of None \<Rightarrow> (dev_x st, dev_y st) | Some p \<Rightarrow> p);
          bs = mouse_buttons st AND NOT (gdk_button_to_rc b)
      in ([CallButton 0 (gdk_button_to_rc b) bs dx dy], st\<lparr>mouse_buttons := bs\<rparr>))"
| "event_calls G rnd ww wh (Motion x y) st =
     (case render_widget_to_device rnd st ww wh x y of
        None \<Rightarrow> ([], st)
      | Some (dx, dy) \<Rightarrow>
          (if mouse_buttons st \<noteq> 0 then [CallMotion (mouse_buttons st) dx dy] else [], st\<lparr>dev_x := dx, dev_y := dy\<rparr>))"
| "event_calls G rnd ww wh (Scrolled dx dy) st = ([CallScroll (dev_x st) (dev_y st) (rnd (- dx)) (rnd (- dy))], st)"
| "event_calls G rnd ww wh (KeyPressed k s) st =
     (let ac = gdk_to_android_key k;
          ac = (if ac < 0 \<and> s AND (GDK_CONTROL_MASK OR GDK_ALT_MASK) \<noteq> 0 then gdk_alnum_to_android_key G k else ac);
          uc = gdk_keyval_to_unicode G k
      in if 0 \<le> ac then ([CallKey 1 (word_of_int ac) (gdk_state_to_ameta s) 0], key_mark st ac True)
         else if 0x20 \<le> uc \<and> uc \<noteq> 0x7f then ([CallText (takeWhile (\<lambda>b. b \<noteq> 0) (g_unichar_to_utf8 G uc))], st)
         else ([], st))"
| "event_calls G rnd ww wh (KeyReleased k s) st =
     (let ac = gdk_to_android_key k;
          ac = (if ac < 0 then gdk_alnum_to_android_key G k else ac)
      in if 0 \<le> ac \<and> key_marked st ac
         then ([CallKey 0 (word_of_int ac) (gdk_state_to_ameta s) 0], key_mark st ac False) else ([], st))"
| "event_calls G rnd ww wh (Clicked (AddNav code)) st =
     ([CallKey 1 (word_of_int code) 0 0, CallKey 0 (word_of_int code) 0 0], st)"
| "event_calls G rnd ww wh (Clicked (AddDev action)) st = ([CallDevice action], st)"

lemma s_client_mark [simp]: "s_client (key_mark st k b) = s_client st"
  by (simp add: key_mark_def Let_def)


lemma utf8_short: "gdk_ok G \<Longrightarrow> length (takeWhile P (g_unichar_to_utf8 G u)) \<le> 6"
  using length_takeWhile_le [of P "g_unichar_to_utf8 G u"] by (auto simp: gdk_ok_def intro: order_trans)

lemma on_input_calls:
  assumes G: "gdk_ok G" and l: "link c out (Suc (Suc n)) st w" and e: "event_calls G rnd ww wh e st = (cs, st')"
  shows "\<exists>w'. on_input G rnd ww wh e st w = Some (st', w') \<and> link c (out @ concat (map wire_of cs)) n st' w' \<and>
     list_all call_ok cs"
proof -
  have cl: "s_client st = Some c" using l by (simp add: link_def)
  have l1: "link c out (Suc n) st w" by (rule link_mono [OF l]) simp
  have l0: "link c out n st w" by (rule link_mono [OF l]) simp
  have send: "\<exists>w'. run_core (do_call cx) c stx w = Some (RC_OK, stx, w') \<and> link c (out @ wire_of cx) n stx w'"
    if "s_client stx = s_client st" "call_ok cx" "length (wire_of cx) \<le> 32" for cx stx
    using link_send [OF _ that(2,3)] link_session [OF that(1)] l1 by blast
  show ?thesis
  proof (cases e)
    case (Pressed b x y)
    show ?thesis
    proof (cases "render_widget_to_device rnd st ww wh x y")
      case None
      with Pressed e cl l0 show ?thesis by (auto simp: on_pressed_def)
    next
      case (Some p)
      obtain dx dy where p: "p = (dx, dy)" by fastforce
      let ?bs = "mouse_buttons st OR gdk_button_to_rc b"
      from send [of "st\<lparr>mouse_buttons := ?bs, dev_x := dx, dev_y := dy\<rparr>" "CallButton 1 (gdk_button_to_rc b) ?bs dx dy"]
      show ?thesis using Pressed e cl Some p by (auto simp: on_pressed_def call_funs Let_def)
    qed
  next
    case (Released b x y)
    obtain dx dy where p: "(case render_widget_to_device rnd st ww wh x y of None \<Rightarrow> (dev_x st, dev_y st) | Some p \<Rightarrow> p)
        = (dx, dy)" by fastforce
    let ?bs = "mouse_buttons st AND NOT (gdk_button_to_rc b)"
    from send [of "st\<lparr>mouse_buttons := ?bs\<rparr>" "CallButton 0 (gdk_button_to_rc b) ?bs dx dy"]
    show ?thesis using Released e cl p by (auto simp: on_released_def call_funs Let_def)
  next
    case (Motion x y)
    show ?thesis
    proof (cases "render_widget_to_device rnd st ww wh x y")
      case None
      with Motion e cl l0 show ?thesis by (auto simp: on_motion_def)
    next
      case (Some p)
      obtain dx dy where p: "p = (dx, dy)" by fastforce
      let ?st = "st\<lparr>dev_x := dx, dev_y := dy\<rparr>"
      have "link c out n ?st w" using l0 by (simp add: link_def)
      with send [of ?st "CallMotion (mouse_buttons st) dx dy"]
      show ?thesis using Motion e cl Some p by (auto simp: on_motion_def call_funs Let_def)
    qed
  next
    case (Scrolled dx dy)
    from send [of st "CallScroll (dev_x st) (dev_y st) (rnd (- dx)) (rnd (- dy))"]
    show ?thesis using Scrolled e cl by (auto simp: on_scroll_def call_funs)
  next
    case (KeyPressed k s)
    define ac where "ac = (if gdk_to_android_key k < 0 \<and> s AND (GDK_CONTROL_MASK OR GDK_ALT_MASK) \<noteq> 0
      then gdk_alnum_to_android_key G k else gdk_to_android_key k)"
    define uc where "uc = gdk_keyval_to_unicode G k"
    let ?t = "takeWhile (\<lambda>b. b \<noteq> 0) (g_unichar_to_utf8 G uc)"
    have t: "call_ok (CallText ?t)" "length (wire_of (CallText ?t)) \<le> 32"
      using utf8_short [OF G, of "\<lambda>b. b \<noteq> 0" uc] by simp_all
    have l': "link c o' n (key_mark st ac True) w' = link c o' n st w'" for o' w' by (rule link_session) simp
    from send [of st "CallKey 1 (word_of_int ac) (gdk_state_to_ameta s) 0"] send [of st "CallText ?t", OF refl t] t(1)
    show ?thesis using KeyPressed e cl l0
      by (auto simp: on_key_pressed_def call_funs Let_def l' ac_def [symmetric] uc_def [symmetric] split: if_splits)
  next
    case (KeyReleased k s)
    define ac where "ac = (if gdk_to_android_key k < 0 then gdk_alnum_to_android_key G k else gdk_to_android_key k)"
    have l': "link c o' n (key_mark st ac False) w' = link c o' n st w'" for o' w' by (rule link_session) simp
    from send [of st "CallKey 0 (word_of_int ac) (gdk_state_to_ameta s) 0"]
    show ?thesis using KeyReleased e cl l0
      by (auto simp: on_key_released_def call_funs Let_def l' ac_def [symmetric] split: if_splits)
  next
    case (Clicked btn)
    show ?thesis
    proof (cases btn)
      case (AddNav code)
      from link_click [OF l, of "word_of_int code"] Clicked AddNav e cl show ?thesis by (auto simp: on_navbtn_def)
    next
      case (AddDev a)
      from send [of st "CallDevice a"] Clicked AddDev e cl show ?thesis by (auto simp: on_devbtn_def call_funs)
    qed
  qed
qed


section \<open>The server holds what the session remembers\<close>

lemma key_codes: "gdk_to_android_key k < 256" "gdk_alnum_to_android_key G k < 256"
proof -
  show "gdk_to_android_key k < 256" by (simp add: gdk_to_android_key_def akey_defs)
  have "uint (kv - GDK_KEY_a) < 26" if "GDK_KEY_a \<le> kv" "kv \<le> GDK_KEY_z" for kv :: u32
    using that by (simp add: gdk_defs word_le_def uint_sub_if')
  moreover have "uint (kv - GDK_KEY_0) < 10" if "GDK_KEY_0 \<le> kv" "kv \<le> GDK_KEY_9" for kv :: u32
    using that by (simp add: gdk_defs word_le_def uint_sub_if')
  ultimately show "gdk_alnum_to_android_key G k < 256"
    by (force simp: gdk_alnum_to_android_key_def Let_def)
qed

text \<open>The keys the session has marked.\<close>

definition marked_keys :: "session \<Rightarrow> u32 set" where
  "marked_keys st = {k. key_marked st (uint k)}"

lemma mark_fields [simp]:
  "mouse_buttons (key_mark st k b) = mouse_buttons st" "length (keys_down (key_mark st k b)) = length (keys_down st)"
  by (simp_all add: key_mark_def Let_def)

text \<open>Whether an event is a click on a key of the navigation bar.\<close>

fun is_nav :: "input_event \<Rightarrow> bool" where
  "is_nav (Clicked (AddNav c)) = True"
| "is_nav e = False"

lemma event_tracks:
  assumes e: "event_calls G rnd ww wh e st = (cs, st')" and l: "length (keys_down st) = 32" and H: "H \<subseteq> marked_keys st"
  shows "length (keys_down st') = 32" and "fold server_keys (map event_of cs) H \<subseteq> marked_keys st'"
    and "\<not> is_nav e \<Longrightarrow> H = marked_keys st \<Longrightarrow> fold server_keys (map event_of cs) H = marked_keys st'"
    and "fold server_buttons (map event_of cs) (mouse_buttons st) = mouse_buttons st'"
proof -
  have same: "marked_keys (st\<lparr>mouse_buttons := bs, dev_x := x, dev_y := y\<rparr>) = marked_keys st"
      "marked_keys (st\<lparr>mouse_buttons := bs\<rparr>) = marked_keys st"
      "marked_keys (st\<lparr>dev_x := x, dev_y := y\<rparr>) = marked_keys st" for bs x y
    by (simp_all add: marked_keys_def key_marked_def)
  have down: "marked_keys (key_mark st k True) = insert (word_of_int k) (marked_keys st)" if "0 \<le> k" "k < 256" for k
    unfolding marked_keys_def by (rule keys.held_down [OF l that])
  have up: "marked_keys (key_mark st k False) = marked_keys st - {word_of_int k}" if "0 \<le> k" "k < 256" for k
    unfolding marked_keys_def by (rule keys.held_up [OF l that])
  note r = key_codes
  have "length (keys_down st') = 32 \<and> fold server_keys (map event_of cs) H \<subseteq> marked_keys st' \<and>
      (\<not> is_nav e \<and> H = marked_keys st \<longrightarrow> fold server_keys (map event_of cs) H = marked_keys st') \<and>
      fold server_buttons (map event_of cs) (mouse_buttons st) = mouse_buttons st'"
  proof (cases e)
    case (KeyPressed k s)
    with e l H show ?thesis
      by (auto simp: Let_def down r act_byte_def split: if_splits)
  next
    case (KeyReleased k s)
    with e l H show ?thesis
      by (auto simp: Let_def up r act_byte_def split: if_splits)
  next
    case (Clicked b)
    with e l H show ?thesis by (cases b) (auto simp: act_byte_def)
  qed (use e l H in \<open>auto simp: Let_def same split: option.splits prod.splits if_splits\<close>)
  then show "length (keys_down st') = 32" "fold server_keys (map event_of cs) H \<subseteq> marked_keys st'"
    "\<not> is_nav e \<Longrightarrow> H = marked_keys st \<Longrightarrow> fold server_keys (map event_of cs) H = marked_keys st'"
    "fold server_buttons (map event_of cs) (mouse_buttons st) = mouse_buttons st'" by blast+
qed

lemma inputs_track:
  assumes "gdk_ok G" and "link c out (2 * length es + n) st w" and "length (keys_down st) = 32" and "H \<subseteq> marked_keys st"
  shows "\<exists>cs st' w'. on_inputs G rnd ww wh es st w = Some (st', w') \<and> list_all call_ok cs \<and>
     link c (out @ concat (map wire_of cs)) n st' w' \<and> fold server_keys (map event_of cs) H \<subseteq> marked_keys st' \<and>
     (list_all (\<lambda>e. \<not> is_nav e) es \<and> H = marked_keys st \<longrightarrow> fold server_keys (map event_of cs) H = marked_keys st') \<and>
     fold server_buttons (map event_of cs) (mouse_buttons st) = mouse_buttons st'"
  using assms(2-4)
proof (induction es arbitrary: out st w H)
  case Nil
  then show ?case by (intro exI [of _ "[]"]) simp
next
  case (Cons e es)
  obtain cs st1 where e: "event_calls G rnd ww wh e st = (cs, st1)" by fastforce
  have "link c out (Suc (Suc (2 * length es + n))) st w" using Cons.prems(1) by simp
  from on_input_calls [OF assms(1) this e] obtain w1 where
    1: "on_input G rnd ww wh e st w = Some (st1, w1)" "link c (out @ concat (map wire_of cs)) (2 * length es + n) st1 w1"
      "list_all call_ok cs" by blast
  note T = event_tracks [OF e Cons.prems(2,3)]
  from Cons.IH [OF 1(2) T(1,2)] obtain cs' st' w' where
    2: "on_inputs G rnd ww wh es st1 w1 = Some (st', w')" "list_all call_ok cs'"
      "link c ((out @ concat (map wire_of cs)) @ concat (map wire_of cs')) n st' w'"
      "fold server_keys (map event_of cs') (fold server_keys (map event_of cs) H) \<subseteq> marked_keys st'"
      "list_all (\<lambda>e. \<not> is_nav e) es \<and> fold server_keys (map event_of cs) H = marked_keys st1 \<longrightarrow>
         fold server_keys (map event_of cs') (fold server_keys (map event_of cs) H) = marked_keys st'"
      "fold server_buttons (map event_of cs') (mouse_buttons st1) = mouse_buttons st'" by blast
  show ?case
    using 1 2 T(3,4) by (intro exI [of _ "cs @ cs'"] exI [of _ st'] exI [of _ w']) auto
qed

text \<open>
  C9: keyboard and mouse of the device follow the session.  Take a session whose control connection is
  up, has sent nothing yet and takes every message whole.  Then any sequence of GTK events is
  handled, and after it the events the server decodes from the connection leave it with the same
  mouse buttons pressed as the session, and holding only keys the session still remembers as down,
  so that their release will be sent; exactly those keys, when no button of the navigation bar was
  clicked in between.
\<close>

theorem input_tracks_server:
  assumes "gdk_ok G" and "s_client st = Some c" and "control (cfg c)" and "0 \<le> control_fd c"
    and "sent w (control_fd c) = []" and "takes_whole (2 * length es) (outq w (control_fd c))"
    and "keys_down st = replicate 32 0" and "mouse_buttons st = 0"
  shows "\<exists>st' w'. on_inputs G rnd ww wh es st w = Some (st', w') \<and>
    (let bs = sent w' (control_fd c); evs = receive_all (length bs) bs in
       fold server_buttons evs 0 = mouse_buttons st' \<and>
       fold server_keys evs {} \<subseteq> {k. key_marked st' (uint k)} \<and>
       (list_all (\<lambda>e. \<not> is_nav e) es \<longrightarrow> fold server_keys evs {} = {k. key_marked st' (uint k)}))"
proof -
  have l: "link c [] (2 * length es + 0) st w" using assms(2-6) by (simp add: link_def)
  have "nat (code div 8) < 32" if "0 \<le> code" "code < 256" for code :: int using that by auto
  then have e: "marked_keys st = {}" using assms(7) by (auto simp: marked_keys_def key_marked_def)
  from inputs_track [OF assms(1) l, of "{}" rnd ww wh] assms(7,8) e
  obtain cs st' w' where
    1: "on_inputs G rnd ww wh es st w = Some (st', w')" "list_all call_ok cs"
      "link c (concat (map wire_of cs)) 0 st' w'" "fold server_keys (map event_of cs) {} \<subseteq> marked_keys st'"
      "list_all (\<lambda>e. \<not> is_nav e) es \<longrightarrow> fold server_keys (map event_of cs) {} = marked_keys st'"
      "fold server_buttons (map event_of cs) 0 = mouse_buttons st'" by auto
  have "sent w' (control_fd c) = concat (map wire_of cs)" using 1(3) by (simp add: link_def)
  with receive_all_wire [OF 1(2) wire_length [of cs]] 1
  show ?thesis by (auto simp: Let_def marked_keys_def)
qed


text \<open>A keyboard with Latin letters.\<close>

definition demo_gdk :: gdk where
  "demo_gdk = \<lparr>gdk_keyval_to_lower = (\<lambda>k. if 0x41 \<le> k \<and> k \<le> 0x5a then k + 0x20 else k),
     gdk_keyval_to_unicode = (\<lambda>k. k), g_unichar_to_utf8 = (\<lambda>u. [ucast u])\<rparr>"

definition demo_input_session :: session where
  "demo_input_session = (new_session demo_config)\<lparr>s_client := Some (demo_client\<lparr>control_fd := 7\<rparr>)\<rparr>"

definition demo_input_os :: os where
  "demo_input_os = (os.truncate demo_sys)\<lparr>outq := (\<lambda>_. replicate 8 (Accept 32))\<rparr>"

theorem input_tracks_server_witness:
  "\<exists>st' w'. on_inputs demo_gdk (\<lambda>_. 0) 4 4 [KeyPressed 0x63 4, Scrolled 0 1, KeyReleased 0x63 0] demo_input_session demo_input_os
       = Some (st', w') \<and>
     (let bs = sent w' 7; evs = receive_all (length bs) bs in
        fold server_buttons evs 0 = mouse_buttons st' \<and> fold server_keys evs {} = {k. key_marked st' (uint k)})"
proof -
  let ?c = "demo_client\<lparr>control_fd := 7\<rparr>" and ?es = "[KeyPressed 0x63 4, Scrolled 0 1, KeyReleased 0x63 0]"
  have G: "gdk_ok demo_gdk" by (simp add: gdk_ok_def demo_gdk_def)
  have c: "control (cfg ?c)" by (simp add: demo_client_def rc_client_create_def dup_or_null_def demo_config_def)
  have st: "s_client demo_input_session = Some ?c" "keys_down demo_input_session = replicate 32 0"
    "mouse_buttons demo_input_session = 0" by (simp_all add: demo_input_session_def new_session_def)
  have o: "sent demo_input_os (control_fd ?c) = []" by (simp add: demo_input_os_def demo_sys_def)
  have t: "takes_whole (2 * length ?es) (outq demo_input_os (control_fd ?c))"
    unfolding takes_whole_def by (rule exI [of _ "replicate 8 32"], rule exI [of _ "[]"]) (simp add: demo_input_os_def)
  from input_tracks_server [OF G st(1) c _ o t st(2,3), of "\<lambda>_. 0" 4 4]
  show ?thesis by (simp add: Let_def del: on_inputs.simps) blast
qed

text \<open>A key whose release arrives with another symbol, because Shift went down in between, is not released:
  Control with 1 sends key 8 down, the release of an exclamation mark sends nothing.\<close>

lemma shifted_release_sticks:
  "event_calls demo_gdk rnd ww wh (KeyPressed 0x31 4) st = ([CallKey 1 8 0x3000 0], key_mark st 8 True)"
  "event_calls demo_gdk rnd ww wh (KeyReleased 0x21 5) st = ([], st)"
  by (simp_all add: demo_gdk_def gdk_to_android_key_def gdk_alnum_to_android_key_def gdk_defs gdk_state_to_ameta_def Let_def)

end
