(* ===== verification/Gtk_Main.thy ===== *)
theory Gtk_Main
  imports Gtk_Session
begin

text \<open>
  \<^verbatim>\<open>frontends/gtk/adbpath.c\<close> and the start of \<^verbatim>\<open>frontends/gtk/main.c\<close>: finding \<^verbatim>\<open>adb\<close>, making the directory
  it is in part of \<^verbatim>\<open>PATH\<close>, and reading the configuration from the environment.  The file system and the
  path functions of GLib are parameters.
\<close>

section \<open>Finding adb\<close>

text \<open>\<open>g_find_program_in_path\<close> gets the value of \<^verbatim>\<open>PATH\<close>, which it reads itself in C.\<close>

record glib =
  is_executable :: "string \<Rightarrow> bool"
  is_dir :: "string \<Rightarrow> bool"
  g_find_program_in_path :: "string option \<Rightarrow> string \<Rightarrow> string option"
  g_get_home_dir :: string
  g_build_filename :: "string list \<Rightarrow> string"
  g_path_get_dirname :: "string \<Rightarrow> string"

text \<open>The environment of the process and \<^verbatim>\<open>g_adb\<close>.\<close>

record proc =
  envp :: "string \<rightharpoonup> string"
  g_adb :: "string option"

fun first_exe :: "glib \<Rightarrow> string option list \<Rightarrow> string option" where
  "first_exe L [] = None"
| "first_exe L (p # ps) =
     (case p of
        None \<Rightarrow> first_exe L ps
      | Some f \<Rightarrow>
          if f = [] then first_exe L ps
          else if is_executable L f \<and> \<not> is_dir L f then Some f
          else first_exe L ps)"

definition path_contains :: "string \<Rightarrow> string \<Rightarrow> bool" where
  "path_contains path dir = list_ex (\<lambda>part. part = dir) (g_strsplit path (CHR '':''))"

text \<open>Step 1 of \<^verbatim>\<open>adb_path_init\<close>: \<^verbatim>\<open>RC_ADB_PATH\<close>.\<close>

definition adb_from_env :: "glib \<Rightarrow> proc \<Rightarrow> string option" where
  "adb_from_env L p =
     (case envp p ''RC_ADB_PATH'' of
        None \<Rightarrow> None
      | Some e \<Rightarrow>
          if e = [] then None
          else
            let cand = (if is_dir L e then g_build_filename L [e, ''adb''] else e)
            in if is_executable L cand then Some cand else None)"

text \<open>The candidates of step 3.\<close>

definition sdk_adb :: "glib \<Rightarrow> string option \<Rightarrow> string option" where
  "sdk_adb L root =
     (case root of
        None \<Rightarrow> None
      | Some r \<Rightarrow> if r = [] then None else Some (g_build_filename L [r, ''platform-tools'', ''adb'']))"

definition adb_candidates :: "glib \<Rightarrow> proc \<Rightarrow> string option list" where
  "adb_candidates L p =
     (let home = g_get_home_dir L in
      [sdk_adb L (envp p ''ANDROID_HOME''), sdk_adb L (envp p ''ANDROID_SDK_ROOT''),
       Some (g_build_filename L [home, ''Android'', ''Sdk'', ''platform-tools'', ''adb'']),
       Some (g_build_filename L [home, ''Android'', ''sdk'', ''platform-tools'', ''adb'']),
       Some (g_build_filename L [home, ''Library'', ''Android'', ''sdk'', ''platform-tools'', ''adb'']),
       Some ''/usr/lib/android-sdk/platform-tools/adb'', Some ''/opt/android-sdk/platform-tools/adb'',
       Some ''/usr/local/bin/adb'', Some ''/opt/homebrew/bin/adb'', Some ''/snap/bin/adb''])"

definition adb_path_init :: "glib \<Rightarrow> proc \<Rightarrow> proc" where
  "adb_path_init L p =
     (if g_adb p \<noteq> None then p
      else
        let a = adb_from_env L p;
            a = (if a = None then g_find_program_in_path L (envp p ''PATH'') ''adb'' else a);
            a = (if a = None then first_exe L (adb_candidates L p) else a) in
        case a of
          None \<Rightarrow> p
        | Some f \<Rightarrow>
            let p = p\<lparr>g_adb := Some f\<rparr>; dir = g_path_get_dirname L f in
            (case envp p ''PATH'' of
               None \<Rightarrow> p\<lparr>envp := (envp p)(''PATH'' \<mapsto> dir)\<rparr>
             | Some path \<Rightarrow>
                 if path = [] then p\<lparr>envp := (envp p)(''PATH'' \<mapsto> dir)\<rparr>
                 else if \<not> path_contains path dir then p\<lparr>envp := (envp p)(''PATH'' \<mapsto> dir @ '':'' @ path)\<rparr>
                 else p))"

definition adb_available :: "proc \<Rightarrow> bool" where
  "adb_available p \<longleftrightarrow> g_adb p \<noteq> None"

definition adb_program :: "proc \<Rightarrow> string" where
  "adb_program p = (case g_adb p of None \<Rightarrow> ''adb'' | Some f \<Rightarrow> f)"

section \<open>The configuration\<close>

definition env_int :: "proc \<Rightarrow> string \<Rightarrow> int \<Rightarrow> int" where
  "env_int p name d = (case envp p name of None \<Rightarrow> d | Some v \<Rightarrow> if v = [] then d else atoi v)"

text \<open>The state \<^verbatim>\<open>main\<close> sets up before the application runs.\<close>

definition main_app :: "proc \<Rightarrow> app" where
  "main_app p =
     (let tcp = envp p ''RC_TCP_ADDR'';
          b = \<lparr>serial = envp p ''RC_SERIAL'',
               transport = (if tcp \<noteq> None \<and> tcp \<noteq> Some [] then RC_TRANSPORT_TCP else RC_TRANSPORT_USB),
               tcp_addr = tcp, tcp_device_port = 0, max_size = env_int p ''RC_MAX_SIZE'' 0,
               bit_rate = env_int p ''RC_BIT_RATE'' 8000000, max_fps = env_int p ''RC_MAX_FPS'' 60,
               codec = RC_CODEC_H264, control = (env_int p ''RC_CONTROL'' 1 \<noteq> 0),
               audio = (env_int p ''RC_AUDIO'' 0 \<noteq> 0), audio_codec = RC_ACODEC_OPUS\<rparr>
      in \<lparr>base = b, sel_max_size = max_size b, sel_bit_rate = bit_rate b, sel_audio = audio b,
          sel_control = control b, sel_show_fps = (env_int p ''RC_SHOW_FPS'' 1 \<noteq> 0),
          dd_size = None, dd_bitrate = None, cb_audio = None, cb_control = None, cb_fps = None,
          sessions = [], agent_devs = (\<lambda>_. None), probed_hosts = {}\<rparr>)"

section \<open>The core finds the adb that was found\<close>

text \<open>A path whose last part is \<^verbatim>\<open>adb\<close>.\<close>

definition is_adb :: "string \<Rightarrow> bool" where
  "is_adb f \<longleftrightarrow> drop (length f - 4) f = ''/adb''"

text \<open>What is documented of the functions of GLib: a program found in the path is an executable file of that
  name, a file name is built by appending the last part, and the name of a directory leads back to it.\<close>

definition glib_ok :: "glib \<Rightarrow> bool" where
  "glib_ok L \<longleftrightarrow>
     (\<forall>path f. g_find_program_in_path L path ''adb'' = Some f \<longrightarrow> is_executable L f \<and> is_adb f) \<and>
     (\<forall>d ds. is_adb (g_build_filename L (d # ds @ [''adb'']))) \<and>
     (\<forall>f. is_executable L f \<and> is_adb f \<longrightarrow> is_executable L (g_path_get_dirname L f @ ''/adb''))"

text \<open>How \<^verbatim>\<open>posix_spawnp\<close> finds \<^verbatim>\<open>adb\<close>: the first directory of \<^verbatim>\<open>PATH\<close> that has it.\<close>

definition spawn_dir :: "glib \<Rightarrow> proc \<Rightarrow> string option" where
  "spawn_dir L p = (case envp p ''PATH'' of None \<Rightarrow> None
     | Some path \<Rightarrow> find (\<lambda>d. is_executable L (d @ ''/adb'')) (split_on (CHR '':'') path))"

definition in_path :: "proc \<Rightarrow> string \<Rightarrow> bool" where
  "in_path p dir \<longleftrightarrow> (\<exists>path. envp p ''PATH'' = Some path \<and> path \<noteq> [] \<and> path_contains path dir)"


lemma first_exe_Some:
  "first_exe L ps = Some f \<Longrightarrow> is_executable L f \<and> Some f \<in> set ps"
  by (induction ps) (auto split: option.splits if_splits)

lemma glib_build:
  assumes "glib_ok L"
  shows "is_adb (g_build_filename L [a, ''adb''])" "is_adb (g_build_filename L [a, b, ''adb''])"
    "is_adb (g_build_filename L [a, b, c, d, ''adb''])" "is_adb (g_build_filename L [a, b, c, d, e, ''adb''])"
proof -
  have "is_adb (g_build_filename L (x # xs @ [''adb'']))" for x xs using assms by (simp add: glib_ok_def)
  from this [of a "[]"] this [of a "[b]"] this [of a "[b, c, d]"] this [of a "[b, c, d, e]"]
  show "is_adb (g_build_filename L [a, ''adb''])" "is_adb (g_build_filename L [a, b, ''adb''])"
    "is_adb (g_build_filename L [a, b, c, d, ''adb''])" "is_adb (g_build_filename L [a, b, c, d, e, ''adb''])" by simp_all
qed

lemma candidates_named:
  assumes "glib_ok L"
  shows "list_all (\<lambda>c. case c of None \<Rightarrow> True | Some f \<Rightarrow> is_adb f) (adb_candidates L p)"
proof -
  have "case sdk_adb L r of None \<Rightarrow> True | Some f \<Rightarrow> is_adb f" for r
    by (simp add: sdk_adb_def glib_build [OF assms] split: option.splits)
  moreover have "is_adb ''/usr/lib/android-sdk/platform-tools/adb''" "is_adb ''/opt/android-sdk/platform-tools/adb''"
    "is_adb ''/usr/local/bin/adb''" "is_adb ''/opt/homebrew/bin/adb''" "is_adb ''/snap/bin/adb''"
    by (simp_all add: is_adb_def)
  ultimately show ?thesis by (simp add: adb_candidates_def Let_def glib_build [OF assms])
qed

definition adb_choice :: "glib \<Rightarrow> proc \<Rightarrow> string option" where
  "adb_choice L p =
     (let a = adb_from_env L p;
          a = (if a = None then g_find_program_in_path L (envp p ''PATH'') ''adb'' else a)
      in if a = None then first_exe L (adb_candidates L p) else a)"

lemma adb_choice_ok:
  assumes L: "glib_ok L" and c: "adb_choice L p = Some f"
    and e: "\<And>e. envp p ''RC_ADB_PATH'' = Some e \<Longrightarrow> e = [] \<or> is_dir L e \<or> is_adb e"
  shows "is_executable L f \<and> is_adb f"
proof (cases "adb_from_env L p")
  case (Some g)
  then have "is_executable L g \<and> is_adb g"
    using e glib_build [OF L] by (auto simp: adb_from_env_def Let_def split: option.splits if_splits)
  with Some c show ?thesis by (simp add: adb_choice_def Let_def)
next
  case None
  show ?thesis
  proof (cases "g_find_program_in_path L (envp p ''PATH'') ''adb''")
    case (Some g)
    with None c L show ?thesis by (auto simp: adb_choice_def Let_def glib_ok_def)
  next
    case n: None
    with None c have "first_exe L (adb_candidates L p) = Some f" by (simp add: adb_choice_def Let_def)
    from first_exe_Some [OF this] candidates_named [OF L, of p] show ?thesis by (auto simp: list_all_iff)
  qed
qed

lemma adb_path_init_cases:
  assumes "g_adb p = None"
  shows "adb_path_init L p = (case adb_choice L p of None \<Rightarrow> p
     | Some f \<Rightarrow> p\<lparr>g_adb := Some f, envp := (if in_path p (g_path_get_dirname L f) then envp p
         else (envp p)(''PATH'' \<mapsto> g_path_get_dirname L f @
           (case envp p ''PATH'' of Some (x # xs) \<Rightarrow> '':'' @ x # xs | _ \<Rightarrow> [])))\<rparr>)"
  using assms
  by (simp add: adb_path_init_def adb_choice_def in_path_def Let_def split: option.splits list.splits)

lemma find_hit: "x \<in> set xs \<Longrightarrow> P x \<Longrightarrow> \<exists>y. find P xs = Some y"
  by (induction xs) auto

text \<open>
  C39: the adb that was found is the one that is run.  Let \<^verbatim>\<open>adb_path_init\<close> be called for the first time, GLib
  find programs and build file names as documented (\<^const>\<open>glib_ok\<close>), and \<^verbatim>\<open>RC_ADB_PATH\<close> be unset, empty, a
  directory or a file called \<^verbatim>\<open>adb\<close> (for a file of another name the claim is false: lemma
  \<open>renamed_adb_not_found\<close>).  If it finds an adb in a directory without a colon in its name (a colon would
  split the entry of \<^verbatim>\<open>PATH\<close>), then afterwards the directories of \<^verbatim>\<open>PATH\<close> contain an adb, so that the core, which
  spawns \<^verbatim>\<open>adb\<close> by name, can run it; it is the chosen one whenever its directory was not in \<^verbatim>\<open>PATH\<close> before;
  no other variable changes, and a second call changes nothing.  When none was found nothing changes.
\<close>

theorem adb_found_is_used:
  assumes "glib_ok L" and "g_adb p = None" and "adb_path_init L p = p'"
    and "\<forall>e. envp p ''RC_ADB_PATH'' = Some e \<longrightarrow> e = [] \<or> is_dir L e \<or> is_adb e"
    and "adb_available p' \<longrightarrow> CHR '':'' \<notin> set (g_path_get_dirname L (adb_program p'))"
  shows "(\<not> adb_available p' \<longrightarrow> p' = p) \<and>
     (adb_available p' \<longrightarrow> is_executable L (adb_program p') \<and> spawn_dir L p' \<noteq> None \<and>
        (\<not> in_path p (g_path_get_dirname L (adb_program p')) \<longrightarrow>
           spawn_dir L p' = Some (g_path_get_dirname L (adb_program p'))) \<and>
        (\<forall>v. v \<noteq> ''PATH'' \<longrightarrow> envp p' v = envp p v) \<and> adb_path_init L p' = p')"
proof (cases "adb_choice L p")
  case None
  with assms(2,3) show ?thesis by (simp add: adb_path_init_cases adb_available_def)
next
  case (Some f)
  let ?d = "g_path_get_dirname L f"
  have p': "p' = p\<lparr>g_adb := Some f, envp := (if in_path p ?d then envp p
         else (envp p)(''PATH'' \<mapsto> ?d @ (case envp p ''PATH'' of Some (x # xs) \<Rightarrow> '':'' @ x # xs | _ \<Rightarrow> [])))\<rparr>"
    using assms(2,3) Some by (simp add: adb_path_init_cases)
  have f: "is_executable L f" "is_adb f" using adb_choice_ok [OF assms(1) Some] assms(4) by auto
  have d: "is_executable L (?d @ ''/adb'')" "CHR '':'' \<notin> set ?d" using assms(1,5) f by (auto simp: glib_ok_def p' adb_available_def adb_program_def)
  have "spawn_dir L p' = Some ?d" if "\<not> in_path p ?d"
    using that d by (simp add: p' spawn_dir_def split_on_none split_on_append split: option.splits list.splits)
  moreover have "spawn_dir L p' \<noteq> None" if "in_path p ?d"
    using that d by (auto simp: p' in_path_def spawn_dir_def path_contains_def g_strsplit_def list_ex_iff intro: find_hit)
  ultimately show ?thesis using f by (auto simp: p' adb_available_def adb_program_def adb_path_init_def)
qed


text \<open>A machine whose only adb is in an SDK outside of the path.\<close>

fun join_slash :: "string list \<Rightarrow> string" where
  "join_slash [] = []"
| "join_slash [x] = x"
| "join_slash (x # xs) = x @ ''/'' @ join_slash xs"

definition demo_glib :: glib where
  "demo_glib = \<lparr>is_executable = (\<lambda>f. f = ''/opt/sdk/platform-tools/adb''), is_dir = (\<lambda>_. False),
     g_find_program_in_path = (\<lambda>_ _. None), g_get_home_dir = ''/root'', g_build_filename = join_slash,
     g_path_get_dirname = (\<lambda>f. if f = ''/opt/sdk/platform-tools/adb'' then ''/opt/sdk/platform-tools'' else ''.'')\<rparr>"

definition demo_proc :: proc where
  "demo_proc = \<lparr>envp = [''PATH'' \<mapsto> ''/usr/bin:/bin'', ''ANDROID_HOME'' \<mapsto> ''/opt/sdk''], g_adb = None\<rparr>"

lemma join_slash_last: "join_slash (d # ds @ [x]) = join_slash (d # ds) @ ''/'' @ x"
  by (induction ds arbitrary: d) auto

lemma demo_glib_ok: "glib_ok demo_glib"
  unfolding glib_ok_def
proof (intro conjI allI impI)
  show "is_adb (g_build_filename demo_glib (d # ds @ [''adb'']))" for d ds
    using join_slash_last [of d ds "''adb''"] by (simp add: demo_glib_def is_adb_def)
qed (auto simp: demo_glib_def)

theorem adb_found_is_used_witness:
  "adb_available (adb_path_init demo_glib demo_proc) \<and>
   spawn_dir demo_glib (adb_path_init demo_glib demo_proc) = Some ''/opt/sdk/platform-tools''"
proof -
  have c: "adb_choice demo_glib demo_proc = Some ''/opt/sdk/platform-tools/adb''"
    by (simp add: adb_choice_def adb_from_env_def adb_candidates_def sdk_adb_def demo_glib_def demo_proc_def)
  then have a: "adb_available (adb_path_init demo_glib demo_proc)"
    "adb_program (adb_path_init demo_glib demo_proc) = ''/opt/sdk/platform-tools/adb''"
    by (simp_all add: adb_path_init_cases adb_available_def adb_program_def demo_proc_def)
  have n: "\<not> in_path demo_proc (g_path_get_dirname demo_glib ''/opt/sdk/platform-tools/adb'')"
    by (simp add: in_path_def path_contains_def g_strsplit_def demo_proc_def demo_glib_def)
  have "CHR '':'' \<notin> set (g_path_get_dirname demo_glib f)" for f by (simp add: demo_glib_def)
  then show ?thesis
    using adb_found_is_used [OF demo_glib_ok _ refl, of demo_proc] a n
    by (simp add: demo_proc_def demo_glib_def)
qed

text \<open>A file of another name in \<^verbatim>\<open>RC_ADB_PATH\<close> is used by the chooser, but not by the core: its directory goes
  into \<^verbatim>\<open>PATH\<close>, and nothing there is called \<^verbatim>\<open>adb\<close>.\<close>

lemma renamed_adb_not_found:
  assumes "envp p ''RC_ADB_PATH'' = Some f" and "f \<noteq> []" and "\<not> is_dir L f" and "g_adb p = None"
    and "\<forall>g. is_executable L g \<longleftrightarrow> g = f" and "\<not> is_adb f"
  shows "adb_program (adb_path_init L p) = f" and "spawn_dir L (adb_path_init L p) = None"
proof -
  have "adb_choice L p = Some f" using assms by (simp add: adb_choice_def adb_from_env_def)
  then show "adb_program (adb_path_init L p) = f" using assms(4) by (simp add: adb_path_init_cases adb_program_def)
  have "d @ ''/adb'' \<noteq> f" for d using assms(6) by (auto simp: is_adb_def)
  then have "spawn_dir L q = None" for q
    using assms(5) by (simp add: spawn_dir_def find_None_iff split: option.splits)
  then show "spawn_dir L (adb_path_init L p) = None" .
qed

end
