(* ===== verification/Gtk_Widgets.thy ===== *)
theory Gtk_Widgets
  imports Main
begin

text \<open>
  GTK objects as the chooser uses them: a store of objects addressed by their position.  An object has a
  class, the properties the code sets, its children, its named data, the handlers connected to its signals, and
  its number of references: one from the container or the window that shows it, and one for each
  \<^verbatim>\<open>g_object_ref\<close>.  Texts and handlers are parameters of the record.
\<close>

datatype orientation = GTK_ORIENTATION_HORIZONTAL | GTK_ORIENTATION_VERTICAL

datatype wclass =
    ApplicationWindow
  | Box orientation int
  | Label
  | DropDown "string list"
  | CheckButton
  | Button
  | Entry
  | ListBox
  | ScrolledWindow

record ('t, 'h) wobj =
  w_class :: wclass
  w_text :: "'t option"
  w_tip :: "'t option"
  w_placeholder :: "'t option"
  w_selected :: nat
  w_active :: bool
  w_sensitive :: bool
  w_hexpand :: bool
  w_vexpand :: bool
  w_children :: "nat list"
  w_data :: "string \<rightharpoonup> nat"
  w_signals :: "(string \<times> 'h) list"
  w_refs :: nat

type_synonym ('t, 'h) ui = "('t, 'h) wobj list"

definition gtk_new :: "wclass \<Rightarrow> 't option \<Rightarrow> ('t, 'h) ui \<Rightarrow> nat \<times> ('t, 'h) ui" where
  "gtk_new k t ui = (length ui, ui @ [\<lparr>w_class = k, w_text = t, w_tip = None, w_placeholder = None,
     w_selected = 0, w_active = False,
     w_sensitive = True, w_hexpand = False, w_vexpand = False, w_children = [], w_data = (\<lambda>_. None), w_signals = [], w_refs = 1\<rparr>])"

definition on_obj :: "nat \<Rightarrow> (('t, 'h) wobj \<Rightarrow> ('t, 'h) wobj) \<Rightarrow> ('t, 'h) ui \<Rightarrow> ('t, 'h) ui" where
  "on_obj i f ui = ui[i := f (ui ! i)]"

definition gtk_append :: "nat \<Rightarrow> nat \<Rightarrow> ('t, 'h) ui \<Rightarrow> ('t, 'h) ui" where
  "gtk_append parent child = on_obj parent (\<lambda>x. x\<lparr>w_children := w_children x @ [child]\<rparr>)"

definition g_object_set_data :: "nat \<Rightarrow> string \<Rightarrow> nat \<Rightarrow> ('t, 'h) ui \<Rightarrow> ('t, 'h) ui" where
  "g_object_set_data i key v = on_obj i (\<lambda>x. x\<lparr>w_data := (w_data x)(key \<mapsto> v)\<rparr>)"

definition g_object_get_data :: "nat \<Rightarrow> string \<Rightarrow> ('t, 'h) ui \<Rightarrow> nat option" where
  "g_object_get_data i key ui = w_data (ui ! i) key"

definition g_signal_connect :: "nat \<Rightarrow> string \<Rightarrow> 'h \<Rightarrow> ('t, 'h) ui \<Rightarrow> ('t, 'h) ui" where
  "g_signal_connect i sig h = on_obj i (\<lambda>x. x\<lparr>w_signals := w_signals x @ [(sig, h)]\<rparr>)"

definition g_object_ref :: "nat \<Rightarrow> ('t, 'h) ui \<Rightarrow> ('t, 'h) ui" where
  "g_object_ref i = on_obj i (\<lambda>x. x\<lparr>w_refs := w_refs x + 1\<rparr>)"

definition g_object_unref :: "nat \<Rightarrow> ('t, 'h) ui \<Rightarrow> ('t, 'h) ui" where
  "g_object_unref i = on_obj i (\<lambda>x. x\<lparr>w_refs := w_refs x - 1\<rparr>)"

definition set_sensitive :: "nat \<Rightarrow> bool \<Rightarrow> ('t, 'h) ui \<Rightarrow> ('t, 'h) ui" where
  "set_sensitive i b = on_obj i (\<lambda>x. x\<lparr>w_sensitive := b\<rparr>)"

definition set_text :: "nat \<Rightarrow> 't \<Rightarrow> ('t, 'h) ui \<Rightarrow> ('t, 'h) ui" where
  "set_text i t = on_obj i (\<lambda>x. x\<lparr>w_text := Some t\<rparr>)"

definition set_tip :: "nat \<Rightarrow> 't \<Rightarrow> ('t, 'h) ui \<Rightarrow> ('t, 'h) ui" where
  "set_tip i t = on_obj i (\<lambda>x. x\<lparr>w_tip := Some t\<rparr>)"

definition set_placeholder :: "nat \<Rightarrow> 't \<Rightarrow> ('t, 'h) ui \<Rightarrow> ('t, 'h) ui" where
  "set_placeholder i t = on_obj i (\<lambda>x. x\<lparr>w_placeholder := Some t\<rparr>)"

definition set_selected :: "nat \<Rightarrow> nat \<Rightarrow> ('t, 'h) ui \<Rightarrow> ('t, 'h) ui" where
  "set_selected i n = on_obj i (\<lambda>x. x\<lparr>w_selected := n\<rparr>)"

definition set_active :: "nat \<Rightarrow> bool \<Rightarrow> ('t, 'h) ui \<Rightarrow> ('t, 'h) ui" where
  "set_active i b = on_obj i (\<lambda>x. x\<lparr>w_active := b\<rparr>)"

definition set_hexpand :: "nat \<Rightarrow> ('t, 'h) ui \<Rightarrow> ('t, 'h) ui" where
  "set_hexpand i = on_obj i (\<lambda>x. x\<lparr>w_hexpand := True\<rparr>)"

definition set_vexpand :: "nat \<Rightarrow> ('t, 'h) ui \<Rightarrow> ('t, 'h) ui" where
  "set_vexpand i = on_obj i (\<lambda>x. x\<lparr>w_vexpand := True\<rparr>)"

text \<open>An object can be used as long as somebody refers to it.  A handler that uses a freed object or a missing
  one (\<^verbatim>\<open>NULL\<close> from \<^verbatim>\<open>g_object_get_data\<close>) has the result \<^term>\<open>None\<close>.\<close>

definition live :: "nat \<Rightarrow> ('t, 'h) ui \<Rightarrow> bool" where
  "live i ui \<longleftrightarrow> i < length ui \<and> 0 < w_refs (ui ! i)"

definition with_live :: "nat \<Rightarrow> (('t, 'h) ui \<Rightarrow> 'r) \<Rightarrow> ('t, 'h) ui \<Rightarrow> 'r option" where
  "with_live i f ui = (if live i ui then Some (f ui) else None)"

definition gtk_drop_down_get_selected :: "nat \<Rightarrow> ('t, 'h) ui \<Rightarrow> nat option" where
  "gtk_drop_down_get_selected i = with_live i (\<lambda>ui. w_selected (ui ! i))"

definition gtk_check_button_get_active :: "nat \<Rightarrow> ('t, 'h) ui \<Rightarrow> bool option" where
  "gtk_check_button_get_active i = with_live i (\<lambda>ui. w_active (ui ! i))"

text \<open>A window is destroyed: it gives up its references to what it showed.\<close>

definition gtk_window_destroy :: "nat list \<Rightarrow> ('t, 'h) ui \<Rightarrow> ('t, 'h) ui" where
  "gtk_window_destroy = fold g_object_unref"

section \<open>What the operations keep\<close>

text \<open>Class, children, data and handlers of an object: what the operations after its construction leave alone.\<close>

definition fixed :: "('t, 'h) wobj \<Rightarrow> wclass \<times> nat list \<times> (string \<rightharpoonup> nat) \<times> (string \<times> 'h) list" where
  "fixed x = (w_class x, w_children x, w_data x, w_signals x)"

lemma fixed_update [simp]:
  "fixed (x\<lparr>w_refs := n\<rparr>) = fixed x" "fixed (x\<lparr>w_sensitive := b\<rparr>) = fixed x" "fixed (x\<lparr>w_text := t\<rparr>) = fixed x"
  "fixed (x\<lparr>w_selected := n\<rparr>) = fixed x" "fixed (x\<lparr>w_active := b\<rparr>) = fixed x"
  by (simp_all add: fixed_def)

lemma map_on_obj:
  assumes "\<And>x. g (f x) = g x"
  shows "map g (on_obj i f ui) = map g ui"
proof (rule nth_equalityI)
  show "map g (on_obj i f ui) ! j = map g ui ! j" if "j < length (map g (on_obj i f ui))" for j
    using that assms by (cases "i = j") (simp_all add: on_obj_def)
qed (simp add: on_obj_def)

lemma map_fold_unref:
  assumes "\<And>x n. g (x\<lparr>w_refs := n\<rparr>) = g x"
  shows "map g (fold g_object_unref is ui) = map g ui"
  by (induction "is" arbitrary: ui) (simp_all add: g_object_unref_def map_on_obj assms)

definition shape :: "('t, 'h) ui \<Rightarrow> (wclass \<times> nat list \<times> (string \<rightharpoonup> nat) \<times> (string \<times> 'h) list) list" where
  "shape = map fixed"

lemma shape_keeps [simp]:
  "shape (g_object_ref i ui) = shape ui" "shape (g_object_unref i ui) = shape ui"
  "shape (set_sensitive i b ui) = shape ui" "shape (set_text i t ui) = shape ui"
  "shape (set_selected i n ui) = shape ui" "shape (set_active i b ui) = shape ui"
  "shape (gtk_window_destroy is ui) = shape ui"
  by (simp_all add: shape_def map_on_obj map_fold_unref g_object_ref_def g_object_unref_def set_sensitive_def set_text_def
      set_selected_def set_active_def gtk_window_destroy_def)

text \<open>References and sensitivity under each operation.\<close>

definition refs_of :: "('t, 'h) ui \<Rightarrow> nat list" where
  "refs_of = map w_refs"

definition sensitive :: "('t, 'h) ui \<Rightarrow> bool list" where
  "sensitive = map w_sensitive"

lemma sensitive_keeps [simp]:
  "sensitive (g_object_ref i ui) = sensitive ui" "sensitive (g_object_unref i ui) = sensitive ui"
  "sensitive (set_text i t ui) = sensitive ui"
  "sensitive (set_selected i n ui) = sensitive ui" "sensitive (set_active i b ui) = sensitive ui"
  "sensitive (gtk_window_destroy is ui) = sensitive ui"
  by (simp_all add: sensitive_def map_on_obj map_fold_unref g_object_ref_def g_object_unref_def set_text_def
      set_selected_def set_active_def gtk_window_destroy_def)

lemma sensitive_set [simp]: "sensitive (set_sensitive i b ui) = (sensitive ui)[i := b]"
  by (simp add: sensitive_def set_sensitive_def on_obj_def map_update)

lemma refs_keeps [simp]:
  "refs_of (set_sensitive i b ui) = refs_of ui" "refs_of (set_text i t ui) = refs_of ui"
  "refs_of (set_selected i n ui) = refs_of ui" "refs_of (set_active i b ui) = refs_of ui"
  by (simp_all add: refs_of_def map_on_obj set_text_def set_sensitive_def set_selected_def set_active_def)

lemma ui_length [simp]:
  "length (g_object_ref i ui) = length ui" "length (g_object_unref i ui) = length ui"
  "length (set_sensitive i b ui) = length ui" "length (set_text i t ui) = length ui"
  "length (set_selected i n ui) = length ui" "length (set_active i b ui) = length ui"
  "length (shape ui) = length ui" "length (sensitive ui) = length ui" "length (refs_of ui) = length ui"
  by (simp_all add: g_object_ref_def g_object_unref_def set_sensitive_def set_text_def set_selected_def set_active_def
      on_obj_def shape_def sensitive_def refs_of_def)

lemma fold_unref_length [simp]: "length (fold g_object_unref is ui) = length ui"
  by (induction "is" arbitrary: ui) simp_all

lemma destroy_length [simp]: "length (gtk_window_destroy is ui) = length ui"
  by (simp add: gtk_window_destroy_def)

lemma refs_of_ref [simp]:
  "j < length ui \<Longrightarrow> refs_of (g_object_ref i ui) ! j = refs_of ui ! j + (if j = i then 1 else 0)"
  "j < length ui \<Longrightarrow> refs_of (g_object_unref i ui) ! j = refs_of ui ! j - (if j = i then 1 else 0)"
  by (cases "i = j"; simp add: refs_of_def g_object_ref_def g_object_unref_def on_obj_def)+

lemma refs_of_destroy [simp]:
  "j < length ui \<Longrightarrow> distinct is \<Longrightarrow>
   refs_of (gtk_window_destroy is ui) ! j = refs_of ui ! j - (if j \<in> set is then 1 else 0)"
  unfolding gtk_window_destroy_def by (induction "is" arbitrary: ui) (auto split: if_splits)

lemma live_iff: "live i ui \<longleftrightarrow> i < length ui \<and> 0 < refs_of ui ! i"
  by (auto simp: live_def refs_of_def)

lemma live_keeps [simp]:
  "live j (set_sensitive i b ui) = live j ui" "live j (set_text i t ui) = live j ui"
  "live j ui \<Longrightarrow> live j (g_object_ref i ui)"
  by (simp_all add: live_iff)

lemma nth_list_update': "(xs[i := x]) ! j = (if i = j \<and> j < length xs then x else xs ! j)"
  by (cases "i = j"; cases "j < length xs") (simp_all add: list_update_beyond)

lemma get_data_keeps [simp]:
  "g_object_get_data j key (g_object_ref i ui) = g_object_get_data j key ui"
  "g_object_get_data j key (g_object_unref i ui) = g_object_get_data j key ui"
  by (simp_all add: g_object_get_data_def g_object_ref_def g_object_unref_def on_obj_def nth_list_update')

lemma get_data_shape: "i < length ui \<Longrightarrow> g_object_get_data i key ui = fst (snd (snd (shape ui ! i))) key"
  by (simp add: g_object_get_data_def shape_def fixed_def)

end
