(* ===== verification/Gtk_Chooser.thy ===== *)
theory Gtk_Chooser
  imports Gtk_Main Gtk_Widgets
begin

text \<open>
  \<^verbatim>\<open>frontends/gtk/chooser.c\<close> and \<^verbatim>\<open>on_activate\<close> of \<^verbatim>\<open>main.c\<close>: listing the devices, probing unknown hosts for an
  agent, scanning an agent by hand, reading the settings, and opening a session for a row.  Work on
  background threads is an operation of its own, like the idle source that takes its result over.
  Labels and messages are constructors, their texts are left out.
\<close>

section \<open>Listing devices\<close>

definition DEFAULT_DISCOVERY_PORT :: int where "DEFAULT_DISCOVERY_PORT = 8888"
definition SIZE_VALUES :: "int list" where "SIZE_VALUES = [0, 1920, 1280, 1024, 800]"
definition BITRATE_VALUES :: "int list" where
  "BITRATE_VALUES = [2000000, 4000000, 8000000, 16000000, 24000000, 32000000, 48000000]"

definition dev_is_wireless :: "string \<Rightarrow> bool" where
  "dev_is_wireless ser \<longleftrightarrow> CHR '':'' \<in> set ser"

datatype conn_kind = EmulatorAgent | UsbAgent | LanAgent | Lan | Emulator | Usb

definition conn_label :: "app \<Rightarrow> string \<Rightarrow> conn_kind" where
  "conn_label a ser =
     (case agent_devs a ser of
        Some ad \<Rightarrow>
          if ad_kind ad = ''emulator'' then EmulatorAgent
          else if ad_kind ad = ''USB'' then UsbAgent
          else LanAgent
      | None \<Rightarrow>
          if dev_is_wireless ser then Lan
          else if take 9 ser = ''emulator-'' then Emulator
          else Usb)"

text \<open>\<^verbatim>\<open>fgets\<close> into a buffer of \<open>Suc n\<close> bytes: up to and including the next line feed, at most \<open>n\<close> bytes.\<close>

function fgets_lines :: "nat \<Rightarrow> string \<Rightarrow> string list" where
  "fgets_lines n s =
     (if s = [] \<or> n = 0 then []
      else
        let t = takeWhile (\<lambda>c. c \<noteq> LF) s; l = take n (if length t < length s then t @ [LF] else t)
        in l # fgets_lines n (drop (length l) s))"
  by pat_completeness auto
termination
proof (relation "measure (\<lambda>(n, s). length s)", goal_cases)
  case (2 n s t l)
  then have "l \<noteq> []" by (cases s) auto
  with 2 show ?case by auto
qed simp

text \<open>\<open>out\<close> is what the command prints, \<^term>\<open>None\<close> if it cannot be run.  The lines are taken apart like in the
  agent, with the same formats and buffer sizes.\<close>

definition list_adb_devices :: "proc \<Rightarrow> string option \<Rightarrow> dev list" where
  "list_adb_devices p out =
     (if \<not> adb_available p then []
      else (case out of
              None \<Rightarrow> []
            | Some text \<Rightarrow> List.map_filter parse_dev (drop 1 (fgets_lines 511 text))))"

section \<open>Probing for agents\<close>

text \<open>The host in front of the last colon, if it fits \<^verbatim>\<open>host[128]\<close>.\<close>

definition serial_host :: "string \<Rightarrow> string option" where
  "serial_host ser =
     (case strrchr ser (CHR '':'') of
        None \<Rightarrow> None
      | Some n \<Rightarrow> if n = 0 \<or> 128 \<le> n then None else Some (take n ser))"

text \<open>The hosts a probe is started for, in order.\<close>

fun auto_probe_agents :: "dev list \<Rightarrow> app \<Rightarrow> string list \<times> app" where
  "auto_probe_agents [] a = ([], a)"
| "auto_probe_agents (d # ds) a =
     (if \<not> dev_is_wireless (d_serial d) then auto_probe_agents ds a
      else if agent_devs a (d_serial d) \<noteq> None then auto_probe_agents ds a
      else (case serial_host (d_serial d) of
              None \<Rightarrow> auto_probe_agents ds a
            | Some host \<Rightarrow>
                if host \<in> probed_hosts a then auto_probe_agents ds a
                else
                  (let (hs, a) = auto_probe_agents ds (a\<lparr>probed_hosts := insert host (probed_hosts a)\<rparr>)
                   in (host # hs, a))))"

text \<open>The rows (a note when there are none, else serial, model and label of each device), the hosts to probe,
  and the application.\<close>

datatype row = NoDevice | NoAdb | DeviceRow string string conn_kind

definition populate_devices :: "proc \<Rightarrow> string option \<Rightarrow> app \<Rightarrow> row list \<times> string list \<times> app" where
  "populate_devices p out a =
     (let devs = list_adb_devices p out;
          rows = (if devs = [] then [if adb_available p then NoDevice else NoAdb]
                  else map (\<lambda>d. DeviceRow (d_serial d) (d_model d) (conn_label a (d_serial d))) devs);
          (hosts, a) = auto_probe_agents devs a
      in (rows, hosts, a))"

definition register_devs :: "agent_dev list \<Rightarrow> app \<Rightarrow> app" where
  "register_devs ads a = a\<lparr>agent_devs := fold (\<lambda>ad m. m(ad_serial ad \<mapsto> ad)) ads (agent_devs a)\<rparr>"

definition auto_probe_thread :: "env \<Rightarrow> string \<Rightarrow> os \<Rightarrow> (agent_dev list option \<times> os) option" where
  "auto_probe_thread E host w = do {
     (r, w) \<leftarrow> agent_scan_port E host DEFAULT_DISCOVERY_PORT w;
     Some (case r of Inl _ \<Rightarrow> None | Inr devs \<Rightarrow> Some devs, w)
   }"

section \<open>Settings and rows\<close>

text \<open>A setting is read if its widget exists.\<close>

definition setting :: "nat option \<Rightarrow> (nat \<Rightarrow> 'v option) \<Rightarrow> ('v \<Rightarrow> app \<Rightarrow> app) \<Rightarrow> app \<Rightarrow> app option" where
  "setting w get f a = (case w of None \<Rightarrow> Some a | Some i \<Rightarrow> map_option (\<lambda>v. f v a) (get i))"

definition read_settings :: "('t, 'h) ui \<Rightarrow> app \<Rightarrow> app option" where
  "read_settings ui a = do {
     a \<leftarrow> setting (dd_size a) (\<lambda>i. gtk_drop_down_get_selected i ui) (\<lambda>n a. a\<lparr>sel_max_size := SIZE_VALUES ! n\<rparr>) a;
     a \<leftarrow> setting (dd_bitrate a) (\<lambda>i. gtk_drop_down_get_selected i ui) (\<lambda>n a. a\<lparr>sel_bit_rate := BITRATE_VALUES ! n\<rparr>) a;
     a \<leftarrow> setting (cb_audio a) (\<lambda>i. gtk_check_button_get_active i ui) (\<lambda>b a. a\<lparr>sel_audio := b\<rparr>) a;
     a \<leftarrow> setting (cb_control a) (\<lambda>i. gtk_check_button_get_active i ui) (\<lambda>b a. a\<lparr>sel_control := b\<rparr>) a;
     setting (cb_fps a) (\<lambda>i. gtk_check_button_get_active i ui) (\<lambda>b a. a\<lparr>sel_show_fps := b\<rparr>) a
   }"

text \<open>The data \<^verbatim>\<open>serial\<close> of a row; a note has none, and looking \<^verbatim>\<open>NULL\<close> up in the registry hashes the
  string it points to.\<close>

fun row_serial :: "row \<Rightarrow> string option" where
  "row_serial (DeviceRow ser model label) = Some ser"
| "row_serial NoDevice = None"
| "row_serial NoAdb = None"

definition on_row_activated ::
    "(nat \<Rightarrow> bool) \<Rightarrow> int \<Rightarrow> int \<Rightarrow> ('t, 'h) ui \<Rightarrow> row \<Rightarrow> app \<Rightarrow> (app \<times> int) option" where
  "on_row_activated mem pid scid ui row a = do {
     a \<leftarrow> read_settings ui a;
     ser \<leftarrow> row_serial row;
     Some (case agent_devs a ser of
        Some ad \<Rightarrow> session_new mem pid scid (Some ser) (if 0 < ad_stream_base ad then Some (ad_host ad) else None) a
      | None \<Rightarrow>
          if dev_is_wireless ser then
            (case serial_host ser of
               Some host \<Rightarrow> session_new mem pid scid (Some ser) (Some host) a
             | None \<Rightarrow> session_new mem pid scid (Some ser) None a)
          else session_new mem pid scid (Some ser) None a)
   }"

section \<open>Scanning an agent by hand\<close>

text \<open>\<^verbatim>\<open>adb_run\<close> of \<^verbatim>\<open>chooser.c\<close>: \<^verbatim>\<open>g_spawn_async\<close>, then the loop of the core's \<^verbatim>\<open>adb_run_ex\<close>.\<close>

definition chooser_adb_run :: "env \<Rightarrow> string list \<Rightarrow> nat \<Rightarrow> os \<Rightarrow> bool \<times> os" where
  "chooser_adb_run E argv timeout_ms w =
     (let (p, w) = sys_spawn E argv w in
      case p of
        None \<Rightarrow> (False, w)
      | Some pid \<Rightarrow> (let (r, w) = adb_wait E pid 0 timeout_ms w in (r = RC_OK, w)))"

fun connect_devs :: "env \<Rightarrow> proc \<Rightarrow> agent_dev list \<Rightarrow> os \<Rightarrow> agent_dev list \<times> os" where
  "connect_devs E p [] w = ([], w)"
| "connect_devs E p (ad # ads) w =
     (let (c, w) = chooser_adb_run E [adb_program p, ''connect'', ad_serial ad] 10000 w;
          (ok, w) = (if c then chooser_adb_run E [adb_program p, ''-s'', ad_serial ad, ''get-state''] 5000 w
                     else (False, w));
          (oks, w) = connect_devs E p ads w
      in (if ok then ad # oks else oks, w))"

datatype scan_msg =
    MsgScanFailed scan_error
  | MsgConnected nat nat
  | MsgNoAdb nat
  | MsgNoneConnected nat

definition agent_scan_thread ::
    "env \<Rightarrow> proc \<Rightarrow> string \<Rightarrow> int \<Rightarrow> os \<Rightarrow> ((agent_dev list \<times> scan_msg) \<times> os) option" where
  "agent_scan_thread E p ip port w = do {
     (r, w) \<leftarrow> agent_scan_port E ip port w;
     (case r of
        Inl e \<Rightarrow> Some (([], MsgScanFailed e), w)
      | Inr devs \<Rightarrow>
          let (ok_devs, w) = connect_devs E p devs w; total = length devs; ok = length ok_devs
          in Some ((ok_devs, if ok \<noteq> 0 then MsgConnected ok total
                             else if \<not> adb_available p then MsgNoAdb total
                             else MsgNoneConnected total), w))
   }"

section \<open>A session through an agent\<close>

text \<open>The registry holds every device that was registered under its serial.\<close>

lemma register_lookup:
  assumes "inj_on ad_serial (set ads)" and "ad \<in> set ads"
  shows "fold (\<lambda>ad m. m(ad_serial ad \<mapsto> ad)) ads m (ad_serial ad) = Some ad"
  using assms
proof (induction ads arbitrary: m rule: rev_induct)
  case (snoc x xs)
  show ?case
  proof (cases "ad_serial x = ad_serial ad")
    case True
    then have "x = ad" using snoc.prems by (auto simp: inj_on_def)
    then show ?thesis by simp
  next
    case False
    then have "ad \<in> set xs" using snoc.prems(2) by auto
    with snoc False show ?thesis by (auto simp: inj_on_def)
  qed
qed simp

text \<open>The public ports of the adb relays, the streams and the discovery are different.\<close>

definition ports_apart :: "agent_cfg \<Rightarrow> bool" where
  "ports_apart c \<longleftrightarrow>
     (g_adb_base c + int MAX_SLOTS \<le> STREAM_BASE \<or> stream_port MAX_SLOTS 0 \<le> g_adb_base c) \<and>
     (g_discovery_port c < STREAM_BASE \<or> stream_port MAX_SLOTS 0 \<le> g_discovery_port c)"

lemma stream_port_range:
  "i < MAX_SLOTS \<Longrightarrow> k < STREAM_COUNT \<Longrightarrow> STREAM_BASE \<le> stream_port i k \<and> stream_port i k < stream_port MAX_SLOTS 0"
  by (auto simp: stream_port_def STREAM_COUNT_def MAX_SLOTS_def)

lemma stream_port_unique:
  assumes "k < STREAM_COUNT" "k' < STREAM_COUNT" "stream_port i k = stream_port j k'"
  shows "i = j \<and> k = k'"
proof -
  have "i * 4 + k = j * 4 + k'" "k < 4" "k' < 4" using assms by (auto simp: stream_port_def STREAM_COUNT_def)
  then show ?thesis by presburger
qed

text \<open>Everything behind a stream port of slot \<open>i\<close>: the listener, and the forwards of its local port.\<close>

lemma stream_port_leads:
  assumes inv: "agent_inv c g" and pa: "ports_apart c" and i: "i < length (g_slots g)" and k: "k < STREAM_COUNT"
  shows "l \<in> set (g_ls g) \<Longrightarrow> l_pub_port l = stream_port i k \<Longrightarrow> \<not> l_is_discovery l \<and> l_group l = Some (Group i k) \<and>
     l_dst_host l = ''127.0.0.1'' \<and> l_dst_port l = stream_port i k + LOC_OFFSET"
    and "f \<in> set (g_fwds g) \<Longrightarrow> f_loc_port f = stream_port i k + LOC_OFFSET \<Longrightarrow> f_serial f = sl_serial (g_slots g ! i)"
proof -
  have m: "length (g_slots g) \<le> MAX_SLOTS" using inv by (simp add: agent_inv_def)
  with i have im: "i < MAX_SLOTS" by simp
  note r = stream_port_range [OF im k]
  have adb: "sl_adb_port (g_slots g ! j) = g_adb_base c + int j" "g_adb_base c + int j \<noteq> stream_port i k"
    if "j < length (g_slots g)" for j
  proof -
    show "sl_adb_port (g_slots g ! j) = g_adb_base c + int j" using inv that by (auto simp: agent_inv_def slot_ok_def)
    show "g_adb_base c + int j \<noteq> stream_port i k" using pa r that m by (auto simp: ports_apart_def)
  qed
  show "\<not> l_is_discovery l \<and> l_group l = Some (Group i k) \<and> l_dst_host l = ''127.0.0.1'' \<and>
      l_dst_port l = stream_port i k + LOC_OFFSET" if l: "l \<in> set (g_ls g)" "l_pub_port l = stream_port i k"
  proof -
    have "listener_ok c (g_slots g) l" using inv l(1) by (simp add: agent_inv_def)
    moreover have "l_pub_port l \<noteq> g_discovery_port c" using pa r l(2) by (auto simp: ports_apart_def)
    ultimately obtain j where j: "j < length (g_slots g)" "adb_listener (g_slots g ! j) l \<or> stream_listener j l"
      by (auto simp: listener_ok_def)
    have "\<not> adb_listener (g_slots g ! j) l" using adb [OF j(1)] l(2) by (auto simp: adb_listener_def)
    with j(2) obtain k' where k': "k' < STREAM_COUNT" "l_group l = Some (Group j k')" "l_pub_port l = stream_port j k'"
      "l_dst_host l = ''127.0.0.1''" "l_dst_port l = stream_port j k' + LOC_OFFSET" "\<not> l_is_discovery l"
      by (auto simp: stream_listener_def)
    with stream_port_unique [OF k'(1) k, of j i] l(2) show ?thesis by simp
  qed
  show "f_serial f = sl_serial (g_slots g ! i)" if f: "f \<in> set (g_fwds g)" "f_loc_port f = stream_port i k + LOC_OFFSET"
  proof -
    have "fwd_ok c (map sl_serial (g_slots g)) f" using inv f(1) by (simp add: agent_inv_def)
    then obtain j where j: "j < length (map sl_serial (g_slots g))" "f_serial f = map sl_serial (g_slots g) ! j"
      "f_loc_port f = g_adb_base c + int j + LOC_OFFSET \<or> (\<exists>k < STREAM_COUNT. f_loc_port f = stream_port j k + LOC_OFFSET)"
      unfolding fwd_ok_def by blast
    have "j < length (g_slots g)" using j(1) by simp
    from adb(2) [OF this] obtain k' where "k' < STREAM_COUNT" "stream_port j k' = stream_port i k" using j(3) f(2) by auto
    with stream_port_unique [OF this(1) k this(2)] j(1,2) show ?thesis by simp
  qed
qed


lemma dev_of_inj:
  assumes inv: "agent_inv c g" and p: "ports_ok c"
  shows "inj_on ad_serial (set (map (dev_of ip) (filter listed (g_slots g))))"
proof (rule inj_onI)
  fix x y assume "x \<in> set (map (dev_of ip) (filter listed (g_slots g)))" "y \<in> set (map (dev_of ip) (filter listed (g_slots g)))"
  then obtain q q' where q: "q \<in> set (g_slots g)" "x = dev_of ip q" "q' \<in> set (g_slots g)" "y = dev_of ip q'" by auto
  assume "ad_serial x = ad_serial y"
  then have e: "show_int (sl_adb_port q) = show_int (sl_adb_port q')" by (simp add: q dev_of_def)
  obtain i j where ij: "i < length (g_slots g)" "g_slots g ! i = q" "j < length (g_slots g)" "g_slots g ! j = q'"
    using q by (auto simp: in_set_conv_nth)
  have ports: "sl_adb_port q = g_adb_base c + int i" "sl_adb_port q' = g_adb_base c + int j"
    using inv ij by (auto simp: agent_inv_def slot_ok_def)
  moreover have "0 < g_adb_base c" using p by (simp add: ports_ok_def)
  ultimately have "sl_adb_port q = sl_adb_port q'"
    using arg_cong [OF e, of atoi] by simp
  with ports ij show "x = y" by (simp add: q)
qed

text \<open>What reading the settings leaves alone.\<close>

lemma setting_frame:
  assumes "setting w get f a = Some a'" and "\<And>v. P (f v a) = P a"
  shows "P a' = P a"
  using assms by (auto simp: setting_def split: option.splits)

lemma read_settings_frame:
  assumes "read_settings ui a = Some a'"
    and "\<And>a x1 x2. P (a\<lparr>sel_max_size := x1\<rparr>) = P a \<and> P (a\<lparr>sel_bit_rate := x1\<rparr>) = P a \<and> P (a\<lparr>sel_audio := x2\<rparr>) = P a \<and>
       P (a\<lparr>sel_control := x2\<rparr>) = P a \<and> P (a\<lparr>sel_show_fps := x2\<rparr>) = P a"
  shows "P a' = P a"
proof -
  from assms(1) obtain a1 a2 a3 a4 where s:
    "setting (dd_size a) (\<lambda>i. gtk_drop_down_get_selected i ui) (\<lambda>n a. a\<lparr>sel_max_size := SIZE_VALUES ! n\<rparr>) a = Some a1"
    "setting (dd_bitrate a1) (\<lambda>i. gtk_drop_down_get_selected i ui) (\<lambda>n a. a\<lparr>sel_bit_rate := BITRATE_VALUES ! n\<rparr>) a1 = Some a2"
    "setting (cb_audio a2) (\<lambda>i. gtk_check_button_get_active i ui) (\<lambda>b a. a\<lparr>sel_audio := b\<rparr>) a2 = Some a3"
    "setting (cb_control a3) (\<lambda>i. gtk_check_button_get_active i ui) (\<lambda>b a. a\<lparr>sel_control := b\<rparr>) a3 = Some a4"
    "setting (cb_fps a4) (\<lambda>i. gtk_check_button_get_active i ui) (\<lambda>b a. a\<lparr>sel_show_fps := b\<rparr>) a4 = Some a'"
    by (auto simp: read_settings_def bind_eq_Some_conv)
  show ?thesis
    using setting_frame [OF s(1), of P] setting_frame [OF s(2), of P] setting_frame [OF s(3), of P]
      setting_frame [OF s(4), of P] setting_frame [OF s(5), of P] assms(2) by metis
qed

lemma read_settings_sel:
  assumes "read_settings ui a = Some a'"
  shows "agent_devs a' = agent_devs a" "sessions a' = sessions a" "base a' = base a" "probed_hosts a' = probed_hosts a"
    "dd_size a' = dd_size a" "dd_bitrate a' = dd_bitrate a" "cb_audio a' = cb_audio a" "cb_control a' = cb_control a"
    "cb_fps a' = cb_fps a"
  by (rule read_settings_frame [OF assms], simp)+

text \<open>Whether the settings can be read does not depend on the registry.\<close>

lemma setting_register:
  assumes "\<And>v. f v (register_devs ads a) = register_devs ads (f v a)"
  shows "setting w get f (register_devs ads a) = map_option (register_devs ads) (setting w get f a)"
  using assms by (simp add: setting_def option.map_comp o_def split: option.split)

lemma register_devs_fields [simp]:
  "dd_size (register_devs ads a) = dd_size a" "dd_bitrate (register_devs ads a) = dd_bitrate a"
  "cb_audio (register_devs ads a) = cb_audio a" "cb_control (register_devs ads a) = cb_control a"
  "cb_fps (register_devs ads a) = cb_fps a"
  by (simp_all add: register_devs_def)

lemma read_settings_register:
  "read_settings ui (register_devs ads a) = map_option (register_devs ads) (read_settings ui a)"
proof -
  have step: "setting w get f (register_devs ads a) \<bind> g = map_option (register_devs ads) (setting w get f a \<bind> h)"
    if "\<And>v. f v (register_devs ads a) = register_devs ads (f v a)"
      and "\<And>a. g (register_devs ads a) = map_option (register_devs ads) (h a)"
    for w get f a g and h :: "app \<Rightarrow> app option"
    unfolding setting_register [of f, OF that(1)] using that(2) by (cases "setting w get f a") auto
  show ?thesis
    unfolding read_settings_def
    by (rule step setting_register | simp only: register_devs_fields | simp add: register_devs_def)+
qed

text \<open>A session is opened when the client can be allocated.\<close>

lemma session_new_opens:
  assumes "session_new mem pid scid ser tcp a = (a', scid')" and "mem 0"
  shows "\<exists>s. sessions a' = s # sessions a \<and> s_cfg s = s_cfg (choose_ports a ser (session_config a ser tcp)) \<and>
     tcp_owned s = tcp_owned (choose_ports a ser (session_config a ser tcp)) \<and>
     stream_k s = stream_k (choose_ports a ser (session_config a ser tcp)) \<and> serial_owned s = ser \<and>
     serial (s_cfg s) = ser"
proof -
  let ?s = "choose_ports a ser (session_config a ser tcp)"
  obtain c0 scid2 where cr: "rc_client_create mem pid scid (Some (s_cfg ?s)) = (Some c0, scid2)"
    using assms(2) by (simp add: rc_client_create_def)
  let ?c = "rc_client_set_status_callback True (rc_client_set_frame_callback True c0)"
  let ?n = "build_view (?s\<lparr>s_client := Some ?c, title_base := title_text (session_tag ser (tcp_owned ?s)) CONNECTING,
      title_timer := True\<rparr>)\<lparr>start_thread := Starting\<rparr>"
  have "sessions a' = ?n # sessions a" using assms(1) cr by (auto simp: session_new_def Let_def)
  moreover have "s_cfg ?n = s_cfg ?s" "tcp_owned ?n = tcp_owned ?s" "stream_k ?n = stream_k ?s" "serial_owned ?n = ser"
    using choose_ports_spec(2) [of a ser tcp] by (simp_all add: build_view_def Let_def)
  moreover have "serial (s_cfg ?s) = ser"
    by (auto simp: choose_ports_def session_config_def new_session_def Let_def split: option.split)
  ultimately show ?thesis by metis
qed

lemma k_used_register [simp]: "k_used (register_devs ads a) ser k = k_used a ser k"
  by (simp add: k_used_def register_devs_def)

text \<open>The ports of a session opened for an agent's device.\<close>

lemma choose_ports_agent:
  fixes a :: app and ser host :: string
  defines "s \<equiv> choose_ports a (Some ser) (session_config a (Some ser) (Some host))"
  assumes d: "agent_devs a ser = Some ad" "0 < ad_stream_base ad" and h: "CHR '':'' \<notin> set host"
  shows "(tcp_owned s = None \<and> transport (s_cfg s) = RC_TRANSPORT_USB \<and> tcp_addr (s_cfg s) = None \<and> (\<forall>k < STREAM_COUNT. k_used a (Some ser) (int k))) \<or>
     (\<exists>k < STREAM_COUNT. \<not> k_used a (Some ser) (int k) \<and> stream_k s = int k \<and> transport (s_cfg s) = RC_TRANSPORT_TCP \<and>
        tcp_addr (s_cfg s) = Some (host @ CHR '':'' # show_int (ad_stream_base ad + int k)) \<and>
        tcp_device_port (s_cfg s) = STREAM_BASE + int k)"
  using alloc_stream_k_cases [of a "Some ser"]
proof (elim disjE conjE)
  assume "alloc_stream_k a (Some ser) = -1" and u: "\<forall>k. 0 \<le> k \<and> k < int STREAM_COUNT \<longrightarrow> k_used a (Some ser) k"
  then show ?thesis using d h by (auto simp: s_def choose_ports_def session_config_def Let_def)
next
  assume k: "0 \<le> alloc_stream_k a (Some ser)" "alloc_stream_k a (Some ser) < int STREAM_COUNT"
    "\<not> k_used a (Some ser) (alloc_stream_k a (Some ser))"
  let ?k = "nat (alloc_stream_k a (Some ser))"
  have e: "int ?k = alloc_stream_k a (Some ser)" "?k < STREAM_COUNT" using k by auto
  have "stream_k s = int ?k" "transport (s_cfg s) = RC_TRANSPORT_TCP"
    "tcp_addr (s_cfg s) = Some (host @ CHR '':'' # show_int (ad_stream_base ad + int ?k))"
    "tcp_device_port (s_cfg s) = STREAM_BASE + int ?k"
    using d h k by (auto simp: s_def choose_ports_def session_config_def Let_def RC_LAN_BASE_PORT_def STREAM_BASE_def)
  with e k(3) show ?thesis by metis
qed

text \<open>
  C8: a session through an agent reaches its device.  Let the front end register what a scan of the agent
  at \<open>ip\<close> returned, and the user activate the row of one of these devices.  Assume that the agent satisfies
  its invariant, with public ports below 65536 and its adb and discovery ports outside the range of the
  stream ports; that \<open>ip\<close> is not empty, shorter than 64 characters and without a colon; that the settings
  widgets of the chooser are there, the client can be allocated, and the configuration of the process is
  the one of a start without a TCP address (otherwise the chooser is not shown).  Then the handler returns
  and opens a session with the serial of the device, and either it goes through the adb tunnel, with no
  TCP address and with the USB transport (the agent relays no streams for the device, or all its stream ports are
  taken by live sessions), or it has a free stream number \<open>k\<close>: the core will connect to stream port \<open>k\<close>
  of that slot, every listener of the agent on this port relays to the local end of the forward, every
  forward with this local end belongs to this device, and the server is told to listen at the device
  end of the forward.
\<close>

theorem agent_session_path:
  assumes "agent_inv c g" and "ports_ok c" and "ports_apart c" and "i < length (g_slots g)" and "listed (g_slots g ! i)"
    and "ip \<noteq> []" and "CHR '':'' \<notin> set ip" and "length ip < 64" and "mem 0"
    and "transport (base a) = RC_TRANSPORT_USB" and "tcp_addr (base a) = None" and "read_settings ui a \<noteq> None"
  shows "\<exists>a' scid' s. on_row_activated mem pid scid ui
       (DeviceRow (ip @ '':'' @ show_int (sl_adb_port (g_slots g ! i))) model label)
       (register_devs (map (dev_of ip) (filter listed (g_slots g))) a) = Some (a', scid') \<and>
     sessions a' = s # sessions a \<and> serial_owned s = Some (ip @ '':'' @ show_int (sl_adb_port (g_slots g ! i))) \<and>
     serial (s_cfg s) = serial_owned s \<and>
     ((tcp_owned s = None \<and> transport (s_cfg s) = RC_TRANSPORT_USB \<and> tcp_addr (s_cfg s) = None \<and>
        (sl_stream_base (g_slots g ! i) = 0 \<or> (\<forall>k < STREAM_COUNT. k_used a (serial_owned s) (int k)))) \<or>
      (\<exists>k < STREAM_COUNT. \<not> k_used a (serial_owned s) (int k) \<and> stream_k s = int k \<and>
         transport (s_cfg s) = RC_TRANSPORT_TCP \<and>
         parse_addr (tcp_addr (s_cfg s)) 128 = Inr (ip, stream_port i k) \<and>
         (\<forall>l \<in> set (g_ls g). l_pub_port l = stream_port i k \<longrightarrow> \<not> l_is_discovery l \<and> l_group l = Some (Group i k) \<and>
            l_dst_host l = ''127.0.0.1'' \<and> l_dst_port l = stream_port i k + LOC_OFFSET) \<and>
         (\<forall>f \<in> set (g_fwds g). f_loc_port f = stream_port i k + LOC_OFFSET \<longrightarrow> f_serial f = sl_serial (g_slots g ! i)) \<and>
         tcp_device_port (s_cfg s) = STREAM_BASE + int k))"
proof -
  let ?q = "g_slots g ! i" and ?ads = "map (dev_of ip) (filter listed (g_slots g))"
  let ?ser = "ip @ '':'' @ show_int (sl_adb_port ?q)"
  let ?act = "on_row_activated mem pid scid ui (DeviceRow ?ser model label) (register_devs ?ads a)"
  obtain a1 where a1: "read_settings ui (register_devs ?ads a) = Some a1"
    using assms(12) by (auto simp: read_settings_register)
  note a1_sel = read_settings_sel [OF a1]
  have "dev_of ip ?q \<in> set ?ads" using assms(4,5) by auto
  from register_lookup [OF dev_of_inj [OF assms(1,2)] this]
  have d: "agent_devs a1 ?ser = Some (dev_of ip ?q)" by (simp add: a1_sel register_devs_def dev_of_def)
  have sess: "sessions a1 = sessions a" "k_used a1 ser k = k_used a ser k" for ser k
    by (simp_all add: a1_sel k_used_def register_devs_def)
  have usb: "transport (base a1) = RC_TRANSPORT_USB" "tcp_addr (base a1) = None"
    using assms(10,11) by (simp_all add: a1_sel register_devs_def)
  have base: "sl_stream_base ?q = 0 \<or> sl_stream_base ?q = stream_port i 0"
    using assms(1,4) by (auto simp: agent_inv_def slot_ok_def)
  have pos: "0 < stream_port i k" for k by (simp only: stream_port_def STREAM_BASE_def)
  show ?thesis
  proof (cases "sl_stream_base ?q = 0")
    case True
    obtain a' scid' where new: "session_new mem pid scid (Some ?ser) None a1 = (a', scid')" by fastforce
    then have "?act = Some (a', scid')" using True d a1 by (simp add: on_row_activated_def dev_of_def)
    with session_new_opens [OF new assms(9)] True sess usb show ?thesis
      by (auto simp: choose_ports_def session_config_def new_session_def)
  next
    case False
    with base pos have b: "sl_stream_base ?q = stream_port i 0" "0 < sl_stream_base ?q" by auto
    obtain a' scid' where new: "session_new mem pid scid (Some ?ser) (Some ip) a1 = (a', scid')" by fastforce
    then have act: "?act = Some (a', scid')" using b(2) d a1 by (simp add: on_row_activated_def dev_of_def)
    from session_new_opens [OF new assms(9)] obtain s where s: "sessions a' = s # sessions a"
      "s_cfg s = s_cfg (choose_ports a1 (Some ?ser) (session_config a1 (Some ?ser) (Some ip)))"
      "tcp_owned s = tcp_owned (choose_ports a1 (Some ?ser) (session_config a1 (Some ?ser) (Some ip)))"
      "stream_k s = stream_k (choose_ports a1 (Some ?ser) (session_config a1 (Some ?ser) (Some ip)))"
      "serial_owned s = Some ?ser" "serial (s_cfg s) = Some ?ser" using sess(1) by auto
    have db: "0 < ad_stream_base (dev_of ip ?q)" "ad_stream_base (dev_of ip ?q) + int k = stream_port i k" for k
      using b by (simp_all add: dev_of_def stream_port_def)
    from choose_ports_agent [OF d db(1) assms(7)]
    show ?thesis
    proof (elim disjE exE conjE, goal_cases)
      case 1
      then show ?thesis using act s sess by auto
    next
      case (2 k)
      have "parse_addr (tcp_addr (s_cfg s)) 128 = Inr (ip, stream_port i k)"
        unfolding s(2) 2(5) db(2) by (rule parse_addr_host_port) (use assms(6,8) pos in auto)
      with 2 act s sess stream_port_leads [OF assms(1,3,4) 2(1)] show ?thesis
        by (intro exI [of _ a'] exI [of _ scid'] exI [of _ s]) auto
    qed
  qed
qed


theorem agent_session_path_witness:
  "\<exists>a' scid' s k. on_row_activated (\<lambda>_. True) 1 0 ([] :: (unit, unit) ui) (DeviceRow ''10.0.0.2:15553'' ''Pixel'' Lan)
       (register_devs [dev_of ''10.0.0.2'' demo_slot] demo_app) = Some (a', scid') \<and> sessions a' = [s] \<and> k < STREAM_COUNT \<and>
     parse_addr (tcp_addr (s_cfg s)) 128 = Inr (''10.0.0.2'', stream_port 0 k) \<and>
     tcp_device_port (s_cfg s) = STREAM_BASE + int k"
proof -
  have g: "g_slots demo_slot_agent = [demo_slot]" by (simp add: demo_slot_agent_def)
  have q: "listed demo_slot" "sl_stream_base demo_slot \<noteq> 0" by (simp_all add: demo_slot_def listed_def)
  have ser: "''10.0.0.2'' @ '':'' @ show_int (sl_adb_port demo_slot) = ''10.0.0.2:15553''"
    by (simp add: demo_slot_def show_int_def show_nat.simps digit_char_def char_of_def bit_Suc_0_iff)
  have p: "ports_ok demo_agent_cfg" "ports_apart demo_agent_cfg"
    by (simp_all add: ports_ok_def ports_apart_def demo_agent_cfg_def int32_def MAX_SLOTS_def STREAM_BASE_def)
  have set_ok: "read_settings ([] :: (unit, unit) ui) demo_app \<noteq> None"
    by (simp add: read_settings_def setting_def demo_app_def)
  have u: "\<not> k_used demo_app ser k" for ser k by (simp add: k_used_def demo_app_def)
  have e: "sessions demo_app = []" "transport (base demo_app) = RC_TRANSPORT_USB" "tcp_addr (base demo_app) = None"
    by (simp_all add: demo_app_def demo_config_def)
  have z: "0 < STREAM_COUNT" by (simp add: STREAM_COUNT_def)
  show ?thesis
    using agent_session_path [OF demo_slot_agent_inv p, of 0 "''10.0.0.2''" "\<lambda>_. True" demo_app "[] :: (unit, unit) ui" 1 0 "''Pixel''" Lan]
      q set_ok e u z by (simp add: g ser del: not_None_eq append_Cons append_Nil) blast
qed

end
