(* ===== verification/Gtk_Handlers.thy ===== *)
theory Gtk_Handlers
  imports Gtk_Redraw Gtk_Input Gtk_Chooser
begin

text \<open>
  All handlers of a session together: the decoder thread, drawing, the timers, input, the start thread and
  closing.  Each keeps the session well-formed, and the handlers are steps of the application
  as \<^verbatim>\<open>Gtk_Session\<close> has it.
\<close>

section \<open>Well-formed sessions\<close>

definition session_typed :: "session \<Rightarrow> bool" where
  "session_typed st \<longleftrightarrow>
     length (plane st) = 3 \<and> length (pcap st) = 3 \<and> length (pstride st) = 3 \<and>
     length (tex_w st) = 3 \<and> length (tex_h st) = 3 \<and> length (tex_ifmt st) = 3 \<and> length (keys_down st) = 32 \<and>
     (torn st \<longrightarrow> \<not> alive st \<and> \<not> has_gl st \<and> s_client st = None \<and> plane st = [None, None, None]) \<and>
     (\<not> torn st \<longrightarrow> (\<forall>i < 3. length (plane_bytes st i) = pcap st ! i))"

lemma session_typed_wf: "\<not> torn st \<Longrightarrow> session_typed st \<longleftrightarrow> render_wf st \<and> length (keys_down st) = 32"
  by (auto simp: session_typed_def render_wf_def)

text \<open>What happens to a session; the decoder delivers frames only while its client exists.\<close>

inductive event_step :: "session \<times> os \<Rightarrow> session \<times> os \<Rightarrow> bool" where
  frame: "\<not> torn st \<Longrightarrow> frame_ok f \<Longrightarrow> render_on_frame ra f st = Some (srcs, st') \<Longrightarrow> event_step (st, w) (st', w)"
| trigger: "trigger_render st = (q, st') \<Longrightarrow> event_step (st, w) (st', w)"
| draw: "on_render now ww wh st = (ret, calls, st') \<Longrightarrow> event_step (st, w) (st', w)"
| resize: "on_resize width height st = st' \<Longrightarrow> event_step (st, w) (st', w)"
| fps: "fps_tick st = (go, t, st') \<Longrightarrow> event_step (st, w) (st', w)"
| title: "title_tick st = (go, t, st') \<Longrightarrow> event_step (st, w) (st', w)"
| input: "on_input G rnd ww wh e st w = Some (st', w') \<Longrightarrow> event_step (st, w) (st', w')"

inductive handler_step :: "session \<times> os \<Rightarrow> session \<times> os \<Rightarrow> bool" where
  event: "event_step x y \<Longrightarrow> handler_step x y"
| realize: "on_realize GE err es st g = (st', g') \<Longrightarrow> handler_step (st, w) (st', w)"
| unrealize: "on_unrealize err st g = (st', g') \<Longrightarrow> handler_step (st, w) (st', w)"

inductive gtk_session_step :: "session \<times> os \<Rightarrow> session \<times> os \<Rightarrow> bool" where
  handler: "handler_step x y \<Longrightarrow> gtk_session_step x y"
| start: "run_start_thread E FF apple st w = Some (st', w') \<Longrightarrow> gtk_session_step (st, w) (st', w')"
| close: "session_teardown E FF apple st w = Some (st', w') \<Longrightarrow> gtk_session_step (st, w) (st', w')"

section \<open>What the handlers leave alone\<close>

text \<open>Everything but the state of the input.\<close>

definition input_only :: "session \<Rightarrow> session \<Rightarrow> bool" where
  "input_only st st' \<longleftrightarrow> (\<exists>bs x y ks. st' = st\<lparr>mouse_buttons := bs, dev_x := x, dev_y := y, keys_down := ks\<rparr> \<and>
     length ks = length (keys_down st))"

lemma input_onlyI:
  "length (keys_down st') = length (keys_down st) \<Longrightarrow>
   st' = st\<lparr>mouse_buttons := mouse_buttons st', dev_x := dev_x st', dev_y := dev_y st', keys_down := keys_down st'\<rparr> \<Longrightarrow>
   input_only st st'"
  unfolding input_only_def by blast

lemma input_only_refl [simp]: "input_only st st"
  by (rule input_onlyI) simp_all

lemma input_only_update [simp]:
  "input_only st (st\<lparr>mouse_buttons := bs\<rparr>)" "input_only st (st\<lparr>dev_x := x, dev_y := y\<rparr>)"
  "input_only st (st\<lparr>mouse_buttons := bs, dev_x := x, dev_y := y\<rparr>)"
  by (rule input_onlyI; cases st; simp)+

lemma input_only_mark [simp]: "input_only st (key_mark st k b)"
proof -
  obtain ks where "key_mark st k b = st\<lparr>keys_down := ks\<rparr>" "length ks = length (keys_down st)"
    by (rule that [of "keys_down (key_mark st k b)"]) (simp_all add: key_mark_def Let_def)
  then show ?thesis by (intro input_onlyI; cases st) simp_all
qed

text \<open>A message leaves the client and the tables of the kernel alone, whether it is sent or not.\<close>

definition quiet :: "sys \<Rightarrow> sys \<Rightarrow> bool" where
  "quiet s s' \<longleftrightarrow> client s' = client s \<and> open_fds s' = open_fds s \<and> children s' = children s"

lemma do_call_quiet: "do_call cl s = Some (r, s') \<Longrightarrow> quiet s s'"
  by (auto simp: do_call_send quiet_def rc_control_send_def fd_write_def bind_eq_Some_conv split: if_splits)

lemmas key_quiet = do_call_quiet [of "CallKey a k m n" for a k m n, unfolded do_call.simps]

lemma click_quiet: "rc_client_click_button k s = Some (r, s') \<Longrightarrow> quiet s s'"
  unfolding rc_client_click_button_def
  by (auto simp: bind_eq_Some_conv dest!: key_quiet split: if_splits) (simp add: quiet_def)

lemma run_call_frame:
  assumes "run_core f c st w = Some (r, st', w')" and "s_client st = Some c"
    and "f = do_call cl \<or> f = rc_client_click_button k"
  shows "st' = st" "same_tables w w'"
proof -
  obtain s where s: "f (core c w) = Some (r, s)" "st' = st\<lparr>s_client := Some (client s)\<rparr>" "w' = os.truncate s"
    using assms(1) by (auto simp: run_core_Some)
  have "client s = c" "open_fds s = open_fds w" "children s = children w"
    using s(1) assms(3) do_call_quiet [of cl "core c w" r s] click_quiet [of k "core c w" r s] by (auto simp: quiet_def)
  with s assms(2) show "st' = st" "same_tables w w'" by (simp_all add: s_client_id same_tables_def)
qed


lemma on_input_only:
  assumes "on_input G rnd ww wh e st w = Some (st', w')"
  shows "input_only st st' \<and> same_tables w w'"
proof (cases "s_client st")
  case None
  with assms show ?thesis
    by (cases "(G, rnd, ww, wh, e, st, w)" rule: on_input.cases)
      (auto simp: on_pressed_def on_released_def on_motion_def on_scroll_def on_key_pressed_def on_key_released_def
        on_navbtn_def on_devbtn_def same_tables_def)
next
  case (Some c)
  have T: "same_tables w w" by (simp add: same_tables_def)
  have call: "sty = stx \<and> same_tables w wx" if "run_core (do_call cl) c stx w = Some (r, sty, wx)" "s_client stx = Some c"
    for cl stx sty r wx
    using run_call_frame [OF that(1,2), of cl 0] by auto
  have click: "sty = st \<and> same_tables w wx" if "run_core (rc_client_click_button k) c st w = Some (r, sty, wx)" for k sty r wx
    using run_call_frame [OF that Some, of undefined k] by auto
  show ?thesis
  proof (cases e)
    case (Pressed b x y)
    with assms Some T show ?thesis
      by (auto simp: on_pressed_def Let_def bind_eq_Some_conv call_funs split: option.splits prod.splits dest!: call)
  next
    case (Released b x y)
    with assms Some T show ?thesis
      by (auto simp: on_released_def Let_def bind_eq_Some_conv call_funs split: option.splits prod.splits dest!: call)
  next
    case (Motion x y)
    with assms Some T show ?thesis
      by (auto simp: on_motion_def Let_def bind_eq_Some_conv call_funs split: option.splits prod.splits if_splits dest!: call)
  next
    case (Scrolled dx dy)
    with assms Some T show ?thesis
      by (auto simp: on_scroll_def Let_def bind_eq_Some_conv call_funs dest!: call)
  next
    case (KeyPressed k s)
    with assms Some T show ?thesis
      by (auto simp: on_key_pressed_def Let_def bind_eq_Some_conv call_funs split: if_splits dest!: call)
  next
    case (KeyReleased k s)
    with assms Some T show ?thesis
      by (auto simp: on_key_released_def Let_def bind_eq_Some_conv call_funs split: if_splits dest!: call)
  next
    case (Clicked b)
    with assms Some T show ?thesis
      by (cases b) (auto simp: on_navbtn_def on_devbtn_def bind_eq_Some_conv call_funs dest!: call click)
  qed
qed


section \<open>Every handler keeps a session well-formed\<close>

lemma life_typed: "session_typed st \<Longrightarrow> torn st \<Longrightarrow> life st' = life st \<Longrightarrow> torn st' \<and> s_client st' = None"
  by (simp add: session_typed_def life_def)

lemma input_only_typed:
  assumes "input_only st st'" and "session_typed st"
  shows "session_typed st'" and "life st' = life st"
  using assms by (auto simp: input_only_def session_typed_def life_def plane_bytes_def)

lemma frame_typed:
  assumes "frame_store ra f st = Some (ch, st1)" and "frame_ok f" and "\<not> torn st" and "session_typed st"
  shows "session_typed (snd (frame_publish b st1))" and "life (snd (frame_publish b st1)) = life st"
proof -
  have wf: "render_wf st" "length (keys_down st) = 32" using assms(3,4) by (simp_all add: session_typed_wf)
  note S = frame_store_spec [OF assms(1) wf(1) assms(2)]
  obtain pl pc ps where st1: "st1 = (frame_header f st)\<lparr>plane := pl, pcap := pc, pstride := ps, have_pending := True,
       pend_recv_ms := f_recv_ms f, pend_pts_us := f_pts_us f\<rparr>" using S(4) by blast
  have l: "life (snd (frame_publish b st1)) = life st1" by (simp add: frame_publish_def life_def Let_def)
  then show "life (snd (frame_publish b st1)) = life st" by (simp add: life_def st1 frame_header_def)
  have k: "length (keys_down st1) = 32" "\<not> torn st1" using assms(3) wf(2) by (simp_all add: st1 frame_header_def)
  have "\<not> torn (snd (frame_publish b st1))" using l k(2) by (simp add: life_def)
  with frame_publish_render(2) [OF S(2,1)] k(1) show "session_typed (snd (frame_publish b st1))"
    by (simp add: session_typed_wf)
qed

lemma same_but_tex_life: "same_but_tex st st' \<Longrightarrow> life st' = life st"
proof -
  assume "same_but_tex st st'"
  then obtain a b c where "st' = st\<lparr>tex_w := a, tex_h := b, tex_ifmt := c\<rparr>" by (auto simp: same_but_tex_def)
  then show ?thesis by (simp add: life_def)
qed

text \<open>Handlers that draw or show numbers change none of the fields that are watched, besides the textures.\<close>

definition keeps_shape :: "session \<Rightarrow> session \<Rightarrow> bool" where
  "keeps_shape st st' \<longleftrightarrow> plane st' = plane st \<and> pcap st' = pcap st \<and> pstride st' = pstride st \<and>
     length (tex_w st') = length (tex_w st) \<and> length (tex_h st') = length (tex_h st) \<and>
     length (tex_ifmt st') = length (tex_ifmt st) \<and> keys_down st' = keys_down st \<and>
     alive st' = alive st \<and> has_gl st' = has_gl st \<and> life st' = life st"

lemma keeps_shape_typed: "keeps_shape st st' \<Longrightarrow> session_typed st \<Longrightarrow> session_typed st'"
  by (auto simp: keeps_shape_def session_typed_def plane_bytes_def life_def)

lemma shape_typed_life:
  "keeps_shape st st' \<Longrightarrow> session_typed st \<Longrightarrow> session_typed st'" "keeps_shape st st' \<Longrightarrow> life st' = life st"
  by (rule keeps_shape_typed) (simp_all add: keeps_shape_def)

lemma keeps_shape_trans: "keeps_shape a b \<Longrightarrow> keeps_shape b c \<Longrightarrow> keeps_shape a c"
  by (simp add: keeps_shape_def)

lemma same_but_tex_shape: "same_but_tex st st' \<Longrightarrow> keeps_shape st st'"
  by (simp add: keeps_shape_def same_but_tex_sel same_but_tex_life)

lemma pending_shape: "keeps_shape st (st\<lparr>have_pending := b\<rparr>)"
  by (simp add: keeps_shape_def life_def)

lemma measure_shape: "keeps_shape st (measure_delay t st)"
  by (simp add: keeps_shape_def measure_delay_def life_def Let_def)

lemma upload_frame_shape: "upload_frame st = (cs, st') \<Longrightarrow> keeps_shape st st'"
  by (auto simp: upload_frame_def Let_def split: prod.splits if_splits
      intro!: keeps_shape_trans [OF _ pending_shape] dest!: same_but_tex_shape [OF upload_same]
      intro: keeps_shape_trans)

lemma on_render_shape: "on_render now ww wh st = (ret, calls, st') \<Longrightarrow> keeps_shape st st'"
  by (auto simp: on_render_def Let_def split: prod.splits if_splits dest!: upload_frame_shape
      intro: keeps_shape_trans [OF _ measure_shape]) (simp_all add: keeps_shape_def)

lemma event_shapes:
  "trigger_render st = (q, st') \<Longrightarrow> keeps_shape st st'"
  "keeps_shape st (on_resize w h st)" "fps_tick st = (go, t, st') \<Longrightarrow> keeps_shape st st'"
  "title_tick st = (go, t, st') \<Longrightarrow> keeps_shape st st'"
  by (auto simp: trigger_render_def trigger_clear_def on_resize_def fps_tick_def title_tick_def
      keeps_shape_def life_def Let_def split: option.splits if_splits)

lemma on_unrealize_shape: "on_unrealize err st g = (st', g') \<Longrightarrow> keeps_shape st st'"
  by (auto simp: on_unrealize_def keeps_shape_def life_def Let_def split: if_splits)

lemma on_realize_typed:
  "on_realize GE err es st g = (st', g') \<Longrightarrow> session_typed st \<Longrightarrow> session_typed st' \<and> life st' = life st"
  by (auto simp: on_realize_def session_typed_def plane_bytes_def life_def Let_def split: if_splits prod.splits)

lemma event_step_spec:
  "event_step x y \<Longrightarrow> session_typed (fst x) \<Longrightarrow>
     session_typed (fst y) \<and> life (fst y) = life (fst x) \<and> same_tables (snd x) (snd y)"
proof (induction rule: event_step.induct)
  case (frame st f ra srcs st' w)
  then obtain ch st1 where s: "frame_store ra f st = Some (ch, st1)" and st': "st' = snd (frame_publish ch st1)"
    by (cases "f_format f") (auto simp: render_on_frame_def bind_eq_Some_conv)
  from frame_typed [OF s frame(2,1)] frame(4) show ?case by (simp add: st' same_tables_def)
next
  case (input G rnd ww wh e st w st' w')
  with on_input_only [OF input(1)] input_only_typed [of st st'] show ?case by simp
qed (auto simp: same_tables_def dest!: event_shapes(1,3,4) on_render_shape intro: shape_typed_life event_shapes(2))

lemma handler_step_spec:
  "handler_step x y \<Longrightarrow> session_typed (fst x) \<Longrightarrow>
     session_typed (fst y) \<and> life (fst y) = life (fst x) \<and> same_tables (snd x) (snd y)"
  by (induction rule: handler_step.induct)
    (auto simp: same_tables_def dest!: event_step_spec on_realize_typed on_unrealize_shape intro: shape_typed_life)

lemma run_start_typed:
  assumes "run_start_thread E FF apple st w = Some (st', w')" and "session_typed st"
  shows "session_typed st'"
proof -
  have "(s_client st = None \<and> st' = st\<lparr>start_thread := Finished\<rparr>) \<or>
      (s_client st \<noteq> None \<and> (\<exists>c. st' = st\<lparr>s_client := Some c, start_thread := Finished\<rparr>))"
    using assms(1) by (auto simp: run_start_thread_def run_core_Some bind_eq_Some_conv split: option.splits)
  with assms(2) show ?thesis by (auto simp: session_typed_def plane_bytes_def)
qed

lemma stop_client_typed:
  assumes "stop_client E st w = Some (st', w')"
  shows "st' = st\<lparr>s_client := None\<rparr>"
  using assms
  by (cases st) (auto simp: stop_client_def rc_client_destroy_def bind_eq_Some_conv split: option.splits)

lemma join_start_fields:
  assumes "join_start E FF apple st w = Some (st', w')"
  shows "\<exists>c. st' = st\<lparr>s_client := c, start_thread := NoThread\<rparr>"
proof -
  obtain stx wx where x: "(if start_thread st = Starting then run_start_thread E FF apple st w else Some (st, w)) = Some (stx, wx)"
    and st': "st' = stx\<lparr>start_thread := NoThread\<rparr>" using assms by (auto simp: join_start_def bind_eq_Some_conv)
  have "\<exists>c th. stx = st\<lparr>s_client := c, start_thread := th\<rparr>"
  proof (cases "start_thread st = Starting")
    case True
    with x show ?thesis
      by (cases st) (auto simp: run_start_thread_def run_core_Some bind_eq_Some_conv split: option.splits)
  next
    case False
    with x have "stx = st\<lparr>s_client := s_client st, start_thread := start_thread st\<rparr>" by simp
    then show ?thesis by blast
  qed
  with st' show ?thesis by auto
qed

lemma teardown_typed:
  assumes "session_teardown E FF apple st w = Some (st', w')" and "session_typed st"
  shows "session_typed st' \<and> torn st'"
proof (cases "torn st")
  case True
  with assms show ?thesis by (simp add: session_teardown_def)
next
  case False
  define st0 where "st0 = (let st = st\<lparr>torn := True, alive := False, has_gl := False\<rparr>;
      st = (if fps_timer st then st\<lparr>fps_timer := False\<rparr> else st);
      st = (if title_timer st then st\<lparr>title_timer := False\<rparr> else st)
      in (case s_client st of None \<Rightarrow> st | Some c \<Rightarrow> st\<lparr>s_client := Some (client (rc_client_abort (core c w)))\<rparr>))"
  have f0: "torn st0" "\<not> alive st0" "\<not> has_gl st0" "plane st0 = plane st" "pcap st0 = pcap st" "pstride st0 = pstride st"
    "tex_w st0 = tex_w st" "tex_h st0 = tex_h st" "tex_ifmt st0 = tex_ifmt st" "keys_down st0 = keys_down st"
    by (simp_all add: st0_def Let_def split: option.splits)
  from assms(1) False obtain st1 w1 st2 where 1: "join_start E FF apple st0 w = Some (st1, w1)"
    and 2: "stop_client E st1 w1 = Some (st2, w')" and st': "st' = render_free_planes st2"
    by (auto simp: session_teardown_def st0_def Let_def bind_eq_Some_conv)
  obtain c where st1: "st1 = st0\<lparr>s_client := c, start_thread := NoThread\<rparr>" using join_start_fields [OF 1] by blast
  have len: "length (plane st) = 3" using assms(2) by (simp add: session_typed_def)
  then have "map (\<lambda>_. None) (plane st) = [None, None, None]" by (simp add: map_replicate_const numeral_3_eq_3)
  with assms(2) f0 show ?thesis
    by (simp add: st' stop_client_typed [OF 2] st1 render_free_planes_def session_typed_def)
qed

lemma gtk_session_step_typed: "gtk_session_step x y \<Longrightarrow> session_typed (fst x) \<Longrightarrow> session_typed (fst y)"
  by (induction rule: gtk_session_step.induct)
    (use handler_step_spec run_start_typed teardown_typed in \<open>fastforce+\<close>)

lemma new_session_typed:
  assumes "session_new mem pid scid ser tcp a = (a', scid')" and "sessions a' = s # sessions a"
  shows "session_typed s"
proof -
  let ?s = "choose_ports a ser (session_config a ser tcp)"
  obtain c0 scid2 where cr: "rc_client_create mem pid scid (Some (s_cfg ?s)) = (Some c0, scid2)"
    using assms by (cases "rc_client_create mem pid scid (Some (s_cfg ?s))"; cases "fst (rc_client_create mem pid scid (Some (s_cfg ?s)))")
      (auto simp: session_new_def Let_def)
  have p: "plane ?s = [None, None, None]" "pcap ?s = [0, 0, 0]" "pstride ?s = [0, 0, 0]" "tex_w ?s = [0, 0, 0]"
    "tex_h ?s = [0, 0, 0]" "tex_ifmt ?s = [NoFmt, NoFmt, NoFmt]" "keys_down ?s = replicate 32 0" "\<not> torn ?s"
    by (simp_all add: choose_ports_def session_config_def new_session_def Let_def split: option.splits)
  obtain c t where s: "s = (build_view (?s\<lparr>s_client := c, title_base := t, title_timer := True\<rparr>))\<lparr>start_thread := Starting\<rparr>"
    using assms cr by (auto simp: session_new_def Let_def)
  have "plane s = plane ?s \<and> pcap s = pcap ?s \<and> pstride s = pstride ?s \<and> tex_w s = tex_w ?s \<and> tex_h s = tex_h ?s \<and>
      tex_ifmt s = tex_ifmt ?s \<and> keys_down s = keys_down ?s \<and> torn s = torn ?s"
    by (simp add: s build_view_def Let_def)
  with p show ?thesis by (simp add: session_typed_def plane_bytes_def less_Suc_eq numeral_3_eq_3 all_conj_distrib)
qed

definition just_opened :: "session \<times> os \<Rightarrow> bool" where
  "just_opened x \<longleftrightarrow> (\<exists>mem pid scid ser tcp a a' scid'. session_new mem pid scid ser tcp a = (a', scid') \<and>
     sessions a' = fst x # sessions a)"

interpretation gtk_session: invariant_system just_opened gtk_session_step "\<lambda>x. session_typed (fst x)"
proof
  show "session_typed (fst x)" if "just_opened x" for x
    using that new_session_typed unfolding just_opened_def by blast
qed (rule gtk_session_step_typed)

text \<open>A handler is a step of the application.\<close>

lemma handler_app_step:
  assumes "handler_step (sessions a ! i, w) (st', w')" and "i < length (sessions a)" and "session_typed (sessions a ! i)"
  shows "app_step (a, w) (set_session i st' a, w')"
  using handler_step_spec [OF assms(1)] assms(2,3) by (auto intro: app_step.handler)


text \<open>
  C38: sessions stay well-formed.  A session that was just opened, and every session it becomes through any
  sequence of frames, redraws, GL and timer callbacks, input, the end of the start thread and closing,
  has its arrays at their declared sizes, buffers as large as their recorded capacity while it is
  live, and, once closed, no client, no video area and no buffer.  And no event handler changes what the
  life cycle depends on (client, start thread, ports, serial) or the descriptors and children of the
  process.
\<close>

theorem session_typed_always:
  assumes "session_new mem pid scid ser tcp a = (a', scid')" and "sessions a' = s # sessions a"
    and "gtk_session_step\<^sup>*\<^sup>* (s, w) (st, w')"
  shows "session_typed st \<and>
     (\<forall>st2 w2. handler_step (st, w') (st2, w2) \<longrightarrow> life st2 = life st \<and> same_tables w' w2)"
proof -
  have "session_typed st" using gtk_session.steps_inv [OF assms(3)] new_session_typed [OF assms(1,2)] by simp
  with handler_step_spec [of "(st, w')"] show ?thesis by auto
qed

theorem session_typed_always_witness:
  "\<exists>a' scid' s. session_new (\<lambda>_. True) 1 0 (Some ''emulator-5554'') None demo_app = (a', scid') \<and> sessions a' = [s] \<and>
     gtk_session_step\<^sup>*\<^sup>* (s, demo_os) (on_resize 540 960 s, demo_os) \<and> session_typed (on_resize 540 960 s)"
proof -
  obtain a' scid' where n: "session_new (\<lambda>_. True) 1 0 (Some ''emulator-5554'') None demo_app = (a', scid')" by fastforce
  from session_new_opens [OF n] obtain s where s: "sessions a' = s # sessions demo_app" by auto
  have "gtk_session_step (s, demo_os) (on_resize 540 960 s, demo_os)"
    by (intro gtk_session_step.handler handler_step.event event_step.resize [of 540 960]) simp
  then have st: "gtk_session_step\<^sup>*\<^sup>* (s, demo_os) (on_resize 540 960 s, demo_os)" by simp
  from session_typed_always [OF n s st] have "session_typed (on_resize 540 960 s)" by simp
  with n s st show ?thesis by (auto simp: demo_app_def)
qed

end
