(* ===== verification/Gtk_Area.thy ===== *)
theory Gtk_Area
  imports Gtk_Handlers
begin

text \<open>
  The video area of a session through its life: its GL objects are made when it is realized and freed when it is
  unrealized, while frames, redraws, timers, input, the start thread and closing go on between.  GTK
  realizes an area that is not realized and unrealizes one that is, and whether it has a GL context does not
  change in between.
\<close>

section \<open>The other handlers keep the names\<close>

lemma upload_names [simp]: "gl_names (snd (upload_plane st i d s w h f)) = gl_names st"
  by (simp add: upload_plane_def gl_names_def Let_def)

lemma upload_frame_names: "upload_frame st = (cs, st') \<Longrightarrow> gl_names st' = gl_names st"
  by (auto simp: upload_frame_def gl_names_def upload_plane_def Let_def split: prod.splits if_splits)

lemma measure_delay_names [simp]: "gl_names (measure_delay t st) = gl_names st"
  by (simp add: measure_delay_def gl_names_def Let_def)

lemma on_render_names: "on_render now ww wh st = (ret, calls, st') \<Longrightarrow> gl_names st' = gl_names st"
  by (auto simp: on_render_def Let_def split: prod.splits if_splits dest: upload_frame_names)

lemma copy_plane_names: "copy_plane ra st i src stride w h = Some st' \<Longrightarrow> gl_names st' = gl_names st"
  by (auto simp: copy_plane_def gl_names_def Let_def split: if_splits)

lemma frame_names:
  assumes "render_on_frame ra f st = Some (srcs, st')"
  shows "gl_names st' = gl_names st"
proof -
  have h: "gl_names (st\<lparr>vw := a, vh := b, pixfmt := c, full_range := d, bt709 := e\<rparr>) = gl_names st" for st a b c d e
    by (simp add: gl_names_def)
  have p: "gl_names (st\<lparr>have_pending := a, pend_recv_ms := b, pend_pts_us := c\<rparr>) = gl_names st" for st a b c
    by (simp add: gl_names_def)
  have q: "gl_names (snd (frame_publish b st)) = gl_names st" for b st by (simp add: frame_publish_def gl_names_def Let_def)
  from assms consider "st' = st" | ch st1 where "frame_store ra f st = Some (ch, st1)" "st' = snd (frame_publish ch st1)"
    by (auto simp: render_on_frame_def bind_eq_Some_conv split: if_splits)
  then show ?thesis
  proof cases
    case 2
    from 2(1) have "gl_names st1 = gl_names st"
      by (auto simp: frame_store_def bind_eq_Some_conv Let_def h p split: if_splits dest!: copy_plane_names)
    with 2(2) q show ?thesis by simp
  qed simp
qed

lemma input_names: "on_input G rnd ww wh e st w = Some (st', w') \<Longrightarrow> gl_names st' = gl_names st"
  using on_input_only [of G rnd ww wh e st w st' w'] by (auto simp: input_only_def gl_names_def)

lemma event_step_names: "event_step x y \<Longrightarrow> gl_names (fst y) = gl_names (fst x)"
proof (induction rule: event_step.induct)
  case (fps st go t st' w)
  then show ?case by (auto simp: fps_tick_def gl_names_def Let_def split: if_splits)
next
  case (title st go t st' w)
  then show ?case by (auto simp: title_tick_def gl_names_def Let_def split: if_splits option.splits)
qed (auto simp: trigger_render_def trigger_clear_def on_resize_def gl_names_def Let_def
    dest!: frame_names on_render_names input_names)

lemma start_names: "run_start_thread E FF apple st w = Some (st', w') \<Longrightarrow> gl_names st' = gl_names st"
  by (auto simp: run_start_thread_def run_core_Some bind_eq_Some_conv gl_names_def split: option.splits)

lemma teardown_names:
  assumes "session_teardown E FF apple st w = Some (st', w')"
  shows "gl_names st' = gl_names st"
proof (cases "torn st")
  case True
  with assms show ?thesis by (simp add: session_teardown_def)
next
  case False
  define st0 where "st0 = (let st = st\<lparr>torn := True, alive := False, has_gl := False\<rparr>;
      st = (if fps_timer st then st\<lparr>fps_timer := False\<rparr> else st);
      st = (if title_timer st then st\<lparr>title_timer := False\<rparr> else st)
      in (case s_client st of None \<Rightarrow> st | Some c \<Rightarrow> st\<lparr>s_client := Some (client (rc_client_abort (core c w)))\<rparr>))"
  from assms False obtain st1 w1 st2 where 1: "join_start E FF apple st0 w = Some (st1, w1)"
    and 2: "stop_client E st1 w1 = Some (st2, w')" and st': "st' = render_free_planes st2"
    by (auto simp: session_teardown_def st0_def Let_def bind_eq_Some_conv)
  obtain c where st1: "st1 = st0\<lparr>s_client := c, start_thread := NoThread\<rparr>" using join_start_fields [OF 1] by blast
  have "gl_names st0 = gl_names st" by (simp add: st0_def gl_names_def Let_def split: option.splits)
  then show ?thesis by (simp add: st' stop_client_typed [OF 2] st1 render_free_planes_def gl_names_def)
qed

section \<open>The area as a transition system\<close>

type_synonym area = "bool \<times> session \<times> os \<times> glctx"

inductive area_step :: "gl_env \<Rightarrow> bool \<Rightarrow> bool \<Rightarrow> area \<Rightarrow> area \<Rightarrow> bool" for GE err es where
  area_realize: "on_realize GE err es st g = (st', g') \<Longrightarrow> area_step GE err es (False, st, w, g) (True, st', w, g')"
| area_unrealize: "on_unrealize err st g = (st', g') \<Longrightarrow> area_step GE err es (True, st, w, g) (False, st', w, g')"
| area_event: "event_step (st, w) (st', w') \<Longrightarrow> area_step GE err es (re, st, w, g) (re, st', w', g)"
| area_start_thread: "run_start_thread E FF apple st w = Some (st', w') \<Longrightarrow> area_step GE err es (re, st, w, g) (re, st', w', g)"
| area_close: "session_teardown E FF apple st w = Some (st', w') \<Longrightarrow> area_step GE err es (re, st, w, g) (re, st', w', g)"

definition area_fresh :: "glctx \<Rightarrow> area \<Rightarrow> bool" where
  "area_fresh g0 = (\<lambda>(re, st, w, g). \<not> re \<and> gl_names st = no_names \<and> g = g0)"

text \<open>When only one shader compiles there is no program, and what \<^verbatim>\<open>build_program\<close> leaves behind is that
  shader.\<close>

definition leaked :: "glctx \<Rightarrow> nat list \<Rightarrow> glctx" where
  "leaked g ns = g\<lparr>gl_live := map (Pair Shader) ns @ gl_live g\<rparr>"

lemma leaked_wf: "gl_wf g \<Longrightarrow> gl_wf (leaked g ns)"
proof (induction ns)
  case (Cons n ns)
  with gl_wf_new [of "leaked g ns" "(Shader, n)"] show ?case by (simp add: leaked_def)
qed (simp add: leaked_def)

lemma on_realize_disagree:
  assumes "gl_wf g" and "\<not> shaders_agree GE es" and "gl_names st = no_names" and "on_realize GE err es st g = (st', g')"
  shows "gl_names st' = no_names \<and> (\<exists>ns. g' = leaked g ns)"
proof -
  note C = compile_shader_eq [OF assms(1)] compile_shader_eq [OF gl_wf_new [OF assms(1)]]
  have "fst (build_program GE es g) = 0 \<and> (snd (build_program GE es g) = leaked g [] \<or>
      snd (build_program GE es g) = leaked g [Suc (gl_top g)])"
    using assms(2) by (auto simp: build_program_def Let_def C shaders_agree_def leaked_def)
  moreover have "g = leaked g []" by (simp add: leaked_def)
  ultimately show ?thesis using assms(3,4)
    by (cases "build_program GE es g") (auto simp: on_realize_def gl_names_def no_names_def split: if_splits)
qed

definition area_inv :: "gl_env \<Rightarrow> bool \<Rightarrow> bool \<Rightarrow> glctx \<Rightarrow> area \<Rightarrow> bool" where
  "area_inv GE err es g0 = (\<lambda>(re, st, w, g).
     gl_wf g0 \<longrightarrow>
     (if \<not> shaders_agree GE es then gl_names st = no_names \<and> (\<exists>ns. g = leaked g0 ns)
      else if re \<and> \<not> err \<and> built GE es then gl_names st = names_from (Suc (gl_top g0)) \<and> g = with_objects (Suc (gl_top g0)) g0
      else gl_names st = no_names \<and> g = g0))"

lemma on_unrealize_nothing: "gl_names st = no_names \<Longrightarrow> on_unrealize err st g = (st', g') \<Longrightarrow> gl_names st' = no_names \<and> g' = g"
  by (auto simp: on_unrealize_def gl_names_def no_names_def Let_def split: if_splits)

lemma area_step_inv:
  assumes "area_step GE err es x y" and "area_inv GE err es g0 x"
  shows "area_inv GE err es g0 y"
  using assms
proof (induction rule: area_step.induct)
  case (area_realize st g st' g' w)
  show ?case
  proof (cases "shaders_agree GE es")
    case True
    with area_realize on_realize_names [of g GE es st err st' g'] show ?thesis by (auto simp: area_inv_def)
  next
    case False
    have "leaked (leaked g0 ns) ms = leaked g0 (ms @ ns)" for ns ms by (simp add: leaked_def)
    with area_realize False leaked_wf on_realize_disagree [of g GE es st err st' g'] show ?thesis
      by (fastforce simp: area_inv_def)
  qed
next
  case (area_unrealize st g st' g' w)
  show ?case
  proof (cases "err \<or> \<not> built GE es \<or> \<not> shaders_agree GE es")
    case True
    with area_unrealize on_unrealize_nothing [of st err g st' g'] show ?thesis by (auto simp: area_inv_def)
  next
    case False
    with area_unrealize on_unrealize_names [of g0 "Suc (gl_top g0)" st st' g'] show ?thesis by (auto simp: area_inv_def)
  qed
next
  case (area_event st w st' w' re g)
  then show ?case using event_step_names [of "(st, w)" "(st', w')"] by (simp add: area_inv_def)
next
  case (area_start_thread E FF apple st w st' w' re g)
  then show ?case using start_names [of E FF apple st w st' w'] by (simp add: area_inv_def)
next
  case (area_close E FF apple st w st' w' re g)
  then show ?case using teardown_names [of E FF apple st w st' w'] by (simp add: area_inv_def)
qed

interpretation gl_area: invariant_system "area_fresh g0" "area_step GE err es" "area_inv GE err es g0"
  for g0 GE err es
proof
  show "area_inv GE err es g0 x" if "area_fresh g0 x" for x
    using that by (auto simp: area_fresh_def area_inv_def leaked_def intro!: exI [of _ "[]"])
qed (rule area_step_inv)

text \<open>
  C19: the GL objects of a session are live as long as they are used and are given back.  From any well
  formed context on, whatever frames, redraws, timers, input and closing come between, in every state of
  the area: when the session has a program, the program, its vertex array, its buffer and its three
  textures are distinct live objects that are not among those of before; and when the area is not
  realized, the session keeps no name and the context is what it was before the session's first object,
  but for shader objects that were left behind, and there are none of those if both shaders compile or
  neither does.  (When one of them does not, \<^verbatim>\<open>build_program\<close> leaves the other, lemma
  \<^verbatim>\<open>half_built_leaks\<close>.)
\<close>

theorem gl_objects_balanced:
  assumes "reach (area_fresh g0) (area_step GE err es) (re, st, w, g)" and "gl_wf g0"
  shows "(prog st \<noteq> 0 \<longrightarrow> distinct (tex st) \<and> length (tex st) = 3 \<and>
        (\<forall>x \<in> {(Program, prog st), (VertexArray, vao st), (Buffer, vbo st)} \<union> Pair Texture ` set (tex st).
           x \<in> set (gl_live g) \<and> x \<notin> set (gl_live g0) \<and> snd x \<noteq> 0)) \<and>
     (\<not> re \<longrightarrow> prog st = 0 \<and> vao st = 0 \<and> vbo st = 0 \<and> tex st = [0, 0, 0] \<and>
        (\<exists>ns. g = g0\<lparr>gl_live := map (Pair Shader) ns @ gl_live g0\<rparr> \<and> (shaders_agree GE es \<longrightarrow> ns = [])))"
proof -
  have inv: "area_inv GE err es g0 (re, st, w, g)" by (rule gl_area.reach_inv [OF assms(1)])
  show ?thesis
  proof (cases "shaders_agree GE es \<and> re \<and> \<not> err \<and> built GE es")
    case True
    let ?n = "Suc (gl_top g0)"
    from inv True assms(2) have n: "gl_names st = names_from ?n" and g: "g = with_objects ?n g0" by (auto simp: area_inv_def)
    from n have s: "prog st = ?n + 2" "vao st = ?n + 3" "vbo st = ?n + 4" "tex st = [?n + 5, ?n + 6, ?n + 7]"
      by (simp_all add: gl_names_def names_from_def)
    have "\<forall>x \<in> {(Program, ?n + 2), (VertexArray, ?n + 3), (Buffer, ?n + 4), (Texture, ?n + 5), (Texture, ?n + 6), (Texture, ?n + 7)}.
        x \<in> set (gl_live g) \<and> x \<notin> set (gl_live g0) \<and> snd x \<noteq> 0"
      unfolding g by (auto simp: with_objects_def with_program_def dest: live_le_top)
    then show ?thesis using True by (simp add: s)
  next
    case False
    with inv assms(2) have n: "gl_names st = no_names"
      and "if shaders_agree GE es then g = g0 else \<exists>ns. g = leaked g0 ns"
      by (auto simp: area_inv_def split: if_splits)
    then have "\<exists>ns. g = g0\<lparr>gl_live := map (Pair Shader) ns @ gl_live g0\<rparr> \<and> (shaders_agree GE es \<longrightarrow> ns = [])"
      by (cases "shaders_agree GE es") (auto simp: leaked_def)
    with n show ?thesis by (simp add: gl_names_def no_names_def)
  qed
qed

definition demo_gl :: gl_env where
  "demo_gl = \<lparr>ge_create = (\<lambda>_. True), ge_compile = (\<lambda>_ _ _. True), ge_create_program = True, ge_link = True,
     ge_location = (\<lambda>u. int (length u))\<rparr>"

definition demo_glctx :: glctx where
  "demo_glctx = \<lparr>gl_live = [(Texture, 1)], gl_attached = [], gl_marked = []\<rparr>"

theorem gl_objects_balanced_witness:
  "\<exists>st g st' g'. reach (area_fresh demo_glctx) (area_step demo_gl False False) (True, st, demo_os, g) \<and> prog st = 4 \<and>
     (Texture, 9) \<in> set (gl_live g) \<and>
     reach (area_fresh demo_glctx) (area_step demo_gl False False) (False, st', demo_os, g') \<and> g' = demo_glctx"
proof -
  let ?R = "reach (area_fresh demo_glctx) (area_step demo_gl False False)"
  have wf: "gl_wf demo_glctx" "shaders_agree demo_gl False" "gl_top demo_glctx = 1" "built demo_gl False"
    by (simp_all add: gl_wf_def demo_glctx_def shaders_agree_def compiles_def demo_gl_def gl_top_def built_def)
  have n0: "gl_names (new_session demo_config) = no_names" by (simp add: gl_names_def no_names_def new_session_def)
  then have s0: "?R (False, new_session demo_config, demo_os, demo_glctx)"
    by (intro reach_start) (simp add: area_fresh_def)
  obtain st g where 1: "on_realize demo_gl False False (new_session demo_config) demo_glctx = (st, g)" by fastforce
  have r1: "?R (True, st, demo_os, g)" by (rule reach_step [OF s0]) (rule area_realize [OF 1])
  obtain st' g' where 2: "on_unrealize False st g = (st', g')" by fastforce
  have r2: "?R (False, st', demo_os, g')" by (rule reach_step [OF r1]) (rule area_unrealize [OF 2])
  have s: "prog st = 4" "tex st = [7, 8, 9]"
    using on_realize_names [OF wf(1,2) n0 1] wf(3,4) by (auto simp: gl_names_def names_from_def)
  have "(Texture, 9) \<in> set (gl_live g)" "g' = demo_glctx"
    using gl_objects_balanced [OF r1 wf(1)] gl_objects_balanced [OF r2 wf(1)] wf(2) s by auto
  with r1 r2 s(1) show ?thesis by blast
qed

end
