(* ===== verification/Gtk_Shader.thy ===== *)
theory Gtk_Shader
  imports Gtk_Render
begin

text \<open>
  What the shader program of \<^verbatim>\<open>render.c\<close> draws: the vertex shader on the quad, and the fragment shader on the
  textures a frame was uploaded to.  A texture is a function from coordinates to its red and green
  components.
\<close>

section \<open>The shaders\<close>

type_synonym sampler = "rat \<times> rat \<Rightarrow> rat \<times> rat"

text \<open>\<^verbatim>\<open>main\<close> of \<^verbatim>\<open>VERT_BODY\<close>: \<^verbatim>\<open>v_uv\<close> and \<^verbatim>\<open>gl_Position\<close> of a corner.\<close>

definition vert_main :: "(rat \<times> rat) \<times> (rat \<times> rat) \<Rightarrow> (rat \<times> rat) \<times> (rat \<times> rat \<times> rat \<times> rat)" where
  "vert_main v = (case v of (pos, t) \<Rightarrow> (t, (fst pos, snd pos, 0, 1)))"

text \<open>\<^verbatim>\<open>cmat * yuv\<close>, the matrix in column order.\<close>

definition mat3_mult :: "rat list \<Rightarrow> rat \<times> rat \<times> rat \<Rightarrow> rat \<times> rat \<times> rat" where
  "mat3_mult m c = (case c of (x, y, z) \<Rightarrow>
     (m ! 0 * x + m ! 3 * y + m ! 6 * z, m ! 1 * x + m ! 4 * y + m ! 7 * z, m ! 2 * x + m ! 5 * y + m ! 8 * z))"

definition frag_main ::
    "sampler \<Rightarrow> sampler \<Rightarrow> sampler \<Rightarrow> rat list \<Rightarrow> rat \<Rightarrow> bool \<Rightarrow> rat \<times> rat \<Rightarrow> rat \<times> rat \<times> rat" where
  "frag_main ytex utex vtex cmat y_off nv12 v_uv =
     (let x = fst (ytex v_uv) - y_off;
          (y, z) = (if nv12 then (fst (utex v_uv) - 1 / 2, snd (utex v_uv) - 1 / 2)
                    else (fst (utex v_uv) - 1 / 2, fst (vtex v_uv) - 1 / 2))
      in mat3_mult cmat (x, y, z))"

section \<open>The picture is upright\<close>

text \<open>The two triangles of a strip of four corners; a point of a triangle with weights \<open>a\<close>, \<open>b\<close>, \<open>c\<close> gets the
  weighted mean of what the vertex shader gives for the corners.\<close>

definition strip_triangles :: "'v list \<Rightarrow> ('v \<times> 'v \<times> 'v) list" where
  "strip_triangles vs = map (\<lambda>i. (vs ! i, vs ! (i + 1), vs ! (i + 2))) [0 ..< length vs - 2]"

definition blend :: "rat \<Rightarrow> rat \<Rightarrow> rat \<Rightarrow> rat \<times> rat \<Rightarrow> rat \<times> rat \<Rightarrow> rat \<times> rat \<Rightarrow> rat \<times> rat" where
  "blend a b c p q r = (a * fst p + b * fst q + c * fst r, a * snd p + b * snd q + c * snd r)"

definition position :: "(rat \<times> rat) \<times> (rat \<times> rat) \<Rightarrow> rat \<times> rat" where
  "position v = (fst (snd (vert_main v)), fst (snd (snd (vert_main v))))"

definition v_uv :: "(rat \<times> rat) \<times> (rat \<times> rat) \<Rightarrow> rat \<times> rat" where
  "v_uv v = fst (vert_main v)"

text \<open>GL's \<open>y\<close> axis points up, a texture's first row is the top of the picture: a point of the viewport shows
  the texture at its distance from the left and from the top.\<close>

lemma quad_upright:
  assumes "(p, q, r) \<in> set (strip_triangles verts)" and "a + b + c = 1"
    and "blend a b c (position p) (position q) (position r) = (x, y)"
  shows "blend a b c (v_uv p) (v_uv q) (v_uv r) = ((x + 1) / 2, (1 - y) / 2)"
proof -
  have a: "a = 1 - b - c" using assms(2) by simp
  have "set (strip_triangles verts) = {(verts ! 0, verts ! 1, verts ! 2), (verts ! 1, verts ! 2, verts ! 3)}"
    by (simp add: strip_triangles_def verts_def upt_rec numeral_eq_Suc)
  with assms(1,3) show ?thesis
    by (auto simp: verts_def blend_def position_def v_uv_def vert_main_def a field_simps)
qed

section \<open>The colours are close\<close>

text \<open>A sampled luma or colour difference comes from bytes of the standard: luma rounded to a byte, differences
  rounded around 128; mixing such bytes (GL filters linearly) keeps the bound.\<close>

definition luma_near :: "rat \<Rightarrow> rat \<Rightarrow> bool" where
  "luma_near s y \<longleftrightarrow> \<bar>255 * s - 255 * y\<bar> \<le> 1 / 2"

definition diff_near :: "rat \<Rightarrow> rat \<Rightarrow> bool" where
  "diff_near s u \<longleftrightarrow> \<bar>255 * s - (128 + 255 * u)\<bar> \<le> 1 / 2"

text \<open>The error of the matrix, from the errors of luma and of the colour differences.\<close>

lemma matrix_error:
  assumes "color_matrix b709 full = (m, off)" and "\<bar>ey\<bar> \<le> 1 / 510" and "0 \<le> eu" "eu \<le> 1 / 255" "0 \<le> ev" "ev \<le> 1 / 255"
    and "mat3_mult m (ey, eu, ev) = (er, eg, eb)"
  shows "\<bar>er\<bar> < 3 / 255 \<and> \<bar>eg\<bar> < 3 / 255 \<and> \<bar>eb\<bar> < 3 / 255"
proof -
  have y: "ey \<le> 1 / 510" "- (1 / 510) \<le> ey" using assms(2) by (simp_all add: abs_le_iff)
  have u: "eu * 255 \<le> 1" "ev * 255 \<le> 1" using assms(4,6) by simp_all
  show ?thesis unfolding abs_less_iff
    using assms(1,7) y assms(3,5) u
    by (cases b709; cases full; clarsimp simp: color_matrix_def mat3_mult_def Let_def; intro conjI; linarith)
qed

lemma shade_mat3: "shade (m, off) (y, u, v) = mat3_mult m (y - off, u, v)"
  by (simp add: shade_def mat3_mult_def)

lemma mat3_mult_diff:
  assumes "mat3_mult m (x, y, z) = (a, b, c)" and "mat3_mult m (x', y', z') = (a', b', c')"
  shows "mat3_mult m (x' - x, y' - y, z' - z) = (a' - a, b' - b, c' - c)"
  using assms by (auto simp: mat3_mult_def algebra_simps)

lemma frag_main_close:
  assumes e: "encode_yuv b709 full r g b = (y, u, v)" and m: "color_matrix b709 full = (m, off)"
    and s: "luma_near (fst (yt p)) y" "if nv12 then diff_near (fst (ut p)) u \<and> diff_near (snd (ut p)) v
      else diff_near (fst (ut p)) u \<and> diff_near (fst (vt p)) v"
    and d: "frag_main yt ut vt m off nv12 p = (r', g', b')"
  shows "\<bar>r' - r\<bar> < 3 / 255 \<and> \<bar>g' - g\<bar> < 3 / 255 \<and> \<bar>b' - b\<bar> < 3 / 255"
proof -
  obtain su sv where c: "diff_near su u" "diff_near sv v"
    and f: "mat3_mult m (fst (yt p) - off, su - 1 / 2, sv - 1 / 2) = (r', g', b')"
    using s(2) d by (cases nv12) (auto simp: frag_main_def Let_def)
  have "mat3_mult m (y - off, u, v) = (r, g, b)"
    using color_matrix_inverts [of b709 full r g b] by (simp add: e m shade_mat3)
  from mat3_mult_diff [OF this f] have
    "mat3_mult m (fst (yt p) - y, su - 1 / 2 - u, sv - 1 / 2 - v) = (r' - r, g' - g, b' - b)" by (simp add: algebra_simps)
  moreover have "\<bar>fst (yt p) - y\<bar> \<le> 1 / 510" using s(1) unfolding luma_near_def by linarith
  moreover have "0 \<le> su - 1 / 2 - u" "su - 1 / 2 - u \<le> 1 / 255" "0 \<le> sv - 1 / 2 - v" "sv - 1 / 2 - v \<le> 1 / 255"
    using c unfolding diff_near_def by linarith+
  ultimately show ?thesis using matrix_error [OF m] by metis
qed

text \<open>The uniforms a draw uses.\<close>

lemma upload_plane_call: "fst (upload_plane st i d s w h f) \<noteq> GlUniforms m off nv"
  by (simp add: upload_plane_def Let_def)

lemma upload_plane_colour:
  "upload_plane st i d s w h f = (c, st') \<Longrightarrow>
     bt709 st' = bt709 st \<and> full_range st' = full_range st \<and> pixfmt st' = pixfmt st \<and> c \<noteq> GlUniforms m off nv"
  using same_but_tex_sel [OF upload_same] upload_plane_call [of st i d s w h f m off nv] by simp

lemma upload_frame_colour:
  assumes "upload_frame st = (cs, st')"
  shows "bt709 st' = bt709 st \<and> full_range st' = full_range st \<and> GlUniforms m off nv \<notin> set cs"
  using assms
  by (auto simp: upload_frame_def Let_def split: prod.splits if_splits dest!: upload_plane_colour [where m = m and off = off and nv = nv])

lemma on_render_uniforms:
  assumes "on_render now ww wh st = (ret, calls, st')" and "GlUniforms m off nv \<in> set calls"
  shows "color_matrix (bt709 st) (full_range st) = (m, off) \<and> nv = (pixfmt st = RC_PIX_NV12)"
  using assms
  by (auto simp: on_render_def Let_def split: if_splits prod.splits
      dest!: upload_frame_colour [where m = m and off = off and nv = nv])

text \<open>
  C18: colours and orientation of the picture.  Take a point of the viewport in one of the two triangles
  that \<^verbatim>\<open>on_render\<close> draws, and let the textures there hold a colour as an encoder of the session's colour standard
  and range writes it, in the layout of its pixel format.  Then the fragment shader samples the textures at
  the point's distance from the left and from the top, and with the uniforms of the draw each channel of the
  colour it gives differs from the encoded colour by less than 3 of 255 levels.
\<close>

theorem drawn_colour_close:
  assumes "on_render now ww wh st = (ret, calls, st')" and "GlUniforms m off nv12 \<in> set calls"
    and "(c0, c1, c2) \<in> set (strip_triangles verts)" and "wa + wb + wc = 1"
    and "blend wa wb wc (position c0) (position c1) (position c2) = (x, y)"
    and "encode_yuv (bt709 st) (full_range st) r g b = (ey, eu, ev)"
    and "luma_near (fst (yt ((x + 1) / 2, (1 - y) / 2))) ey"
    and "if pixfmt st = RC_PIX_NV12
         then diff_near (fst (ut ((x + 1) / 2, (1 - y) / 2))) eu \<and> diff_near (snd (ut ((x + 1) / 2, (1 - y) / 2))) ev
         else diff_near (fst (ut ((x + 1) / 2, (1 - y) / 2))) eu \<and> diff_near (fst (vt ((x + 1) / 2, (1 - y) / 2))) ev"
    and "frag_main yt ut vt m off nv12 (blend wa wb wc (v_uv c0) (v_uv c1) (v_uv c2)) = (r', g', b')"
  shows "\<bar>r' - r\<bar> < 3 / 255 \<and> \<bar>g' - g\<bar> < 3 / 255 \<and> \<bar>b' - b\<bar> < 3 / 255"
proof -
  note p = quad_upright [OF assms(3-5)]
  from on_render_uniforms [OF assms(1,2)] have u: "color_matrix (bt709 st) (full_range st) = (m, off)"
    "nv12 = (pixfmt st = RC_PIX_NV12)" by simp_all
  show ?thesis
    by (rule frag_main_close [OF assms(6) u(1) assms(7) _ assms(9) [unfolded p]]) (use assms(8) u(2) in simp)
qed

text \<open>Half grey, full range BT.601, in the middle of the window: luma 128, differences 128.\<close>

theorem drawn_colour_close_witness:
  "\<exists>calls st' m off. on_render 0 4 4 (demo_gl_session\<lparr>vw := 2, vh := 2, tex_w := [2, 1, 1], full_range := True\<rparr>) = (True, calls, st') \<and>
     GlUniforms m off False \<in> set calls \<and>
     \<bar>fst (frag_main (\<lambda>_. (128 / 255, 0)) (\<lambda>_. (128 / 255, 0)) (\<lambda>_. (128 / 255, 0)) m off False (1 / 2, 1 / 2)) - 128 / 255\<bar> < 3 / 255"
proof -
  let ?st = "demo_gl_session\<lparr>vw := 2, vh := 2, tex_w := [2, 1, 1], full_range := True\<rparr>"
  let ?t = "\<lambda>_ :: rat \<times> rat. (128 / 255 :: rat, 0 :: rat)"
  obtain m off where m: "color_matrix False True = (m, off)" by fastforce
  have st: "prog ?st \<noteq> 0" "\<not> have_pending ?st" "bt709 ?st = False" "full_range ?st = True" "pixfmt ?st = RC_PIX_I420"
    by (simp_all add: demo_gl_session_def new_session_def)
  obtain X Y W H where "letterbox (fb_w demo_gl_session) (fb_h demo_gl_session) 2 2 = (X, Y, W, H)" by (metis prod_cases4)
  then obtain calls where 1: "on_render 0 4 4 ?st = (True, calls, ?st)" and 2: "GlUniforms m off False \<in> set calls"
    using st by (auto simp: on_render_def m Let_def demo_gl_session_def)
  have tri: "((verts ! 1), (verts ! 2), (verts ! 3)) \<in> set (strip_triangles verts)"
    by (simp add: strip_triangles_def verts_def upt_rec numeral_eq_Suc)
  have uv: "blend (1 / 2) (1 / 2) 0 (v_uv (verts ! 1)) (v_uv (verts ! 2)) (v_uv (verts ! 3)) = (1 / 2, 1 / 2)"
    and pos: "blend (1 / 2) (1 / 2) 0 (position (verts ! 1)) (position (verts ! 2)) (position (verts ! 3)) = (0, 0)"
    by (simp_all add: blend_def v_uv_def position_def vert_main_def verts_def)
  have e: "encode_yuv (bt709 ?st) (full_range ?st) (128 / 255) (128 / 255) (128 / 255) = (128 / 255, 0, 0)"
    by (simp add: st encode_yuv_def Let_def)
  obtain r' g' b' where f: "frag_main ?t ?t ?t m off False (1 / 2, 1 / 2) = (r', g', b')" by (metis prod_cases3)
  have "\<bar>r' - 128 / 255\<bar> < 3 / 255"
    using drawn_colour_close [OF 1 2 tri _ pos e, of ?t ?t ?t r' g' b'] uv f
    by (simp add: luma_near_def diff_near_def st)
  with 1 2 f show ?thesis by (intro exI [of _ calls] exI [of _ ?st] exI [of _ m] exI [of _ off]) simp
qed

text \<open>The middle of the colour differences is byte 128, but the shader subtracts one half: grey is not quite grey.\<close>

lemma grey_tinted:
  assumes "color_matrix False True = (m, off)"
  shows "frag_main (\<lambda>_. (1 / 2, 0)) (\<lambda>_. (128 / 255, 0)) (\<lambda>_. (128 / 255, 0)) m off False p = (r, g, b) \<Longrightarrow>
     r \<noteq> g \<and> 1 / 2 < r \<and> g < 1 / 2 \<and> 1 / 2 < b"
  using assms by (auto simp: color_matrix_def frag_main_def mat3_mult_def Let_def)

end
