(* ===== verification/Gtk_Listing.thy ===== *)
theory Gtk_Listing
  imports Gtk_Chooser
begin

text \<open>
  The front end and the agent both read \<^verbatim>\<open>adb devices -l\<close>, the one line by line with \<^verbatim>\<open>fgets\<close> and without the heading,
  the other from a buffer with \<^verbatim>\<open>strtok_r\<close>.  They find the same devices.
\<close>

section \<open>A line feed at the end of a line\<close>

lemma LF_space: "is_space LF"
  by (simp add: is_space_def LF_def)

lemma scan_word_LF: "scan_word n (l @ [LF]) = map_option (\<lambda>(w, r). (w, r @ [LF])) (scan_word n l)"
proof (cases "\<forall>c \<in> set l. is_space c")
  case True
  then have a: "dropWhile is_space (l @ [LF]) = []" and b: "dropWhile is_space l = []" using LF_space by simp_all
  show ?thesis unfolding scan_word_def Let_def a b by simp
next
  case False
  then obtain c where c: "c \<in> set l" "\<not> is_space c" by auto
  then have d: "dropWhile is_space (l @ [LF]) = dropWhile is_space l @ [LF]" by (rule dropWhile_append1)
  let ?t = "dropWhile is_space l"
  have "takeWhile (\<lambda>c. \<not> is_space c) (xs @ [LF]) = takeWhile (\<lambda>c. \<not> is_space c) xs" for xs
    using LF_space by (induction xs) auto
  note t = this [of ?t]
  have "length (takeWhile (\<lambda>c. \<not> is_space c) ?t) \<le> length ?t" by (rule length_takeWhile_le)
  then show ?thesis by (simp add: scan_word_def Let_def d t)
qed

lemma after_sub_LF:
  assumes "LF \<notin> set pat" and "pat \<noteq> []"
  shows "after_sub pat (l @ [LF]) = map_option (\<lambda>r. r @ [LF]) (after_sub pat l)"
proof (induction l)
  case Nil
  show ?case using assms by (cases pat) auto
next
  case (Cons c l)
  show ?case
  proof (cases "length pat \<le> length (c # l)")
    case True
    then have "take (length pat) ((c # l) @ [LF]) = take (length pat) (c # l)"
      "drop (length pat) ((c # l) @ [LF]) = drop (length pat) (c # l) @ [LF]" by (simp_all del: append_Cons)
    with Cons.IH show ?thesis by simp
  next
    case False
    then have n: "take (length pat) (c # l) \<noteq> pat" by (metis take_all_iff nat_le_linear order_refl)
    have "take (length pat) ((c # l) @ [LF]) = c # l @ [LF]" using False by simp
    then have n2: "take (length pat) ((c # l) @ [LF]) \<noteq> pat" using assms(1) by auto
    from n n2 Cons.IH show ?thesis by simp
  qed
qed

lemma parse_dev_LF: "parse_dev (l @ [LF]) = parse_dev l"
proof -
  have "after_sub ''model:'' (l @ [LF]) = map_option (\<lambda>r. r @ [LF]) (after_sub ''model:'' l)"
    by (rule after_sub_LF) (simp_all add: LF_def)
  then show ?thesis
    by (simp add: parse_dev_def scan_word_LF option.case_eq_if prod.case_eq_if option.map_sel)
qed

lemma parse_dev_Nil: "parse_dev [] = None"
  by (simp add: parse_dev_def scan_word_def)

section \<open>The lines of a text\<close>

declare fgets_lines.simps [simp del]

lemma takeWhile_line: "LF \<notin> set t \<Longrightarrow> takeWhile (\<lambda>c. c \<noteq> LF) t = t" "LF \<notin> set t \<Longrightarrow> takeWhile (\<lambda>c. c \<noteq> LF) (t @ LF # s) = t"
  by (induction t) auto

lemma fgets_first:
  "LF \<notin> set t \<Longrightarrow> length t < n \<Longrightarrow> fgets_lines n (t @ LF # s) = (t @ [LF]) # fgets_lines n s"
  by (subst fgets_lines.simps) (simp add: Let_def takeWhile_line)

lemma fgets_last: "LF \<notin> set t \<Longrightarrow> t \<noteq> [] \<Longrightarrow> length t < n \<Longrightarrow> fgets_lines n t = [t]"
  by (subst fgets_lines.simps) (simp add: Let_def fgets_lines.simps [of n "[]"] takeWhile_line)

lemma fgets_devices:
  assumes "\<forall>l \<in> set (split_on LF s). length l < n"
  shows "List.map_filter parse_dev (fgets_lines n s) = List.map_filter parse_dev (split_on LF s)"
  using assms
proof (induction s rule: length_induct)
  case (1 s)
  show ?case
  proof (cases "LF \<in> set s")
    case True
    then obtain t s' where s: "s = t @ LF # s'" "LF \<notin> set t" by (metis split_list_first)
    then have sp: "split_on LF s = t # split_on LF s'" by (simp add: split_on_append)
    with 1 s have "List.map_filter parse_dev (fgets_lines n s') = List.map_filter parse_dev (split_on LF s')" by simp
    with 1(2) s sp show ?thesis by (simp add: fgets_first map_filter_simps parse_dev_LF split: option.split)
  next
    case False
    then have sp: "split_on LF s = [s]" by (rule split_on_none)
    show ?thesis
    proof (cases "s = []")
      case True
      then show ?thesis by (simp add: map_filter_simps parse_dev_Nil fgets_lines.simps)
    next
      case nil: False
      with 1(2) sp fgets_last [OF False nil] show ?thesis by simp
    qed
  qed
qed

lemma parse_devices_take: "parse_devices cap ls = take cap (List.map_filter parse_dev ls)"
proof (induction cap ls rule: parse_devices.induct)
  case (2 cap l ls)
  then show ?case by (cases cap) (auto simp: map_filter_simps split: option.splits)
qed (simp add: map_filter_simps)

lemma filter_lines: "List.map_filter parse_dev (lines_of s) = List.map_filter parse_dev (split_on LF s)"
  by (auto simp: lines_of_def map_filter_def parse_dev_Nil intro!: arg_cong [where f = "map _"] filter_cong)


text \<open>
  C34: the front end and the agent list the same devices.  For every output of \<^verbatim>\<open>adb devices -l\<close> whose lines are
  shorter than 511 bytes and whose first line is not a device, the front end's list (of the lines of
  \<^verbatim>\<open>fgets\<close>, without the first) is the agent's (of the non-empty lines of the buffer), of which the
  agent takes as many as it has room for.
\<close>

theorem listings_agree:
  assumes "adb_available p" and "\<forall>l \<in> set (split_on LF text). length l < 511" and "parse_dev (hd (split_on LF text)) = None"
  shows "parse_devices cap (lines_of text) = take cap (list_adb_devices p (Some text))"
proof -
  have "List.map_filter parse_dev (drop 1 (fgets_lines 511 text)) = List.map_filter parse_dev (fgets_lines 511 text)"
  proof (cases "fgets_lines 511 text")
    case (Cons l ls)
    have "parse_dev l = None"
    proof (cases "LF \<in> set text")
      case True
      then obtain t s where s: "text = t @ LF # s" "LF \<notin> set t" by (metis split_list_first)
      with assms(2,3) have "length t < 511" "parse_dev t = None" by (simp_all add: split_on_append)
      moreover from this s Cons have "l = t @ [LF]" by (simp add: fgets_first)
      ultimately show ?thesis by (simp add: parse_dev_LF)
    next
      case False
      moreover have "text \<noteq> []" using Cons by (auto simp: fgets_lines.simps)
      ultimately show ?thesis using assms(2,3) Cons by (simp add: split_on_none fgets_last)
    qed
    with Cons show ?thesis by (simp add: map_filter_simps)
  qed simp
  then show ?thesis
    using assms(1) fgets_devices [OF assms(2)] by (simp add: list_adb_devices_def parse_devices_take filter_lines)
qed

definition demo_adb_proc :: proc where
  "demo_adb_proc = \<lparr>envp = (\<lambda>_. None), g_adb = Some ''/usr/bin/adb''\<rparr>"

definition demo_listing :: string where
  "demo_listing = ''List'' @ LF # ''ab offline'' @ LF # ''cd device model:X'' @ [LF]"

theorem listings_agree_witness:
  "take 5 (list_adb_devices demo_adb_proc (Some demo_listing)) = [\<lparr>d_serial = ''cd'', d_model = ''X''\<rparr>]"
proof -
  have p: "adb_available demo_adb_proc" by (simp add: adb_available_def demo_adb_proc_def)
  have s: "split_on LF demo_listing = [''List'', ''ab offline'', ''cd device model:X'', []]"
    by (simp add: demo_listing_def LF_def)
  have l: "\<forall>l \<in> set (split_on LF demo_listing). length l < 511" by (simp add: s)
  have h: "parse_dev (hd (split_on LF demo_listing)) = None"
    by (simp add: s parse_dev_def scan_word_def is_space_def)
  have "parse_devices 5 (lines_of demo_listing) = [\<lparr>d_serial = ''cd'', d_model = ''X''\<rparr>]"
    by (simp add: lines_of_def s parse_dev_def scan_word_def is_space_def fit_def)
  with listings_agree [OF p l h, of 5] show ?thesis by simp
qed

end
