(* ===== verification/Gtk_Chooser_Ui.thy ===== *)
theory Gtk_Chooser_Ui
  imports Gtk_Chooser
begin

text \<open>
  The window of \<^verbatim>\<open>frontends/gtk/chooser.c\<close> and \<^verbatim>\<open>on_activate\<close> of \<^verbatim>\<open>main.c\<close>: the objects \<^verbatim>\<open>chooser_show\<close>
  creates, the handlers it connects, and the contexts the background threads hand back to the main loop.  The
  handlers find other objects by the data of the one they are called on.  Margins, alignment, wrapping and style are left
  out; the rows of a list box are kept beside the objects.
\<close>

section \<open>The state\<close>

datatype ui_text =
    T_Title | T_Size | T_Bitrate | T_Options | T_Control | T_ControlTip | T_Audio | T_AudioTip | T_Fps | T_FpsTip
  | T_Hint | T_Refresh | T_AgentPlaceholder | T_AgentTip | T_ScanAgent | T_Scanning
  | T_Result scan_msg
  | Typed string

datatype handler = OnRowActivated | OnRefresh | OnAgentActivate | OnAgentClicked

type_synonym chooser_ui = "(ui_text, handler) ui"

text \<open>\<^verbatim>\<open>AgentScan\<close> and \<^verbatim>\<open>AutoProbe\<close>: each holds a reference to the objects it names.\<close>

record agent_scan =
  sc_entry :: nat
  sc_btn :: nat
  sc_status :: nat
  sc_list :: nat
  sc_ip :: string
  sc_port :: int

record auto_probe =
  ap_list :: nat
  ap_host :: string

text \<open>The open windows by their objects, the scans and probes under way, and all hosts a probe was
  started for.\<close>

record chooser =
  ch_app :: app
  ch_ui :: chooser_ui
  ch_rows :: "nat \<Rightarrow> row list"
  ch_wins :: "nat list list"
  ch_scans :: "agent_scan list"
  ch_probes :: "auto_probe list"
  ch_probed :: "string list"

section \<open>Building the window\<close>

definition add_option :: "nat \<Rightarrow> ui_text \<Rightarrow> ui_text option \<Rightarrow> bool \<Rightarrow> chooser_ui \<Rightarrow> nat \<times> chooser_ui" where
  "add_option parent label tip active ui =
     (let (cb, ui) = gtk_new CheckButton (Some label) ui;
          ui = set_active cb active ui;
          ui = (case tip of None \<Rightarrow> ui | Some t \<Rightarrow> set_tip cb t ui);
          ui = gtk_append parent cb ui
      in (cb, ui))"

definition labeled_dropdown :: "ui_text \<Rightarrow> string list \<Rightarrow> nat \<Rightarrow> chooser_ui \<Rightarrow> (nat \<times> nat) \<times> chooser_ui" where
  "labeled_dropdown label items def ui =
     (let (box, ui) = gtk_new (Box GTK_ORIENTATION_HORIZONTAL 8) None ui;
          (lbl, ui) = gtk_new Label (Some label) ui;
          ui = gtk_append box lbl ui;
          (dd, ui) = gtk_new (DropDown items) None ui;
          ui = set_selected dd def ui;
          ui = set_hexpand dd ui;
          ui = gtk_append box dd ui
      in ((box, dd), ui))"

definition size_items :: "string list" where
  "size_items = [''Full (g'' @ [CHR 0xE1, CHR 0xBB, CHR 0x91] @ ''c)'', ''1920'', ''1280'', ''1024'', ''800'']"

definition bitrate_items :: "string list" where
  "bitrate_items = [''2 Mbps'', ''4 Mbps'', ''8 Mbps'', ''16 Mbps'', ''24 Mbps'', ''32 Mbps'', ''48 Mbps'']"

text \<open>\<^verbatim>\<open>chooser_show\<close> up to filling the list: the address of the list box, the application with the addresses of the
  settings, and the objects.\<close>

definition chooser_build :: "app \<Rightarrow> chooser_ui \<Rightarrow> nat \<times> app \<times> chooser_ui" where
  "chooser_build a ui =
     (let (win, ui) = gtk_new ApplicationWindow (Some T_Title) ui;
          (box, ui) = gtk_new (Box GTK_ORIENTATION_VERTICAL 12) None ui;
          ((b, dd), ui) = labeled_dropdown T_Size size_items 0 ui;
          a = a\<lparr>dd_size := Some dd\<rparr>;
          ui = gtk_append box b ui;
          ((b, dd), ui) = labeled_dropdown T_Bitrate bitrate_items 2 ui;
          a = a\<lparr>dd_bitrate := Some dd\<rparr>;
          ui = gtk_append box b ui;
          (opt_title, ui) = gtk_new Label (Some T_Options) ui;
          ui = gtk_append box opt_title ui;
          (opts, ui) = gtk_new (Box GTK_ORIENTATION_VERTICAL 6) None ui;
          (cb, ui) = add_option opts T_Control (Some T_ControlTip) (control (base a)) ui;
          a = a\<lparr>cb_control := Some cb\<rparr>;
          (cb, ui) = add_option opts T_Audio (Some T_AudioTip) (audio (base a)) ui;
          a = a\<lparr>cb_audio := Some cb\<rparr>;
          (cb, ui) = add_option opts T_Fps (Some T_FpsTip) (sel_show_fps a) ui;
          a = a\<lparr>cb_fps := Some cb\<rparr>;
          ui = gtk_append box opts ui;
          (hint, ui) = gtk_new Label (Some T_Hint) ui;
          ui = gtk_append box hint ui;
          (scroller, ui) = gtk_new ScrolledWindow None ui;
          ui = set_vexpand scroller ui;
          (list, ui) = gtk_new ListBox None ui;
          ui = g_signal_connect list ''row-activated'' OnRowActivated ui;
          ui = gtk_append scroller list ui;
          ui = gtk_append box scroller ui;
          (refresh, ui) = gtk_new Button (Some T_Refresh) ui;
          ui = g_object_set_data refresh ''list'' list ui;
          ui = g_signal_connect refresh ''clicked'' OnRefresh ui;
          ui = gtk_append box refresh ui;
          (agent_row, ui) = gtk_new (Box GTK_ORIENTATION_HORIZONTAL 8) None ui;
          (entry, ui) = gtk_new Entry None ui;
          ui = set_placeholder entry T_AgentPlaceholder ui;
          ui = set_tip entry T_AgentTip ui;
          ui = set_hexpand entry ui;
          ui = g_signal_connect entry ''activate'' OnAgentActivate ui;
          ui = gtk_append agent_row entry ui;
          (agent_btn, ui) = gtk_new Button (Some T_ScanAgent) ui;
          ui = g_object_set_data agent_btn ''entry'' entry ui;
          ui = g_signal_connect agent_btn ''clicked'' OnAgentClicked ui;
          ui = gtk_append agent_row agent_btn ui;
          ui = gtk_append box agent_row ui;
          (agent_status, ui) = gtk_new Label None ui;
          ui = gtk_append box agent_status ui;
          ui = g_object_set_data entry ''btn'' agent_btn ui;
          ui = g_object_set_data entry ''status'' agent_status ui;
          ui = g_object_set_data entry ''list'' list ui;
          ui = gtk_append win box ui
      in (list, a, ui))"

section \<open>Handlers\<close>

text \<open>\<^verbatim>\<open>populate_devices\<close> on a list box; each probe takes a reference to it.\<close>

definition show_devices :: "proc \<Rightarrow> string option \<Rightarrow> nat \<Rightarrow> chooser \<Rightarrow> chooser option" where
  "show_devices p out list C =
     with_live list (\<lambda>ui.
       let (rows, hosts, a) = populate_devices p out (ch_app C)
       in C\<lparr>ch_app := a, ch_ui := fold (\<lambda>_. g_object_ref list) hosts ui, ch_rows := (ch_rows C)(list := rows),
            ch_probes := map (\<lambda>h. \<lparr>ap_list = list, ap_host = h\<rparr>) hosts @ ch_probes C, ch_probed := hosts @ ch_probed C\<rparr>)
     (ch_ui C)"

definition chooser_show :: "proc \<Rightarrow> string option \<Rightarrow> chooser \<Rightarrow> chooser option" where
  "chooser_show p out C =
     (let (list, a, ui) = chooser_build (ch_app C) (ch_ui C) in
      show_devices p out list
        (C\<lparr>ch_app := a, ch_ui := ui, ch_wins := [length (ch_ui C)..<length ui] # ch_wins C\<rparr>))"

definition on_refresh :: "proc \<Rightarrow> string option \<Rightarrow> nat \<Rightarrow> chooser \<Rightarrow> chooser option" where
  "on_refresh p out btn C = do {
     list \<leftarrow> g_object_get_data btn ''list'' (ch_ui C);
     show_devices p out list C
   }"

definition auto_probe_done ::
    "proc \<Rightarrow> string option \<Rightarrow> auto_probe \<Rightarrow> agent_dev list option \<Rightarrow> chooser \<Rightarrow> chooser option" where
  "auto_probe_done p out ctx devs C = do {
     C \<leftarrow> (case devs of
            None \<Rightarrow> Some C
          | Some ads \<Rightarrow> show_devices p out (ap_list ctx) (C\<lparr>ch_app := register_devs ads (ch_app C)\<rparr>));
     ui \<leftarrow> with_live (ap_list ctx) (g_object_unref (ap_list ctx)) (ch_ui C);
     Some (C\<lparr>ch_ui := ui, ch_probes := remove1 ctx (ch_probes C)\<rparr>)
   }"

definition agent_scan_done ::
    "proc \<Rightarrow> string option \<Rightarrow> agent_scan \<Rightarrow> agent_dev list \<Rightarrow> scan_msg \<Rightarrow> chooser \<Rightarrow> chooser option" where
  "agent_scan_done p out ctx ok_devs msg C = do {
     let C = C\<lparr>ch_app := register_devs ok_devs (ch_app C)\<rparr>;
     ui \<leftarrow> with_live (sc_status ctx) (set_text (sc_status ctx) (T_Result msg)) (ch_ui C);
     ui \<leftarrow> with_live (sc_entry ctx) (set_sensitive (sc_entry ctx) True) ui;
     ui \<leftarrow> with_live (sc_btn ctx) (set_sensitive (sc_btn ctx) True) ui;
     C \<leftarrow> show_devices p out (sc_list ctx) (C\<lparr>ch_ui := ui\<rparr>);
     ui \<leftarrow> with_live (sc_entry ctx) (g_object_unref (sc_entry ctx)) (ch_ui C);
     ui \<leftarrow> with_live (sc_btn ctx) (g_object_unref (sc_btn ctx)) ui;
     ui \<leftarrow> with_live (sc_status ctx) (g_object_unref (sc_status ctx)) ui;
     ui \<leftarrow> with_live (sc_list ctx) (g_object_unref (sc_list ctx)) ui;
     Some (C\<lparr>ch_ui := ui, ch_scans := remove1 ctx (ch_scans C)\<rparr>)
   }"

text \<open>The address typed into the entry: the port after the last colon, if it is positive.\<close>

definition scan_target :: "string \<Rightarrow> string \<times> int" where
  "scan_target text =
     (case strrchr text (CHR '':'') of
        None \<Rightarrow> (text, DEFAULT_DISCOVERY_PORT)
      | Some n \<Rightarrow> (take n text, let port = atoi (drop (Suc n) text) in if port \<le> 0 then DEFAULT_DISCOVERY_PORT else port))"

definition entry_text :: "nat \<Rightarrow> chooser_ui \<Rightarrow> string" where
  "entry_text entry ui = (case w_text (ui ! entry) of Some (Typed s) \<Rightarrow> s | _ \<Rightarrow> [])"

definition agent_scan_start :: "nat \<Rightarrow> chooser \<Rightarrow> chooser option" where
  "agent_scan_start entry C = do {
     text \<leftarrow> with_live entry (entry_text entry) (ch_ui C);
     if text = [] then Some C
     else do {
       let (ip, port) = scan_target text;
       let a = (ch_app C)\<lparr>probed_hosts := insert ip (probed_hosts (ch_app C))\<rparr>;
       let ui = ch_ui C;
       btn \<leftarrow> g_object_get_data entry ''btn'' ui;
       ui \<leftarrow> with_live entry (g_object_ref entry) ui;
       ui \<leftarrow> with_live btn (g_object_ref btn) ui;
       status \<leftarrow> g_object_get_data entry ''status'' ui;
       ui \<leftarrow> with_live status (g_object_ref status) ui;
       list \<leftarrow> g_object_get_data entry ''list'' ui;
       ui \<leftarrow> with_live list (g_object_ref list) ui;
       ui \<leftarrow> with_live entry (set_sensitive entry False) ui;
       ui \<leftarrow> with_live btn (set_sensitive btn False) ui;
       ui \<leftarrow> with_live status (set_text status T_Scanning) ui;
       Some (C\<lparr>ch_app := a, ch_ui := ui, ch_scans := \<lparr>sc_entry = entry, sc_btn = btn, sc_status = status,
         sc_list = list, sc_ip = ip, sc_port = port\<rparr> # ch_scans C\<rparr>)
     }
   }"

definition on_agent_activate :: "nat \<Rightarrow> chooser \<Rightarrow> chooser option" where
  "on_agent_activate entry C = agent_scan_start entry C"

definition on_agent_clicked :: "nat \<Rightarrow> chooser \<Rightarrow> chooser option" where
  "on_agent_clicked btn C = do {
     entry \<leftarrow> g_object_get_data btn ''entry'' (ch_ui C);
     agent_scan_start entry C
   }"

text \<open>\<^verbatim>\<open>on_activate\<close>: it opens a session at once or shows the chooser.\<close>

definition on_activate ::
    "(nat \<Rightarrow> bool) \<Rightarrow> int \<Rightarrow> int \<Rightarrow> proc \<Rightarrow> string option \<Rightarrow> chooser \<Rightarrow> (chooser \<times> int) option" where
  "on_activate mem pid scid p out C =
     (let a = ch_app C in
      if transport (base a) = RC_TRANSPORT_TCP \<or> (serial (base a) \<noteq> None \<and> serial (base a) \<noteq> Some []) then
        (let a = a\<lparr>sel_max_size := max_size (base a), sel_bit_rate := bit_rate (base a),
                   sel_audio := audio (base a), sel_control := control (base a)\<rparr>;
             (a, scid) = session_new mem pid scid (serial (base a))
                  (if transport (base a) = RC_TRANSPORT_TCP then tcp_addr (base a) else None) a
         in Some (C\<lparr>ch_app := a\<rparr>, scid))
      else map_option (\<lambda>C. (C, scid)) (chooser_show p out C))"

section \<open>What the window looks like\<close>

definition obj :: "wclass \<Rightarrow> ui_text option \<Rightarrow> (ui_text, handler) wobj" where
  "obj k t = \<lparr>w_class = k, w_text = t, w_tip = None, w_placeholder = None, w_selected = 0, w_active = False,
     w_sensitive = True, w_hexpand = False, w_vexpand = False, w_children = [], w_data = (\<lambda>_. None), w_signals = [], w_refs = 1\<rparr>"

text \<open>The objects of a chooser whose first one has address \<open>n\<close>.\<close>

definition blueprint :: "app \<Rightarrow> nat \<Rightarrow> chooser_ui" where
  "blueprint a n =
    [(obj ApplicationWindow (Some T_Title))\<lparr>w_children := [n + 1]\<rparr>,
     (obj (Box GTK_ORIENTATION_VERTICAL 12) None)\<lparr>w_children := [n + 2, n + 5, n + 8, n + 9, n + 13, n + 14, n + 16, n + 17, n + 20]\<rparr>,
     (obj (Box GTK_ORIENTATION_HORIZONTAL 8) None)\<lparr>w_children := [n + 3, n + 4]\<rparr>,
     obj Label (Some T_Size),
     (obj (DropDown size_items) None)\<lparr>w_selected := 0, w_hexpand := True\<rparr>,
     (obj (Box GTK_ORIENTATION_HORIZONTAL 8) None)\<lparr>w_children := [n + 6, n + 7]\<rparr>,
     obj Label (Some T_Bitrate),
     (obj (DropDown bitrate_items) None)\<lparr>w_selected := 2, w_hexpand := True\<rparr>,
     obj Label (Some T_Options),
     (obj (Box GTK_ORIENTATION_VERTICAL 6) None)\<lparr>w_children := [n + 10, n + 11, n + 12]\<rparr>,
     (obj CheckButton (Some T_Control))\<lparr>w_tip := Some T_ControlTip, w_active := control (base a)\<rparr>,
     (obj CheckButton (Some T_Audio))\<lparr>w_tip := Some T_AudioTip, w_active := audio (base a)\<rparr>,
     (obj CheckButton (Some T_Fps))\<lparr>w_tip := Some T_FpsTip, w_active := sel_show_fps a\<rparr>,
     obj Label (Some T_Hint),
     (obj ScrolledWindow None)\<lparr>w_vexpand := True, w_children := [n + 15]\<rparr>,
     (obj ListBox None)\<lparr>w_signals := [(''row-activated'', OnRowActivated)]\<rparr>,
     (obj Button (Some T_Refresh))\<lparr>w_data := [''list'' \<mapsto> n + 15], w_signals := [(''clicked'', OnRefresh)]\<rparr>,
     (obj (Box GTK_ORIENTATION_HORIZONTAL 8) None)\<lparr>w_children := [n + 18, n + 19]\<rparr>,
     (obj Entry None)\<lparr>w_placeholder := Some T_AgentPlaceholder, w_tip := Some T_AgentTip, w_hexpand := True,
       w_data := [''btn'' \<mapsto> n + 19, ''status'' \<mapsto> n + 20, ''list'' \<mapsto> n + 15], w_signals := [(''activate'', OnAgentActivate)]\<rparr>,
     (obj Button (Some T_ScanAgent))\<lparr>w_data := [''entry'' \<mapsto> n + 18], w_signals := [(''clicked'', OnAgentClicked)]\<rparr>,
     obj Label None]"

definition built_app :: "app \<Rightarrow> nat \<Rightarrow> app" where
  "built_app a n = a\<lparr>dd_size := Some (n + 4), dd_bitrate := Some (n + 7), cb_control := Some (n + 10),
     cb_audio := Some (n + 11), cb_fps := Some (n + 12)\<rparr>"

text \<open>Addresses relative to the end of the store.\<close>

lemma gtk_new_rel: "gtk_new k t (ui @ xs) = (length ui + length xs, ui @ xs @ [obj k t])"
  by (simp add: gtk_new_def obj_def)

lemma on_obj_rel: "on_obj (length ui + k) f (ui @ xs) = ui @ on_obj k f xs"
  by (simp add: on_obj_def list_update_append nth_append)

lemmas on_obj_rel0 = on_obj_rel [of _ 0, simplified]

lemma on_obj_Cons: "on_obj 0 f (x # xs) = f x # xs" "on_obj (Suc k) f (x # xs) = x # on_obj k f xs"
  by (simp_all add: on_obj_def)

lemma chooser_build_eq:
  "chooser_build a ui = (length ui + 15, built_app a (length ui), ui @ blueprint a (length ui))"
proof -
  have new0: "gtk_new k t ui = (length ui + 0, ui @ [obj k t])" for k t by (simp add: gtk_new_def obj_def)
  show ?thesis
    by (simp add: chooser_build_def labeled_dropdown_def add_option_def Let_def new0 gtk_new_rel
        gtk_append_def set_selected_def set_hexpand_def set_vexpand_def set_active_def set_tip_def set_placeholder_def
        g_object_set_data_def g_signal_connect_def on_obj_rel on_obj_Cons
        del: add_Suc_right add_0_right)
      (simp add: blueprint_def built_app_def obj_def eval_nat_numeral on_obj_rel0 on_obj_Cons)
qed

end
