(* ===== verification/Gtk_Chooser_Flow.thy ===== *)
theory Gtk_Chooser_Flow
  imports Gtk_Chooser_Ui "HOL-Library.Multiset"
begin

text \<open>
  The chooser as a transition system: windows are shown and closed, the user types, selects and clicks, scans and
  probes finish in any order.  The handlers never use an object that is gone, an entry has at most one
  scan, and a host is probed at most once.
\<close>

section \<open>Events\<close>

fun run_handler ::
    "(nat \<Rightarrow> bool) \<Rightarrow> int \<Rightarrow> int \<Rightarrow> proc \<Rightarrow> string option \<Rightarrow> row \<Rightarrow> handler \<Rightarrow> nat \<Rightarrow> chooser \<Rightarrow> chooser option" where
  "run_handler mem pid scid p out row OnRowActivated i C =
     map_option (\<lambda>(a, _). C\<lparr>ch_app := a\<rparr>) (on_row_activated mem pid scid (ch_ui C) row (ch_app C))"
| "run_handler mem pid scid p out row OnRefresh i C = on_refresh p out i C"
| "run_handler mem pid scid p out row OnAgentActivate i C = on_agent_activate i C"
| "run_handler mem pid scid p out row OnAgentClicked i C = on_agent_clicked i C"

definition shown :: "chooser \<Rightarrow> nat \<Rightarrow> bool" where
  "shown C i \<longleftrightarrow> (\<exists>w \<in> set (ch_wins C). i \<in> set w)"

text \<open>A handler is connected to an object on the screen that takes input.\<close>

definition can_fire :: "chooser \<Rightarrow> nat \<Rightarrow> handler \<Rightarrow> bool" where
  "can_fire C i h \<longleftrightarrow> shown C i \<and> w_sensitive (ch_ui C ! i) \<and> h \<in> snd ` set (w_signals (ch_ui C ! i))"

definition close_chooser :: "nat list \<Rightarrow> chooser \<Rightarrow> chooser" where
  "close_chooser w C = C\<lparr>ch_ui := gtk_window_destroy w (ch_ui C), ch_wins := remove1 w (ch_wins C)\<rparr>"

inductive chooser_step :: "proc \<Rightarrow> chooser \<Rightarrow> chooser \<Rightarrow> bool" for p where
  activate: "on_activate mem pid scid p out C = Some (C', scid') \<Longrightarrow> chooser_step p C C'"
| close: "w \<in> set (ch_wins C) \<Longrightarrow> chooser_step p C (close_chooser w C)"
| typed: "shown C i \<Longrightarrow> w_class (ch_ui C ! i) = Entry \<Longrightarrow>
    chooser_step p C (C\<lparr>ch_ui := set_text i (Typed s) (ch_ui C)\<rparr>)"
| selected: "shown C i \<Longrightarrow> w_class (ch_ui C ! i) = DropDown items \<Longrightarrow> n < length items \<Longrightarrow>
    chooser_step p C (C\<lparr>ch_ui := set_selected i n (ch_ui C)\<rparr>)"
| toggled: "shown C i \<Longrightarrow> w_class (ch_ui C ! i) = CheckButton \<Longrightarrow>
    chooser_step p C (C\<lparr>ch_ui := set_active i b (ch_ui C)\<rparr>)"
| signal: "can_fire C i h \<Longrightarrow> (h = OnRowActivated \<Longrightarrow> row \<in> set (ch_rows C i)) \<Longrightarrow>
    run_handler mem pid scid p out row h i C = Some C' \<Longrightarrow> chooser_step p C C'"
| scan_done: "ctx \<in> set (ch_scans C) \<Longrightarrow> agent_scan_thread E p (sc_ip ctx) (sc_port ctx) w = Some ((devs, msg), w') \<Longrightarrow>
    agent_scan_done p out ctx devs msg C = Some C' \<Longrightarrow> chooser_step p C C'"
| probe_done: "ctx \<in> set (ch_probes C) \<Longrightarrow> auto_probe_thread E (ap_host ctx) w = Some (found, w') \<Longrightarrow>
    auto_probe_done p out ctx found C = Some C' \<Longrightarrow> chooser_step p C C'"
| sessions: "chooser_step p C (C\<lparr>ch_app := (ch_app C)\<lparr>sessions := ss\<rparr>\<rparr>)"

definition no_settings :: "app \<Rightarrow> bool" where
  "no_settings a \<longleftrightarrow> dd_size a = None \<and> dd_bitrate a = None \<and> cb_control a = None \<and> cb_audio a = None \<and> cb_fps a = None"

definition chooser_start :: "chooser \<Rightarrow> bool" where
  "chooser_start C \<longleftrightarrow> ch_ui C = [] \<and> ch_wins C = [] \<and> ch_scans C = [] \<and> ch_probes C = [] \<and> ch_probed C = [] \<and>
     no_settings (ch_app C)"

section \<open>References\<close>

text \<open>Who refers to the objects: the windows, the scans and the probes.\<close>

definition ctx_objs :: "agent_scan \<Rightarrow> nat list" where
  "ctx_objs s = [sc_entry s, sc_btn s, sc_status s, sc_list s]"

definition held :: "chooser \<Rightarrow> nat multiset" where
  "held C = mset (concat (ch_wins C)) + mset (concat (map ctx_objs (ch_scans C))) + mset (map ap_list (ch_probes C))"

definition refs_ok :: "('t, 'h) ui \<Rightarrow> nat multiset \<Rightarrow> bool" where
  "refs_ok ui M \<longleftrightarrow> (\<forall>i < length ui. refs_of ui ! i = count M i) \<and> (\<forall>i \<in># M. i < length ui)"

lemma refs_ok_live: "refs_ok ui M \<Longrightarrow> live i ui \<longleftrightarrow> i \<in># M"
  by (auto simp: refs_ok_def live_iff)

lemma refs_ok_ref: "refs_ok ui M \<Longrightarrow> i < length ui \<Longrightarrow> refs_ok (g_object_ref i ui) (add_mset i M)"
  by (simp add: refs_ok_def)

lemma refs_ok_unref: "refs_ok ui M \<Longrightarrow> refs_ok (g_object_unref i ui) (M - {#i#})"
  by (auto simp: refs_ok_def dest: in_diffD)

lemma refs_ok_refs: "refs_ok ui M \<Longrightarrow> i < length ui \<Longrightarrow>
  refs_ok (fold (\<lambda>_. g_object_ref i) xs ui) (replicate_mset (length xs) i + M)"
proof (induction xs arbitrary: ui M)
  case (Cons x xs)
  from Cons.IH [OF refs_ok_ref [OF Cons.prems]] Cons.prems(2) show ?case by simp
qed simp

lemma refs_ok_destroy: "refs_ok ui M \<Longrightarrow> refs_ok (gtk_window_destroy w ui) (M - mset w)"
  unfolding gtk_window_destroy_def
proof (induction w arbitrary: ui M)
  case (Cons x w)
  from Cons.IH [OF refs_ok_unref [OF Cons.prems]] show ?case by simp
qed simp

lemma refs_ok_keeps [simp]:
  "refs_ok (set_sensitive i b ui) M = refs_ok ui M" "refs_ok (set_text i t ui) M = refs_ok ui M"
  "refs_ok (set_selected i n ui) M = refs_ok ui M" "refs_ok (set_active i b ui) M = refs_ok ui M"
  by (simp_all add: refs_ok_def)

lemma fold_ref_keeps [simp]:
  "shape (fold (\<lambda>_. g_object_ref i) xs ui) = shape ui" "sensitive (fold (\<lambda>_. g_object_ref i) xs ui) = sensitive ui"
  "length (fold (\<lambda>_. g_object_ref i) xs ui) = length ui"
  by (induction xs arbitrary: ui) simp_all

section \<open>The layout\<close>

text \<open>The store is a sequence of choosers of 21 objects each.\<close>

definition chooser_base :: "('t, 'h) ui \<Rightarrow> nat \<Rightarrow> bool" where
  "chooser_base ui n \<longleftrightarrow> 21 dvd n \<and> n + 21 \<le> length ui"

definition plan :: "nat \<Rightarrow> (wclass \<times> nat list \<times> (string \<rightharpoonup> nat) \<times> (string \<times> handler) list) list" where
  "plan n = shape (blueprint undefined n)"

lemma plan_eq: "shape (blueprint a n) = plan n"
  by (simp add: plan_def shape_def blueprint_def fixed_def obj_def)

lemma plan_length [simp]: "length (plan n) = 21" "length (blueprint a n) = 21"
  by (simp_all add: plan_def blueprint_def)

definition laid_out :: "chooser_ui \<Rightarrow> bool" where
  "laid_out ui \<longleftrightarrow> 21 dvd length ui \<and> (\<forall>i < length ui. shape ui ! i = plan (i - i mod 21) ! (i mod 21))"

lemma laid_out_build:
  assumes "laid_out ui"
  shows "laid_out (ui @ blueprint a (length ui))"
proof -
  have d: "21 dvd length ui" using assms by (simp add: laid_out_def)
  have "shape (ui @ blueprint a (length ui)) ! i = plan (i - i mod 21) ! (i mod 21)" if "i < length ui + 21" for i
  proof (cases "i < length ui")
    case True
    with assms show ?thesis by (simp add: laid_out_def shape_def nth_append)
  next
    case False
    define j where "j = i - length ui"
    have j: "i = length ui + j" "j < 21" using False that by (simp_all add: j_def)
    have "i mod 21 = j" using j d by (auto elim!: dvdE)
    with j show ?thesis by (simp add: plan_eq [of a, symmetric]) (simp add: shape_def nth_append)
  qed
  then show ?thesis using d by (simp add: laid_out_def)
qed

lemma laid_out_at:
  assumes "laid_out ui" and "chooser_base ui n" and "j < 21"
  shows "shape ui ! (n + j) = plan n ! j" "n + j < length ui"
proof -
  show b: "n + j < length ui" using assms(2,3) by (simp add: chooser_base_def)
  have "(n + j) mod 21 = j" using assms(2,3) by (auto simp: chooser_base_def elim!: dvdE)
  with assms(1) b show "shape ui ! (n + j) = plan n ! j" by (simp add: laid_out_def)
qed

text \<open>The data of the entry and of the buttons.\<close>

lemma layout_data:
  assumes "laid_out ui" and "chooser_base ui n"
  shows "g_object_get_data (n + 16) ''list'' ui = Some (n + 15)"
    "g_object_get_data (n + 19) ''entry'' ui = Some (n + 18)"
    "g_object_get_data (n + 18) ''btn'' ui = Some (n + 19)"
    "g_object_get_data (n + 18) ''status'' ui = Some (n + 20)"
    "g_object_get_data (n + 18) ''list'' ui = Some (n + 15)"
  using laid_out_at [OF assms, of 16] laid_out_at [OF assms, of 18] laid_out_at [OF assms, of 19]
  by (simp_all add: get_data_shape) (simp_all add: plan_def shape_def blueprint_def fixed_def)

lemma find_base:
  assumes "laid_out ui" and "i < length ui"
  obtains n j where "chooser_base ui n" "j < 21" "i = n + j"
proof -
  from assms obtain K where K: "length ui = 21 * K" by (auto simp: laid_out_def)
  have "i div 21 < K" using assms(2) K by (simp add: div_less_iff_less_mult)
  then have "21 * (i div 21) + 21 \<le> length ui" using K by simp
  then show ?thesis
    by (intro that [of "21 * (i div 21)" "i mod 21"]) (auto simp: chooser_base_def)
qed

lemma plan_signals:
  "j < 21 \<Longrightarrow> snd (snd (snd (plan n ! j))) =
     (if j = 15 then [(''row-activated'', OnRowActivated)] else if j = 16 then [(''clicked'', OnRefresh)]
      else if j = 18 then [(''activate'', OnAgentActivate)] else if j = 19 then [(''clicked'', OnAgentClicked)] else [])"
  unfolding plan_def
  by (auto simp: less_Suc_eq eval_nat_numeral shape_def blueprint_def fixed_def obj_def)

lemma layout_signals:
  assumes "laid_out ui" and "i < length ui" and "h \<in> snd ` set (w_signals (ui ! i))"
  obtains n where "chooser_base ui n" "h = OnRowActivated \<longrightarrow> i = n + 15" "h = OnRefresh \<longrightarrow> i = n + 16"
    "h = OnAgentActivate \<longrightarrow> i = n + 18" "h = OnAgentClicked \<longrightarrow> i = n + 19"
proof -
  obtain n j where n: "chooser_base ui n" "j < 21" "i = n + j" using find_base [OF assms(1,2)] .
  have "w_signals (ui ! i) = snd (snd (snd (shape ui ! i)))" using assms(2) by (simp add: shape_def fixed_def)
  also have "\<dots> = snd (snd (snd (plan n ! j)))" using laid_out_at [OF assms(1) n(1,2)] n(3) by simp
  finally show ?thesis using assms(3) n by (intro that [of n]) (auto simp: plan_signals split: if_splits)
qed

lemma laid_out_shape: "laid_out ui \<Longrightarrow> shape ui' = shape ui \<Longrightarrow> laid_out ui'"
  by (metis laid_out_def ui_length(7))

section \<open>The invariant\<close>

definition scan_at :: "agent_scan \<Rightarrow> nat \<Rightarrow> bool" where
  "scan_at s n \<longleftrightarrow> sc_entry s = n + 18 \<and> sc_btn s = n + 19 \<and> sc_status s = n + 20 \<and> sc_list s = n + 15"

text \<open>The settings are those of the chooser shown last.\<close>

definition settings_at :: "app \<Rightarrow> nat \<Rightarrow> bool" where
  "settings_at a k \<longleftrightarrow>
     (if k = 0 then no_settings a
      else dd_size a = Some (k - 17) \<and> dd_bitrate a = Some (k - 14) \<and> cb_control a = Some (k - 11) \<and>
        cb_audio a = Some (k - 10) \<and> cb_fps a = Some (k - 9))"

definition chooser_ok :: "chooser \<Rightarrow> bool" where
  "chooser_ok C \<longleftrightarrow>
     laid_out (ch_ui C) \<and> refs_ok (ch_ui C) (held C) \<and>
     (\<forall>w \<in> set (ch_wins C). \<exists>n. chooser_base (ch_ui C) n \<and> w = [n..<n + 21]) \<and>
     (\<forall>s \<in> set (ch_scans C). \<exists>n. chooser_base (ch_ui C) n \<and> scan_at s n) \<and> distinct (map sc_entry (ch_scans C)) \<and>
     (\<forall>q \<in> set (ch_probes C). ap_list q mod 21 = 15) \<and> distinct (ch_probed C) \<and> set (ch_probed C) \<subseteq> probed_hosts (ch_app C) \<and>
     settings_at (ch_app C) (length (ch_ui C))"

text \<open>The list of a chooser.\<close>

lemma base_list: "chooser_base ui n \<Longrightarrow> (n + 15) mod 21 = 15"
  by (auto simp: chooser_base_def elim!: dvdE)

text \<open>The entry and its button take input when no scan of theirs is under way.\<close>

definition entries_ok :: "chooser \<Rightarrow> bool" where
  "entries_ok C \<longleftrightarrow> (\<forall>n. chooser_base (ch_ui C) n \<longrightarrow>
     sensitive (ch_ui C) ! (n + 18) = (n + 18 \<notin> sc_entry ` set (ch_scans C)) \<and>
     sensitive (ch_ui C) ! (n + 19) = (n + 18 \<notin> sc_entry ` set (ch_scans C)))"

lemma chooser_base_length: "length ui' = length ui \<Longrightarrow> chooser_base ui' = chooser_base ui"
  by (simp add: fun_eq_iff chooser_base_def)

text \<open>An object on the screen or of a scan is referred to.\<close>

lemma shown_held: "shown C i \<Longrightarrow> i \<in># held C"
  by (auto simp: shown_def held_def)

lemma ctx_held: "s \<in> set (ch_scans C) \<Longrightarrow> i \<in> set (ctx_objs s) \<Longrightarrow> i \<in># held C"
  by (auto simp: held_def)

lemma probe_held: "q \<in> set (ch_probes C) \<Longrightarrow> ap_list q \<in># held C"
  by (auto simp: held_def)

lemma held_in_store: "chooser_ok C \<Longrightarrow> i \<in># held C \<Longrightarrow> i < length (ch_ui C) \<and> live i (ch_ui C)"
  using refs_ok_live [of "ch_ui C" "held C" i] by (auto simp: chooser_ok_def refs_ok_def)

text \<open>A window shows a whole chooser.\<close>

lemma shown_base:
  assumes "chooser_ok C" and "shown C i" and "chooser_base (ch_ui C) n" and "n \<le> i" and "i < n + 21" and "j < 21"
  shows "shown C (n + j)"
proof -
  from assms(1,2) obtain w m where w: "w \<in> set (ch_wins C)" "i \<in> set w" "chooser_base (ch_ui C) m" "w = [m..<m + 21]"
    by (auto simp: shown_def chooser_ok_def)
  from w(3) assms(3) obtain a b where "m = 21 * a" "n = 21 * b" by (auto simp: chooser_base_def elim!: dvdE)
  with w(2,4) assms(4,5) have "m = n" by auto
  with w(1,4) assms(6) show ?thesis by (auto simp: shown_def intro!: bexI [of _ "[n..<n + 21]"])
qed

text \<open>When the scan of one entry begins or ends, the others stay as they are.\<close>

lemma entry_base_unique:
  assumes "chooser_base ui n" and "chooser_base ui m"
  shows "n + 19 \<noteq> m + 18"
  using assms by (simp add: chooser_base_def) presburger

lemma entries_ok_set:
  assumes "entries_ok C" and n: "chooser_base (ch_ui C) n" and len: "length (ch_ui C') = length (ch_ui C)"
    and "sensitive (ch_ui C') = (sensitive (ch_ui C))[n + 18 := b, n + 19 := b]"
    and "sc_entry ` set (ch_scans C') =
      (if b then sc_entry ` set (ch_scans C) - {n + 18} else insert (n + 18) (sc_entry ` set (ch_scans C)))"
  shows "entries_ok C'"
  unfolding entries_ok_def
proof (intro allI impI)
  fix m assume "chooser_base (ch_ui C') m"
  then have mb: "chooser_base (ch_ui C) m" by (simp add: chooser_base_def len)
  have "m + 18 < length (ch_ui C)" "m + 19 < length (ch_ui C)" using mb by (simp_all add: chooser_base_def)
  then show "sensitive (ch_ui C') ! (m + 18) = (m + 18 \<notin> sc_entry ` set (ch_scans C')) \<and>
      sensitive (ch_ui C') ! (m + 19) = (m + 18 \<notin> sc_entry ` set (ch_scans C'))"
    unfolding assms(4,5) using assms(1) mb entry_base_unique [OF n mb] entry_base_unique [OF mb n]
    by (cases "m = n") (simp_all add: entries_ok_def)
qed

section \<open>Showing the devices\<close>

lemma auto_probe_agents_spec:
  "auto_probe_agents ds a = (hs, a') \<Longrightarrow>
     distinct hs \<and> set hs \<inter> probed_hosts a = {} \<and> a' = a\<lparr>probed_hosts := set hs \<union> probed_hosts a\<rparr>"
proof (induction ds arbitrary: a hs)
  case (Cons d ds)
  show ?case
  proof (cases "dev_is_wireless (d_serial d) \<and> agent_devs a (d_serial d) = None \<and>
      (\<exists>h. serial_host (d_serial d) = Some h \<and> h \<notin> probed_hosts a)")
    case True
    then obtain h hs0 where h: "h \<notin> probed_hosts a" "hs = h # hs0"
      and r: "auto_probe_agents ds (a\<lparr>probed_hosts := insert h (probed_hosts a)\<rparr>) = (hs0, a')"
      using Cons.prems by (auto split: prod.splits)
    from Cons.IH [OF r] h show ?thesis by auto
  next
    case False
    then have "auto_probe_agents ds a = (hs, a')" using Cons.prems by (auto split: if_splits option.splits)
    from Cons.IH [OF this] show ?thesis .
  qed
qed simp

lemma populate_devices_spec:
  assumes "populate_devices p out a = (rows, hs, a')"
  shows "distinct hs" "set hs \<inter> probed_hosts a = {}" "a' = a\<lparr>probed_hosts := set hs \<union> probed_hosts a\<rparr>"
  using assms auto_probe_agents_spec [of "list_adb_devices p out" a hs a']
  by (auto simp: populate_devices_def Let_def split: prod.splits)

lemma show_devices_spec:
  assumes ok: "chooser_ok C" and l: "list \<in># held C" and m: "list mod 21 = 15"
  obtains C' where "show_devices p out list C = Some C'" "chooser_ok C'" "ch_scans C' = ch_scans C" "ch_wins C' = ch_wins C"
    "sensitive (ch_ui C') = sensitive (ch_ui C)" "length (ch_ui C') = length (ch_ui C)" "held C \<subseteq># held C'"
    "set (ch_probes C) \<subseteq> set (ch_probes C')"
proof -
  obtain rows hs a' where p: "populate_devices p out (ch_app C) = (rows, hs, a')" by (metis prod_cases3)
  note s = populate_devices_spec [OF p]
  let ?C = "C\<lparr>ch_app := a', ch_ui := fold (\<lambda>_. g_object_ref list) hs (ch_ui C), ch_rows := (ch_rows C)(list := rows),
     ch_probes := map (\<lambda>h. \<lparr>ap_list = list, ap_host = h\<rparr>) hs @ ch_probes C, ch_probed := hs @ ch_probed C\<rparr>"
  have live: "list < length (ch_ui C)" "live list (ch_ui C)" using held_in_store [OF ok l] by auto
  have held: "held ?C = replicate_mset (length hs) list + held C"
    by (simp add: held_def o_def map_replicate_const)
  have "refs_ok (ch_ui ?C) (held ?C)"
    using ok live(1) refs_ok_refs [of "ch_ui C" "held C" list hs] unfolding held by (simp add: chooser_ok_def)
  then have "chooser_ok ?C"
    unfolding chooser_ok_def
    using ok s m laid_out_shape [of "ch_ui C"]
    by (auto simp: chooser_ok_def chooser_base_def settings_at_def no_settings_def)
  then show ?thesis
    by (intro that [of ?C]) (use live in \<open>simp_all add: show_devices_def with_live_def p held\<close>)
qed

section \<open>Scans and probes\<close>

text \<open>Taking and giving up references one after the other.\<close>

lemma unref_step:
  assumes "refs_ok ui M" and "add_mset i N \<subseteq># M"
  shows "with_live i (g_object_unref i) ui = Some (g_object_unref i ui)" "refs_ok (g_object_unref i ui) (M - {#i#})"
    "N \<subseteq># M - {#i#}"
proof -
  have "i \<in># M" using assms(2) by (rule mset_subset_eqD) simp
  then show "with_live i (g_object_unref i) ui = Some (g_object_unref i ui)"
    using assms(1) by (simp add: with_live_def refs_ok_live)
qed (use assms in \<open>simp_all add: refs_ok_unref insert_subset_eq_iff\<close>)

lemma ref_step:
  assumes "refs_ok ui M" and "i \<in># M"
  shows "with_live i (g_object_ref i) ui = Some (g_object_ref i ui)" "refs_ok (g_object_ref i ui) (add_mset i M)"
  using assms refs_ok_ref [OF assms(1), of i] by (simp_all add: with_live_def refs_ok_live) (simp add: refs_ok_def)

lemma live_step: "refs_ok ui M \<Longrightarrow> i \<in># M \<Longrightarrow> with_live i f ui = Some (f ui)"
  by (simp add: with_live_def refs_ok_live)

lemma held_remove_scan:
  assumes "s \<in> set (ch_scans C)"
  shows "held C = mset (ctx_objs s) + held (C\<lparr>ch_ui := ui, ch_scans := remove1 s (ch_scans C)\<rparr>)"
proof -
  have "mset (concat (map ctx_objs xs)) = mset (ctx_objs s) + mset (concat (map ctx_objs (remove1 s xs)))"
    if "s \<in> set xs" for xs using that by (induction xs) auto
  with assms show ?thesis by (simp add: held_def)
qed

lemma held_remove_probe:
  assumes "q \<in> set (ch_probes C)"
  shows "held C = add_mset (ap_list q) (held (C\<lparr>ch_ui := ui, ch_probes := remove1 q (ch_probes C)\<rparr>))"
proof -
  have "mset (map ap_list xs) = add_mset (ap_list q) (mset (map ap_list (remove1 q xs)))" if "q \<in> set xs" for xs
    using that by (induction xs) auto
  with assms show ?thesis by (simp add: held_def)
qed

text \<open>What a change of the objects and the application must keep.\<close>

lemma chooser_ok_update:
  assumes "chooser_ok C" and "shape ui = shape (ch_ui C)" and "refs_ok ui M"
    and "M = held (C\<lparr>ch_app := a, ch_ui := ui, ch_scans := ss, ch_probes := ps\<rparr>)"
    and "\<And>s. s \<in> set ss \<Longrightarrow> \<exists>n. chooser_base ui n \<and> scan_at s n" and "distinct (map sc_entry ss)"
    and "\<And>q. q \<in> set ps \<Longrightarrow> ap_list q mod 21 = 15"
    and "probed_hosts (ch_app C) \<subseteq> probed_hosts a" and "\<And>k. settings_at (ch_app C) k \<Longrightarrow> settings_at a k"
  shows "chooser_ok (C\<lparr>ch_app := a, ch_ui := ui, ch_scans := ss, ch_probes := ps\<rparr>)"
proof -
  have l: "length ui = length (ch_ui C)" using arg_cong [OF assms(2), of length] by simp
  show ?thesis
    unfolding chooser_ok_def
    using assms laid_out_shape [OF _ assms(2)] by (simp add: chooser_ok_def chooser_base_length [OF l] l) blast
qed

lemma register_settings [simp]:
  "settings_at (register_devs ads a) = settings_at a" "probed_hosts (register_devs ads a) = probed_hosts a"
  by (simp_all add: fun_eq_iff settings_at_def no_settings_def register_devs_def)

lemma auto_probe_done_spec:
  assumes ok: "chooser_ok C" and eo: "entries_ok C" and q: "q \<in> set (ch_probes C)"
  obtains C' where "auto_probe_done p out q found C = Some C'" "chooser_ok C'" "entries_ok C'"
proof -
  obtain C1 where C1: "(case found of None \<Rightarrow> Some C
        | Some ads \<Rightarrow> show_devices p out (ap_list q) (C\<lparr>ch_app := register_devs ads (ch_app C)\<rparr>)) = Some C1"
    "chooser_ok C1" "entries_ok C1" "q \<in> set (ch_probes C1)"
  proof (cases found)
    case None
    with that [of C] ok eo q show ?thesis by simp
  next
    case (Some ads)
    let ?C = "C\<lparr>ch_app := register_devs ads (ch_app C)\<rparr>"
    have k: "chooser_ok ?C" "held ?C = held C" using ok by (simp_all add: chooser_ok_def held_def)
    with q have "ap_list q \<in># held ?C" by (simp add: probe_held)
    moreover have "ap_list q mod 21 = 15" using ok q by (simp add: chooser_ok_def)
    ultimately have l: "ap_list q \<in># held ?C" "ap_list q mod 21 = 15" .
    from show_devices_spec [OF k(1) l, of p out] obtain C2 where
      "show_devices p out (ap_list q) ?C = Some C2" "chooser_ok C2" "ch_scans C2 = ch_scans ?C"
      "sensitive (ch_ui C2) = sensitive (ch_ui ?C)" "length (ch_ui C2) = length (ch_ui ?C)" "set (ch_probes ?C) \<subseteq> set (ch_probes C2)"
      by metis
    with Some q eo show ?thesis by (intro that [of C2]) (auto simp: entries_ok_def chooser_base_def)
  qed
  let ?u = "g_object_unref (ap_list q) (ch_ui C1)" and ?ps = "remove1 q (ch_probes C1)"
  let ?C' = "C1\<lparr>ch_app := ch_app C1, ch_ui := ?u, ch_scans := ch_scans C1, ch_probes := ?ps\<rparr>"
  have r: "refs_ok (ch_ui C1) (held C1)" using C1(2) by (simp add: chooser_ok_def)
  have h: "held C1 = add_mset (ap_list q) (held ?C')" using held_remove_probe [OF C1(4), of ?u] by (simp add: held_def)
  then have "add_mset (ap_list q) {#} \<subseteq># held C1" by simp
  note u = unref_step [OF r this]
  have "chooser_ok ?C'"
    by (rule chooser_ok_update [OF C1(2) _ u(2)])
      (use C1(2) h notin_set_remove1 in \<open>auto simp: chooser_ok_def chooser_base_def\<close>)
  moreover have "entries_ok ?C'" using C1(3) by (simp add: entries_ok_def chooser_base_def)
  moreover have "auto_probe_done p out q found C = Some ?C'" using C1(1) u(1) by (simp add: auto_probe_done_def)
  ultimately show ?thesis by (rule that [rotated])
qed

lemma agent_scan_done_spec:
  assumes ok: "chooser_ok C" and eo: "entries_ok C" and c: "c \<in> set (ch_scans C)"
  obtains C' where "agent_scan_done p out c devs msg C = Some C'" "chooser_ok C'" "entries_ok C'"
proof -
  obtain n where n: "chooser_base (ch_ui C) n" "scan_at c n" using ok c by (auto simp: chooser_ok_def)
  let ?ui1 = "set_sensitive (sc_btn c) True (set_sensitive (sc_entry c) True (set_text (sc_status c) (T_Result msg) (ch_ui C)))"
  let ?C1 = "C\<lparr>ch_app := register_devs devs (ch_app C), ch_ui := ?ui1\<rparr>"
  have r: "refs_ok (ch_ui C) (held C)" and h1: "held ?C1 = held C" using ok by (simp_all add: chooser_ok_def held_def)
  have objs: "i \<in># held C" if "i \<in> set (ctx_objs c)" for i using ctx_held [OF c that] .
  have live: "live i (ch_ui C)" if "i \<in> set (ctx_objs c)" for i using objs [OF that] r by (simp add: refs_ok_live)
  have ok1: "chooser_ok ?C1"
    using ok laid_out_shape [of "ch_ui C" ?ui1] by (simp add: chooser_ok_def h1 chooser_base_def)
  have "sc_list c \<in># held ?C1" using objs [of "sc_list c"] h1 by (simp add: ctx_objs_def)
  moreover have "sc_list c mod 21 = 15" using base_list [OF n(1)] n(2) by (simp add: scan_at_def)
  ultimately have l: "sc_list c \<in># held ?C1" "sc_list c mod 21 = 15" .
  from show_devices_spec [OF ok1 l, of p out] obtain C2 where
    s2: "show_devices p out (sc_list c) ?C1 = Some C2" "chooser_ok C2" "ch_scans C2 = ch_scans C"
      "sensitive (ch_ui C2) = sensitive ?ui1" "length (ch_ui C2) = length (ch_ui C)" "held ?C1 \<subseteq># held C2"
    by simp metis
  have r2: "refs_ok (ch_ui C2) (held C2)" using s2(2) by (simp add: chooser_ok_def)
  have c2: "c \<in> set (ch_scans C2)" using c s2(3) by simp
  let ?us = "[sc_entry c, sc_btn c, sc_status c, sc_list c]"
  let ?ui = "fold g_object_unref ?us (ch_ui C2)" and ?ss = "remove1 c (ch_scans C2)"
  let ?C' = "C2\<lparr>ch_app := ch_app C2, ch_ui := ?ui, ch_scans := ?ss, ch_probes := ch_probes C2\<rparr>"
  have h2: "held C2 = mset ?us + held ?C'"
    using held_remove_scan [OF c2, of ?ui] by (simp add: held_def ctx_objs_def)
  have sub: "{#sc_entry c, sc_btn c, sc_status c, sc_list c#} \<subseteq># held C2" unfolding h2 by simp
  note u1 = unref_step [OF r2 sub]
  note u2 = unref_step [OF u1(2,3)]
  note u3 = unref_step [OF u2(2,3)]
  note u4 = unref_step [OF u3(2,3)]
  have "refs_ok ?ui (held ?C')" using u4(2) h2 by simp
  moreover have "distinct (map sc_entry ?ss)"
    using s2(2) distinct_map_filter [of sc_entry "ch_scans C2" "\<lambda>x. c \<noteq> x"]
    by (simp add: chooser_ok_def distinct_remove1_removeAll removeAll_filter_not_eq distinct_map)
  ultimately have "chooser_ok ?C'"
    by (intro chooser_ok_update [OF s2(2)])
      (use s2(2) notin_set_remove1 in \<open>auto simp: chooser_ok_def chooser_base_def\<close>)
  moreover have "entries_ok ?C'"
  proof (rule entries_ok_set [OF eo n(1), of _ True])
    show "sensitive (ch_ui ?C') = (sensitive (ch_ui C))[n + 18 := True, n + 19 := True]"
      using n(2) by (simp add: s2(4) scan_at_def)
    show "sc_entry ` set (ch_scans ?C') = (if True then sc_entry ` set (ch_scans C) - {n + 18}
        else insert (n + 18) (sc_entry ` set (ch_scans C)))"
      using s2(2,3) c n(2) by (auto simp: chooser_ok_def distinct_map inj_on_def scan_at_def)
  qed (simp add: s2(5))
  moreover have "agent_scan_done p out c devs msg C = Some ?C'"
    using live s2(1) u1(1) u2(1) u3(1) u4(1)
    by (simp add: agent_scan_done_def with_live_def ctx_objs_def del: fold.simps) simp
  ultimately show ?thesis by (rule that [rotated])
qed

lemma agent_scan_start_spec:
  assumes ok: "chooser_ok C" and eo: "entries_ok C" and n: "chooser_base (ch_ui C) n" and sh: "shown C (n + 18)"
    and idle: "n + 18 \<notin> sc_entry ` set (ch_scans C)"
  obtains C' where "agent_scan_start (n + 18) C = Some C'" "chooser_ok C'" "entries_ok C'"
proof (cases "entry_text (n + 18) (ch_ui C) = []")
  case True
  have "live (n + 18) (ch_ui C)" using held_in_store [OF ok shown_held [OF sh]] by simp
  with True that [of C] ok eo show ?thesis by (simp add: agent_scan_start_def with_live_def)
next
  case False
  obtain ip port where t: "scan_target (entry_text (n + 18) (ch_ui C)) = (ip, port)" by fastforce
  have lo: "laid_out (ch_ui C)" and r: "refs_ok (ch_ui C) (held C)" using ok by (simp_all add: chooser_ok_def)
  note data = layout_data [OF lo n]
  have hm: "n + j \<in># held C" if "j < 21" for j
    using shown_base [OF ok sh n _ _ that] by (simp add: shown_held)
  have ge: "i \<in># add_mset j M" if "i \<in># M" for i j and M :: "nat multiset" using that by simp
  note r1 = ref_step [OF r hm [of 18]]
  note r2 = ref_step [OF r1(2) ge [OF hm [of 19]]]
  note r3 = ref_step [OF r2(2) ge [OF ge [OF hm [of 20]]]]
  note r4 = ref_step [OF r3(2) ge [OF ge [OF ge [OF hm [of 15]]]]]
  define ui1 where "ui1 = g_object_ref (n + 15) (g_object_ref (n + 20) (g_object_ref (n + 19) (g_object_ref (n + 18) (ch_ui C))))"
  define M where "M = add_mset (n + 15) (add_mset (n + 20) (add_mset (n + 19) (add_mset (n + 18) (held C))))"
  have r5: "refs_ok ui1 M" using r4(2) by (simp add: ui1_def M_def)
  define ui2 where "ui2 = set_text (n + 20) T_Scanning (set_sensitive (n + 19) False (set_sensitive (n + 18) False ui1))"
  let ?s = "\<lparr>sc_entry = n + 18, sc_btn = n + 19, sc_status = n + 20, sc_list = n + 15, sc_ip = ip, sc_port = port\<rparr>"
  let ?a = "(ch_app C)\<lparr>probed_hosts := insert ip (probed_hosts (ch_app C))\<rparr>"
  let ?C' = "C\<lparr>ch_app := ?a, ch_ui := ui2, ch_scans := ?s # ch_scans C, ch_probes := ch_probes C\<rparr>"
  have len: "length ui2 = length (ch_ui C)" and shp: "shape ui2 = shape (ch_ui C)" by (simp_all add: ui2_def ui1_def)
  have "live (n + j) ui1" if "j < 21" for j using hm [OF that] r5 by (simp add: refs_ok_live M_def)
  then have run: "agent_scan_start (n + 18) C = Some ?C'"
    using r1(1) r2(1) r3(1) r4(1) held_in_store [OF ok hm [of 18]]
    by (simp add: agent_scan_start_def False t ui2_def ui1_def [symmetric] with_live_def [of "n + 18" "entry_text (n + 18)"]
        with_live_def [of _ "set_sensitive _ _"] with_live_def [of _ "set_text _ _"] data get_data_keeps)
  have "chooser_ok ?C'"
  proof (rule chooser_ok_update [OF ok shp, of M])
    show "refs_ok ui2 M" using r5 by (simp add: ui2_def)
    show "M = held ?C'" by (simp add: M_def held_def ctx_objs_def)
    show "\<exists>n. chooser_base ui2 n \<and> scan_at s n" if "s \<in> set (?s # ch_scans C)" for s
      using that ok n by (auto simp: chooser_ok_def chooser_base_length [OF len] scan_at_def)
    show "distinct (map sc_entry (?s # ch_scans C))" using ok idle by (simp add: chooser_ok_def)
    show "ap_list q mod 21 = 15" if "q \<in> set (ch_probes C)" for q using that ok by (simp add: chooser_ok_def)
    show "probed_hosts (ch_app C) \<subseteq> probed_hosts ?a" by auto
    show "settings_at ?a k" if "settings_at (ch_app C) k" for k using that by (auto simp: settings_at_def no_settings_def split: if_splits)
  qed
  moreover have "entries_ok ?C'"
    by (rule entries_ok_set [OF eo n, of _ False]) (simp_all add: ui2_def ui1_def)
  ultimately show ?thesis using run by (intro that [of ?C'])
qed

text \<open>A new window.\<close>

lemma blueprint_fresh:
  "j < 21 \<Longrightarrow> w_refs (blueprint a n ! j) = 1 \<and> w_sensitive (blueprint a n ! j)"
  by (auto simp: less_Suc_eq eval_nat_numeral blueprint_def obj_def)

lemma refs_ok_build:
  assumes "refs_ok ui M"
  shows "refs_ok (ui @ blueprint a (length ui)) (mset [length ui..<length ui + 21] + M)"
proof -
  let ?k = "length ui" and ?ui = "ui @ blueprint a (length ui)"
  have inM: "i < ?k" if "i \<in># M" for i using assms that by (auto simp: refs_ok_def)
  have "refs_of ?ui ! i = count (mset [?k..<?k + 21] + M) i" if "i < ?k + 21" for i
  proof (cases "i < ?k")
    case True
    then have "i \<notin> set [?k..<?k + 21]" by simp
    with True assms show ?thesis by (simp add: refs_ok_def refs_of_def nth_append count_mset_0_iff del: upt_Suc)
  next
    case False
    then have "count M i = 0" using inM by (auto simp: count_eq_zero_iff)
    moreover have "count (mset [?k..<?k + 21]) i = 1"
      using False that by (intro distinct_count_atmost_1 [THEN iffD1, rule_format, THEN trans]) auto
    ultimately show ?thesis using False that blueprint_fresh [of "i - ?k"] by (simp add: refs_of_def nth_append)
  qed
  moreover have "i < ?k + 21" if "i \<in># mset [?k..<?k + 21] + M" for i using that inM by fastforce
  ultimately show ?thesis unfolding refs_ok_def by auto
qed

lemma chooser_show_spec:
  assumes ok: "chooser_ok C" and eo: "entries_ok C"
  obtains C' where "chooser_show p out C = Some C'" "chooser_ok C'" "entries_ok C'"
proof -
  let ?k = "length (ch_ui C)"
  let ?ui = "ch_ui C @ blueprint (ch_app C) ?k"
  let ?C1 = "C\<lparr>ch_app := built_app (ch_app C) ?k, ch_ui := ?ui, ch_wins := [?k..<?k + 21] # ch_wins C\<rparr>"
  have lo: "laid_out ?ui" and d: "21 dvd ?k" using ok laid_out_build by (auto simp: chooser_ok_def laid_out_def)
  have base: "chooser_base ?ui m \<longleftrightarrow> chooser_base (ch_ui C) m \<or> m = ?k" for m
    using d by (auto simp: chooser_base_def elim!: dvdE)
  have h: "held ?C1 = mset [?k..<?k + 21] + held C" by (simp add: held_def)
  have r: "refs_ok ?ui (held ?C1)" unfolding h using ok by (intro refs_ok_build) (simp add: chooser_ok_def)
  have "chooser_ok ?C1"
    unfolding chooser_ok_def using ok lo r
    by (auto simp: chooser_ok_def base settings_at_def built_app_def)
  moreover have "?k + 15 \<in># held ?C1" unfolding h by simp
  moreover have "(?k + 15) mod 21 = 15" using base base_list by blast
  ultimately obtain C' where C': "show_devices p out (?k + 15) ?C1 = Some C'" "chooser_ok C'" "ch_scans C' = ch_scans C"
    "sensitive (ch_ui C') = sensitive ?ui" "length (ch_ui C') = ?k + 21"
    using show_devices_spec [of ?C1 "?k + 15" p out] by (simp del: upt_Suc) metis
  have scans: "?k + 18 \<notin> sc_entry ` set (ch_scans C)"
    using ok by (fastforce simp: chooser_ok_def chooser_base_def scan_at_def)
  have "entries_ok C'"
    unfolding entries_ok_def
  proof (intro allI impI)
    fix m assume "chooser_base (ch_ui C') m"
    then consider "chooser_base (ch_ui C) m" | "m = ?k" using base by (auto simp: chooser_base_def C'(5))
    then show "sensitive (ch_ui C') ! (m + 18) = (m + 18 \<notin> sc_entry ` set (ch_scans C')) \<and>
        sensitive (ch_ui C') ! (m + 19) = (m + 18 \<notin> sc_entry ` set (ch_scans C'))"
    proof cases
      case 1
      with eo show ?thesis unfolding C'(3,4) by (simp add: entries_ok_def sensitive_def nth_append chooser_base_def)
    next
      case 2
      with scans blueprint_fresh [of 18] blueprint_fresh [of 19] show ?thesis unfolding C'(3,4) by (simp add: sensitive_def nth_append)
    qed
  qed
  with C' show ?thesis by (intro that [of C']) (simp_all add: chooser_show_def chooser_build_eq)
qed

section \<open>Every step keeps the invariant\<close>

lemma chooser_ok_app:
  assumes "chooser_ok C" "entries_ok C" and "settings_at a = settings_at (ch_app C)" "probed_hosts a = probed_hosts (ch_app C)"
  shows "chooser_ok (C\<lparr>ch_app := a\<rparr>)" "entries_ok (C\<lparr>ch_app := a\<rparr>)"
  using assms by (simp_all add: chooser_ok_def entries_ok_def held_def)

lemma chooser_ok_ui:
  assumes "chooser_ok C" "entries_ok C" and "shape ui = shape (ch_ui C)" "refs_of ui = refs_of (ch_ui C)"
    "sensitive ui = sensitive (ch_ui C)"
  shows "chooser_ok (C\<lparr>ch_ui := ui\<rparr>)" "entries_ok (C\<lparr>ch_ui := ui\<rparr>)"
proof -
  have l: "length ui = length (ch_ui C)" using arg_cong [OF assms(3), of length] by simp
  then show "chooser_ok (C\<lparr>ch_ui := ui\<rparr>)"
    using assms laid_out_shape [OF _ assms(3)] by (simp add: chooser_ok_def held_def refs_ok_def chooser_base_length [OF l])
  show "entries_ok (C\<lparr>ch_ui := ui\<rparr>)" using assms by (simp add: entries_ok_def chooser_base_length [OF l])
qed

lemma session_new_sessions:
  assumes "session_new mem pid scid ser tcp a = (a', scid')"
  shows "\<exists>ss. a' = a\<lparr>sessions := ss\<rparr>"
proof (cases "fst (rc_client_create mem pid scid (Some (s_cfg (choose_ports a ser (session_config a ser tcp)))))")
  case None
  with assms have "a' = a\<lparr>sessions := sessions a\<rparr>" by (simp add: session_new_def Let_def split: prod.splits)
  then show ?thesis by blast
next
  case (Some c)
  with assms show ?thesis by (simp add: session_new_def Let_def split: prod.splits) blast
qed

lemma settings_frame [simp]:
  "settings_at (a\<lparr>sessions := ss\<rparr>) = settings_at a" "probed_hosts (a\<lparr>sessions := ss\<rparr>) = probed_hosts a"
  by (simp_all add: fun_eq_iff settings_at_def no_settings_def)

lemma row_frame:
  assumes "on_row_activated mem pid scid ui row a = Some (a', scid')"
  shows "settings_at a' = settings_at a" "probed_hosts a' = probed_hosts a"
proof -
  obtain a1 ser tcp where a1: "read_settings ui a = Some a1" and n: "session_new mem pid scid (Some ser) tcp a1 = (a', scid')"
    using assms by (auto simp: on_row_activated_def bind_eq_Some_conv split: option.splits if_splits)
  obtain ss where "a' = a1\<lparr>sessions := ss\<rparr>" using session_new_sessions [OF n] by blast
  then show "settings_at a' = settings_at a" "probed_hosts a' = probed_hosts a"
    using read_settings_sel [OF a1] by (simp_all add: fun_eq_iff settings_at_def no_settings_def)
qed

text \<open>Every handler but the one for rows.\<close>

lemma handler_spec:
  assumes ok: "chooser_ok C" and eo: "entries_ok C" and f: "can_fire C i h" and h: "h \<noteq> OnRowActivated"
  obtains C' where "run_handler mem pid scid p out row h i C = Some C'" "chooser_ok C'" "entries_ok C'"
proof -
  have lo: "laid_out (ch_ui C)" using ok by (simp add: chooser_ok_def)
  have sh: "shown C i" and i: "i < length (ch_ui C)" using f held_in_store [OF ok shown_held] by (auto simp: can_fire_def)
  obtain n where n: "chooser_base (ch_ui C) n" "h = OnRefresh \<longrightarrow> i = n + 16" "h = OnAgentActivate \<longrightarrow> i = n + 18"
    "h = OnAgentClicked \<longrightarrow> i = n + 19" using layout_signals [OF lo i, of h] f by (auto simp: can_fire_def)
  note data = layout_data [OF lo n(1)]
  have sens: "sensitive (ch_ui C) ! i" using f i by (simp add: can_fire_def sensitive_def)
  show ?thesis
  proof (cases h)
    case OnRowActivated
    with h show ?thesis by simp
  next
    case OnRefresh
    with n have i16: "i = n + 16" by simp
    then have "shown C (n + 15)" using shown_base [OF ok sh n(1)] by simp
    from show_devices_spec [OF ok shown_held [OF this] base_list [OF n(1)], of p out] obtain C' where
      "show_devices p out (n + 15) C = Some C'" "chooser_ok C'" "ch_scans C' = ch_scans C"
      "sensitive (ch_ui C') = sensitive (ch_ui C)" "length (ch_ui C') = length (ch_ui C)" by metis
    with OnRefresh i16 data eo show ?thesis
      by (intro that [of C']) (simp_all add: on_refresh_def entries_ok_def chooser_base_def)
  next
    case OnAgentActivate
    with n have i18: "i = n + 18" by simp
    with sens eo n(1) have "n + 18 \<notin> sc_entry ` set (ch_scans C)" by (simp add: entries_ok_def)
    from agent_scan_start_spec [OF ok eo n(1) _ this] sh i18 OnAgentActivate that show ?thesis
      by (metis on_agent_activate_def run_handler.simps(3))
  next
    case OnAgentClicked
    with n have i19: "i = n + 19" by simp
    with sens eo n(1) have idle: "n + 18 \<notin> sc_entry ` set (ch_scans C)" by (simp add: entries_ok_def)
    have "shown C (n + 18)" using shown_base [OF ok sh n(1)] i19 by simp
    from agent_scan_start_spec [OF ok eo n(1) this idle] obtain C' where
      "agent_scan_start (n + 18) C = Some C'" "chooser_ok C'" "entries_ok C'" .
    with OnAgentClicked i19 data show ?thesis by (intro that [of C']) (simp_all add: on_agent_clicked_def)
  qed
qed

lemma close_chooser_ok:
  assumes ok: "chooser_ok C" and eo: "entries_ok C" and w: "w \<in> set (ch_wins C)"
  shows "chooser_ok (close_chooser w C)" "entries_ok (close_chooser w C)"
proof -
  let ?ui = "gtk_window_destroy w (ch_ui C)"
  have "mset (concat xs) = mset w + mset (concat (remove1 w xs))" if "w \<in> set xs" for xs :: "nat list list"
    using that by (induction xs) auto
  from this [OF w] have "held (close_chooser w C) = held C - mset w" by (simp add: held_def close_chooser_def)
  moreover have "refs_ok ?ui (held C - mset w)" using ok by (intro refs_ok_destroy) (simp add: chooser_ok_def)
  ultimately show "chooser_ok (close_chooser w C)"
    using ok laid_out_shape [of "ch_ui C" ?ui]
    by (auto simp: chooser_ok_def close_chooser_def chooser_base_def dest: notin_set_remove1)
  show "entries_ok (close_chooser w C)" using eo by (simp add: entries_ok_def close_chooser_def chooser_base_def)
qed

definition chooser_inv :: "chooser \<Rightarrow> bool" where
  "chooser_inv C \<longleftrightarrow> chooser_ok C \<and> entries_ok C"

lemma chooser_step_inv:
  assumes "chooser_step p C C'" and "chooser_inv C"
  shows "chooser_inv C'"
  using assms
proof (induction rule: chooser_step.induct)
  case (activate mem pid scid out C C' scid')
  show ?case
  proof (cases "chooser_show p out C = Some C'")
    case True
    with chooser_show_spec [of C p out] activate.prems show ?thesis by (auto simp: chooser_inv_def)
  next
    case False
    with activate(1) obtain a where a: "C' = C\<lparr>ch_app := a\<rparr>" and
      n: "\<exists>ser tcp b x1 x2 x3 x4. session_new mem pid scid ser tcp b = (a, scid') \<and>
        b = (ch_app C)\<lparr>sel_max_size := x1, sel_bit_rate := x2, sel_audio := x3, sel_control := x4\<rparr>"
      by (auto simp: on_activate_def Let_def split: if_splits prod.splits) blast+
    from n session_new_sessions have "settings_at a = settings_at (ch_app C)" "probed_hosts a = probed_hosts (ch_app C)"
      by (fastforce simp: fun_eq_iff settings_at_def no_settings_def)+
    with activate.prems a chooser_ok_app show ?thesis by (simp add: chooser_inv_def)
  qed
next
  case (close w C)
  then show ?case by (simp add: chooser_inv_def close_chooser_ok)
next
  case (typed C i s)
  then show ?case by (simp add: chooser_inv_def chooser_ok_ui)
next
  case (selected C i items n)
  then show ?case by (simp add: chooser_inv_def chooser_ok_ui)
next
  case (toggled C i b)
  then show ?case by (simp add: chooser_inv_def chooser_ok_ui)
next
  case (signal C i h row mem pid scid out C')
  show ?case
  proof (cases "h = OnRowActivated")
    case True
    with signal(3) obtain a scid' where "on_row_activated mem pid scid (ch_ui C) row (ch_app C) = Some (a, scid')"
      "C' = C\<lparr>ch_app := a\<rparr>" by auto
    with row_frame [of mem pid scid "ch_ui C" row "ch_app C"] signal.prems chooser_ok_app [of C a]
    show ?thesis by (simp add: chooser_inv_def)
  next
    case False
    with handler_spec [of C i h mem pid scid p out row] signal show ?thesis by (auto simp: chooser_inv_def)
  qed
next
  case (scan_done ctx C E w devs msg w' out C')
  with agent_scan_done_spec [of C ctx p out devs msg] show ?case by (auto simp: chooser_inv_def)
next
  case (probe_done ctx C E w found w' out C')
  with auto_probe_done_spec [of C ctx p out found] show ?case by (auto simp: chooser_inv_def)
next
  case (sessions C ss)
  then show ?case by (simp add: chooser_inv_def chooser_ok_app)
qed

interpretation chooser_flow: invariant_system chooser_start "chooser_step p" chooser_inv for p
proof
  show "chooser_inv C" if "chooser_start C" for C
    using that by (auto simp: chooser_start_def chooser_inv_def chooser_ok_def entries_ok_def laid_out_def refs_ok_def held_def
        settings_at_def chooser_base_def)
qed (rule chooser_step_inv)

section \<open>No handler uses what is gone\<close>

lemma live_objects:
  assumes "chooser_ok C" and "i < length (ch_ui C)"
  shows "live i (ch_ui C) \<longleftrightarrow> shown C i \<or> (\<exists>s \<in> set (ch_scans C). i \<in> set (ctx_objs s)) \<or> (\<exists>q \<in> set (ch_probes C). ap_list q = i)"
proof -
  have "live i (ch_ui C) \<longleftrightarrow> i \<in># held C" using assms(1) by (simp add: refs_ok_live chooser_ok_def)
  then show ?thesis by (auto simp: held_def shown_def)
qed

lemma newest_settings:
  assumes ok: "chooser_ok C" and sh: "shown C (length (ch_ui C) - 1)"
  shows "read_settings (ch_ui C) (ch_app C) \<noteq> None"
proof -
  let ?k = "length (ch_ui C)"
  have k: "0 < ?k" "21 dvd ?k" using held_in_store [OF ok shown_held [OF sh]] ok by (auto simp: chooser_ok_def laid_out_def)
  then have le: "21 \<le> ?k" by (auto intro: dvd_imp_le)
  define n where "n = ?k - 21"
  have kn: "?k = n + 21" and b: "chooser_base (ch_ui C) n" using le k by (auto simp: n_def chooser_base_def elim!: dvdE)
  have "live (n + j) (ch_ui C)" if "j < 21" for j
  proof -
    have "shown C (n + j)" using shown_base [OF ok sh b _ _ that] kn by simp
    from held_in_store [OF ok shown_held [OF this]] show ?thesis by simp
  qed
  note live = this [of 4, simplified] this [of 7, simplified] this [of 10, simplified] this [of 11, simplified]
    this [of 12, simplified]
  have "settings_at (ch_app C) (n + 21)" using ok by (simp add: chooser_ok_def kn)
  with live show ?thesis
    by (simp add: read_settings_def setting_def settings_at_def gtk_drop_down_get_selected_def
        gtk_check_button_get_active_def with_live_def add.commute)
qed

text \<open>Once the chooser shown last has been closed, nothing refers to its drop-downs any more.\<close>

lemma closed_settings:
  assumes ok: "chooser_ok C" and sh: "\<not> shown C (length (ch_ui C) - 1)" and ne: "ch_ui C \<noteq> []"
  shows "read_settings (ch_ui C) (ch_app C) = None"
proof -
  have "21 dvd length (ch_ui C)" "0 < length (ch_ui C)" using ok ne by (simp_all add: chooser_ok_def laid_out_def)
  moreover from this have "21 \<le> length (ch_ui C)" by (auto intro: dvd_imp_le)
  ultimately obtain n where n: "length (ch_ui C) = n + 21" "chooser_base (ch_ui C) n" "n mod 21 = 0"
    by (intro that [of "length (ch_ui C) - 21"]) (simp_all add: chooser_base_def)
  have last: "length (ch_ui C) - 1 = n + 20" using n(1) by simp
  have "\<not> live (n + 4) (ch_ui C)"
  proof
    assume "live (n + 4) (ch_ui C)"
    with live_objects [OF ok, of "n + 4"] n(1)
    consider "shown C (n + 4)" | s where "s \<in> set (ch_scans C)" "n + 4 \<in> set (ctx_objs s)"
      | q where "q \<in> set (ch_probes C)" "ap_list q = n + 4" by auto
    then show False
    proof cases
      case 1
      with shown_base [OF ok 1 n(2), of 20] have "shown C (n + 20)" by simp
      with sh show False unfolding last by blast
    next
      case 2
      then obtain m where m: "chooser_base (ch_ui C) m" "scan_at s m" using ok by (auto simp: chooser_ok_def)
      then have "m mod 21 = 0" by (auto simp: chooser_base_def elim!: dvdE)
      moreover have "n + 4 = m + 18 \<or> n + 4 = m + 19 \<or> n + 4 = m + 20 \<or> n + 4 = m + 15"
        using 2(2) m(2) by (simp add: ctx_objs_def scan_at_def)
      ultimately show False using n(3) by presburger
    next
      case 3
      then have "(n + 4) mod 21 = 15" using ok by (auto simp: chooser_ok_def)
      with n(3) show False by presburger
    qed
  qed
  moreover have "dd_size (ch_app C) = Some (n + 4)" using ok n(1) by (simp add: chooser_ok_def settings_at_def)
  ultimately show ?thesis
    by (simp add: read_settings_def setting_def gtk_drop_down_get_selected_def with_live_def)
qed

lemma row_handler_returns:
  "on_row_activated mem pid scid ui row a \<noteq> None \<longleftrightarrow> read_settings ui a \<noteq> None \<and> row_serial row \<noteq> None"
  by (cases "read_settings ui a"; cases "row_serial row") (simp_all add: on_row_activated_def)

text \<open>
  C11: the handlers of the chooser use an object that is gone or missing in exactly two cases.  Whatever windows are
  shown and closed, and however typing, clicks, scans and probes interleave, in every reachable state: the
  handler of a button or an entry that is on the screen and takes input returns; the handler of a row on
  the screen returns if the row is of a device and the chooser shown last is still open, and crashes otherwise, on
  the note that stands for an empty list (it has no serial, \<^verbatim>\<open>chooser.c:212\<close>) and on any row
  when the chooser shown last has been closed (the drop-downs it reads belong to that one,
  \<^verbatim>\<open>chooser.c:195\<close>); a finished scan or probe can be taken over even if its
  window has been closed, because it holds references; and an object is kept exactly as long as a window
  shows it or a scan or probe under way refers to it.
\<close>

theorem chooser_no_dangling:
  assumes "reach chooser_start (chooser_step p) C"
  shows "(\<forall>i h. can_fire C i h \<longrightarrow>
        (run_handler mem pid scid p out row h i C \<noteq> None \<longleftrightarrow>
         (h = OnRowActivated \<longrightarrow> row_serial row \<noteq> None \<and> shown C (length (ch_ui C) - 1)))) \<and>
     (\<forall>s \<in> set (ch_scans C). agent_scan_done p out s devs msg C \<noteq> None) \<and>
     (\<forall>q \<in> set (ch_probes C). auto_probe_done p out q found C \<noteq> None) \<and>
     (\<forall>i < length (ch_ui C). live i (ch_ui C) \<longleftrightarrow>
        shown C i \<or> (\<exists>s \<in> set (ch_scans C). i \<in> set (ctx_objs s)) \<or> (\<exists>q \<in> set (ch_probes C). ap_list q = i))"
proof -
  have ok: "chooser_ok C" and eo: "entries_ok C" using chooser_flow.reach_inv [OF assms] by (simp_all add: chooser_inv_def)
  have "run_handler mem pid scid p out row h i C \<noteq> None \<longleftrightarrow>
      (h = OnRowActivated \<longrightarrow> row_serial row \<noteq> None \<and> shown C (length (ch_ui C) - 1))"
    if f: "can_fire C i h" for i h
  proof (cases "h = OnRowActivated")
    case True
    have "ch_ui C \<noteq> []" using f held_in_store [OF ok shown_held, of i] by (auto simp: can_fire_def)
    with newest_settings [OF ok] closed_settings [OF ok]
    have "read_settings (ch_ui C) (ch_app C) \<noteq> None \<longleftrightarrow> shown C (length (ch_ui C) - 1)" by metis
    with True row_handler_returns [of mem pid scid "ch_ui C" row "ch_app C"] show ?thesis by auto
  next
    case False
    with handler_spec [OF ok eo f] show ?thesis by (metis option.distinct(1))
  qed
  moreover have "agent_scan_done p out s devs msg C \<noteq> None" if "s \<in> set (ch_scans C)" for s
    using agent_scan_done_spec [OF ok eo that] by (metis option.distinct(1))
  moreover have "auto_probe_done p out q found C \<noteq> None" if "q \<in> set (ch_probes C)" for q
    using auto_probe_done_spec [OF ok eo that] by (metis option.distinct(1))
  ultimately show ?thesis using live_objects [OF ok] by blast
qed

text \<open>
  An entry has at most one scan, and a host is probed at most once.  In every reachable state of the
  chooser, the scans under way belong to different entries; an entry and its button take input exactly when no
  scan of theirs is under way; and no host was handed to a probe twice,
  nor will the next listing hand one to a probe again.
\<close>

theorem chooser_one_scan:
  assumes "reach chooser_start (chooser_step p) C"
  shows "distinct (map sc_entry (ch_scans C)) \<and>
     (\<forall>s \<in> set (ch_scans C). \<not> w_sensitive (ch_ui C ! sc_entry s) \<and> \<not> w_sensitive (ch_ui C ! sc_btn s)) \<and>
     (\<forall>i < length (ch_ui C). w_class (ch_ui C ! i) = Entry \<and> i \<notin> sc_entry ` set (ch_scans C) \<longrightarrow> w_sensitive (ch_ui C ! i)) \<and>
     distinct (ch_probed C) \<and> (\<forall>d. populate_devices p out (ch_app C) = d \<longrightarrow> set (fst (snd d)) \<inter> set (ch_probed C) = {})"
proof -
  have ok: "chooser_ok C" and eo: "entries_ok C" using chooser_flow.reach_inv [OF assms] by (simp_all add: chooser_inv_def)
  have sens: "i < length (ch_ui C) \<Longrightarrow> w_sensitive (ch_ui C ! i) = sensitive (ch_ui C) ! i" for i
    by (simp add: sensitive_def)
  have "\<not> w_sensitive (ch_ui C ! sc_entry s) \<and> \<not> w_sensitive (ch_ui C ! sc_btn s)" if s: "s \<in> set (ch_scans C)" for s
  proof -
    obtain n where n: "chooser_base (ch_ui C) n" "scan_at s n" using ok s by (auto simp: chooser_ok_def)
    moreover have "n + 18 \<in> sc_entry ` set (ch_scans C)" using s n(2) by (force simp: scan_at_def)
    ultimately show ?thesis using eo by (simp add: sens entries_ok_def scan_at_def chooser_base_def)
  qed
  moreover have "w_sensitive (ch_ui C ! i)"
    if i: "i < length (ch_ui C)" "w_class (ch_ui C ! i) = Entry" "i \<notin> sc_entry ` set (ch_scans C)" for i
  proof -
    have lo: "laid_out (ch_ui C)" using ok by (simp add: chooser_ok_def)
    from find_base [OF lo i(1)] obtain n j where n: "chooser_base (ch_ui C) n" "j < 21" "i = n + j" .
    have "w_class (ch_ui C ! i) = fst (shape (ch_ui C) ! i)" using i(1) by (simp add: shape_def fixed_def)
    then have "w_class (ch_ui C ! i) = fst (plan n ! j)" using laid_out_at [OF lo n(1,2)] n(3) by simp
    with i(2) n(2) have "j = 18"
      unfolding plan_def by (auto simp: less_Suc_eq eval_nat_numeral shape_def blueprint_def fixed_def obj_def)
    with n i eo show ?thesis by (simp add: sens entries_ok_def)
  qed
  moreover have "set (fst (snd d)) \<inter> set (ch_probed C) = {}" if "populate_devices p out (ch_app C) = d" for d
    using that populate_devices_spec(2) [of p out "ch_app C"] ok by (cases d) (auto simp: chooser_ok_def)
  ultimately show ?thesis using ok by (auto simp: chooser_ok_def)
qed

section \<open>A scan outlives its window\<close>

definition no_adb_proc :: proc where
  "no_adb_proc = \<lparr>envp = (\<lambda>_. None), g_adb = None\<rparr>"

definition demo_chooser :: chooser where
  "demo_chooser = \<lparr>ch_app = demo_app\<lparr>base := demo_config\<lparr>serial := None\<rparr>\<rparr>, ch_ui = [], ch_rows = (\<lambda>_. []), ch_wins = [],
     ch_scans = [], ch_probes = [], ch_probed = []\<rparr>"

definition demo_shown :: chooser where
  "demo_shown = demo_chooser\<lparr>ch_app := built_app (ch_app demo_chooser) 0, ch_ui := blueprint (ch_app demo_chooser) 0,
     ch_rows := (\<lambda>_. [])(15 := [NoAdb]), ch_wins := [[0..<21]]\<rparr>"

definition demo_typed :: chooser where
  "demo_typed = demo_shown\<lparr>ch_ui := set_text 18 (Typed ''10.0.0.2:9000'') (ch_ui demo_shown)\<rparr>"

lemma demo_show: "chooser_show no_adb_proc None demo_chooser = Some demo_shown"
proof -
  have "live 15 (blueprint (ch_app demo_chooser) 0)"
    by (simp add: live_def blueprint_def obj_def)
  then show ?thesis
    by (simp add: chooser_show_def chooser_build_eq demo_chooser_def show_devices_def with_live_def populate_devices_def
        list_adb_devices_def adb_available_def no_adb_proc_def demo_shown_def)
qed

lemma demo_scan_started: "\<exists>C. agent_scan_start 18 demo_typed = Some C \<and>
  ch_scans C = [\<lparr>sc_entry = 18, sc_btn = 19, sc_status = 20, sc_list = 15, sc_ip = ''10.0.0.2'', sc_port = 9000\<rparr>] \<and>
  ch_wins C = [[0..<21]]"
proof -
  have t: "entry_text 18 (ch_ui demo_typed) = ''10.0.0.2:9000''"
    by (simp add: entry_text_def demo_typed_def demo_shown_def blueprint_def obj_def set_text_def on_obj_def)
  have s: "scan_target ''10.0.0.2:9000'' = (''10.0.0.2'', 9000)" by code_simp
  have "\<forall>j < 21. live j (blueprint a 0)" for a
    by (simp add: live_def blueprint_def obj_def less_Suc_eq eval_nat_numeral)
  then have l: "live j (ch_ui demo_typed)" if "j < 21" for j
    using that by (simp add: demo_typed_def demo_shown_def)
  have lo: "laid_out (ch_ui demo_typed)"
    using laid_out_build [of "[]" "ch_app demo_chooser"] laid_out_shape [of "blueprint (ch_app demo_chooser) 0" "ch_ui demo_typed"]
    by (simp add: demo_typed_def demo_shown_def) (simp add: laid_out_def)
  note d = layout_data [OF lo, of 0, simplified]
  have b: "chooser_base (ch_ui demo_typed) 0" by (simp add: chooser_base_def demo_typed_def demo_shown_def)
  note d = layout_data [OF lo b, simplified]
  show ?thesis
    by (simp add: agent_scan_start_def t s l d with_live_def)
      (simp add: demo_typed_def demo_shown_def demo_chooser_def)
qed

text \<open>The window is shown, an address is typed, the button clicked and the window closed; then the scan finishes.\<close>

lemma demo_run:
  obtains C s where "reach chooser_start (chooser_step no_adb_proc) demo_typed" "can_fire demo_typed 19 OnAgentClicked"
    "reach chooser_start (chooser_step no_adb_proc) C" "ch_scans C = [s]" "ch_wins C = []" "sc_entry s = 18"
proof -
  let ?R = "reach chooser_start (chooser_step no_adb_proc)"
  have "?R demo_chooser" by (rule reach_start) (simp add: chooser_start_def demo_chooser_def no_settings_def demo_app_def)
  moreover have "chooser_step no_adb_proc demo_chooser demo_shown"
  proof (rule activate)
    have "transport (base (ch_app demo_chooser)) = RC_TRANSPORT_USB" "serial (base (ch_app demo_chooser)) = None"
      by (simp_all add: demo_chooser_def demo_config_def)
    then show "on_activate (\<lambda>_. True) 1 0 no_adb_proc None demo_chooser = Some (demo_shown, 0)"
      by (simp add: on_activate_def demo_show)
  qed
  ultimately have r1: "?R demo_shown" by (rule reach_step)
  have sh: "shown demo_shown i" if "i < 21" for i using that by (auto simp: shown_def demo_shown_def)
  have "chooser_step no_adb_proc demo_shown demo_typed"
    unfolding demo_typed_def by (rule typed [OF sh]) (simp_all add: demo_shown_def blueprint_def obj_def)
  with r1 have r2: "?R demo_typed" by (rule reach_step)
  have f: "can_fire demo_typed 19 OnAgentClicked"
    using sh [of 19] by (simp add: can_fire_def shown_def demo_typed_def set_text_def on_obj_def)
      (simp add: demo_shown_def blueprint_def obj_def)
  obtain C where C: "agent_scan_start 18 demo_typed = Some C" "\<exists>s. ch_scans C = [s] \<and> sc_entry s = 18" "ch_wins C = [[0..<21]]"
    using demo_scan_started by auto
  have e: "g_object_get_data 19 ''entry'' (ch_ui demo_typed) = Some 18"
    by (simp add: g_object_get_data_def demo_typed_def demo_shown_def set_text_def on_obj_def blueprint_def)
  have "chooser_step no_adb_proc demo_typed C"
    by (rule signal [OF f, of undefined undefined undefined undefined _ None]) (simp_all add: on_agent_clicked_def e C(1))
  with r2 have r3: "?R C" by (rule reach_step)
  have "chooser_step no_adb_proc C (close_chooser [0..<21] C)" by (rule close) (simp add: C(3))
  with r3 have "?R (close_chooser [0..<21] C)" by (rule reach_step)
  with C(2,3) r2 f show ?thesis by (auto intro: that simp: close_chooser_def)
qed

theorem chooser_no_dangling_witness:
  "\<exists>C s. can_fire demo_typed 19 OnAgentClicked \<and>
     run_handler (\<lambda>_. True) 1 0 no_adb_proc None NoAdb OnAgentClicked 19 demo_typed \<noteq> None \<and>
     ch_scans C = [s] \<and> ch_wins C = [] \<and> agent_scan_done no_adb_proc None s [] (MsgNoAdb 1) C \<noteq> None"
proof -
  obtain C s where 1: "reach chooser_start (chooser_step no_adb_proc) demo_typed" "can_fire demo_typed 19 OnAgentClicked"
    and 2: "reach chooser_start (chooser_step no_adb_proc) C" "ch_scans C = [s]" "ch_wins C = []"
    by (rule demo_run)
  have "run_handler (\<lambda>_. True) 1 0 no_adb_proc None NoAdb OnAgentClicked 19 demo_typed \<noteq> None"
    using chooser_no_dangling [OF 1(1)] 1(2) by blast
  moreover have "agent_scan_done no_adb_proc None s [] (MsgNoAdb 1) C \<noteq> None"
    using chooser_no_dangling [OF 2(1)] 2(2) by (metis list.set_intros(1))
  ultimately show ?thesis using 1(2) 2(2,3) by blast
qed

theorem chooser_one_scan_example:
  "\<exists>(C :: chooser) s. ch_scans C = [s] \<and> sc_entry s = 18 \<and> \<not> w_sensitive (ch_ui C ! 18)"
proof -
  obtain C s where 2: "reach chooser_start (chooser_step no_adb_proc) C" "ch_scans C = [s]" "sc_entry s = 18" by (rule demo_run)
  have "\<not> w_sensitive (ch_ui C ! 18)" using chooser_one_scan [OF 2(1)] 2(2,3) by simp
  with 2 show ?thesis by blast
qed

section \<open>Two ways to crash\<close>

text \<open>The row that says there is no device can be activated like any other; it has no serial.\<close>

lemma note_row_crashes:
  "on_row_activated mem pid scid ui NoDevice a = None" "on_row_activated mem pid scid ui NoAdb a = None"
  by (simp_all add: on_row_activated_def)

text \<open>When a second chooser is shown and closed again, the settings refer to its freed objects, and a row of the first chooser
  cannot be activated any more.\<close>

lemma second_window_dangles:
  assumes ok: "chooser_ok C" and gone: "\<not> live (length (ch_ui C) - 17) (ch_ui C)" and "ch_ui C \<noteq> []"
  shows "on_row_activated mem pid scid (ch_ui C) row (ch_app C) = None"
proof -
  have "dd_size (ch_app C) = Some (length (ch_ui C) - 17)" using ok assms(3) by (simp add: chooser_ok_def settings_at_def)
  with gone show ?thesis
    by (simp add: on_row_activated_def read_settings_def setting_def gtk_drop_down_get_selected_def with_live_def)
qed

end
