(* ===== verification/Gtk_Settings.thy ===== *)
theory Gtk_Settings
  imports Gtk_Chooser_Flow
begin

text \<open>
  From the drop-downs and check buttons of the chooser to the options of the server: what the user sees selected is
  what the server is told.
\<close>

text \<open>The tables of values agree with the texts of the drop-downs.\<close>

lemma size_texts: "i < 5 \<Longrightarrow> SIZE_VALUES ! i = atoi (size_items ! i)"
  by (auto simp: less_Suc_eq eval_nat_numeral size_items_def SIZE_VALUES_def; code_simp)

lemma bitrate_texts: "i < 7 \<Longrightarrow> BITRATE_VALUES ! i = 1000000 * atoi (bitrate_items ! i)"
  by (auto simp: less_Suc_eq eval_nat_numeral bitrate_items_def BITRATE_VALUES_def; code_simp)

lemma value_bounds:
  "i < 5 \<Longrightarrow> int32 (SIZE_VALUES ! i)" "i < 7 \<Longrightarrow> int32 (BITRATE_VALUES ! i) \<and> 0 < BITRATE_VALUES ! i"
  by (auto simp: less_Suc_eq eval_nat_numeral SIZE_VALUES_def BITRATE_VALUES_def int32_def)

text \<open>What the settings are after they have been read.\<close>

lemma settings_read:
  assumes "read_settings ui a = Some a'" and "dd_size a = Some i1" "dd_bitrate a = Some i2" "cb_audio a = Some i3"
    "cb_control a = Some i4" "cb_fps a = Some i5"
  shows "a' = a\<lparr>sel_max_size := SIZE_VALUES ! w_selected (ui ! i1), sel_bit_rate := BITRATE_VALUES ! w_selected (ui ! i2),
     sel_audio := w_active (ui ! i3), sel_control := w_active (ui ! i4), sel_show_fps := w_active (ui ! i5)\<rparr>"
  using assms by (simp add: read_settings_def setting_def gtk_drop_down_get_selected_def gtk_check_button_get_active_def
      with_live_def split: if_splits)

text \<open>The client of a new session has the settings of the application.\<close>

lemma choose_ports_settings:
  "max_size (s_cfg (choose_ports a ser s)) = max_size (s_cfg s)" "bit_rate (s_cfg (choose_ports a ser s)) = bit_rate (s_cfg s)"
  "max_fps (s_cfg (choose_ports a ser s)) = max_fps (s_cfg s)" "control (s_cfg (choose_ports a ser s)) = control (s_cfg s)"
  "audio (s_cfg (choose_ports a ser s)) = audio (s_cfg s)"
  by (simp_all add: choose_ports_def Let_def split: option.splits)

lemma session_new_client:
  assumes "session_new mem pid scid ser tcp a = (a', scid')" and "mem 0"
  shows "\<exists>s c. sessions a' = s # sessions a \<and> serial_owned s = ser \<and> s_client s = Some c \<and> max_size (cfg c) = sel_max_size a \<and>
     bit_rate (cfg c) = sel_bit_rate a \<and> control (cfg c) = sel_control a \<and> audio (cfg c) = sel_audio a \<and>
     max_fps (cfg c) = max_fps (base a) \<and> show_fps s = sel_show_fps a"
proof -
  let ?s = "choose_ports a ser (session_config a ser tcp)"
  obtain c0 where cr: "rc_client_create mem pid scid (Some (s_cfg ?s)) = (Some c0, scid + 1)"
    "cfg c0 = (s_cfg ?s)\<lparr>serial := dup_or_null (mem 1) (serial (s_cfg ?s)), tcp_addr := dup_or_null (mem 2) (tcp_addr (s_cfg ?s))\<rparr>"
    using assms(2) by (simp add: rc_client_create_def)
  let ?c = "rc_client_set_status_callback True (rc_client_set_frame_callback True c0)"
  let ?n = "build_view (?s\<lparr>s_client := Some ?c, title_base := title_text (session_tag ser (tcp_owned ?s)) CONNECTING,
      title_timer := True\<rparr>)\<lparr>start_thread := Starting\<rparr>"
  have "sessions a' = ?n # sessions a" using assms(1) cr(1) by (auto simp: session_new_def Let_def)
  moreover have "s_client ?n = Some ?c" "serial_owned ?n = serial_owned ?s" "show_fps ?n = show_fps ?s"
    by (simp_all add: build_view_def Let_def)
  moreover have "serial_owned ?s = ser" "show_fps ?s = sel_show_fps a"
    by (simp_all add: choose_ports_def session_config_def Let_def split: option.splits)
  moreover have "max_size (cfg ?c) = sel_max_size a" "bit_rate (cfg ?c) = sel_bit_rate a" "control (cfg ?c) = sel_control a"
    "audio (cfg ?c) = sel_audio a" "max_fps (cfg ?c) = max_fps (base a)"
    by (simp_all add: rc_client_set_status_callback_def rc_client_set_frame_callback_def cr(2) choose_ports_settings)
      (simp_all add: session_config_def new_session_def)
  ultimately show ?thesis by (intro exI [of _ ?n] exI [of _ ?c]) simp
qed

text \<open>
  C10: what the user selects is what the server is told.  Let the chooser shown last have its first object at
  \<open>n\<close> in a reachable state and still be open, let its drop-downs show their items \<open>i\<close> and \<open>j\<close>, and let the
  user activate the row of a device, in this chooser or in an older one that is open too (its own
  drop-downs count for nothing: the settings are always those of the chooser shown last).  Let the client be
  allocated, the frame rate of the environment and the port fit an \<^verbatim>\<open>int\<close>, and the socket name
  and the token fit their buffers.  Then the handler returns, a session for this device is opened, and from
  the arguments its client
  starts the server with, the server reads the number in the text of item \<open>i\<close> as the maximal size (none for
  the full size), that of item \<open>j\<close> in Mbit/s as the bit rate, and control and audio as the check buttons have
  them; the frame rate is shown as its check button has it.
\<close>

theorem settings_reach_server:
  assumes "reach chooser_start (chooser_step p) C" and "length (ch_ui C) = n + 21" and "shown C (n + 20)"
    and "w_selected (ch_ui C ! (n + 4)) = i" "i < length size_items" and "w_selected (ch_ui C ! (n + 7)) = j" "j < length bitrate_items"
    and "mem 0"
    and "int32 (max_fps (base (ch_app C)))" "int32 port" "\<forall>x. sn = Some x \<longrightarrow> length x < 84" "\<forall>t. tok = Some t \<longrightarrow> length t < 42"
  shows "\<exists>a' scid' s c opts. on_row_activated mem pid scid (ch_ui C) (DeviceRow ser model label) (ch_app C) = Some (a', scid') \<and>
     sessions a' = s # sessions (ch_app C) \<and> serial_owned s = Some ser \<and> s_client s = Some c \<and>
     parse_args (server_args (cfg c) sn port tok) default_options = Some opts \<and>
     o_maxSize opts = atoi (size_items ! i) \<and> o_bitRate opts = 1000000 * atoi (bitrate_items ! j) \<and>
     o_control opts = w_active (ch_ui C ! (n + 10)) \<and> o_audio opts = w_active (ch_ui C ! (n + 11)) \<and>
     show_fps s = w_active (ch_ui C ! (n + 12))"
proof -
  have ij: "i < 5" "j < 7" using assms(5,7) by (simp_all add: size_items_def bitrate_items_def)
  have ok: "chooser_ok C" using chooser_flow.reach_inv [OF assms(1)] by (simp add: chooser_inv_def)
  have "shown C (length (ch_ui C) - 1)" using assms(2,3) by (simp add: add.commute)
  from newest_settings [OF ok this]
  have "on_row_activated mem pid scid (ch_ui C) (DeviceRow ser model label) (ch_app C) \<noteq> None"
    by (subst row_handler_returns) simp
  then obtain a' scid' where act:
    "on_row_activated mem pid scid (ch_ui C) (DeviceRow ser model label) (ch_app C) = Some (a', scid')" by auto
  have "settings_at (ch_app C) (n + 21)"
    using ok by (simp add: chooser_ok_def assms(2))
  then have at: "dd_size (ch_app C) = Some (n + 4)" "dd_bitrate (ch_app C) = Some (n + 7)" "cb_audio (ch_app C) = Some (n + 11)"
    "cb_control (ch_app C) = Some (n + 10)" "cb_fps (ch_app C) = Some (n + 12)"
    by (simp_all add: settings_at_def)
  obtain a1 tcp where a1: "read_settings (ch_ui C) (ch_app C) = Some a1"
    and new: "session_new mem pid scid (Some ser) tcp a1 = (a', scid')"
    using act by (auto simp: on_row_activated_def bind_eq_Some_conv split: option.splits if_splits)
  note sel = settings_read [OF a1 at] and keep = read_settings_sel [OF a1]
  from session_new_client [OF new assms(8)] obtain s c where s: "sessions a' = s # sessions a1" "serial_owned s = Some ser"
    "s_client s = Some c" "max_size (cfg c) = sel_max_size a1" "bit_rate (cfg c) = sel_bit_rate a1" "control (cfg c) = sel_control a1"
    "audio (cfg c) = sel_audio a1" "max_fps (cfg c) = max_fps (base a1)" "show_fps s = sel_show_fps a1" by blast
  have v: "max_size (cfg c) = SIZE_VALUES ! i" "bit_rate (cfg c) = BITRATE_VALUES ! j" using s(4,5) sel assms(4,6) by simp_all
  have "parse_args (server_args (cfg c) sn port tok) default_options = Some (options_of (cfg c) sn port tok)"
    using value_bounds ij v s(8) keep(3) assms(9-12) by (intro parse_server_args) simp_all
  moreover have "o_maxSize (options_of (cfg c) sn port tok) = atoi (size_items ! i)"
    "o_bitRate (options_of (cfg c) sn port tok) = 1000000 * atoi (bitrate_items ! j)"
    using v size_texts [OF ij(1)] bitrate_texts [OF ij(2)] value_bounds(2) [OF ij(2)] by (simp_all add: options_of_def)
  moreover have "o_control (options_of (cfg c) sn port tok) = w_active (ch_ui C ! (n + 10))"
    "o_audio (options_of (cfg c) sn port tok) = w_active (ch_ui C ! (n + 11))" "show_fps s = w_active (ch_ui C ! (n + 12))"
    using s(6,7,9) sel by (simp_all add: options_of_def)
  ultimately show ?thesis using act s(1-3) keep(2) by auto
qed

definition demo_picked :: chooser where
  "demo_picked = demo_typed\<lparr>ch_ui := set_selected 4 1 (ch_ui demo_typed)\<rparr>"

lemma demo_picked_reach: "reach chooser_start (chooser_step no_adb_proc) demo_picked"
proof -
  have "shown demo_typed 4" by (simp add: shown_def demo_typed_def demo_shown_def)
  then have "chooser_step no_adb_proc demo_typed demo_picked"
    unfolding demo_picked_def
    by (rule selected [of _ _ size_items])
      (simp_all add: demo_typed_def demo_shown_def set_text_def on_obj_def blueprint_def obj_def size_items_def)
  with demo_run show ?thesis by (metis reach_step)
qed

theorem settings_reach_server_witness:
  "\<exists>a' scid' s c opts. on_row_activated (\<lambda>_. True) 1 0 (ch_ui demo_picked) (DeviceRow ''emulator-5554'' ''Pixel'' Emulator)
       (ch_app demo_picked) = Some (a', scid') \<and> sessions a' = s # sessions (ch_app demo_picked) \<and> s_client s = Some c \<and>
     parse_args (server_args (cfg c) None 27183 None) default_options = Some opts \<and>
     o_maxSize opts = 1920 \<and> o_bitRate opts = 8000000"
proof -
  note ui = demo_picked_def demo_typed_def demo_shown_def set_selected_def set_text_def on_obj_def
  have len: "length (ch_ui demo_picked) = 0 + 21" by (simp add: ui)
  have sel: "w_selected (ch_ui demo_picked ! (0 + 4)) = 1" "w_selected (ch_ui demo_picked ! (0 + 7)) = 2"
    by (simp_all add: ui) (simp add: blueprint_def)
  have sh: "shown demo_picked (0 + 20)" by (simp add: shown_def ui)
  have b: "base (ch_app demo_picked) = demo_config\<lparr>serial := None\<rparr>" by (simp add: ui built_app_def demo_chooser_def)
  have i: "int32 (max_fps (base (ch_app demo_picked)))" "int32 27183" unfolding b by (simp_all add: demo_config_def int32_def)
  have "1 < length size_items" "2 < length bitrate_items" by (simp_all add: size_items_def bitrate_items_def)
  from settings_reach_server [OF demo_picked_reach len sh sel(1) this(1) sel(2) this(2) _ i, of "\<lambda>_. True" None None 1 0
      "''emulator-5554''" "''Pixel''" Emulator]
  obtain a' scid' s c opts where r: "on_row_activated (\<lambda>_. True) 1 0 (ch_ui demo_picked)
      (DeviceRow ''emulator-5554'' ''Pixel'' Emulator) (ch_app demo_picked) = Some (a', scid')"
    and s: "sessions a' = s # sessions (ch_app demo_picked)" "s_client s = Some c"
    "parse_args (server_args (cfg c) None 27183 None) default_options = Some opts"
    "o_maxSize opts = atoi (size_items ! 1)" "o_bitRate opts = 1000000 * atoi (bitrate_items ! 2)" by auto
  have "SIZE_VALUES ! 1 = 1920" "BITRATE_VALUES ! 2 = 8000000" by (simp_all add: SIZE_VALUES_def BITRATE_VALUES_def)
  with s(4,5) size_texts [of 1] bitrate_texts [of 2] have "o_maxSize opts = 1920" "o_bitRate opts = 8000000" by simp_all
  with r s show ?thesis by blast
qed

text \<open>The size and the bit rate of the environment are lost: the chooser shows its own, and these are read.\<close>

lemma environment_overridden:
  assumes "read_settings (blueprint a 0) (built_app a 0) = Some a'"
  shows "sel_max_size a' = 0" "sel_bit_rate a' = 8000000"
proof -
  have at: "dd_size (built_app a 0) = Some 4" "dd_bitrate (built_app a 0) = Some 7" "cb_audio (built_app a 0) = Some 11"
    "cb_control (built_app a 0) = Some 10" "cb_fps (built_app a 0) = Some 12" by (simp_all add: built_app_def)
  show "sel_max_size a' = 0" "sel_bit_rate a' = 8000000"
    using settings_read [OF assms at] by (simp_all add: blueprint_def SIZE_VALUES_def BITRATE_VALUES_def)
qed

end
