(* ===== verification/Spec2Isabelle.thy ===== *)
theory Spec2Isabelle
  imports RC_Client RC_Media Agent_Group Agent_Main Relayed_Session Gtk_Area Gtk_Shader Gtk_Listing Gtk_Settings
begin

text \<open>
  \<^bold>\<open>RigControlNative: the C programs, modelled and verified.\<close>

  RigControlNative mirrors an Android device on a desktop.  Three programs in C take part.  The core
  library (\<^verbatim>\<open>src/core\<close>) copies a server to the device with \<^verbatim>\<open>adb\<close>, opens a video, an audio and a control
  stream to it (through an \<^verbatim>\<open>adb reverse\<close> tunnel or directly over the LAN, with the tunnel as fallback),
  decodes video and audio on threads of its own, and sends input.  The GTK front end
  (\<^verbatim>\<open>src/frontends/gtk\<close>) has one window and one core client per session, shows the frames, translates
  events to input calls, and lets the user choose a device.  The agent (\<^verbatim>\<open>src/frontends/agent\<close>) runs on
  another machine, publishes the devices plugged in there on fixed ports, relays adb and stream
  connections, and answers the front end's scan on a discovery port.

  \<^bold>\<open>How the theories correspond to the sources\<close>

  Shared: \<^verbatim>\<open>RC_Prelude\<close> (machine types, decimal printing and parsing, string functions, the locale of
  transition systems with an invariant), \<^verbatim>\<open>RC_Wire\<close> (\<^verbatim>\<open>rc_client.h\<close>, \<^verbatim>\<open>rc_internal.h\<close>: status codes,
  configuration, protocol constants), \<^verbatim>\<open>RC_OS\<close> (the kernel as the code uses it).

  Core, \<^verbatim>\<open>core/src\<close>: \<^verbatim>\<open>RC_Net\<close> (\<^verbatim>\<open>net.c\<close>), \<^verbatim>\<open>RC_Demux\<close> (\<^verbatim>\<open>demuxer.c\<close>), \<^verbatim>\<open>RC_Decoder\<close> (\<^verbatim>\<open>decoder.c\<close>), \<^verbatim>\<open>RC_Audio\<close>
  (\<^verbatim>\<open>audio.c\<close>), \<^verbatim>\<open>RC_Client_State\<close> (\<^verbatim>\<open>struct rc_client\<close> and its accessors), \<^verbatim>\<open>RC_Control\<close> (\<^verbatim>\<open>control_msg.c\<close>
  and the input calls of \<^verbatim>\<open>client.c\<close>), \<^verbatim>\<open>RC_Media\<close> (what \<^verbatim>\<open>decoder.c\<close> and \<^verbatim>\<open>audio.c\<close> allocate and free), \<^verbatim>\<open>RC_Adb\<close> (\<^verbatim>\<open>adb.c\<close>), \<^verbatim>\<open>RC_Deploy\<close> (\<^verbatim>\<open>server_deploy.c\<close>), \<^verbatim>\<open>RC_Video\<close> (the
  video and audio threads of \<^verbatim>\<open>client.c\<close>), \<^verbatim>\<open>RC_Client\<close> (start, abort, stop and the life cycle).

  Agent, \<^verbatim>\<open>frontends/agent\<close>: \<^verbatim>\<open>Agent_Proc\<close> (\<^verbatim>\<open>util.c\<close>, \<^verbatim>\<open>adb.c\<close>), \<^verbatim>\<open>Agent_Net\<close> (\<^verbatim>\<open>net.c\<close>), \<^verbatim>\<open>Agent_Group\<close> (its
  connection threads at the statements of the group lock: mutex, flag, condition variable), \<^verbatim>\<open>Agent_Slots\<close> and
  \<^verbatim>\<open>Agent_Slots_Inv\<close> (\<^verbatim>\<open>discovery.c\<close>), \<^verbatim>\<open>Agent_Main\<close> (\<^verbatim>\<open>main.c\<close>).

  GTK front end, \<^verbatim>\<open>frontends/gtk\<close>: \<^verbatim>\<open>Gtk_Agent\<close> (\<^verbatim>\<open>agent.c\<close>), \<^verbatim>\<open>Gtk_State\<close> (\<^verbatim>\<open>rcgtk.h\<close>), \<^verbatim>\<open>Gtk_Session\<close>
  (\<^verbatim>\<open>session.c\<close>), \<^verbatim>\<open>Gtk_GL\<close> (the GL objects of \<^verbatim>\<open>render.c\<close>), \<^verbatim>\<open>Gtk_Render\<close> and \<^verbatim>\<open>Gtk_Redraw\<close> (its frames and
  redraws), \<^verbatim>\<open>Gtk_Shader\<close> (its shaders), \<^verbatim>\<open>Gtk_Input\<close> (\<^verbatim>\<open>input.c\<close>), \<^verbatim>\<open>Gtk_Main\<close> (\<^verbatim>\<open>adbpath.c\<close>, \<^verbatim>\<open>main.c\<close>),
  \<^verbatim>\<open>Gtk_Widgets\<close> (the objects of GTK as the chooser uses them), \<^verbatim>\<open>Gtk_Chooser\<close> (\<^verbatim>\<open>chooser.c\<close>: devices, probes, scans,
  settings, opening a session), \<^verbatim>\<open>Gtk_Chooser_Ui\<close> (its window, handlers and contexts), \<^verbatim>\<open>Gtk_Chooser_Flow\<close> (the chooser as
  a transition system), \<^verbatim>\<open>Gtk_Settings\<close> (from the window to the server), \<^verbatim>\<open>Gtk_Listing\<close> (the two readers of
  \<^verbatim>\<open>adb devices -l\<close>), \<^verbatim>\<open>Gtk_Handlers\<close> (all handlers of a session as one transition system), \<^verbatim>\<open>Gtk_Area\<close> (the same with
  the GL context).

  All programs together: \<^verbatim>\<open>Relayed_Session\<close> (a session of the core through a relay thread of the agent, every connection
  cut anywhere).

  Definitions carry the names of the C functions.  A \<^verbatim>\<open>struct\<close> is a record, an enumeration a datatype,
  fields that travel over the wire are words of their width, other integers are \<^typ>\<open>int\<close> or \<^typ>\<open>nat\<close>
  with wrap-around where the code computes with \<^verbatim>\<open>size_t\<close>.  State is passed explicitly.  A function of
  the core runs on \<^verbatim>\<open>sys\<close>, the kernel with one client in it; the front end keeps the clients in its
  sessions and enters the core with \<^verbatim>\<open>run_core\<close>.  Error returns are values: a status, \<^verbatim>\<open>-1\<close>, or a sum.

  \<^bold>\<open>The outside world\<close>

  What system calls return, how long they take, what \<^verbatim>\<open>adb\<close> answers, what a peer sends and accepts and
  when another thread raises a flag is the parameter \<^verbatim>\<open>env\<close>, a record of functions of the number of
  system calls made so far; theorems hold for every environment unless they name what they need
  (\<^verbatim>\<open>waits_ok\<close>: waiting for an own child succeeds; \<^verbatim>\<open>signals_end\<close>: finitely many interruptions).  FFmpeg,
  miniaudio, GLib's file functions and GDK's key tables are parameters in the same way (\<^verbatim>\<open>ffmpeg\<close>,
  \<^verbatim>\<open>audio_env\<close>, \<^verbatim>\<open>glib\<close>, \<^verbatim>\<open>gdk\<close>), as is what GL compiles and links (\<^verbatim>\<open>gl_env\<close>).  Objects of GL, GTK and the media
  libraries are only accounted for: which are alive, what they refer to, who refers to them, as the libraries
  document for the calls the sources make.  The Java server's writers and readers occur as reference definitions
  for the round trips.

  A result \<^term>\<open>None\<close> of an operation on the kernel means that it never returns (a blocking call that is
  not satisfied).  Loops are \<^verbatim>\<open>function\<close>s with a measure where a counter or a list bounds them, and
  \<^verbatim>\<open>partial_function (option)\<close> where only the environment can end them; for these, theorems state
  separately when they return.  The video
  and audio loops take the number of rounds to run, so that their theorems speak about every point of
  their life.  The only fuel is in \<^verbatim>\<open>receive_all\<close>, the reference receiver: every message has a byte, so the
  length of the input is enough.

  \<^bold>\<open>What is proved\<close>

  Streams and protocol: packets, control messages, server options, adb listings and the discovery
  answer are read back exactly as they were written, however the network cuts them; the reader never
  leaves its buffer.

  Resources: deployment, stopping, closing windows and leaving the application give back exactly the
  descriptors and children there were before, in every reachable state; the relay threads of the agent
  account for theirs, and its forwards are remembered and removed.  (A core client that is started again after its
  video thread ended by itself, without a stop in between, leaks and is left out of the contract:
  \<^verbatim>\<open>restart_leaks\<close>; a shader object stays behind when only one of the two compiles: \<^verbatim>\<open>half_built_leaks\<close>.)  GL objects, library objects of the decoder and the player, and the
  references to the chooser's widgets are given back, and a handler of the chooser uses a freed or missing one in exactly
  two cases (\<^verbatim>\<open>note_row_crashes\<close>, \<^verbatim>\<open>second_window_dangles\<close>).

  Decoding: the video loop feeds the decoder what the specification \<^verbatim>\<open>fed\<close> says, falls back from
  hardware at most once and refeeds the configuration; frames are delivered in order; the audio ring and
  callback play what was written.

  Liveness: limited commands return, an abort ends a waiting start, the stream opening of the agent
  returns, no thread that waits for its stream port misses its wake-up, no redraw of the front end is lost.

  Composition: the whole path from a scan of the agent to the ports of a session, its listeners and its
  forwards; from GTK events through the core to what the server holds down; from a decoded frame to the
  uploads, the shaders and the colours on the screen; from the drop-downs of the chooser to the options the server reads; from
  the chosen \<^verbatim>\<open>adb\<close> to the one the core spawns; from the server through the agent to the decoder, and from the core through
  the agent to the server's input.

  The lemma groups behind them: frame lemmas (which part of the state an operation can change), the
  accounting of descriptors (\<^verbatim>\<open>owns\<close>, \<^verbatim>\<open>session_ok\<close>, \<^verbatim>\<open>accounted\<close>, \<^verbatim>\<open>split_of\<close>), the invariants of the
  transition systems, and the contracts stated as locales and interpreted on the code's functions:
  \<^verbatim>\<open>exact_reader\<close>, \<^verbatim>\<open>fd_provider\<close>, \<^verbatim>\<open>invariant_system\<close> (sessions, agent, its forwards, \<^verbatim>\<open>group_lock\<close>, handlers, \<^verbatim>\<open>gl_area\<close>, \<^verbatim>\<open>chooser_flow\<close>),
  \<^verbatim>\<open>lowest_free\<close>, \<^verbatim>\<open>held_codes\<close>.

  \<^bold>\<open>Bounds\<close>

  Buffer sizes, array sizes, time limits and port numbers are the constants of the sources
  (\<^verbatim>\<open>PATH_MAX\<close>, \<^verbatim>\<open>MAX_SLOTS\<close>, \<^verbatim>\<open>FWD_CAP\<close>, \<^verbatim>\<open>PRE_CAP\<close>, \<^verbatim>\<open>META_TIMEOUT_MS\<close> and so on); nothing is scaled down.

  \<^bold>\<open>Not modelled\<close>

  Log lines; NULL client pointers; the layout of widgets and the texts of labels; the window of a session beyond its
  handlers; a row of the chooser that crashes ends the run (\<^verbatim>\<open>note_row_crashes\<close>, \<^verbatim>\<open>second_window_dangles\<close>); rounding in
  floating point, which is exact here, a \<^verbatim>\<open>float\<close> on the wire being an uninterpreted 32-bit pattern.  The
  thread that runs \<^verbatim>\<open>rc_client_start\<close> is one step of the application, with what other threads do meanwhile
  in the environment.  \<^verbatim>\<open>miniaudio.h\<close> is vendored; the Java server and the SwiftUI front end are not C.
\<close>

end
